(* ===== verification/Prelude.thy ===== *)
theory Prelude
  imports Main "HOL-Library.Word"
begin

text \<open>
  Shared vocabulary of the development: the fixed-width integers of the i686 ABI
  (kernel/include/types.h, stdint.h), the error numbers of libc/include/errno.h, the
  collections of simplification rules the component theories extend, and the generic lemmas on
  words, lists and cyclic address intervals that the component proofs rest on.
\<close>

unbundle bit_operations_syntax

section \<open>Machine types\<close>

type_synonym u8 = "8 word"
type_synonym u16 = "16 word"
type_synonym u32 = "32 word"
type_synonym u64 = "64 word"

text \<open>Pointers are 32-bit addresses; the null pointer is 0.\<close>

type_synonym addr = "32 word"

text \<open>types.h: device numbers, offsets and block sizes.\<close>

type_synonym dev_t = "32 word"
type_synonym off_t = "64 word"
type_synonym blksize_t = "32 word"
type_synonym blkcnt_t = "32 word"

abbreviation (input) NULL :: addr where "NULL \<equiv> 0"

section \<open>Error numbers\<close>

text \<open>
  The errno values of libc/include/errno.h. Functions that return a C \<open>int\<close> return the
  mathematical value of that 32-bit integer; an error is the negated number.
\<close>

definition EACCES :: int where "EACCES = 2"
definition EEXIST :: int where "EEXIST = 3"
definition EFBIG :: int where "EFBIG = 4"
definition EPERM :: int where "EPERM = 5"
definition EFAULT :: int where "EFAULT = 6"
definition ENOSPC :: int where "ENOSPC = 7"
definition EISDIR :: int where "EISDIR = 8"
definition ENOTDIR :: int where "ENOTDIR = 9"
definition ENODEV :: int where "ENODEV = 10"

lemmas errno_defs = EACCES_def EEXIST_def EFBIG_def EPERM_def EFAULT_def ENOSPC_def EISDIR_def
  ENOTDIR_def ENODEV_def

text \<open>A \<open>size_t\<close> returned from a function of type \<open>int\<close> is reinterpreted as signed.\<close>

definition to_int :: "u32 \<Rightarrow> int" where
  "to_int n = sint n"

section \<open>Collections\<close>

text \<open>
  \<open>frame\<close>: which fields of the machine state an operation leaves alone.
  \<open>mem_spec\<close>: what a memory routine leaves in each byte.
\<close>

named_theorems frame "fields an operation does not change"
named_theorems mem_spec "the contents of memory after a routine"

section \<open>Words\<close>

lemma unat_pred: "x \<noteq> 0 \<Longrightarrow> unat (x - 1) = unat x - 1"
  by (rule unat_minus_one)

lemma unat_lt_2p32 [simp]: "unat (x :: 32 word) < 4294967296"
  using unsigned_less [of x] by simp

lemma unat_of_nat32: "n < 4294967296 \<Longrightarrow> unat (of_nat n :: 32 word) = n"
  by (simp add: unat_of_nat)

text \<open>Rounding down to a multiple of a power of two.\<close>

lemma align_down_mask:
  fixes x :: u32
  assumes "k < 32"
  shows "x AND NOT (mask k) = of_nat (unat x div 2 ^ k * 2 ^ k)"
proof -
  have "(2 :: nat) ^ k < 2 ^ 32" using assms by (rule power_strict_increasing) simp
  then have "unat (of_nat (2 ^ k) :: u32) = 2 ^ k" by (intro unat_of_nat32) simp
  then have "unat (2 ^ k :: u32) = 2 ^ k" by simp
  note two = this
  have "x AND NOT (mask k) = push_bit k (drop_bit k x)"
    by (rule bit_word_eqI) (auto simp: bit_push_bit_iff bit_drop_bit_eq bit_and_iff bit_not_iff bit_mask_iff)
  also have "\<dots> = of_nat (unat x div 2 ^ k * 2 ^ k)"
    by (simp add: push_bit_eq_mult drop_bit_eq_div word_arith_nat_div two)
  finally show ?thesis .
qed

lemma unat_succ: "unat x + 1 < 4294967296 \<Longrightarrow> unat (x + 1 :: 32 word) = unat x + 1"
  by (simp add: unat_word_ariths)

lemma unat_add_small:
  "unat x + unat y < 4294967296 \<Longrightarrow> unat (x + y :: 32 word) = unat x + unat y"
  by (simp add: unat_word_ariths)

lemma unat_ucast:
  "unat (ucast (x :: 'a :: len word) :: 'b :: len word) = unat x mod 2 ^ LENGTH('b)"
  by (simp add: unsigned_ucast_eq take_bit_eq_mod)

lemma unat_diffs:
  fixes a b :: "32 word"
  assumes "a \<noteq> b"
  shows "unat (b - a) + unat (a - b) = 4294967296"
proof -
  have "unat ((b - a) + (a - b)) = 0" by simp
  moreover have "0 < unat (b - a)" using assms by (simp add: unat_gt_0)
  ultimately show ?thesis
    using unat_plus_if' [of "b - a" "a - b"] by (simp split: if_splits)
qed

lemma unat_sub_wrap:
  fixes a b :: "32 word"
  assumes "unat a < unat b"
  shows "unat (a - b) = unat a + 4294967296 - unat b"
  using assms by (simp add: unat_sub_if')

lemma of_nat_Suc_add: "(a :: 'a :: len word) + of_nat (Suc i) = (a + 1) + of_nat i"
  by simp

text \<open>
  The offset of an address in a cyclic interval: \<open>x\<close> lies in the \<open>n\<close> bytes from \<open>a\<close> on
  exactly when \<open>unat (x - a) < n\<close>. Intervals that wrap around the end of the address space
  need no special case.
\<close>

definition in_region :: "addr \<Rightarrow> nat \<Rightarrow> addr \<Rightarrow> bool" where
  "in_region a n x \<longleftrightarrow> unat (x - a) < n"

definition disjoint :: "addr \<Rightarrow> nat \<Rightarrow> addr \<Rightarrow> nat \<Rightarrow> bool" where
  "disjoint a n b k \<longleftrightarrow> n \<le> unat (b - a) \<and> k \<le> unat (a - b)"

lemma in_region_0 [simp]: "\<not> in_region a 0 x"
  by (simp add: in_region_def)

lemma in_region_self [simp]: "in_region a n a \<longleftrightarrow> 0 < n"
  by (simp add: in_region_def)

lemma in_region_Suc:
  assumes "n < 4294967296"
  shows "in_region a (Suc n) x \<longleftrightarrow> x = a \<or> in_region (a + 1) n x"
proof (cases "x = a")
  case False
  then have nz: "x - a \<noteq> 0" by simp
  have "x - (a + 1) = (x - a) - 1" by simp
  then have "unat (x - (a + 1)) = unat (x - a) - 1"
    by (simp only: unat_pred [OF nz])
  moreover have "0 < unat (x - a)" using nz by (simp add: unat_gt_0)
  ultimately show ?thesis using False by (auto simp: in_region_def)
qed simp

lemma not_in_region_succ: "n < 4294967296 \<Longrightarrow> \<not> in_region (a + 1) n a"
  by (simp add: in_region_def unsigned_minus_1_eq_mask mask_eq_exp_minus_1)

lemma in_region_offset: "i < n \<Longrightarrow> i < 4294967296 \<Longrightarrow> in_region a n (a + of_nat i)"
  by (simp add: in_region_def unat_of_nat32)

text \<open>Addresses given as natural offsets from a common base.\<close>

lemma unat_offset_diff:
  assumes "j \<le> k" "k < 4294967296"
  shows "unat (b + of_nat k - (b + of_nat j) :: addr) = k - j"
proof -
  have "b + of_nat k - (b + of_nat j) = (of_nat (k - j) :: addr)" using assms by (simp add: of_nat_diff)
  then show ?thesis using assms by (simp only: unat_of_nat32)
qed

lemma unat_offset_diff_wrap:
  assumes "k < j" "j < 4294967296"
  shows "unat (b + of_nat k - (b + of_nat j) :: addr) = 4294967296 + k - j"
proof -
  have kj: "unat (of_nat k :: addr) = k" "unat (of_nat j :: addr) = j"
    using assms by (simp_all add: unat_of_nat32)
  have "b + of_nat k - (b + of_nat j) = (of_nat k - of_nat j :: addr)" by simp
  moreover have "unat (of_nat k - of_nat j :: addr) = 4294967296 + k - j"
    using unat_sub_wrap [of "of_nat k" "of_nat j"] assms kj by simp
  ultimately show ?thesis by (simp only:)
qed

lemma in_region_offsets:
  assumes "j + n \<le> 4294967296" "k < 4294967296"
  shows "in_region (b + of_nat j) n (b + of_nat k) \<longleftrightarrow> j \<le> k \<and> k < j + n"
proof (cases "j \<le> k")
  case True
  then show ?thesis using assms by (auto simp only: in_region_def unat_offset_diff)
next
  case False
  show ?thesis
  proof (cases "n = 0")
    case nz: False
    then have "j < 4294967296" using assms by simp
    then have "unat (b + of_nat k - (b + of_nat j) :: addr) = 4294967296 + k - j"
      using False by (intro unat_offset_diff_wrap) simp_all
    then show ?thesis using assms False by (simp only: in_region_def) simp
  qed simp
qed

lemma disjoint_offsets:
  assumes "j + n \<le> k" "k + l < 4294967296" "0 < n"
  shows "disjoint (b + of_nat j) n (b + of_nat k) l"
proof -
  have "unat (b + of_nat k - (b + of_nat j) :: addr) = k - j" "unat (b + of_nat j - (b + of_nat k) :: addr) = 4294967296 + j - k"
    using assms by (auto simp only: unat_offset_diff unat_offset_diff_wrap)
  then show ?thesis using assms by (auto simp only: disjoint_def)
qed

lemma offset_eq_iff:
  assumes "j < 4294967296" "k < 4294967296"
  shows "b + of_nat j = (b + of_nat k :: addr) \<longleftrightarrow> j = k"
  using assms by (metis add_left_cancel unat_of_nat32)

end
