(* ===== verification/Memory.thy ===== *)
theory Memory
  imports Prelude
begin

text \<open>
  The flat byte memory every pointer of the kernel points into, with the little-endian 16- and
  32-bit accesses of the CPU, and byte strings read from and written to it. Every address of the
  32-bit space has a byte: nothing is unmapped, as for code that runs in ring 0 on mapped pages,
  and pointer arithmetic wraps at 2^32.
\<close>

type_synonym mem = "addr \<Rightarrow> u8"

section \<open>Words in memory\<close>

definition rd16 :: "mem \<Rightarrow> addr \<Rightarrow> u16" where
  "rd16 m a = (ucast (m a) :: u16) OR push_bit 8 (ucast (m (a + 1)))"

definition wr16 :: "mem \<Rightarrow> addr \<Rightarrow> u16 \<Rightarrow> mem" where
  "wr16 m a v = m(a := ucast v, a + 1 := ucast (drop_bit 8 v))"

definition rd32 :: "mem \<Rightarrow> addr \<Rightarrow> u32" where
  "rd32 m a = (ucast (m a) :: u32) OR push_bit 8 (ucast (m (a + 1)))
     OR push_bit 16 (ucast (m (a + 2))) OR push_bit 24 (ucast (m (a + 3)))"

definition wr32 :: "mem \<Rightarrow> addr \<Rightarrow> u32 \<Rightarrow> mem" where
  "wr32 m a v = m(a := ucast v, a + 1 := ucast (drop_bit 8 v),
     a + 2 := ucast (drop_bit 16 v), a + 3 := ucast (drop_bit 24 v))"

definition rd64 :: "mem \<Rightarrow> addr \<Rightarrow> u64" where
  "rd64 m a = (ucast (rd32 m a) :: u64) OR push_bit 32 (ucast (rd32 m (a + 4)))"

lemma rd16_wr16 [simp]: "rd16 (wr16 m a v) a = v"
  by (rule bit_word_eqI)
     (auto simp: rd16_def wr16_def bit_or_iff bit_push_bit_iff bit_unsigned_iff bit_ucast_iff
       bit_drop_bit_eq exp_eq_zero_iff)

lemma rd32_wr32 [simp]: "rd32 (wr32 m a v) a = v"
proof (rule bit_word_eqI)
  fix n assume "n < LENGTH(32)"
  then consider "n < 8" | "8 \<le> n" "n < 16" | "16 \<le> n" "n < 24" | "24 \<le> n" "n < 32" by fastforce
  then show "bit (rd32 (wr32 m a v) a) n = bit v n"
    by cases (auto simp: rd32_def wr32_def bit_or_iff bit_push_bit_iff bit_ucast_iff bit_drop_bit_eq)
qed

lemma wr16_other: "x \<noteq> a \<Longrightarrow> x \<noteq> a + 1 \<Longrightarrow> wr16 m a v x = m x"
  by (simp add: wr16_def)

lemma rd16_cong: "m a = m' a \<Longrightarrow> m (a + 1) = m' (a + 1) \<Longrightarrow> rd16 m a = rd16 m' a"
  by (simp add: rd16_def)

section \<open>Byte strings in memory\<close>

definition read_bytes :: "mem \<Rightarrow> addr \<Rightarrow> nat \<Rightarrow> u8 list" where
  "read_bytes m a n = map (\<lambda>i. m (a + of_nat i)) [0..<n]"

fun write_bytes :: "mem \<Rightarrow> addr \<Rightarrow> u8 list \<Rightarrow> mem" where
  "write_bytes m a [] = m"
| "write_bytes m a (b # bs) = write_bytes (m(a := b)) (a + 1) bs"

lemma length_read_bytes [simp]: "length (read_bytes m a n) = n"
  by (simp add: read_bytes_def)

lemma nth_read_bytes [simp]: "i < n \<Longrightarrow> read_bytes m a n ! i = m (a + of_nat i)"
  by (simp add: read_bytes_def)

lemma read_bytes_0 [simp]: "read_bytes m a 0 = []"
  by (simp add: read_bytes_def)

lemma read_bytes_Suc: "read_bytes m a (Suc n) = m a # read_bytes m (a + 1) n"
  by (rule nth_equalityI) (auto simp: nth_Cons' of_nat_diff split: nat_diff_split)

lemma take_read_bytes: "k \<le> n \<Longrightarrow> take k (read_bytes m a n) = read_bytes m a k"
  by (rule nth_equalityI) auto

lemma drop_read_bytes: "drop k (read_bytes m a n) = read_bytes m (a + of_nat k) (n - k)"
  by (rule nth_equalityI) (auto simp: add.assoc)

lemma read_bytes_snoc: "read_bytes m a (Suc n) = read_bytes m a n @ [m (a + of_nat n)]"
  by (simp add: read_bytes_def)

lemma read_bytes_cong:
  assumes "\<And>i. i < n \<Longrightarrow> m (a + of_nat i) = m' (b + of_nat i)"
  shows "read_bytes m a n = read_bytes m' b n"
  by (rule nth_equalityI) (simp_all add: assms)

lemma write_bytes_apply [mem_spec]:
  assumes "length bs \<le> 4294967296"
  shows "write_bytes m a bs x = (if in_region a (length bs) x then bs ! unat (x - a) else m x)"
  using assms
proof (induction bs arbitrary: m a)
  case (Cons b bs)
  show ?case
  proof (cases "x = a")
    case True
    with Cons show ?thesis by (simp add: not_in_region_succ)
  next
    case False
    then have "unat (x - a) = Suc (unat (x - (a + 1)))"
      using unat_pred [of "x - a"] by (simp add: unat_gt_0 diff_diff_eq [symmetric] Suc_diff_1)
    with False Cons show ?thesis by (simp add: in_region_Suc)
  qed
qed simp

lemma write_bytes_outside:
  "length bs \<le> 4294967296 \<Longrightarrow> \<not> in_region a (length bs) x \<Longrightarrow> write_bytes m a bs x = m x"
  by (simp add: write_bytes_apply)

lemma read_write_bytes [simp]:
  assumes "length bs \<le> 4294967296"
  shows "read_bytes (write_bytes m a bs) a (length bs) = bs"
proof (rule nth_equalityI)
  fix i assume "i < length (read_bytes (write_bytes m a bs) a (length bs))"
  then have i: "i < length bs" by simp
  with assms have "unat (a + of_nat i - a :: addr) = i" by (simp add: unat_of_nat32)
  with i assms show "read_bytes (write_bytes m a bs) a (length bs) ! i = bs ! i"
    by (simp add: write_bytes_apply in_region_def)
qed simp

lemma disjoint_not_in_region:
  assumes "disjoint a n b k" "i < k" "k \<le> 4294967296"
  shows "\<not> in_region a n (b + of_nat i)"
proof
  assume "in_region a n (b + of_nat i)"
  then have lt: "unat ((b - a) + of_nat i) < n" by (simp add: in_region_def algebra_simps)
  have i: "unat (of_nat i :: addr) = i" using assms by (intro unat_of_nat32) simp
  show False
  proof (cases "unat (b - a) + i < 4294967296")
    case True
    with lt i assms show False by (simp add: unat_add_small disjoint_def)
  next
    case False
    have "a \<noteq> b"
    proof
      assume "a = b"
      with False assms show False by simp
    qed
    then have "unat (b - a) + unat (a - b) = 4294967296"
      by (rule unat_diffs)
    moreover have "i < unat (a - b)" using assms by (simp add: disjoint_def)
    moreover have "unat (a - b) < 4294967296" by simp
    ultimately show False using False by linarith
  qed
qed

lemma disjoint_sym: "disjoint a n b k \<Longrightarrow> disjoint b k a n"
  by (simp add: disjoint_def)

lemma disjoint_mono: "disjoint a n b k \<Longrightarrow> n' \<le> n \<Longrightarrow> k' \<le> k \<Longrightarrow> disjoint a n' b k'"
  by (simp add: disjoint_def)

lemma read_write_bytes_disjoint:
  assumes "disjoint a (length bs) b n" "length bs \<le> 4294967296" "n \<le> 4294967296"
  shows "read_bytes (write_bytes m a bs) b n = read_bytes m b n"
  by (rule read_bytes_cong)
     (use assms in \<open>simp add: write_bytes_outside disjoint_not_in_region\<close>)

end
