(* ===== verification/Libc_String.thy ===== *)
theory Libc_String
  imports Memory
begin

text \<open>
  libc/string.c over the flat memory. Loops that stop only at a terminating NUL are
  \<^theory_text>\<open>partial_function (option)\<close>: \<open>None\<close> is "does not return". Loops counted by a
  \<open>size_t\<close> are structural recursions on the count. A plain \<open>char\<close> is signed on i686, so the
  code's comparisons and differences of \<open>char\<close> read the byte with \<open>sint\<close>. \<open>memset\<close>,
  \<open>memcpy\<close> and \<open>memmove\<close> return their first argument; the model returns the new memory only.
\<close>

section \<open>The routines\<close>

partial_function (option) seek_end :: "mem \<Rightarrow> addr \<Rightarrow> addr option" where
  "seek_end m s = (if m s \<noteq> 0 then seek_end m (s + 1) else Some s)"

partial_function (option) strcpy_loop :: "mem \<Rightarrow> addr \<Rightarrow> addr \<Rightarrow> mem option" where
  "strcpy_loop m dest src =
     (if m src \<noteq> 0 then strcpy_loop (m(dest := m src)) (dest + 1) (src + 1)
      else Some (m(dest := m src)))"

definition strcpy :: "mem \<Rightarrow> addr \<Rightarrow> addr \<Rightarrow> (mem \<times> addr) option" where
  "strcpy m dest src = map_option (\<lambda>m'. (m', dest)) (strcpy_loop m dest src)"

fun strncpy_loop :: "nat \<Rightarrow> mem \<Rightarrow> addr \<Rightarrow> addr \<Rightarrow> mem \<times> addr" where
  "strncpy_loop 0 m dest src = (m, dest)"
| "strncpy_loop (Suc n) m dest src =
     (if m src \<noteq> 0 then strncpy_loop n (m(dest := m src)) (dest + 1) (src + 1)
      else (m(dest := m src), dest + 1))"

definition strncpy :: "mem \<Rightarrow> addr \<Rightarrow> addr \<Rightarrow> u32 \<Rightarrow> mem \<times> addr" where
  "strncpy m dest src n =
     (let (m', d) = strncpy_loop (unat n) m dest src in (m'(d := 0), dest))"

definition strcat :: "mem \<Rightarrow> addr \<Rightarrow> addr \<Rightarrow> (mem \<times> addr) option" where
  "strcat m dest src =
     Option.bind (seek_end m dest) (\<lambda>d. map_option (\<lambda>(m', _). (m', dest)) (strcpy m d src))"

definition strncat :: "mem \<Rightarrow> addr \<Rightarrow> addr \<Rightarrow> u32 \<Rightarrow> (mem \<times> addr) option" where
  "strncat m dest src n =
     map_option (\<lambda>d. (fst (strncpy m d src n), dest)) (seek_end m dest)"

partial_function (option) strlen_loop :: "mem \<Rightarrow> addr \<Rightarrow> u32 \<Rightarrow> u32 option" where
  "strlen_loop m s n = (if m s \<noteq> 0 then strlen_loop m (s + 1) (n + 1) else Some n)"

definition strlen :: "mem \<Rightarrow> addr \<Rightarrow> u32 option" where
  "strlen m s = strlen_loop m s 0"

partial_function (option) strcmp :: "mem \<Rightarrow> addr \<Rightarrow> addr \<Rightarrow> int option" where
  "strcmp m lhs rhs =
     (let l = m lhs; r = m rhs in
      if l \<noteq> 0 \<and> r \<noteq> 0 \<and> l = r then strcmp m (lhs + 1) (rhs + 1)
      else Some (sint r - sint l))"

fun strncmp_loop :: "mem \<Rightarrow> addr \<Rightarrow> addr \<Rightarrow> nat \<Rightarrow> int" where
  "strncmp_loop m lhs rhs n =
     (let l = m lhs; r = m rhs; n' = n - 1 in
      if n' \<noteq> 0 \<and> l \<noteq> 0 \<and> r \<noteq> 0 \<and> l = r then strncmp_loop m (lhs + 1) (rhs + 1) n'
      else sint r - sint l)"

declare strncmp_loop.simps [simp del]

definition strncmp :: "mem \<Rightarrow> addr \<Rightarrow> addr \<Rightarrow> u32 \<Rightarrow> int" where
  "strncmp m lhs rhs n = (if n = 0 then 0 else strncmp_loop m lhs rhs (unat n))"

partial_function (option) strchr :: "mem \<Rightarrow> addr \<Rightarrow> int \<Rightarrow> addr option" where
  "strchr m s ch =
     (if sint (m s) = ch then Some s
      else if m s \<noteq> 0 then strchr m (s + 1) ch
      else Some NULL)"

partial_function (option) strrchr_loop :: "mem \<Rightarrow> addr \<Rightarrow> int \<Rightarrow> addr option" where
  "strrchr_loop m s ch =
     (if sint (m s) = ch then Some s
      else if m s \<noteq> 0 then strrchr_loop m (s - 1) ch
      else Some NULL)"

definition strrchr :: "mem \<Rightarrow> addr \<Rightarrow> int \<Rightarrow> addr option" where
  "strrchr m s ch = Option.bind (seek_end m s) (\<lambda>e. strrchr_loop m e ch)"

partial_function (option) strspn_loop :: "mem \<Rightarrow> addr \<Rightarrow> addr \<Rightarrow> u32 \<Rightarrow> u32 option" where
  "strspn_loop m dest src n =
     (if m dest \<noteq> 0
      then Option.bind (strchr m src (sint (m dest)))
             (\<lambda>p. if p \<noteq> NULL then strspn_loop m (dest + 1) src (n + 1) else Some n)
      else Some n)"

definition strspn :: "mem \<Rightarrow> addr \<Rightarrow> addr \<Rightarrow> u32 option" where
  "strspn m dest src = strspn_loop m dest src 0"

partial_function (option) strcspn_loop :: "mem \<Rightarrow> addr \<Rightarrow> addr \<Rightarrow> u32 \<Rightarrow> u32 option" where
  "strcspn_loop m dest src n =
     (if m dest \<noteq> 0
      then Option.bind (strchr m src (sint (m dest)))
             (\<lambda>p. if p = NULL then strcspn_loop m (dest + 1) src (n + 1) else Some n)
      else Some n)"

definition strcspn :: "mem \<Rightarrow> addr \<Rightarrow> addr \<Rightarrow> u32 option" where
  "strcspn m dest src = strcspn_loop m dest src 0"

definition strpbrk :: "mem \<Rightarrow> addr \<Rightarrow> addr \<Rightarrow> addr option" where
  "strpbrk m dest breakset =
     map_option (\<lambda>k. if m (dest + k) \<noteq> 0 then dest + k else NULL) (strcspn m dest breakset)"

partial_function (option) strstr_loop :: "mem \<Rightarrow> addr \<Rightarrow> addr \<Rightarrow> u32 \<Rightarrow> addr option" where
  "strstr_loop m dest src n =
     (if m dest \<noteq> 0
      then (if strncmp m dest src n = 0 then Some dest else strstr_loop m (dest + 1) src n)
      else Some NULL)"

definition strstr :: "mem \<Rightarrow> addr \<Rightarrow> addr \<Rightarrow> addr option" where
  "strstr m dest src = Option.bind (strlen m src) (\<lambda>n. strstr_loop m dest src n)"

fun memchr_loop :: "mem \<Rightarrow> addr \<Rightarrow> int \<Rightarrow> nat \<Rightarrow> addr" where
  "memchr_loop m ptr ch 0 = NULL"
| "memchr_loop m ptr ch (Suc n) = (if uint (m ptr) = ch then ptr else memchr_loop m ptr ch n)"

definition memchr :: "mem \<Rightarrow> addr \<Rightarrow> int \<Rightarrow> u32 \<Rightarrow> addr" where
  "memchr m ptr ch n = memchr_loop m ptr ch (unat n)"

fun memcmp_loop :: "mem \<Rightarrow> addr \<Rightarrow> addr \<Rightarrow> nat \<Rightarrow> int" where
  "memcmp_loop m lhs rhs n =
     (let l = m lhs; r = m rhs; n' = n - 1 in
      if n' \<noteq> 0 \<and> l = r then memcmp_loop m (lhs + 1) (rhs + 1) n'
      else uint r - uint l)"

declare memcmp_loop.simps [simp del]

definition memcmp :: "mem \<Rightarrow> addr \<Rightarrow> addr \<Rightarrow> u32 \<Rightarrow> int" where
  "memcmp m lhs rhs n = (if n = 0 then 0 else memcmp_loop m lhs rhs (unat n))"

fun memset_loop :: "nat \<Rightarrow> mem \<Rightarrow> addr \<Rightarrow> u8 \<Rightarrow> mem" where
  "memset_loop 0 m dest c = m"
| "memset_loop (Suc n) m dest c = memset_loop n (m(dest := c)) (dest + 1) c"

definition memset :: "mem \<Rightarrow> addr \<Rightarrow> int \<Rightarrow> u32 \<Rightarrow> mem" where
  "memset m dest ch n = memset_loop (unat n) m dest (word_of_int ch)"

text \<open>The forward byte copy is the body of \<open>memcpy\<close> and of the first loop of \<open>memmove\<close>.\<close>

fun copy_up :: "nat \<Rightarrow> mem \<Rightarrow> addr \<Rightarrow> addr \<Rightarrow> mem" where
  "copy_up 0 m dest src = m"
| "copy_up (Suc n) m dest src = copy_up n (m(dest := m src)) (dest + 1) (src + 1)"

definition memcpy :: "mem \<Rightarrow> addr \<Rightarrow> addr \<Rightarrow> u32 \<Rightarrow> mem" where
  "memcpy m dest src n = copy_up (unat n) m dest src"

text \<open>The second loop of \<open>memmove\<close> decrements both pointers before each byte.\<close>

fun copy_down :: "nat \<Rightarrow> mem \<Rightarrow> addr \<Rightarrow> addr \<Rightarrow> mem" where
  "copy_down 0 m dest src = m"
| "copy_down (Suc n) m dest src =
     copy_down n (m(dest - 1 := m (src - 1))) (dest - 1) (src - 1)"

text \<open>
  \<open>memmove\<close> tests \<open>dest > src\<close> again after the first loop has moved both pointers by \<open>n\<close> and
  left \<open>n\<close> at \<open>SIZE_MAX\<close>; the second test is harmless as long as \<open>src + n\<close> does not wrap.
\<close>

definition memmove :: "mem \<Rightarrow> addr \<Rightarrow> addr \<Rightarrow> u32 \<Rightarrow> mem" where
  "memmove m dest src n =
     (let (m1, d1, s1, n1) =
        (if dest < src then (copy_up (unat n) m dest src, dest + n, src + n, -1)
         else (m, dest, src, n))
      in if d1 > s1 then copy_down (unat n1) m1 (d1 + n1) (s1 + n1) else m1)"

section \<open>C strings\<close>

text \<open>\<open>cstr m s bs\<close>: the bytes \<open>bs\<close>, none of them NUL, followed by a NUL, start at \<open>s\<close>.\<close>

fun cstr :: "mem \<Rightarrow> addr \<Rightarrow> u8 list \<Rightarrow> bool" where
  "cstr m s [] \<longleftrightarrow> m s = 0"
| "cstr m s (b # bs) \<longleftrightarrow> b \<noteq> 0 \<and> m s = b \<and> cstr m (s + 1) bs"

lemma cstr_nth: "cstr m s bs \<Longrightarrow> i < length bs \<Longrightarrow> m (s + of_nat i) = bs ! i \<and> bs ! i \<noteq> 0"
proof (induction bs arbitrary: s i)
  case (Cons b bs)
  show ?case
  proof (cases i)
    case 0
    with Cons.prems show ?thesis by simp
  next
    case (Suc j)
    with Cons.prems Cons.IH [of "s + 1" j] show ?thesis by (simp add: add.assoc [symmetric])
  qed
qed simp

lemma cstr_end: "cstr m s bs \<Longrightarrow> m (s + of_nat (length bs)) = 0"
  by (induction bs arbitrary: s) (simp_all add: add.assoc [symmetric])

lemma cstr_length: "cstr m s bs \<Longrightarrow> length bs < 4294967296"
proof (rule ccontr)
  assume c: "cstr m s bs" and "\<not> length bs < 4294967296"
  then have lt: "length bs mod 4294967296 < length bs" by (simp add: less_le_trans)
  have "(of_nat (length bs mod 4294967296) :: addr) = of_nat (length bs)"
    by (rule word_unat_eq_iff [THEN iffD2]) (simp add: unat_of_nat)
  then show False using cstr_nth [OF c lt] cstr_end [OF c] by simp
qed

lemma cstr_read: "cstr m s bs \<Longrightarrow> read_bytes m s (length bs) = bs"
  by (rule nth_equalityI) (simp_all add: cstr_nth)

lemma cstr_zero_notin: "cstr m s bs \<Longrightarrow> 0 \<notin> set bs"
  by (induction bs arbitrary: s) auto

lemma cstrI:
  "\<lbrakk>0 \<notin> set bs; \<And>i. i < length bs \<Longrightarrow> m (s + of_nat i) = bs ! i; m (s + of_nat (length bs)) = 0\<rbrakk>
     \<Longrightarrow> cstr m s bs"
proof (induction bs arbitrary: s)
  case (Cons b bs)
  have "cstr m (s + 1) bs"
  proof (rule Cons.IH)
    show "m (s + 1 + of_nat i) = bs ! i" if "i < length bs" for i
      using Cons.prems(2) [of "Suc i"] that by (simp add: add.assoc)
  qed (use Cons.prems in \<open>simp_all add: add.assoc\<close>)
  with Cons.prems(1) Cons.prems(2) [of 0] show ?case by simp
qed simp

lemma cstr_cong:
  assumes "cstr m s bs" "\<And>i. i \<le> length bs \<Longrightarrow> m' (s + of_nat i) = m (s + of_nat i)"
  shows "cstr m' s bs"
  by (rule cstrI) (use assms in \<open>auto simp: cstr_nth cstr_end dest: cstr_zero_notin\<close>)

lemma cstr_unique: "cstr m s xs \<Longrightarrow> cstr m s ys \<Longrightarrow> xs = ys"
proof (induction xs arbitrary: s ys)
  case Nil
  then show ?case by (cases ys) auto
next
  case (Cons x xs)
  then show ?case by (cases ys) auto
qed

lemma cstr_suffix: "cstr m s (xs @ ys) \<Longrightarrow> cstr m (s + of_nat (length xs)) ys"
  by (induction xs arbitrary: s) (simp_all add: add.assoc [symmetric])

subsection \<open>Length and end\<close>

lemma seek_end_cstr: "cstr m s bs \<Longrightarrow> seek_end m s = Some (s + of_nat (length bs))"
proof (induction bs arbitrary: s)
  case (Cons b bs)
  then show ?case by (subst seek_end.simps) (simp add: add.assoc)
qed (simp add: seek_end.simps)

lemma strlen_loop_cstr: "cstr m s bs \<Longrightarrow> strlen_loop m s n = Some (n + of_nat (length bs))"
proof (induction bs arbitrary: s n)
  case (Cons b bs)
  then show ?case by (subst strlen_loop.simps) (simp add: add.assoc)
qed (simp add: strlen_loop.simps)

lemma strlen_cstr: "cstr m s bs \<Longrightarrow> strlen m s = Some (of_nat (length bs))"
  by (simp add: strlen_def strlen_loop_cstr)

subsection \<open>Comparison\<close>

text \<open>The first position where two strings, terminators included, differ.\<close>

definition first_mismatch :: "u8 list \<Rightarrow> u8 list \<Rightarrow> (u8 \<times> u8) option" where
  "first_mismatch xs ys = find (\<lambda>(l, r). l \<noteq> r) (zip (xs @ [0]) (ys @ [0]))"

lemma first_mismatch_simps [simp]:
  "first_mismatch [] [] = None"
  "y \<noteq> 0 \<Longrightarrow> first_mismatch [] (y # ys) = Some (0, y)"
  "x \<noteq> 0 \<Longrightarrow> first_mismatch (x # xs) [] = Some (x, 0)"
  "first_mismatch (x # xs) (y # ys) = (if x \<noteq> y then Some (x, y) else first_mismatch xs ys)"
  by (simp_all add: first_mismatch_def)

lemma first_mismatch_None:
  "0 \<notin> set xs \<Longrightarrow> 0 \<notin> set ys \<Longrightarrow> first_mismatch xs ys = None \<longleftrightarrow> xs = ys"
proof (induction xs arbitrary: ys)
  case Nil
  then show ?case by (cases ys) auto
next
  case (Cons x xs)
  then show ?case by (cases ys) auto
qed

lemma first_mismatch_neq: "first_mismatch xs ys = Some (l, r) \<Longrightarrow> l \<noteq> r"
  unfolding first_mismatch_def by (auto simp: find_Some_iff)

lemma strcmp_cstr:
  assumes "cstr m a xs" "cstr m b ys"
  shows "strcmp m a b =
    Some (case first_mismatch xs ys of None \<Rightarrow> 0 | Some (l, r) \<Rightarrow> sint r - sint l)"
  using assms
proof (induction xs arbitrary: a b ys)
  case Nil
  then show ?case by (cases ys) (simp_all add: strcmp.simps [of m a b])
next
  case (Cons x xs)
  then show ?case by (cases ys) (simp_all add: strcmp.simps [of m a b])
qed

lemma strcmp_zero_iff:
  assumes "cstr m a xs" "cstr m b ys"
  shows "strcmp m a b = Some 0 \<longleftrightarrow> xs = ys"
proof (cases "first_mismatch xs ys")
  case None
  then show ?thesis
    using assms first_mismatch_None [of xs ys] by (simp add: strcmp_cstr cstr_zero_notin)
next
  case (Some p)
  then obtain l r where p: "first_mismatch xs ys = Some (l, r)" by (cases p) simp
  then have "sint l \<noteq> sint r" using first_mismatch_neq [OF p] by (auto dest: signed_word_eqI)
  then show ?thesis
    using assms p first_mismatch_None [of xs ys] by (auto simp: strcmp_cstr cstr_zero_notin)
qed

section \<open>Memory routines\<close>

lemma memset_loop_apply:
  "n \<le> 4294967296 \<Longrightarrow> memset_loop n m d c x = (if in_region d n x then c else m x)"
proof (induction n arbitrary: m d)
  case (Suc n)
  then show ?case by (auto simp: in_region_Suc not_in_region_succ)
qed simp

lemma memset_apply [mem_spec]:
  "memset m d ch n x = (if in_region d (unat n) x then word_of_int ch else m x)"
  unfolding memset_def by (rule memset_loop_apply) (simp add: less_imp_le)

lemma copy_up_apply:
  assumes "n \<le> 4294967296" "d = s \<or> n \<le> unat (d - s)"
  shows "copy_up n m d s x = (if in_region d n x then m (s + (x - d)) else m x)"
  using assms
proof (induction n arbitrary: m d s)
  case (Suc n)
  let ?m = "m(d := m s)"
  have "d + 1 = s + 1 \<or> n \<le> unat ((d + 1) - (s + 1))" using Suc.prems by auto
  moreover have shift: "s + 1 + (x - (d + 1)) = s + (x - d)" by simp
  ultimately have IH: "copy_up n ?m (d + 1) (s + 1) x =
      (if in_region (d + 1) n x then ?m (s + (x - d)) else ?m x)"
    using Suc.IH [of "d + 1" "s + 1" ?m] Suc.prems(1) by (simp only: shift)
  have ne: "s + (x - d) \<noteq> d \<or> d = s" if "in_region d (Suc n) x"
  proof (rule ccontr)
    assume "\<not> (s + (x - d) \<noteq> d \<or> d = s)"
    then have "x - d = d - s" "d \<noteq> s" by (auto simp: algebra_simps)
    with that Suc.prems(2) show False by (simp add: in_region_def)
  qed
  have "copy_up (Suc n) m d s x = (if in_region (d + 1) n x then ?m (s + (x - d)) else ?m x)"
    by (simp only: copy_up.simps IH)
  also have "\<dots> = (if in_region d (Suc n) x then m (s + (x - d)) else m x)"
  proof (cases "x = d")
    case True
    with Suc.prems show ?thesis by (simp add: not_in_region_succ)
  next
    case False
    then have "in_region d (Suc n) x = in_region (d + 1) n x"
      using Suc.prems by (simp add: in_region_Suc)
    with False ne show ?thesis by auto
  qed
  finally show ?case .
qed simp

lemma copy_down_apply:
  assumes "n < 4294967296" "d = s \<or> n \<le> unat (s - d)"
  shows "copy_down n m (d + of_nat n) (s + of_nat n) x =
    (if in_region d n x then m (s + (x - d)) else m x)"
  using assms
proof (induction n arbitrary: m)
  case (Suc n)
  let ?d = "d + of_nat n" and ?s = "s + of_nat n"
  let ?m = "m(?d := m ?s)"
  have n: "unat (of_nat n :: addr) = n" using Suc.prems by (simp add: unat_of_nat32)
  have IH: "copy_down n ?m ?d ?s x = (if in_region d n x then ?m (s + (x - d)) else ?m x)"
    using Suc by (intro Suc.IH) auto
  have ne: "s + (x - d) \<noteq> ?d \<or> d = s" if "in_region d n x"
  proof (rule ccontr)
    assume "\<not> (s + (x - d) \<noteq> ?d \<or> d = s)"
    then have eq: "(s - d) + (x - d) = of_nat n" and ds: "d \<noteq> s" by (auto simp: algebra_simps)
    have xd: "x - d = of_nat n - (s - d)" using eq by (metis add_diff_cancel_left')
    have "n < unat (s - d)" using Suc.prems ds by auto
    then have "unat (x - d) = n + 4294967296 - unat (s - d)"
      unfolding xd using unat_sub_wrap [of "of_nat n" "s - d"] by (simp only: n)
    moreover have "unat (s - d) < 4294967296" by simp
    moreover have "unat (x - d) < n" using that by (simp add: in_region_def)
    ultimately show False by linarith
  qed
  have split: "in_region d (Suc n) x \<longleftrightarrow> in_region d n x \<or> x = ?d"
  proof
    assume "in_region d (Suc n) x"
    then consider "unat (x - d) < n" | "unat (x - d) = n"
      by (auto simp: in_region_def less_Suc_eq)
    then show "in_region d n x \<or> x = ?d"
    proof cases
      case 2
      then have "x - d = of_nat n" using n by (simp add: word_unat_eq_iff)
      then show ?thesis by (simp add: algebra_simps)
    qed (simp add: in_region_def)
  qed (use n in \<open>auto simp: in_region_def\<close>)
  have "copy_down (Suc n) m (d + of_nat (Suc n)) (s + of_nat (Suc n)) x = copy_down n ?m ?d ?s x"
    by (simp add: algebra_simps)
  moreover have "\<not> in_region d n ?d" using n by (simp add: in_region_def)
  ultimately show ?case using IH ne split by auto
qed simp

lemma memcpy_apply [mem_spec]:
  assumes "disjoint d (unat n) s (unat n)"
  shows "memcpy m d s n x = (if in_region d (unat n) x then m (s + (x - d)) else m x)"
proof -
  have "d = s \<or> unat n \<le> unat (d - s)" using assms by (simp add: disjoint_def)
  then show ?thesis
    unfolding memcpy_def by (intro copy_up_apply) (simp_all add: less_imp_le)
qed

text \<open>Copying upwards is what \<open>write_bytes\<close> of the source bytes does, where the two are apart.\<close>

lemma memcpy_eq_write_bytes:
  assumes "disjoint d (unat n) s (unat n)"
  shows "memcpy m d s n = write_bytes m d (read_bytes m s (unat n))"
proof
  fix x
  show "memcpy m d s n x = write_bytes m d (read_bytes m s (unat n)) x"
    using assms
    by (auto simp: memcpy_apply write_bytes_apply in_region_def less_imp_le unat_of_nat32)
qed

text \<open>
  \<open>memmove\<close> copies the original bytes for every overlap, as long as neither array runs past
  the end of the address space.
\<close>

lemma memmove_apply [mem_spec]:
  assumes "unat s + unat n < 4294967296" "unat d + unat n < 4294967296"
  shows "memmove m d s n x = (if in_region d (unat n) x then m (s + (x - d)) else m x)"
proof -
  consider "d < s" | "s < d" | "d = s" by (meson linorder_neqE)
  then show ?thesis
  proof cases
    case 1
    then have lt: "unat d < unat s" by (simp add: word_less_nat_alt)
    have dn: "unat (d + n) = unat d + unat n" and sn: "unat (s + n) = unat s + unat n"
      using assms by (simp_all add: unat_add_small)
    have "unat (d - s) = 4294967296 + unat d - unat s"
      using lt by (simp add: unat_sub_if')
    then have "unat n \<le> unat (d - s)" using assms(1) lt by linarith
    moreover have "\<not> d + n > s + n" using lt by (simp add: word_less_nat_alt dn sn)
    ultimately show ?thesis
      using 1 by (simp add: memmove_def copy_up_apply less_imp_le)
  next
    case 2
    then have lt: "unat s < unat d" by (simp add: word_less_nat_alt)
    have "unat (s - d) = 4294967296 + unat s - unat d"
      using lt by (simp add: unat_sub_if')
    then have "unat n \<le> unat (s - d)" using assms(2) lt by linarith
    then have "copy_down (unat n) m (d + of_nat (unat n)) (s + of_nat (unat n)) x =
        (if in_region d (unat n) x then m (s + (x - d)) else m x)"
      by (intro copy_down_apply) auto
    moreover have "\<not> d < s" using 2 by simp
    ultimately show ?thesis using 2 by (simp add: memmove_def)
  next
    case 3
    then show ?thesis by (simp add: memmove_def)
  qed
qed

section \<open>Copying strings\<close>

text \<open>
  A copy loop writes the bytes it reads, so the rest of the source is still the same string as
  long as the destination does not start inside the part still to be read.
\<close>

lemma cstr_step:
  assumes "cstr m s (b # bs)" "d = s \<or> Suc (length (b # bs)) \<le> unat (d - s)"
  shows "cstr (m(d := m s)) (s + 1) bs"
proof (rule cstr_cong)
  show tail: "cstr m (s + 1) bs" using assms by simp
  fix i assume i: "i \<le> length bs"
  have "Suc i < 4294967296" using cstr_length [OF assms(1)] i by simp
  then have "unat (of_nat (Suc i) :: addr) = Suc i" by (rule unat_of_nat32)
  then have Suc_i: "unat (1 + of_nat i :: addr) = Suc i" by simp
  have "s + 1 + of_nat i \<noteq> d \<or> d = s \<and> False"
  proof (rule ccontr)
    assume "\<not> ?thesis"
    then have "d - s = 1 + of_nat i" by (auto simp: algebra_simps)
    with Suc_i have "unat (d - s) = Suc i" by simp
    with assms(2) i show False by auto
  qed
  then show "(m(d := m s)) (s + 1 + of_nat i) = m (s + 1 + of_nat i)" by auto
qed

lemma strcpy_loop_end: "m s = 0 \<Longrightarrow> strcpy_loop m d s = Some (copy_up (Suc 0) m d s)"
  by (simp add: strcpy_loop.simps)

lemma strcpy_loop_cstr:
  assumes "cstr m s bs" "d = s \<or> Suc (length bs) \<le> unat (d - s)"
  shows "strcpy_loop m d s = Some (copy_up (Suc (length bs)) m d s)"
  using assms
proof (induction bs arbitrary: m d s)
  case Nil
  then show ?case using strcpy_loop_end [of m s d] by (simp del: copy_up.simps)
next
  case (Cons b bs)
  let ?m = "m(d := m s)"
  have "cstr ?m (s + 1) bs" using Cons.prems by (rule cstr_step)
  moreover have "d + 1 = s + 1 \<or> Suc (length bs) \<le> unat (d + 1 - (s + 1))"
    using Cons.prems(2) by auto
  ultimately have IH: "strcpy_loop ?m (d + 1) (s + 1)
      = Some (copy_up (Suc (length bs)) ?m (d + 1) (s + 1))" by (rule Cons.IH)
  have "strcpy_loop m d s = strcpy_loop ?m (d + 1) (s + 1)"
    using Cons.prems(1) by (subst strcpy_loop.simps) simp
  also have "\<dots> = Some (copy_up (Suc (length (b # bs))) m d s)"
    by (simp only: IH copy_up.simps(2) [of "Suc (length bs)" m] list.size(4) add_Suc_right add_0_right)
  finally show ?case .
qed

lemma copy_up_eq_write_bytes:
  assumes "n \<le> 4294967296" "d = s \<or> n \<le> unat (d - s)"
  shows "copy_up n m d s = write_bytes m d (read_bytes m s n)"
proof
  fix x
  show "copy_up n m d s x = write_bytes m d (read_bytes m s n) x"
    using assms by (auto simp: copy_up_apply write_bytes_apply in_region_def unat_of_nat32)
qed

lemma cstr_read_Suc: "cstr m s bs \<Longrightarrow> read_bytes m s (Suc (length bs)) = bs @ [0]"
  by (simp add: read_bytes_snoc cstr_read cstr_end)

lemma strcpy_cstr:
  assumes "cstr m s bs" "disjoint d (Suc (length bs)) s (Suc (length bs))"
  shows "strcpy m d s = Some (write_bytes m d (bs @ [0]), d)"
proof -
  have d: "d = s \<or> Suc (length bs) \<le> unat (d - s)" using assms(2) by (simp add: disjoint_def)
  have "Suc (length bs) \<le> 4294967296" using cstr_length [OF assms(1)] by simp
  then have "copy_up (Suc (length bs)) m d s = write_bytes m d (bs @ [0])"
    unfolding cstr_read_Suc [OF assms(1), symmetric] using d by (rule copy_up_eq_write_bytes)
  then show ?thesis by (simp only: strcpy_def strcpy_loop_cstr [OF assms(1) d]) simp
qed

lemma cstr_write_bytes:
  assumes "0 \<notin> set bs" "length bs < 4294967296"
  shows "cstr (write_bytes m d (bs @ [0])) d bs"
proof (rule cstrI)
  have rd: "read_bytes (write_bytes m d (bs @ [0])) d (length (bs @ [0])) = bs @ [0]"
    using assms by (intro read_write_bytes) simp
  show "write_bytes m d (bs @ [0]) (d + of_nat i) = bs ! i" if "i < length bs" for i
    using arg_cong [OF rd, of "\<lambda>xs. xs ! i"] that by (simp add: nth_append)
  show "write_bytes m d (bs @ [0]) (d + of_nat (length bs)) = 0"
    using arg_cong [OF rd, of "\<lambda>xs. xs ! length bs"] by (simp add: nth_append)
qed (use assms in simp)

text \<open>\<open>strncpy\<close> copies \<open>n\<close> bytes and then writes one NUL more, past the \<open>n\<close> it was given.\<close>

lemma strncpy_loop_take:
  assumes "cstr m s bs" "n \<le> length bs" "d = s \<or> Suc (length bs) \<le> unat (d - s)"
  shows "strncpy_loop n m d s = (copy_up n m d s, d + of_nat n)"
  using assms
proof (induction n arbitrary: m d s bs)
  case (Suc n)
  then obtain b bs' where bs: "bs = b # bs'" by (cases bs) auto
  let ?m = "m(d := m s)"
  have "cstr ?m (s + 1) bs'"
    using Suc.prems(1,3) unfolding bs by (rule cstr_step)
  moreover have "d + 1 = s + 1 \<or> Suc (length bs') \<le> unat (d + 1 - (s + 1))"
    using Suc.prems(3) bs by auto
  moreover have "n \<le> length bs'" using Suc.prems(2) bs by simp
  ultimately have IH: "strncpy_loop n ?m (d + 1) (s + 1)
      = (copy_up n ?m (d + 1) (s + 1), d + 1 + of_nat n)"
    by (intro Suc.IH)
  have "m s \<noteq> 0" using Suc.prems(1) bs by simp
  then show ?case by (simp only: strncpy_loop.simps copy_up.simps IH not_False_eq_True if_True of_nat_Suc_add)
qed simp

lemma sint_eq_iff: "sint x = sint y \<longleftrightarrow> x = (y :: 'a :: len word)"
  by (auto intro: signed_word_eqI)

lemma disjoint_fwd: "disjoint d n s n \<Longrightarrow> d = s \<or> n \<le> unat (d - s)"
  by (simp add: disjoint_def)

lemma strncpy_cstr:
  assumes "cstr m s bs" "unat n \<le> length bs" "disjoint d (Suc (length bs)) s (Suc (length bs))"
  shows "strncpy m d s n = ((write_bytes m d (take (unat n) bs))(d + n := 0), d)"
proof -
  have d: "d = s \<or> Suc (length bs) \<le> unat (d - s)" using assms(3) by (rule disjoint_fwd)
  then have "d = s \<or> unat n \<le> unat (d - s)" using assms(2) by auto
  then have "copy_up (unat n) m d s = write_bytes m d (read_bytes m s (unat n))"
    by (intro copy_up_eq_write_bytes) (simp_all add: less_imp_le)
  moreover have "read_bytes m s (unat n) = take (unat n) bs"
    using assms(2) cstr_read [OF assms(1)] take_read_bytes [of "unat n" "length bs" m s] by simp
  ultimately show ?thesis
    by (simp add: strncpy_def strncpy_loop_take [OF assms(1,2) d])
qed

lemma strcat_cstr:
  assumes "cstr m d xs" "cstr m s ys"
    and "disjoint (d + of_nat (length xs)) (Suc (length ys)) s (Suc (length ys))"
  shows "strcat m d s = Some (write_bytes m (d + of_nat (length xs)) (ys @ [0]), d)"
  by (simp add: strcat_def seek_end_cstr [OF assms(1)] strcpy_cstr [OF assms(2,3)])

section \<open>Searching\<close>

lemma find_map_option: "find P (map f xs) = map_option f (find (P \<circ> f) xs)"
  by (induction xs) simp_all

lemma strchr_cstr:
  assumes "cstr m s bs" "ch \<noteq> 0"
  shows "strchr m s ch = Some (case find (\<lambda>i. sint (bs ! i) = ch) [0..<length bs] of
      None \<Rightarrow> NULL | Some i \<Rightarrow> s + of_nat i)"
  using assms(1)
proof (induction bs arbitrary: s)
  case Nil
  then show ?case using assms(2) by (simp add: strchr.simps [of m s])
next
  case (Cons b bs)
  have shift: "find P [Suc 0..<Suc n] = map_option Suc (find (\<lambda>i. P (Suc i)) [0..<n])" for P n
    by (simp add: find_map_option map_Suc_upt [symmetric] comp_def del: map_Suc_upt upt_Suc)
  have "[0..<length (b # bs)] = 0 # [Suc 0..<Suc (length bs)]" by (simp add: upt_rec)
  with Cons show ?case
    by (cases "sint b = ch")
       (auto simp: strchr.simps [of m s] shift simp del: upt_Suc split: option.split)
qed

text \<open>Past the NUL it starts on, \<open>strrchr\<close> never looks: its loop ends where it begins.\<close>

lemma strrchr_cstr:
  assumes "cstr m s bs"
  shows "strrchr m s ch = Some (if ch = 0 then s + of_nat (length bs) else NULL)"
proof -
  have "m (s + of_nat (length bs)) = 0" by (rule cstr_end [OF assms])
  then show ?thesis
    by (auto simp: strrchr_def seek_end_cstr [OF assms] strrchr_loop.simps)
qed

lemma memchr_loop_first: "memchr_loop m p ch n = (if n \<noteq> 0 \<and> uint (m p) = ch then p else NULL)"
  by (induction n) auto

lemma strncmp_loop_zero_iff:
  assumes "cstr m a xs" "cstr m b ys" "0 < n" "n \<le> length ys"
  shows "strncmp_loop m a b n = 0 \<longleftrightarrow> take n xs = take n ys"
  using assms
proof (induction n arbitrary: a b xs ys)
  case (Suc n)
  then obtain y ys' where ys: "ys = y # ys'" by (cases ys) auto
  have y: "y \<noteq> 0" "m b = y" "cstr m (b + 1) ys'" using Suc.prems(2) ys by auto
  show ?case
  proof (cases xs)
    case Nil
    with Suc.prems y ys show ?thesis by (simp add: strncmp_loop.simps [of m a b] signed_eq_0_iff)
  next
    case (Cons x xs')
    with Suc.prems y ys show ?thesis
      using Suc.IH [of "a + 1" xs' "b + 1" ys']
      by (auto simp: strncmp_loop.simps [of m a b] sint_eq_iff)
  qed
qed simp

lemma strncmp_prefix:
  assumes "cstr m a xs" "cstr m b ys"
  shows "strncmp m a b (of_nat (length ys)) = 0 \<longleftrightarrow> take (length ys) xs = ys"
proof (cases ys)
  case (Cons y ys')
  have u: "unat (of_nat (length ys) :: u32) = length ys"
    by (rule unat_of_nat32 [OF cstr_length [OF assms(2)]])
  then have "(of_nat (length ys) :: u32) \<noteq> 0" using Cons by (auto simp: word_unat_eq_iff)
  with u Cons show ?thesis
    using strncmp_loop_zero_iff [OF assms, of "length ys"] by (simp only: strncmp_def if_False) simp
qed (simp add: strncmp_def)

text \<open>The first offset below the length of \<open>xs\<close> where \<open>ys\<close> occurs.\<close>

definition first_occurrence :: "u8 list \<Rightarrow> u8 list \<Rightarrow> nat option" where
  "first_occurrence xs ys = find (\<lambda>i. take (length ys) (drop i xs) = ys) [0..<length xs]"

lemma first_occurrence_simps [simp]:
  "first_occurrence [] ys = None"
  "first_occurrence (x # xs) ys =
     (if take (length ys) (x # xs) = ys then Some 0 else map_option Suc (first_occurrence xs ys))"
proof -
  have "[0..<length (x # xs)] = 0 # map Suc [0..<length xs]" by (simp only: map_Suc_upt) (simp add: upt_rec)
  then show "first_occurrence (x # xs) ys =
     (if take (length ys) (x # xs) = ys then Some 0 else map_option Suc (first_occurrence xs ys))"
    by (simp add: first_occurrence_def find_map_option comp_def del: map_Suc_upt upt_Suc)
qed (simp add: first_occurrence_def)

lemma strstr_loop_cstr:
  assumes "cstr m d xs" "cstr m s ys"
  shows "strstr_loop m d s (of_nat (length ys)) =
    Some (case first_occurrence xs ys of None \<Rightarrow> NULL | Some i \<Rightarrow> d + of_nat i)"
  using assms(1)
proof (induction xs arbitrary: d)
  case Nil
  then show ?case by (simp add: strstr_loop.simps [of m d])
next
  case (Cons x xs)
  then have md: "m d \<noteq> 0" and "cstr m (d + 1) xs" by auto
  with Cons.IH have IH: "strstr_loop m (d + 1) s (of_nat (length ys)) =
    Some (case first_occurrence xs ys of None \<Rightarrow> NULL | Some i \<Rightarrow> d + 1 + of_nat i)" by simp
  show ?case
    using md IH strncmp_prefix [OF Cons.prems assms(2)]
    by (auto simp: strstr_loop.simps [of m d] add.assoc simp del: take_Cons' split: option.split)
qed

lemma strstr_cstr:
  "cstr m d xs \<Longrightarrow> cstr m s ys \<Longrightarrow>
    strstr m d s = Some (case first_occurrence xs ys of None \<Rightarrow> NULL | Some i \<Rightarrow> d + of_nat i)"
  by (simp add: strstr_def strlen_cstr strstr_loop_cstr)

section \<open>Properties\<close>

text \<open>
  C20. \<open>memmove\<close> moves the original bytes of the source for every kind of overlap and changes no
  other byte, provided neither array runs past the end of the address space.
\<close>

theorem memmove_correct:
  assumes "unat src + unat n < 4294967296" "unat dest + unat n < 4294967296"
  shows "read_bytes (memmove m dest src n) dest (unat n) = read_bytes m src (unat n)
    \<and> (\<forall>x. \<not> in_region dest (unat n) x \<longrightarrow> memmove m dest src n x = m x)"
proof
  show "read_bytes (memmove m dest src n) dest (unat n) = read_bytes m src (unat n)"
    by (rule read_bytes_cong)
       (use assms in \<open>simp add: memmove_apply in_region_offset less_trans [OF _ unat_lt_2p32]\<close>)
qed (use assms in \<open>simp add: memmove_apply\<close>)

theorem memmove_correct_witness:
  "read_bytes (memmove (write_bytes (\<lambda>_. 0) 10 [1, 2, 3]) 11 10 3) 11 3 = [1, 2, 3]"
  using memmove_correct [of 10 3 11 "write_bytes (\<lambda>_. 0) 10 [1, 2, 3]"]
  by (simp add: read_bytes_def upt_rec)



text \<open>
  Whenever the source has at least \<open>n\<close> characters, \<open>strncpy\<close> writes \<open>n\<close> of them and then a
  NUL at \<open>dest + n\<close>, one byte past the \<open>n\<close> bytes the caller vouches for.
\<close>

theorem strncpy_writes_past_n:
  assumes "cstr m src bs" "unat n \<le> length bs"
    and "disjoint dest (Suc (length bs)) src (Suc (length bs))"
  shows "read_bytes (fst (strncpy m dest src n)) dest (unat n) = take (unat n) bs
    \<and> fst (strncpy m dest src n) (dest + n) = 0 \<and> \<not> in_region dest (unat n) (dest + n)"
proof (intro conjI)
  have len: "length (take (unat n) bs) = unat n" using assms(2) by simp
  have out: "dest + of_nat i \<noteq> dest + n" if "i < unat n" for i
  proof
    assume "dest + of_nat i = dest + n"
    then have "unat (of_nat i :: addr) = unat n" by simp
    moreover have "i < 4294967296" using that less_trans [OF _ unat_lt_2p32] by blast
    ultimately show False using that by (simp add: unat_of_nat32)
  qed
  have "read_bytes (fst (strncpy m dest src n)) dest (unat n)
      = read_bytes (write_bytes m dest (take (unat n) bs)) dest (unat n)"
    by (rule read_bytes_cong) (use out in \<open>simp add: strncpy_cstr [OF assms]\<close>)
  then show "read_bytes (fst (strncpy m dest src n)) dest (unat n) = take (unat n) bs"
    using read_write_bytes [of "take (unat n) bs" m dest] len by (simp add: less_imp_le)
qed (simp_all add: strncpy_cstr [OF assms] in_region_def)

theorem strncpy_writes_past_n_witness:
  "fst (strncpy (write_bytes (\<lambda>_. 7) 16 [97, 98, 99, 0]) 100 16 2) 102 = 0"
  using strncpy_writes_past_n [of "write_bytes (\<lambda>_. 7) 16 [97, 98, 99, 0]" 16 "[97, 98, 99]" 2 100]
  by (simp add: disjoint_def)

text \<open>
  \<open>strcat\<close> leaves the concatenation of the two strings at \<open>dest\<close> when the space after the
  first string is apart from the second.
\<close>

theorem strcat_correct:
  assumes "cstr m dest xs" "cstr m src ys" "length xs + length ys < 4294967296"
    and "disjoint (dest + of_nat (length xs)) (Suc (length ys)) src (Suc (length ys))"
  shows "\<exists>m'. strcat m dest src = Some (m', dest) \<and> cstr m' dest (xs @ ys)"
proof (intro exI conjI)
  let ?e = "dest + of_nat (length xs)"
  let ?m = "write_bytes m ?e (ys @ [0])"
  show "strcat m dest src = Some (?m, dest)" by (rule strcat_cstr [OF assms(1,2,4)])
  have tail: "cstr ?m ?e ys"
    using assms by (intro cstr_write_bytes cstr_zero_notin) simp_all
  have head: "?m (dest + of_nat i) = m (dest + of_nat i)" if "i < length xs" for i
  proof (rule write_bytes_outside)
    have "unat (of_nat i :: addr) = i" "unat (of_nat (length xs) :: addr) = length xs"
      using that assms(3) by (simp_all add: unat_of_nat32)
    then have "unat (of_nat i - of_nat (length xs) :: addr) = i + 4294967296 - length xs"
      using that unat_sub_wrap [of "of_nat i" "of_nat (length xs)"] by simp
    moreover have "dest + of_nat i - ?e = of_nat i - of_nat (length xs)" by simp
    ultimately have "unat (dest + of_nat i - ?e) = i + 4294967296 - length xs" by (simp only:)
    then show "\<not> in_region ?e (length (ys @ [0])) (dest + of_nat i)"
      using assms(3) by (simp only: in_region_def) simp
  qed (use assms in simp)
  show "cstr ?m dest (xs @ ys)"
  proof (rule cstrI)
    show "0 \<notin> set (xs @ ys)" using assms(1,2) by (simp add: cstr_zero_notin)
    show "?m (dest + of_nat i) = (xs @ ys) ! i" if i: "i < length (xs @ ys)" for i
    proof (cases "i < length xs")
      case True
      then show ?thesis using head cstr_nth [OF assms(1)] by (simp add: nth_append)
    next
      case False
      then have "dest + of_nat i = ?e + of_nat (i - length xs)" by (simp add: of_nat_diff)
      then show ?thesis
        using False i cstr_nth [OF tail, of "i - length xs"] by (simp add: nth_append)
    qed
    show "?m (dest + of_nat (length (xs @ ys))) = 0"
      using cstr_end [OF tail] by (simp add: add.assoc)
  qed
qed

theorem strcat_correct_witness:
  "\<exists>m'. strcat (write_bytes (\<lambda>_. 0) 16 [97, 98, 0, 0, 0, 99, 0]) 16 21 = Some (m', 16)
     \<and> cstr m' 16 ([97, 98] @ [99])"
  by (rule strcat_correct) (simp_all add: disjoint_def)

text \<open>
  \<open>strstr\<close> returns on any two strings and finds the first occurrence of the second in the
  first; an empty first string has none, not even of the empty string.
\<close>

theorem strstr_first_occurrence:
  assumes "cstr m dest xs" "cstr m src ys"
  shows "strstr m dest src =
    Some (case first_occurrence xs ys of None \<Rightarrow> NULL | Some i \<Rightarrow> dest + of_nat i)"
  using assms by (rule strstr_cstr)

theorem strstr_first_occurrence_witness:
  "strstr (write_bytes (\<lambda>_. 0) 16 [97, 98, 99, 0, 98, 99, 0]) 16 20 = Some 17"
  using strstr_first_occurrence
    [of "write_bytes (\<lambda>_. 0) 16 [97, 98, 99, 0, 98, 99, 0]" 16 "[97, 98, 99]" 20 "[98, 99]"]
  by simp

text \<open>
  \<open>strrchr\<close> starts at the terminator and its loop stops on a NUL, so it returns NULL for every
  character but NUL, even one that occurs in the string; \<open>memchr\<close> never advances its pointer, so
  it only ever examines the first byte.
\<close>

theorem strrchr_memchr_miss:
  assumes "cstr m s bs" "ch \<noteq> 0"
  shows "strrchr m s ch = Some NULL
    \<and> memchr m s c n = (if n \<noteq> 0 \<and> uint (m s) = c then s else NULL)"
  using assms by (auto simp: strrchr_cstr memchr_def memchr_loop_first unat_eq_0)

theorem strrchr_memchr_miss_witness:
  "strrchr (write_bytes (\<lambda>_. 0) 16 [97, 98, 0]) 16 98 = Some NULL
   \<and> memchr (write_bytes (\<lambda>_. 0) 16 [97, 98, 0]) 16 98 3 = NULL"
  using strrchr_memchr_miss [of "write_bytes (\<lambda>_. 0) 16 [97, 98, 0]" 16 "[97, 98]" 98 98 3]
  by simp

end
