(* ===== verification/Machine.thy ===== *)
theory Machine
  imports Libc_String
begin

text \<open>
  The machine the kernel runs on: the byte memory and the I/O ports (x86/pio.h). Every port access
  is an event of a trace. What the hardware answers to \<open>inb\<close> is not in the repository: it is a
  parameter, an arbitrary function of the trace so far and the port. The record is extended by
  each component with its own static variables, so that one state holds the whole kernel and an
  operation of one component applies to every extension.
\<close>

datatype io_event = Out u16 u8 | In u16 u8

record machine =
  ram :: mem
  io :: "io_event list"
  device :: "io_event list \<Rightarrow> u16 \<Rightarrow> u8"

definition outb :: "u16 \<Rightarrow> u8 \<Rightarrow> 'a machine_scheme \<Rightarrow> 'a machine_scheme" where
  "outb port val s = s\<lparr>io := io s @ [Out port val]\<rparr>"

definition inb :: "u16 \<Rightarrow> 'a machine_scheme \<Rightarrow> u8 \<times> 'a machine_scheme" where
  "inb port s = (let v = device s (io s) port in (v, s\<lparr>io := io s @ [In port v]\<rparr>))"

definition io_wait :: "'a machine_scheme \<Rightarrow> 'a machine_scheme" where
  "io_wait s = outb 0x80 0 s"

lemma outb_sel [simp]:
  "ram (outb p v s) = ram s" "io (outb p v s) = io s @ [Out p v]" "device (outb p v s) = device s"
  "machine.more (outb p v s) = machine.more s"
  by (simp_all add: outb_def)

lemma inb_sel [simp]:
  "ram (snd (inb p s)) = ram s" "device (snd (inb p s)) = device s"
  "machine.more (snd (inb p s)) = machine.more s" "fst (inb p s) = device s (io s) p"
  "io (snd (inb p s)) = io s @ [In p (device s (io s) p)]"
  by (simp_all add: inb_def Let_def)

lemma io_wait_sel [simp]:
  "ram (io_wait s) = ram s" "device (io_wait s) = device s"
  "machine.more (io_wait s) = machine.more s" "io (io_wait s) = io s @ [Out 0x80 0]"
  by (simp_all add: io_wait_def)

section \<open>Character sinks\<close>

text \<open>
  The interface between a routine that prints and whatever takes the characters: the sink keeps
  its invariant, and what is visible of it is determined by the characters put one after the
  other.
\<close>

locale char_sink =
  fixes put :: "u8 \<Rightarrow> 's \<Rightarrow> 's"
    and ok :: "'s \<Rightarrow> bool"
    and view :: "'s \<Rightarrow> 'v"
    and vput :: "u8 \<Rightarrow> 'v \<Rightarrow> 'v"
  assumes put_ok: "ok s \<Longrightarrow> ok (put c s)"
    and put_view: "ok s \<Longrightarrow> view (put c s) = vput c (view s)"
begin

lemma fold_put_ok: "ok s \<Longrightarrow> ok (fold put cs s)"
  by (induction cs arbitrary: s) (auto intro: put_ok)

lemma fold_put_view: "ok s \<Longrightarrow> view (fold put cs s) = fold vput cs (view s)"
  by (induction cs arbitrary: s) (simp_all add: put_ok put_view)

end

end
