(* ===== verification/Vga_Console.thy ===== *)
theory Vga_Console
  imports Machine
begin

text \<open>
  kernel/arch/i686/drivers/tty.c: the virtual console on the VGA text buffer and the serial port
  output. The text buffer is 2000 16-bit cells in memory at \<open>vga_buffer\<close>, so writing a character
  is a 16-bit store and scrolling is the libc \<open>memmove\<close> and \<open>memset\<close> on the same memory. The
  component is refined to a screen: an attribute byte, a list of cells and a cursor.
\<close>

section \<open>State and operations\<close>

abbreviation (input) VGA_WIDTH :: u32 where "VGA_WIDTH \<equiv> 80"
abbreviation (input) VGA_BUFFER_SIZE :: u32 where "VGA_BUFFER_SIZE \<equiv> 2000"
abbreviation (input) TAB_SIZE :: u32 where "TAB_SIZE \<equiv> 8"
abbreviation (input) VGA_INDEX :: u16 where "VGA_INDEX \<equiv> 0x3d4"
abbreviation (input) VGA_DATA :: u16 where "VGA_DATA \<equiv> 0x3d5"
abbreviation (input) VGA_CURSOR_LO :: u8 where "VGA_CURSOR_LO \<equiv> 0x0f"
abbreviation (input) VGA_CURSOR_HI :: u8 where "VGA_CURSOR_HI \<equiv> 0x0e"

record console = machine +
  tty_format :: u8
  vga_buffer :: addr
  tty_pos :: u32
  processing_sequence :: bool

text \<open>The static initialisers; \<open>tty_init\<close> (in theory Paging) sets \<open>vga_buffer\<close> later.\<close>

definition console_start :: "mem \<Rightarrow> (io_event list \<Rightarrow> u16 \<Rightarrow> u8) \<Rightarrow> console" where
  "console_start m dev = \<lparr>ram = m, io = [], device = dev, tty_format = 0x07, vga_buffer = NULL,
     tty_pos = 0, processing_sequence = False\<rparr>"

definition tty_scroll :: "u32 \<Rightarrow> 'a console_scheme \<Rightarrow> 'a console_scheme" where
  "tty_scroll lines s =
     (let points = lines * VGA_WIDTH;
          bytes = points * 2;
          m1 = memmove (ram s) (vga_buffer s) (vga_buffer s + 2 * points)
                 (VGA_BUFFER_SIZE * 2 - bytes);
          m2 = memset m1 (vga_buffer s + 2 * (VGA_BUFFER_SIZE - points)) 0 bytes
      in s\<lparr>ram := m2, tty_pos := tty_pos s - points\<rparr>)"

definition tty_set_cursor :: "u32 \<Rightarrow> 'a console_scheme \<Rightarrow> 'a console_scheme" where
  "tty_set_cursor p s =
     outb VGA_DATA (ucast (drop_bit 8 p)) (outb VGA_INDEX VGA_CURSOR_HI
       (outb VGA_DATA (ucast p) (outb VGA_INDEX VGA_CURSOR_LO s)))"

text \<open>The cell stored for a character: the \<open>char\<close> is sign-extended before it is or-ed in.\<close>

definition vga_cell :: "u8 \<Rightarrow> u8 \<Rightarrow> u16" where
  "vga_cell fmt ch = push_bit 8 (ucast fmt) OR scast ch"

definition tty_putchar :: "u8 \<Rightarrow> 'a console_scheme \<Rightarrow> 'a console_scheme" where
  "tty_putchar ch s =
     (let s1 =
        (if ch = 10 \<or> ch = 13 then s\<lparr>tty_pos := (tty_pos s div VGA_WIDTH + 1) * VGA_WIDTH\<rparr>
         else if ch = 9 then s\<lparr>tty_pos := (tty_pos s div TAB_SIZE + 1) * TAB_SIZE\<rparr>
         else if ch = 12 then
           s\<lparr>ram := memset (ram s) (vga_buffer s) 0 (VGA_BUFFER_SIZE * 2), tty_pos := 0\<rparr>
         else if ch = 27 then s\<lparr>processing_sequence := True\<rparr>
         else s\<lparr>ram := wr16 (ram s) (vga_buffer s + 2 * tty_pos s) (vga_cell (tty_format s) ch),
                tty_pos := tty_pos s + 1\<rparr>)
      in if tty_pos s1 \<ge> VGA_BUFFER_SIZE
         then tty_scroll ((tty_pos s1 - VGA_BUFFER_SIZE) div VGA_WIDTH + 1) s1
         else s1)"

fun vconsole_write_loop :: "nat \<Rightarrow> addr \<Rightarrow> 'a console_scheme \<Rightarrow> 'a console_scheme" where
  "vconsole_write_loop 0 buf s = s"
| "vconsole_write_loop (Suc n) buf s = vconsole_write_loop n (buf + 1) (tty_putchar (ram s buf) s)"

definition vconsole_write :: "addr \<Rightarrow> u32 \<Rightarrow> 'a console_scheme \<Rightarrow> int \<times> 'a console_scheme" where
  "vconsole_write buf n s =
     (let s1 = vconsole_write_loop (unat n) buf s in (to_int n, tty_set_cursor (tty_pos s1) s1))"

text \<open>Serial ports: only output to COM1 and COM2. \<open>port\<close> is a minor number from 1 on.\<close>

definition serial_read :: "int \<Rightarrow> addr \<Rightarrow> u32 \<Rightarrow> 'a machine_scheme \<Rightarrow> int \<times> 'a machine_scheme" where
  "serial_read port buf n s = (0, s)"

definition serial_port :: "int \<Rightarrow> u16" where
  "serial_port port = [0x3f8, 0x2f8] ! nat (port - 1)"

fun serial_write_loop :: "nat \<Rightarrow> u16 \<Rightarrow> addr \<Rightarrow> 'a machine_scheme \<Rightarrow> 'a machine_scheme" where
  "serial_write_loop 0 p buf s = s"
| "serial_write_loop (Suc n) p buf s = serial_write_loop n p (buf + 1) (outb p (ram s buf) s)"

definition serial_write :: "int \<Rightarrow> addr \<Rightarrow> u32 \<Rightarrow> 'a machine_scheme \<Rightarrow> int \<times> 'a machine_scheme" where
  "serial_write port buf n s =
     (if port > 2 then (- ENODEV, s)
      else (to_int n, serial_write_loop (unat n) (serial_port port) buf s))"

section \<open>The screen the console shows\<close>

record screen =
  attr :: u8
  text_cells :: "u16 list"
  cursor :: nat

definition cell_at :: "mem \<Rightarrow> addr \<Rightarrow> nat \<Rightarrow> u16" where
  "cell_at m b i = rd16 m (b + of_nat (2 * i))"

definition screen_of :: "'a console_scheme \<Rightarrow> screen" where
  "screen_of s = \<lparr>attr = tty_format s,
     text_cells = map (cell_at (ram s) (vga_buffer s)) [0..<2000], cursor = unat (tty_pos s)\<rparr>"

definition screen_newline :: "screen \<Rightarrow> screen" where
  "screen_newline c = c\<lparr>text_cells := drop 80 (text_cells c) @ replicate 80 0, cursor := cursor c - 80\<rparr>"

definition screen_put :: "u8 \<Rightarrow> screen \<Rightarrow> screen" where
  "screen_put ch c =
     (let c1 =
        (if ch = 10 \<or> ch = 13 then c\<lparr>cursor := (cursor c div 80 + 1) * 80\<rparr>
         else if ch = 9 then c\<lparr>cursor := (cursor c div 8 + 1) * 8\<rparr>
         else if ch = 12 then c\<lparr>text_cells := replicate 2000 0, cursor := 0\<rparr>
         else if ch = 27 then c
         else c\<lparr>text_cells := (text_cells c)[cursor c := vga_cell (attr c) ch],
                cursor := cursor c + 1\<rparr>)
      in if cursor c1 \<ge> 2000 then screen_newline c1 else c1)"

text \<open>The buffer does not run past the end of memory, and the cursor is on the screen.\<close>

definition console_ok :: "'a console_scheme \<Rightarrow> bool" where
  "console_ok s \<longleftrightarrow> unat (vga_buffer s) + 4096 < 4294967296 \<and> unat (tty_pos s) < 2000"

section \<open>What each operation leaves alone\<close>

lemma console_frames [frame]:
  "device (tty_scroll l s) = device s" "io (tty_scroll l s) = io s"
  "vga_buffer (tty_scroll l s) = vga_buffer s" "tty_format (tty_scroll l s) = tty_format s"
  "console.more (tty_scroll l s) = console.more s"
  by (simp_all add: tty_scroll_def Let_def)

lemma tty_set_cursor_sel [simp]:
  "ram (tty_set_cursor p s) = ram s" "device (tty_set_cursor p s) = device s"
  "vga_buffer (tty_set_cursor p s) = vga_buffer s" "tty_format (tty_set_cursor p s) = tty_format s"
  "tty_pos (tty_set_cursor p s) = tty_pos s"
  "processing_sequence (tty_set_cursor p s) = processing_sequence s"
  "console.more (tty_set_cursor p s) = console.more s"
  "io (tty_set_cursor p s) = io s @ [Out VGA_INDEX VGA_CURSOR_LO, Out VGA_DATA (ucast p),
     Out VGA_INDEX VGA_CURSOR_HI, Out VGA_DATA (ucast (drop_bit 8 p))]"
  by (simp_all add: tty_set_cursor_def outb_def)

lemma tty_putchar_frames [frame]:
  "device (tty_putchar c s) = device s" "io (tty_putchar c s) = io s"
  "vga_buffer (tty_putchar c s) = vga_buffer s" "tty_format (tty_putchar c s) = tty_format s"
  "console.more (tty_putchar c s) = console.more s"
  by (simp_all add: tty_putchar_def Let_def frame)

section \<open>Cells in memory\<close>

lemma cell_at_cong:
  assumes "\<And>k. 2 * i \<le> k \<Longrightarrow> k < 2 * i + 2 \<Longrightarrow> m' (b + of_nat k) = m (b' + of_nat (k + 2 * d))"
  shows "cell_at m' b i = cell_at m b' (i + d)"
proof -
  have "m' (b + of_nat (2 * i)) = m (b' + of_nat (2 * (i + d)))"
    using assms [of "2 * i"] by (simp add: algebra_simps)
  moreover have "m' (b + of_nat (2 * i) + 1) = m (b' + of_nat (2 * (i + d)) + 1)"
    using assms [of "Suc (2 * i)"] by (simp add: algebra_simps)
  ultimately show ?thesis by (simp add: cell_at_def rd16_def)
qed

lemma cell_at_zero:
  assumes "\<And>k. 2 * i \<le> k \<Longrightarrow> k < 2 * i + 2 \<Longrightarrow> m (b + of_nat k) = 0"
  shows "cell_at m b i = 0"
  using assms [of "2 * i"] assms [of "Suc (2 * i)"]
  by (simp add: cell_at_def rd16_def algebra_simps)

lemma cell_at_wr16:
  assumes "i < 2000" "p < 2000"
  shows "cell_at (wr16 m (b + of_nat (2 * p)) v) b i = (if i = p then v else cell_at m b i)"
proof (cases "i = p")
  case False
  have ne: "b + of_nat k \<noteq> b + (of_nat l :: addr)"
    if "k < 2 * i + 2" "2 * i \<le> k" "l < 2 * p + 2" "2 * p \<le> l" for k l
    using that assms False by (subst offset_eq_iff) auto
  have "cell_at (wr16 m (b + of_nat (2 * p)) v) b i = cell_at m b (i + 0)"
  proof (rule cell_at_cong)
    fix k assume "2 * i \<le> k" "k < 2 * i + 2"
    then have "b + of_nat k \<noteq> b + of_nat (2 * p)" "b + of_nat k \<noteq> b + of_nat (2 * p + 1)"
      by (intro ne; simp)+
    then show "wr16 m (b + of_nat (2 * p)) v (b + of_nat k) = m (b + of_nat (k + 2 * 0))"
      by (simp add: wr16_def add.assoc add.commute)
  qed
  with False show ?thesis by simp
qed (simp add: cell_at_def)

section \<open>Scrolling by one line\<close>

lemma tty_scroll_pos [simp]: "tty_pos (tty_scroll l s) = tty_pos s - l * 80"
  by (simp add: tty_scroll_def Let_def)

lemma tty_scroll_1_ram:
  assumes "unat (vga_buffer s) + 4096 < 4294967296" "k < 4294967296"
  shows "ram (tty_scroll 1 s) (vga_buffer s + of_nat k) =
    (if k < 3840 then ram s (vga_buffer s + of_nat (k + 160)) else if k < 4000 then 0
     else ram s (vga_buffer s + of_nat k))"
proof -
  let ?b = "vga_buffer s" and ?x = "vga_buffer s + of_nat k :: addr"
  have hi: "in_region (?b + 3840) 160 ?x \<longleftrightarrow> 3840 \<le> k \<and> k < 4000"
    using in_region_offsets [of 3840 160 k ?b] assms(2) by simp
  have lo: "in_region ?b 3840 ?x \<longleftrightarrow> k < 3840"
    using in_region_offsets [of 0 3840 k ?b] assms(2) by simp
  have "unat (?b + 160) = unat ?b + 160" using assms(1) by (simp add: unat_add_small)
  moreover have n: "unat (3840 :: u32) = 3840" by simp
  moreover have shift: "?b + 160 + (?x - ?b) = ?b + of_nat (k + 160)" by simp
  ultimately have mm: "memmove (ram s) ?b (?b + 160) 3840 ?x =
      (if k < 3840 then ram s (?b + of_nat (k + 160)) else ram s ?x)"
    using assms(1) memmove_apply [of "?b + 160" 3840 ?b "ram s" ?x, unfolded n] lo
    by (simp only: shift)
  show ?thesis by (simp add: tty_scroll_def Let_def memset_apply hi mm)
qed

lemma screen_scroll_1:
  assumes "unat (vga_buffer s) + 4096 < 4294967296" "80 \<le> unat (tty_pos s)"
  shows "screen_of (tty_scroll 1 s) = screen_newline (screen_of s)"
proof -
  let ?b = "vga_buffer s" and ?m = "ram s" and ?m' = "ram (tty_scroll 1 s)"
  have "map (cell_at ?m' ?b) [0..<2000] = drop 80 (map (cell_at ?m ?b) [0..<2000]) @ replicate 80 0"
  proof (rule nth_equalityI)
    fix i assume "i < length (map (cell_at ?m' ?b) [0..<2000])"
    then have i: "i < 2000" by simp
    show "map (cell_at ?m' ?b) [0..<2000] ! i
        = (drop 80 (map (cell_at ?m ?b) [0..<2000]) @ replicate 80 0) ! i"
    proof (cases "i < 1920")
      case True
      have "cell_at ?m' ?b i = cell_at ?m ?b (i + 80)"
        by (rule cell_at_cong) (use True in \<open>simp add: tty_scroll_1_ram [OF assms(1)]\<close>)
      with True show ?thesis by (simp add: nth_append add.commute del: upt_Suc)
    next
      case False
      have "cell_at ?m' ?b i = 0"
        by (rule cell_at_zero) (use False i in \<open>simp add: tty_scroll_1_ram [OF assms(1)]\<close>)
      with False i show ?thesis by (simp add: nth_append)
    qed
  qed simp
  moreover have "unat (tty_pos s - 80) = unat (tty_pos s) - 80"
    using assms(2) by (simp add: unat_sub_if')
  ultimately show ?thesis
    by (simp add: screen_of_def screen_newline_def frame)
qed

lemma tty_scroll_1_outside:
  assumes "unat (vga_buffer s) + 4096 < 4294967296" "\<not> in_region (vga_buffer s) 4000 x"
  shows "ram (tty_scroll 1 s) x = ram s x"
proof -
  have x: "x = vga_buffer s + of_nat (unat (x - vga_buffer s))" by simp
  show ?thesis
    using assms(2) tty_scroll_1_ram [OF assms(1), of "unat (x - vga_buffer s)"]
    by (simp add: in_region_def)
qed

section \<open>Refinement of the screen\<close>

lemma unat_next_multiple:
  fixes p w :: u32
  assumes "(unat p div unat w + 1) * unat w < 4294967296"
  shows "unat ((p div w + 1) * w) = (unat p div unat w + 1) * unat w"
proof -
  have "unat p div unat w + 1 < 4294967296" if "w \<noteq> 0"
  proof -
    have "1 \<le> unat w" using that by (simp add: unat_gt_0 Suc_le_eq)
    then have "(unat p div unat w + 1) * 1 \<le> (unat p div unat w + 1) * unat w"
      by (rule mult_le_mono2)
    with assms show ?thesis by simp
  qed
  then have "w = 0 \<or> unat p div unat w + 1 < 4294967296" by blast
  then show ?thesis
    using assms by (auto simp: unat_word_ariths unat_div)
qed

text \<open>The effect of one character before the scroll test, on the state and on the screen.\<close>

definition put_raw :: "u8 \<Rightarrow> 'a console_scheme \<Rightarrow> 'a console_scheme" where
  "put_raw ch s =
     (if ch = 10 \<or> ch = 13 then s\<lparr>tty_pos := (tty_pos s div 80 + 1) * 80\<rparr>
      else if ch = 9 then s\<lparr>tty_pos := (tty_pos s div 8 + 1) * 8\<rparr>
      else if ch = 12 then s\<lparr>ram := memset (ram s) (vga_buffer s) 0 (2000 * 2), tty_pos := 0\<rparr>
      else if ch = 27 then s\<lparr>processing_sequence := True\<rparr>
      else s\<lparr>ram := wr16 (ram s) (vga_buffer s + 2 * tty_pos s) (vga_cell (tty_format s) ch),
             tty_pos := tty_pos s + 1\<rparr>)"

definition screen_raw :: "u8 \<Rightarrow> screen \<Rightarrow> screen" where
  "screen_raw ch c =
     (if ch = 10 \<or> ch = 13 then c\<lparr>cursor := (cursor c div 80 + 1) * 80\<rparr>
      else if ch = 9 then c\<lparr>cursor := (cursor c div 8 + 1) * 8\<rparr>
      else if ch = 12 then c\<lparr>text_cells := replicate 2000 0, cursor := 0\<rparr>
      else if ch = 27 then c
      else c\<lparr>text_cells := (text_cells c)[cursor c := vga_cell (attr c) ch],
             cursor := cursor c + 1\<rparr>)"

lemma put_raw_pos:
  assumes "unat (tty_pos s) < 2000"
  shows "unat (tty_pos (put_raw ch s)) = cursor (screen_raw ch (screen_of s))"
    and "unat (tty_pos (put_raw ch s)) \<le> 2000"
proof -
  have b: "(unat (tty_pos s) div 80 + 1) * 80 \<le> 2000"
    using less_mult_imp_div_less [of "unat (tty_pos s)" 25 80] assms by simp
  moreover have b8: "(unat (tty_pos s) div 8 + 1) * 8 \<le> 2000"
    using less_mult_imp_div_less [of "unat (tty_pos s)" 250 8] assms by simp
  ultimately have e: "unat ((tty_pos s div 80 + 1) * 80) = (unat (tty_pos s) div 80 + 1) * 80"
    "unat ((tty_pos s div 8 + 1) * 8) = (unat (tty_pos s) div 8 + 1) * 8"
    using unat_next_multiple [of "tty_pos s" 80] unat_next_multiple [of "tty_pos s" 8] by simp_all
  have i: "unat (tty_pos s + 1) = unat (tty_pos s) + 1" using assms by (simp add: unat_succ)
  show "unat (tty_pos (put_raw ch s)) = cursor (screen_raw ch (screen_of s))"
    using e i by (simp add: put_raw_def screen_raw_def screen_of_def)
  show "unat (tty_pos (put_raw ch s)) \<le> 2000"
    using e i b b8 assms by (simp add: put_raw_def)
qed

lemma put_raw_vga_buffer [simp]: "vga_buffer (put_raw ch s) = vga_buffer s"
  by (simp add: put_raw_def)

lemma cells_cleared:
  "map (cell_at (memset m b 0 4000) b) [0..<2000] = replicate 2000 0"
proof (rule nth_equalityI)
  fix i assume "i < length (map (cell_at (memset m b 0 4000) b) [0..<2000])"
  then have i: "i < 2000" by simp
  have "cell_at (memset m b 0 4000) b i = 0"
  proof (rule cell_at_zero)
    fix k assume "k < 2 * i + 2"
    then have "in_region b 4000 (b + of_nat k)"
      using i in_region_offsets [of 0 4000 k b] by simp
    then show "memset m b 0 4000 (b + of_nat k) = 0" by (simp add: memset_apply)
  qed
  with i show "map (cell_at (memset m b 0 4000) b) [0..<2000] ! i = replicate 2000 0 ! i" by simp
qed simp

lemma cells_stored:
  assumes "unat p < 2000"
  shows "map (cell_at (wr16 m (b + 2 * p) v) b) [0..<2000]
    = (map (cell_at m b) [0..<2000])[unat p := v]"
proof (rule nth_equalityI)
  fix i assume "i < length (map (cell_at (wr16 m (b + 2 * p) v) b) [0..<2000])"
  then have "i < 2000" by simp
  moreover have "2 * p = of_nat (2 * unat p)" by simp
  ultimately show "map (cell_at (wr16 m (b + 2 * p) v) b) [0..<2000] ! i
      = (map (cell_at m b) [0..<2000])[unat p := v] ! i"
    using cell_at_wr16 [OF _ assms, of i m b v] by (simp add: nth_list_update del: upt_Suc)
qed simp

lemma put_raw_screen:
  assumes "unat (tty_pos s) < 2000"
  shows "screen_of (put_raw ch s) = screen_raw ch (screen_of s)"
proof -
  have "text_cells (screen_of (put_raw ch s)) = text_cells (screen_raw ch (screen_of s))"
    using assms
    by (simp add: put_raw_def screen_raw_def screen_of_def cells_cleared cells_stored del: upt_Suc)
  moreover have "attr (screen_of (put_raw ch s)) = attr (screen_raw ch (screen_of s))"
    by (simp add: put_raw_def screen_raw_def screen_of_def)
  moreover have "cursor (screen_of (put_raw ch s)) = cursor (screen_raw ch (screen_of s))"
    using put_raw_pos(1) [OF assms, of ch] by (simp add: screen_of_def)
  ultimately show ?thesis by simp
qed

lemma tty_putchar_raw:
  "tty_putchar ch s =
     (if tty_pos (put_raw ch s) \<ge> 2000
      then tty_scroll ((tty_pos (put_raw ch s) - 2000) div 80 + 1) (put_raw ch s)
      else put_raw ch s)"
  unfolding tty_putchar_def put_raw_def Let_def by (rule refl)

lemma screen_put_raw:
  "screen_put ch c =
     (if cursor (screen_raw ch c) \<ge> 2000 then screen_newline (screen_raw ch c) else screen_raw ch c)"
  unfolding screen_put_def screen_raw_def Let_def by (rule refl)

text \<open>From a cursor on the screen, a character moves it at most to the end: one line scrolls.\<close>

lemma tty_putchar_cases:
  assumes "console_ok s"
  shows "tty_putchar ch s =
    (if unat (tty_pos (put_raw ch s)) = 2000 then tty_scroll 1 (put_raw ch s) else put_raw ch s)"
proof -
  have "unat (tty_pos (put_raw ch s)) \<le> 2000"
    using assms by (intro put_raw_pos) (simp add: console_ok_def)
  moreover have "tty_pos (put_raw ch s) = 2000 \<longleftrightarrow> unat (tty_pos (put_raw ch s)) = 2000"
    by (simp add: word_unat_eq_iff)
  ultimately show ?thesis
    by (auto simp: tty_putchar_raw word_le_nat_alt)
qed

lemma tty_putchar_screen:
  assumes "console_ok s"
  shows "screen_of (tty_putchar ch s) = screen_put ch (screen_of s)"
proof -
  have pos: "unat (tty_pos s) < 2000" and buf: "unat (vga_buffer s) + 4096 < 4294967296"
    using assms by (simp_all add: console_ok_def)
  let ?r = "put_raw ch s"
  have "unat (tty_pos ?r) \<le> 2000" by (rule put_raw_pos(2) [OF pos])
  moreover have "screen_of (tty_scroll 1 ?r) = screen_newline (screen_of ?r)"
    if "unat (tty_pos ?r) = 2000"
    by (rule screen_scroll_1) (use buf that in simp_all)
  ultimately show ?thesis
    by (auto simp: tty_putchar_cases [OF assms] screen_put_raw put_raw_pos(1) [OF pos, symmetric]
      put_raw_screen [OF pos])
qed

lemma tty_putchar_ok:
  assumes "console_ok s"
  shows "console_ok (tty_putchar ch s)"
proof -
  have "unat (tty_pos (put_raw ch s)) \<le> 2000"
    using assms by (intro put_raw_pos) (simp add: console_ok_def)
  moreover have "unat (tty_pos (put_raw ch s) - 80) = unat (tty_pos (put_raw ch s)) - 80"
    if "unat (tty_pos (put_raw ch s)) = 2000"
    using that by (simp add: unat_sub_if')
  ultimately show ?thesis
    using assms by (auto simp: tty_putchar_cases [OF assms] console_ok_def frame)
qed

interpretation vga: char_sink tty_putchar console_ok screen_of screen_put
  by unfold_locales (simp_all add: tty_putchar_ok tty_putchar_screen)

text \<open>Only the 4000 bytes of the text buffer are written.\<close>

lemma put_raw_outside:
  assumes "unat (tty_pos s) < 2000" "\<not> in_region (vga_buffer s) 4000 x"
  shows "ram (put_raw ch s) x = ram s x"
proof -
  let ?b = "vga_buffer s" and ?p = "unat (tty_pos s)"
  have "in_region ?b 4000 (?b + of_nat (2 * ?p))" "in_region ?b 4000 (?b + of_nat (2 * ?p + 1))"
    using assms(1) in_region_offsets [of 0 4000 "2 * ?p" ?b] in_region_offsets [of 0 4000 "2 * ?p + 1" ?b]
    by simp_all
  then have "x \<noteq> ?b + 2 * tty_pos s" "x \<noteq> ?b + 2 * tty_pos s + 1"
    using assms(2) by (auto simp: algebra_simps)
  then show ?thesis using assms(2) by (simp add: put_raw_def wr16_other memset_apply)
qed

lemma tty_putchar_outside:
  assumes "console_ok s" "\<not> in_region (vga_buffer s) 4000 x"
  shows "ram (tty_putchar ch s) x = ram s x"
  using assms by (simp add: tty_putchar_cases tty_scroll_1_outside put_raw_outside console_ok_def)

lemma fold_putchar_frames [frame]:
  "vga_buffer (fold tty_putchar cs s) = vga_buffer s" "io (fold tty_putchar cs s) = io s"
  "device (fold tty_putchar cs s) = device s" "tty_format (fold tty_putchar cs s) = tty_format s"
  "console.more (fold tty_putchar cs s) = console.more s"
  by (induction cs arbitrary: s) (simp_all add: frame)

lemma fold_putchar_outside:
  "console_ok s \<Longrightarrow> \<not> in_region (vga_buffer s) 4000 x \<Longrightarrow> ram (fold tty_putchar cs s) x = ram s x"
  by (induction cs arbitrary: s) (simp_all add: tty_putchar_ok tty_putchar_outside frame)

lemma vconsole_write_loop_fold:
  assumes "console_ok s" "\<And>i. i < n \<Longrightarrow> \<not> in_region (vga_buffer s) 4000 (buf + of_nat i)"
  shows "vconsole_write_loop n buf s = fold tty_putchar (read_bytes (ram s) buf n) s"
  using assms
proof (induction n arbitrary: buf s)
  case (Suc n)
  let ?s = "tty_putchar (ram s buf) s"
  have src: "\<not> in_region (vga_buffer s) 4000 (buf + 1 + of_nat i)" if "i < n" for i
    using Suc.prems(2) [of "Suc i"] that by (simp add: add.assoc)
  have "read_bytes (ram ?s) (buf + 1) n = read_bytes (ram s) (buf + 1) n"
    by (rule read_bytes_cong) (simp add: tty_putchar_outside Suc.prems(1) src)
  moreover have "vconsole_write_loop n (buf + 1) ?s = fold tty_putchar (read_bytes (ram ?s) (buf + 1) n) ?s"
    by (rule Suc.IH) (use Suc.prems(1) src in \<open>simp_all add: tty_putchar_ok frame\<close>)
  ultimately show ?case by (simp add: read_bytes_Suc)
qed simp

lemma vconsole_write_frames [frame]:
  "device (snd (vconsole_write buf n s)) = device s"
  "vga_buffer (snd (vconsole_write buf n s)) = vga_buffer s"
  "tty_format (snd (vconsole_write buf n s)) = tty_format s"
  "console.more (snd (vconsole_write buf n s)) = console.more s"
proof -
  have loop: "device (vconsole_write_loop k buf s) = device s
    \<and> vga_buffer (vconsole_write_loop k buf s) = vga_buffer s
    \<and> tty_format (vconsole_write_loop k buf s) = tty_format s
    \<and> console.more (vconsole_write_loop k buf s) = console.more s" for k
    by (induction k arbitrary: buf s) (simp_all add: frame)
  show "device (snd (vconsole_write buf n s)) = device s"
    "vga_buffer (snd (vconsole_write buf n s)) = vga_buffer s"
    "tty_format (snd (vconsole_write buf n s)) = tty_format s"
    "console.more (snd (vconsole_write buf n s)) = console.more s"
    using loop [of "unat n"] by (simp_all add: vconsole_write_def Let_def)
qed

text \<open>The cursor program that ends every write.\<close>

definition cursor_events :: "u32 \<Rightarrow> io_event list" where
  "cursor_events p = [Out VGA_INDEX VGA_CURSOR_LO, Out VGA_DATA (ucast p),
     Out VGA_INDEX VGA_CURSOR_HI, Out VGA_DATA (ucast (drop_bit 8 p))]"

lemma vconsole_write_eq:
  assumes "console_ok s" "\<And>i. i < unat n \<Longrightarrow> \<not> in_region (vga_buffer s) 4000 (buf + of_nat i)"
  shows "vconsole_write buf n s =
    (to_int n, let s1 = fold tty_putchar (read_bytes (ram s) buf (unat n)) s
               in tty_set_cursor (tty_pos s1) s1)"
  by (simp add: vconsole_write_def Let_def vconsole_write_loop_fold [OF assms])

lemma screen_of_set_cursor [simp]: "screen_of (tty_set_cursor p s) = screen_of s"
  by (simp add: screen_of_def)

lemma console_ok_set_cursor [simp]: "console_ok (tty_set_cursor p s) = console_ok s"
  by (simp add: console_ok_def)

lemma serial_write_loop_io:
  "serial_write_loop n p buf s = s\<lparr>io := io s @ map (Out p) (read_bytes (ram s) buf n)\<rparr>"
  by (induction n arbitrary: buf s) (simp_all add: read_bytes_Suc outb_def)

section \<open>Properties\<close>

text \<open>
  C21. Writing one character on the memory-mapped text buffer is exactly one step of the abstract
  screen (store with the attribute, newline, tab, form feed, scrolling by one line at the end),
  keeps the cursor on the screen, and changes no byte outside the 4000 bytes of the buffer.
\<close>

theorem tty_putchar_refines_screen:
  assumes "console_ok s"
  shows "console_ok (tty_putchar ch s)
    \<and> screen_of (tty_putchar ch s) = screen_put ch (screen_of s)
    \<and> (\<forall>x. \<not> in_region (vga_buffer s) 4000 x \<longrightarrow> ram (tty_putchar ch s) x = ram s x)"
  using assms by (simp add: vga.put_ok vga.put_view tty_putchar_outside)

theorem tty_putchar_refines_screen_witness:
  "cursor (screen_of (tty_putchar 65 (console_start (\<lambda>_. 0) (\<lambda>_ _. 0)))) = 1"
  using tty_putchar_refines_screen [of "console_start (\<lambda>_. 0) (\<lambda>_ _. 0)" 65]
  by (simp add: console_ok_def console_start_def screen_put_def screen_of_def Let_def)

text \<open>
  \<open>vconsole_write\<close> of a buffer that does not overlap the text buffer puts its bytes on the
  screen one after the other, returns their number, keeps the console well formed, and ends by
  programming the hardware cursor to the resulting position with four port writes.
\<close>

theorem vconsole_write_correct:
  assumes "console_ok s"
    and "\<And>i. i < unat n \<Longrightarrow> \<not> in_region (vga_buffer s) 4000 (buf + of_nat i)"
    and "vconsole_write buf n s = (r, s')"
  shows "r = to_int n \<and> console_ok s'
    \<and> screen_of s' = fold screen_put (read_bytes (ram s) buf (unat n)) (screen_of s)
    \<and> io s' = io s @ cursor_events (tty_pos s')"
proof -
  let ?s1 = "fold tty_putchar (read_bytes (ram s) buf (unat n)) s"
  have "r = to_int n" "s' = tty_set_cursor (tty_pos ?s1) ?s1"
    using assms(3) by (simp_all add: vconsole_write_eq [OF assms(1,2)] Let_def)
  then show ?thesis
    using vga.fold_put_ok [OF assms(1)] vga.fold_put_view [OF assms(1)]
    by (simp add: frame cursor_events_def)
qed

theorem vconsole_write_correct_witness:
  "cursor (screen_of (snd (vconsole_write 0x8000 2 (console_start (\<lambda>_. 10) (\<lambda>_ _. 0))))) = 160"
proof -
  let ?s = "console_start (\<lambda>_. 10) (\<lambda>_ _. 0)"
  obtain r s' where rs: "vconsole_write 0x8000 2 ?s = (r, s')" by (cases "vconsole_write 0x8000 2 ?s")
  have "screen_of s' = fold screen_put (read_bytes (ram ?s) 0x8000 (unat (2 :: u32))) (screen_of ?s)"
  proof (rule vconsole_write_correct [OF _ _ rs, THEN conjunct2, THEN conjunct2, THEN conjunct1])
    show "console_ok ?s" by (simp add: console_ok_def console_start_def)
    fix i assume "i < unat (2 :: u32)"
    then have "i = 0 \<or> i = 1" by auto
    then show "\<not> in_region (vga_buffer ?s) 4000 (0x8000 + of_nat i)"
      by (auto simp: in_region_def console_start_def)
  qed
  moreover have "read_bytes (ram ?s) 0x8000 (unat (2 :: u32)) = [10, 10]"
    by (simp add: read_bytes_def upt_rec console_start_def)
  moreover have "cursor (screen_of ?s) = 0" by (simp add: screen_of_def console_start_def)
  ultimately have "cursor (screen_of s') = 160" by (simp add: screen_put_def Let_def)
  then show ?thesis using rs by simp
qed

text \<open>
  A character with the top bit set is sign-extended before it is combined with the format
  byte, so its cell has attribute 0xff whatever the console's format is; any other character
  gets the format as its attribute.
\<close>

theorem vga_cell_attribute:
  "drop_bit 8 (vga_cell fmt ch) = (if bit ch 7 then 0xff else ucast fmt)
    \<and> take_bit 8 (vga_cell fmt ch) = ucast ch"
proof
  show "drop_bit 8 (vga_cell fmt ch) = (if bit ch 7 then 0xff else ucast fmt)"
  proof (rule bit_word_eqI)
    fix n assume n: "n < LENGTH(16)"
    have ff: "bit (0xff :: u16) n \<longleftrightarrow> n < 8"
    proof -
      have m: "(0xff :: u16) = mask 8" by (simp add: mask_eq_exp_minus_1)
      show ?thesis using n by (simp only: m bit_mask_iff) simp
    qed
    then show "bit (drop_bit 8 (vga_cell fmt ch)) n = bit (if bit ch 7 then 0xff else ucast fmt :: u16) n"
      using n
      by (auto simp: vga_cell_def bit_drop_bit_eq bit_or_iff bit_push_bit_iff bit_ucast_iff
        bit_signed_iff not_le dest: bit_imp_le_length)
  qed
  show "take_bit 8 (vga_cell fmt ch) = ucast ch"
  proof (rule bit_word_eqI)
    fix n assume "n < LENGTH(16)"
    consider "n < 7" | "n = 7" | "8 \<le> n" by linarith
    then show "bit (take_bit 8 (vga_cell fmt ch)) n = bit (ucast ch :: u16) n"
      by cases (auto simp: vga_cell_def bit_take_bit_iff bit_or_iff bit_push_bit_iff bit_ucast_iff
        bit_signed_iff min_def dest: bit_imp_le_length)
  qed
qed

end
