(* ===== verification/Stdio.thy ===== *)
theory Stdio
  imports Vga_Console
begin

text \<open>
  libc/stdio.c in its kernel build (libk): \<open>putchar\<close>, \<open>puts\<close>, \<open>printf\<close> and \<open>vprintf\<close>, which
  print on the virtual console. A format is a string literal, given by its bytes (its end is the
  NUL). The variable arguments are the 32-bit stack slots of the i686 ABI; a slot that points to a
  string literal is given by the literal's bytes, since where the linker puts it does not matter.
  \<open>None\<close> is "does not return or is undefined": an unterminated string, a missing argument, an
  argument of the wrong kind. The component is refined to \<open>render\<close>, the bytes a format prints.
\<close>

datatype va = Word u32 | Str "u8 list"

text \<open>The bytes of a string literal.\<close>

definition lit :: "string \<Rightarrow> u8 list" where
  "lit cs = map of_char cs"

text \<open>\<open>putchar\<close> passes the low byte of its argument, a local variable, to \<open>vconsole_write\<close>.\<close>

definition putchar :: "u8 \<Rightarrow> 'a console_scheme \<Rightarrow> 'a console_scheme" where
  "putchar ch s = (let s1 = tty_putchar ch s in tty_set_cursor (tty_pos s1) s1)"

definition puts :: "addr \<Rightarrow> 'a console_scheme \<Rightarrow> (int \<times> 'a console_scheme) option" where
  "puts p s = map_option (\<lambda>n. vconsole_write p n s) (strlen (ram s) p)"

definition puts_lit :: "u8 list \<Rightarrow> 'a console_scheme \<Rightarrow> int \<times> 'a console_scheme" where
  "puts_lit bs s =
     (let s1 = fold tty_putchar bs s in (int (length bs), tty_set_cursor (tty_pos s1) s1))"

text \<open>The digits of \<open>x\<close>, least significant first, as the \<open>do\<close> loop stores them.\<close>

partial_function (option) digits_loop :: "u32 \<Rightarrow> u32 \<Rightarrow> u8 \<Rightarrow> u8 list option" where
  "digits_loop x r alpha =
     (let d = x mod r;
          c = (if d < 10 then 48 + ucast d else alpha + ucast d - 10);
          x' = x div r
      in if x' \<noteq> 0 then Option.bind (digits_loop x' r alpha) (\<lambda>ds. Some (c # ds)) else Some [c])"

definition putiradix ::
    "u32 \<Rightarrow> u32 \<Rightarrow> u8 \<Rightarrow> int \<Rightarrow> u8 \<Rightarrow> 'a console_scheme \<Rightarrow> (int \<times> 'a console_scheme) option" where
  "putiradix x r alpha num_min filler s =
     map_option (\<lambda>digits.
       let n = int (length digits);
           s1 = fold putchar (replicate (nat (num_min - n)) filler) s;
           s2 = fold putchar (rev digits) s1
       in (if num_min > n then num_min else n, s2)) (digits_loop x r alpha)"

text \<open>The width digits of a directive.\<close>

fun parse_min :: "int \<Rightarrow> u8 list \<Rightarrow> int \<times> u8 list" where
  "parse_min num_min [] = (num_min, [])"
| "parse_min num_min (c # cs) =
     (if 48 \<le> c \<and> c \<le> 57 then parse_min (num_min * 10 + uint (c - 48)) cs
      else (num_min, c # cs))"

definition parse_filler :: "u8 list \<Rightarrow> u8 \<times> u8 list" where
  "parse_filler cs = (case cs of c # cs' \<Rightarrow> (if c = 48 then (48, cs') else (32, cs)) | [] \<Rightarrow> (32, cs))"

text \<open>The \<open>switch\<close> of \<open>vprintf\<close> on the directive character.\<close>

definition num_arg ::
    "u32 \<Rightarrow> u8 \<Rightarrow> int \<Rightarrow> u8 \<Rightarrow> va list \<Rightarrow> int \<Rightarrow> 'a console_scheme
      \<Rightarrow> (va list \<times> int \<times> 'a console_scheme) option" where
  "num_arg r alpha num_min filler args n s =
     (case args of
        Word d # args' \<Rightarrow> map_option (\<lambda>(k, s'). (args', n + k, s')) (putiradix d r alpha num_min filler s)
      | _ \<Rightarrow> None)"

definition directive ::
    "u8 \<Rightarrow> int \<Rightarrow> u8 \<Rightarrow> va list \<Rightarrow> int \<Rightarrow> 'a console_scheme
      \<Rightarrow> (va list \<times> int \<times> 'a console_scheme) option" where
  "directive d num_min filler args n s =
     (if d = 0x25 then Some (args, n + 1, putchar 0x25 s)
      else if d = 0x73 then
        (case args of
           Word p # args' \<Rightarrow> map_option (\<lambda>(k, s'). (args', n + k, s')) (puts p s)
         | Str bs # args' \<Rightarrow> (let (k, s') = puts_lit bs s in Some (args', n + k, s'))
         | [] \<Rightarrow> None)
      else if d = 0x63 then
        (case args of Word c # args' \<Rightarrow> Some (args', n + 1, putchar (ucast c) s) | _ \<Rightarrow> None)
      else if d = 0x64 \<or> d = 0x69 then
        (case args of
           Word w # args' \<Rightarrow>
             if w <s 0 then num_arg 10 0 num_min filler (Word (- w) # args') (n + 1) (putchar 0x2d s)
             else num_arg 10 0 num_min filler args n s
         | _ \<Rightarrow> None)
      else if d = 0x75 then num_arg 10 0 num_min filler args n s
      else if d = 0x70 then
        (let (k, s') = puts_lit [0x30, 0x78] s in num_arg 16 0x61 num_min filler args (n + k) s')
      else if d = 0x78 then num_arg 16 0x61 num_min filler args n s
      else if d = 0x58 then num_arg 16 0x41 num_min filler args n s
      else if d = 0x6f then num_arg 8 0 num_min filler args n s
      else if d = 0x6e then
        (case args of
           Word p # args' \<Rightarrow> Some (args', n, s\<lparr>ram := wr32 (ram s) p (word_of_int n)\<rparr>)
         | _ \<Rightarrow> None)
      else Some (args, n, putchar d s))"

lemma parse_min_length: "parse_min k cs = (j, cs') \<Longrightarrow> length cs' \<le> length cs"
  by (induction k cs rule: parse_min.induct) (auto split: if_splits)

lemma parse_filler_length: "parse_filler cs = (f, cs') \<Longrightarrow> length cs' \<le> length cs"
  by (auto simp: parse_filler_def split: list.splits if_splits)

function vprintf_loop ::
    "u8 list \<Rightarrow> va list \<Rightarrow> int \<Rightarrow> 'a console_scheme \<Rightarrow> (int \<times> 'a console_scheme) option" where
  "vprintf_loop [] args n s = Some (n, s)"
| "vprintf_loop (c # cs) args n s =
     (if c \<noteq> 0x25 then vprintf_loop cs args (n + 1) (putchar c s)
      else let (num_filler, cs1) = parse_filler cs; (num_min, cs2) = parse_min 0 cs1 in
        (case cs2 of
           [] \<Rightarrow> Some (n + 1, putchar 0x25 s)
         | d # cs3 \<Rightarrow>
             (case directive d num_min num_filler args n s of
                None \<Rightarrow> None
              | Some (args', n', s') \<Rightarrow> vprintf_loop cs3 args' n' s')))"
  by pat_completeness auto
termination
  by (relation "measure (\<lambda>(cs, _). length cs)")
     (auto dest!: parse_min_length [OF sym] parse_filler_length [OF sym])

definition vprintf :: "u8 list \<Rightarrow> va list \<Rightarrow> 'a console_scheme \<Rightarrow> (int \<times> 'a console_scheme) option" where
  "vprintf format args s = vprintf_loop format args 0 s"

definition printf :: "string \<Rightarrow> va list \<Rightarrow> 'a console_scheme \<Rightarrow> (int \<times> 'a console_scheme) option" where
  "printf format args s = vprintf (lit format) args s"

text \<open>
  A diagnostic of the kernel: a literal format whose arguments match it, so that \<open>printf\<close> returns
  (\<open>printk_total\<close> below), and whose result is ignored.
\<close>

definition printk :: "string \<Rightarrow> va list \<Rightarrow> 'a console_scheme \<Rightarrow> 'a console_scheme" where
  "printk format args s = (case printf format args s of Some (_, s') \<Rightarrow> s' | None \<Rightarrow> s)"

section \<open>What printing leaves alone\<close>

text \<open>The part of the state that no printing routine writes.\<close>

definition console_frame :: "'a console_scheme \<Rightarrow> 'b console_scheme \<Rightarrow> bool" where
  "console_frame s t \<longleftrightarrow> device t = device s \<and> vga_buffer t = vga_buffer s \<and> tty_format t = tty_format s"

definition same_rest :: "'a console_scheme \<Rightarrow> 'a console_scheme \<Rightarrow> bool" where
  "same_rest s t \<longleftrightarrow> console_frame s t \<and> console.more t = console.more s"

lemma same_rest_refl [simp]: "same_rest s s"
  by (simp add: same_rest_def console_frame_def)

lemma same_rest_trans: "same_rest s t \<Longrightarrow> same_rest t u \<Longrightarrow> same_rest s u"
  by (simp add: same_rest_def console_frame_def)

lemma same_rest_set_cursor [simp]: "same_rest s (tty_set_cursor p t) = same_rest s t"
  by (simp add: same_rest_def console_frame_def)

lemma same_rest_ram [simp]: "same_rest s (t\<lparr>ram := m\<rparr>) = same_rest s t"
  by (simp add: same_rest_def console_frame_def)

lemma same_rest_tty_putchar [simp]: "same_rest s (tty_putchar ch t) = same_rest s t"
  by (simp add: same_rest_def console_frame_def frame)

lemma same_rest_putchar [simp]: "same_rest s (putchar ch t) = same_rest s t"
  by (simp add: putchar_def Let_def)

lemma same_rest_fold_tty [simp]: "same_rest s (fold tty_putchar cs t) = same_rest s t"
  by (induction cs arbitrary: t) simp_all

lemma same_rest_fold [simp]: "same_rest s (fold putchar cs t) = same_rest s t"
  by (induction cs arbitrary: t) simp_all

lemma same_rest_vconsole_write [simp]: "same_rest s (snd (vconsole_write p n t)) = same_rest s t"
  by (simp add: same_rest_def console_frame_def frame)

lemma same_rest_puts_lit: "puts_lit bs s = (k, s') \<Longrightarrow> same_rest s s'"
  by (auto simp: puts_lit_def Let_def)

lemma same_rest_putchar_left [simp]: "same_rest (putchar ch s) t = same_rest s t"
  using same_rest_putchar [of s ch s] by (auto simp: same_rest_def console_frame_def)

lemma same_rest_funpow [simp]: "same_rest s ((putchar c ^^ k) t) = same_rest s t"
  by (induction k) simp_all

lemma same_rest_puts: "puts p s = Some (k, s') \<Longrightarrow> same_rest s s'"
  by (auto simp: puts_def dest!: arg_cong [of "vconsole_write _ _ _" _ snd])

lemma same_rest_putiradix: "putiradix x r alpha w f s = Some (k, s') \<Longrightarrow> same_rest s s'"
  by (auto simp: putiradix_def Let_def)

lemma same_rest_num_arg: "num_arg r alpha w f args n s = Some (args', n', s') \<Longrightarrow> same_rest s s'"
  by (auto simp: num_arg_def split: list.splits va.splits dest: same_rest_putiradix)

lemma same_rest_directive:
  "directive d w f args n s = Some (args', n', s') \<Longrightarrow> same_rest s s'"
  unfolding directive_def
  by (auto split: if_splits list.splits va.splits prod.splits simp: Let_def
      dest: same_rest_num_arg same_rest_puts same_rest_puts_lit
      intro: same_rest_trans)

lemma same_rest_vprintf_loop: "vprintf_loop cs args n s = Some (n', s') \<Longrightarrow> same_rest s s'"
proof (induction cs args n s rule: vprintf_loop.induct)
  case (2 c cs args n s)
  show ?case
  proof (cases "c = 0x25")
    case False
    with 2 show ?thesis by simp
  next
    case True
    obtain f cs1 where pf: "parse_filler cs = (f, cs1)" by (cases "parse_filler cs")
    obtain w cs2 where pm: "parse_min 0 cs1 = (w, cs2)" by (cases "parse_min 0 cs1")
    from True 2 pf pm show ?thesis
      by (auto split: list.splits option.splits prod.splits
          dest: same_rest_directive intro: same_rest_trans)
  qed
qed simp

lemma same_rest_printk [simp]: "same_rest s (printk fmt args s)"
  by (auto simp: printk_def printf_def vprintf_def split: option.split dest: same_rest_vprintf_loop)

lemma printk_frames [frame]:
  "device (printk fmt args s) = device s" "vga_buffer (printk fmt args s) = vga_buffer s"
  "console.more (printk fmt args s) = console.more s"
  using same_rest_printk [of s fmt args] by (simp_all add: same_rest_def console_frame_def)

section \<open>The ports printing uses\<close>

text \<open>Printing only appends writes to the two VGA index and data ports to the trace.\<close>

definition cursor_event :: "io_event \<Rightarrow> bool" where
  "cursor_event e \<longleftrightarrow> (case e of Out p v \<Rightarrow> p = VGA_INDEX \<or> p = VGA_DATA | In p v \<Rightarrow> False)"

definition cursor_io :: "'a console_scheme \<Rightarrow> 'a console_scheme \<Rightarrow> bool" where
  "cursor_io s t \<longleftrightarrow> (\<exists>new. io t = io s @ new \<and> list_all cursor_event new)"

lemma cursor_io_trans: "cursor_io s t \<Longrightarrow> cursor_io t u \<Longrightarrow> cursor_io s u"
  by (auto simp: cursor_io_def)

lemma cursor_io_same: "io t = io s \<Longrightarrow> cursor_io s t"
  by (simp add: cursor_io_def)

lemma cursor_io_set_cursor: "io t = io s \<Longrightarrow> cursor_io s (tty_set_cursor p t)"
  by (simp add: cursor_io_def tty_set_cursor_def cursor_event_def)

lemma cursor_io_putchar: "cursor_io s (putchar ch s)"
  by (simp add: putchar_def Let_def cursor_io_set_cursor frame)

lemma cursor_io_fold: "cursor_io s (fold putchar cs s)"
  by (induction cs arbitrary: s) (auto intro: cursor_io_same cursor_io_putchar cursor_io_trans)

lemma cursor_io_funpow: "cursor_io s ((putchar c ^^ k) s)"
  by (induction k) (auto intro: cursor_io_same cursor_io_putchar cursor_io_trans)

lemma cursor_io_puts_lit: "puts_lit bs s = (k, s') \<Longrightarrow> cursor_io s s'"
  by (auto simp: puts_lit_def Let_def frame intro: cursor_io_set_cursor)

lemma vconsole_write_loop_io: "io (vconsole_write_loop n buf s) = io s"
  by (induction n arbitrary: buf s) (simp_all add: frame)

lemma cursor_io_puts: "puts p s = Some (k, s') \<Longrightarrow> cursor_io s s'"
  by (auto simp: puts_def vconsole_write_def Let_def vconsole_write_loop_io intro: cursor_io_set_cursor)

lemma cursor_io_putiradix: "putiradix x r alpha w f s = Some (k, s') \<Longrightarrow> cursor_io s s'"
  by (auto simp: putiradix_def Let_def intro: cursor_io_fold cursor_io_funpow cursor_io_trans)

lemma cursor_io_num_arg: "num_arg r alpha w f args n s = Some (args', n', s') \<Longrightarrow> cursor_io s s'"
  by (auto simp: num_arg_def split: list.splits va.splits dest: cursor_io_putiradix)

lemma cursor_io_directive: "directive d w f args n s = Some (args', n', s') \<Longrightarrow> cursor_io s s'"
  unfolding directive_def
  by (auto split: if_splits list.splits va.splits prod.splits simp: Let_def
      dest: cursor_io_num_arg cursor_io_puts cursor_io_puts_lit
      intro: cursor_io_trans cursor_io_putchar cursor_io_same)

lemma cursor_io_vprintf_loop: "vprintf_loop cs args n s = Some (n', s') \<Longrightarrow> cursor_io s s'"
proof (induction cs args n s rule: vprintf_loop.induct)
  case (1 args n s)
  then show ?case by (simp add: cursor_io_same)
next
  case (2 c cs args n s)
  show ?case
  proof (cases "c = 0x25")
    case False
    with 2 show ?thesis by (auto intro: cursor_io_trans cursor_io_putchar)
  next
    case True
    obtain f cs1 where pf: "parse_filler cs = (f, cs1)" by (cases "parse_filler cs")
    obtain w cs2 where pm: "parse_min 0 cs1 = (w, cs2)" by (cases "parse_min 0 cs1")
    from True 2 pf pm show ?thesis
      by (auto split: list.splits option.splits prod.splits
          dest: cursor_io_directive intro: cursor_io_trans cursor_io_putchar)
  qed
qed

lemma cursor_io_printk: "cursor_io s (printk fmt args s)"
  by (auto simp: printk_def printf_def vprintf_def split: option.split
      dest: cursor_io_vprintf_loop intro: cursor_io_same)

section \<open>Numerals\<close>

text \<open>The digits of a number, most significant first.\<close>

fun numeral_of :: "nat \<Rightarrow> nat \<Rightarrow> nat list" where
  "numeral_of r x = (if r < 2 \<or> x < r then [x] else numeral_of r (x div r) @ [x mod r])"

declare numeral_of.simps [simp del]

definition digit_char :: "u8 \<Rightarrow> nat \<Rightarrow> u8" where
  "digit_char alpha d = (if d < 10 then 48 + of_nat d else alpha + of_nat d - 10)"

lemma numeral_of_value:
  "foldl (\<lambda>acc d. acc * r + d) 0 (numeral_of r x) = x"
proof (induction r x rule: numeral_of.induct)
  case (1 r x)
  then show ?case by (subst numeral_of.simps) simp
qed

lemma numeral_of_digits: "2 \<le> r \<Longrightarrow> d \<in> set (numeral_of r x) \<Longrightarrow> d < r"
proof (induction r x rule: numeral_of.induct)
  case (1 r x)
  show ?case
  proof (cases "x < r")
    case True
    with 1 show ?thesis by (simp add: numeral_of.simps [of r x])
  next
    case False
    with 1 show ?thesis by (auto simp: numeral_of.simps [of r x])
  qed
qed

lemma numeral_of_length:
  "2 \<le> r \<Longrightarrow> x < r ^ Suc k \<Longrightarrow> length (numeral_of r x) \<le> Suc k"
proof (induction k arbitrary: x)
  case 0
  then show ?case by (simp add: numeral_of.simps [of r x])
next
  case (Suc k)
  have "x div r < r ^ Suc k"
    using Suc.prems by (simp add: less_mult_imp_div_less mult.commute)
  with Suc.IH Suc.prems(1) show ?case by (simp add: numeral_of.simps [of r x])
qed

lemma numeral_of_hd: "2 \<le> r \<Longrightarrow> 0 < x \<Longrightarrow> hd (numeral_of r x) \<noteq> 0"
proof (induction r x rule: numeral_of.induct)
  case (1 r x)
  show ?case
  proof (cases "x < r")
    case True
    with 1 show ?thesis by (simp add: numeral_of.simps [of r x])
  next
    case False
    moreover have "numeral_of r (x div r) \<noteq> []" by (subst numeral_of.simps) simp
    moreover have "0 < x div r" using False 1 by (simp add: div_greater_zero_iff)
    ultimately show ?thesis using 1 by (simp add: numeral_of.simps [of r x])
  qed
qed

lemma digits_loop_numeral:
  assumes "2 \<le> unat r"
  shows "digits_loop x r alpha =
    Some (rev (map (digit_char alpha) (numeral_of (unat r) (unat x))))"
proof (induction "unat x" arbitrary: x rule: less_induct)
  case less
  let ?d = "unat x mod unat r"
  have d: "(x mod r < 10) = (?d < 10)" by (simp add: word_less_nat_alt unat_mod)
  have c: "(ucast (x mod r) :: u8) = of_nat ?d" by (simp add: unat_mod [symmetric])
  have c1: "(if x mod r < 10 then 48 + ucast (x mod r) else alpha + ucast (x mod r) - 10)
      = digit_char alpha ?d" unfolding d c digit_char_def by (rule refl)
  show ?case
  proof (cases "x div r = 0")
    case True
    then have "unat x div unat r = 0" by (metis unat_0 unat_div)
    then have "unat x < unat r" using assms by (simp add: div_eq_0_iff)
    with True c1 show ?thesis
      by (simp add: digits_loop.simps [of x r] numeral_of.simps [of "unat r"] Let_def)
  next
    case False
    then have "unat x div unat r \<noteq> 0" by (metis unat_0 unat_div word_unat_eq_iff)
    then have ge: "\<not> unat x < unat r" by auto
    then have "unat (x div r) < unat x" using assms by (simp add: unat_div)
    then have "digits_loop (x div r) r alpha =
        Some (rev (map (digit_char alpha) (numeral_of (unat r) (unat (x div r)))))"
      by (rule less)
    with False c1 ge assms show ?thesis
      by (simp add: digits_loop.simps [of x r] numeral_of.simps [of "unat r" "unat x"] Let_def unat_div)
  qed
qed

section \<open>The bytes a format prints\<close>

text \<open>
  \<open>render\<close> is the specification of \<open>vprintf\<close>: the returned count and the bytes printed, for
  formats whose arguments match and that neither follow a \<open>%s\<close> pointer into memory nor store
  through \<open>%n\<close>.
\<close>

definition pad :: "int \<Rightarrow> u8 \<Rightarrow> u8 list \<Rightarrow> u8 list" where
  "pad w f ds = replicate (nat (w - int (length ds))) f @ ds"

definition render_num ::
    "nat \<Rightarrow> u8 \<Rightarrow> int \<Rightarrow> u8 \<Rightarrow> va list \<Rightarrow> int \<Rightarrow> (va list \<times> int \<times> u8 list) option" where
  "render_num r alpha w f args n =
     (case args of
        Word d # args' \<Rightarrow>
          (let out = pad w f (map (digit_char alpha) (numeral_of r (unat d)))
           in Some (args', n + int (length out), out))
      | _ \<Rightarrow> None)"

definition with_prefix :: "u8 list \<Rightarrow> (va list \<times> int \<times> u8 list) option \<Rightarrow> (va list \<times> int \<times> u8 list) option" where
  "with_prefix bs = map_option (\<lambda>(as, n, out). (as, n, bs @ out))"

definition render_directive ::
    "u8 \<Rightarrow> int \<Rightarrow> u8 \<Rightarrow> va list \<Rightarrow> int \<Rightarrow> (va list \<times> int \<times> u8 list) option" where
  "render_directive d w f args n =
     (if d = 0x25 then Some (args, n + 1, [0x25])
      else if d = 0x73 then
        (case args of Str bs # args' \<Rightarrow> Some (args', n + int (length bs), bs) | _ \<Rightarrow> None)
      else if d = 0x63 then
        (case args of Word c # args' \<Rightarrow> Some (args', n + 1, [ucast c]) | _ \<Rightarrow> None)
      else if d = 0x64 \<or> d = 0x69 then
        (case args of
           Word x # args' \<Rightarrow>
             if x <s 0 then with_prefix [0x2d] (render_num 10 0 w f (Word (- x) # args') (n + 1))
             else render_num 10 0 w f args n
         | _ \<Rightarrow> None)
      else if d = 0x75 then render_num 10 0 w f args n
      else if d = 0x70 then with_prefix [0x30, 0x78] (render_num 16 0x61 w f args (n + 2))
      else if d = 0x78 then render_num 16 0x61 w f args n
      else if d = 0x58 then render_num 16 0x41 w f args n
      else if d = 0x6f then render_num 8 0 w f args n
      else if d = 0x6e then None
      else Some (args, n, [d]))"

function render :: "u8 list \<Rightarrow> va list \<Rightarrow> int \<Rightarrow> (int \<times> u8 list) option" where
  "render [] args n = Some (n, [])"
| "render (c # cs) args n =
     (if c \<noteq> 0x25 then map_option (\<lambda>(k, out). (k, c # out)) (render cs args (n + 1))
      else let (f, cs1) = parse_filler cs; (w, cs2) = parse_min 0 cs1 in
        (case cs2 of
           [] \<Rightarrow> Some (n + 1, [0x25])
         | d # cs3 \<Rightarrow>
             (case render_directive d w f args n of
                None \<Rightarrow> None
              | Some (args', n', out) \<Rightarrow>
                  map_option (\<lambda>(k, out'). (k, out @ out')) (render cs3 args' n'))))"
  by pat_completeness auto
termination
  by (relation "measure (\<lambda>(cs, _). length cs)")
     (auto dest!: parse_min_length [OF sym] parse_filler_length [OF sym])

lemma putchar_screen: "console_ok s \<Longrightarrow> screen_of (putchar ch s) = screen_put ch (screen_of s)"
  by (simp add: putchar_def Let_def vga.put_view)

lemma putchar_ok: "console_ok s \<Longrightarrow> console_ok (putchar ch s)"
  by (simp add: putchar_def Let_def vga.put_ok)

interpretation con: char_sink putchar console_ok screen_of screen_put
  by unfold_locales (simp_all add: putchar_ok putchar_screen)

text \<open>
  \<open>prints s out t\<close>: from a well-formed console \<open>s\<close>, exactly \<open>out\<close> has been put on the screen in \<open>t\<close>, and no
  memory outside the text buffer has been written.
\<close>

definition prints :: "'a console_scheme \<Rightarrow> u8 list \<Rightarrow> 'a console_scheme \<Rightarrow> bool" where
  "prints s out t \<longleftrightarrow> (console_ok s \<longrightarrow>
     console_ok t \<and> screen_of t = fold screen_put out (screen_of s) \<and> vga_buffer t = vga_buffer s
     \<and> (\<forall>x. \<not> in_region (vga_buffer s) 4000 x \<longrightarrow> ram t x = ram s x))"

lemma prints_trans: "prints s a t \<Longrightarrow> prints t b u \<Longrightarrow> prints s (a @ b) u"
  by (simp add: prints_def)

lemma prints_Nil: "prints s [] s"
  by (simp add: prints_def)

lemma prints_putchar: "prints s [c] (putchar c s)"
  by (simp add: prints_def vga.put_ok vga.put_view putchar_def Let_def tty_putchar_outside frame)

lemma prints_fold: "prints s cs (fold putchar cs s)"
proof (induction cs arbitrary: s)
  case (Cons c cs)
  from prints_trans [OF prints_putchar Cons.IH] show ?case by simp
qed (simp add: prints_Nil)

lemma prints_puts_lit: "prints s bs (snd (puts_lit bs s))"
  by (simp add: prints_def puts_lit_def Let_def vga.fold_put_ok vga.fold_put_view fold_putchar_outside frame)

lemma putiradix_prints:
  assumes "2 \<le> unat r"
  shows "\<exists>s'. putiradix x r alpha w f s =
      Some (int (length (pad w f (map (digit_char alpha) (numeral_of (unat r) (unat x))))), s')
    \<and> prints s (pad w f (map (digit_char alpha) (numeral_of (unat r) (unat x)))) s'"
proof -
  let ?ds = "map (digit_char alpha) (numeral_of (unat r) (unat x))"
  have "putiradix x r alpha w f s =
      Some (if w > int (length ?ds) then w else int (length ?ds), fold putchar (pad w f ?ds) s)"
    by (simp add: putiradix_def digits_loop_numeral [OF assms] pad_def Let_def)
  moreover have "(if w > int (length ?ds) then w else int (length ?ds)) = int (length (pad w f ?ds))"
    by (simp add: pad_def)
  ultimately show ?thesis using prints_fold by auto
qed

lemma num_arg_prints:
  assumes "render_num (unat r) alpha w f args n = Some (args', n', out)" "2 \<le> unat r"
  shows "\<exists>s'. num_arg r alpha w f args n s = Some (args', n', s') \<and> prints s out s'"
  using assms(1) putiradix_prints [OF assms(2), of _ alpha w f s]
  by (fastforce simp: render_num_def num_arg_def Let_def split: list.splits va.splits)

lemma num_arg_prints10:
  "render_num 10 alpha w f args n = Some (args', n', out) \<Longrightarrow>
     \<exists>s'. num_arg 10 alpha w f args n s = Some (args', n', s') \<and> prints s out s'"
  using num_arg_prints [of 10] by simp

lemma num_arg_prints16:
  "render_num 16 alpha w f args n = Some (args', n', out) \<Longrightarrow>
     \<exists>s'. num_arg 16 alpha w f args n s = Some (args', n', s') \<and> prints s out s'"
  using num_arg_prints [of 16] by simp

lemma num_arg_prints8:
  "render_num 8 alpha w f args n = Some (args', n', out) \<Longrightarrow>
     \<exists>s'. num_arg 8 alpha w f args n s = Some (args', n', s') \<and> prints s out s'"
  using num_arg_prints [of 8] by simp

lemma directive_signed:
  assumes "x <s 0" "with_prefix [0x2d] (render_num 10 0 w f (Word (- x) # as) (n + 1)) = Some (args', n', out)"
  shows "\<exists>s'. num_arg 10 0 w f (Word (- x) # as) (n + 1) (putchar 0x2d s) = Some (args', n', s')
    \<and> prints s out s'"
proof -
  from assms(2) obtain out' where out: "out = [0x2d] @ out'"
    and r: "render_num 10 0 w f (Word (- x) # as) (n + 1) = Some (args', n', out')"
    by (auto simp: with_prefix_def)
  from num_arg_prints10 [OF r, of "putchar 0x2d s"] show ?thesis
    unfolding out by (blast intro: prints_trans prints_putchar)
qed

lemma directive_pointer:
  assumes "with_prefix [0x30, 0x78] (render_num 16 0x61 w f args (n + 2)) = Some (args', n', out)"
  shows "\<exists>s'. (let (k, t) = puts_lit [0x30, 0x78] s in num_arg 16 0x61 w f args (n + k) t)
      = Some (args', n', s') \<and> prints s out s'"
proof -
  from assms obtain out' where out: "out = [0x30, 0x78] @ out'"
    and r: "render_num 16 0x61 w f args (n + 2) = Some (args', n', out')"
    by (auto simp: with_prefix_def)
  have k: "puts_lit [0x30, 0x78] s = (2, snd (puts_lit [0x30, 0x78] s))"
    by (simp add: puts_lit_def Let_def)
  from num_arg_prints16 [OF r, of "snd (puts_lit [0x30, 0x78] s)"] show ?thesis
    unfolding out by (subst k) (auto intro: prints_trans prints_puts_lit simp del: append.simps)
qed

lemma directive_prints:
  assumes "render_directive d w f args n = Some (args', n', out)"
  shows "\<exists>s'. directive d w f args n s = Some (args', n', s') \<and> prints s out s'"
proof -
  consider "d = 0x25" | "d = 0x73" | "d = 0x63" | "d = 0x64 \<or> d = 0x69" | "d = 0x75" | "d = 0x70"
    | "d = 0x78" | "d = 0x58" | "d = 0x6f" | "d = 0x6e"
    | "d \<noteq> 0x25" "d \<noteq> 0x73" "d \<noteq> 0x63" "d \<noteq> 0x64" "d \<noteq> 0x69" "d \<noteq> 0x75" "d \<noteq> 0x70"
      "d \<noteq> 0x78" "d \<noteq> 0x58" "d \<noteq> 0x6f" "d \<noteq> 0x6e"
    by metis
  then show ?thesis
  proof cases
    case 2
    with assms show ?thesis
      by (auto simp: render_directive_def directive_def Let_def puts_lit_def split: list.splits va.splits)
         (use prints_puts_lit in \<open>simp add: puts_lit_def Let_def\<close>)
  next
    case 4
    with assms show ?thesis
      by (auto simp: render_directive_def directive_def split: list.splits va.splits if_splits
          intro: directive_signed num_arg_prints10)
  next
    case 6
    with assms have "with_prefix [0x30, 0x78] (render_num 16 0x61 w f args (n + 2))
        = Some (args', n', out)" by (simp add: render_directive_def)
    from directive_pointer [OF this] 6 show ?thesis by (simp add: directive_def)
  qed (use assms prints_putchar in \<open>auto simp: render_directive_def directive_def
        intro: num_arg_prints10 num_arg_prints16 num_arg_prints8 split: list.splits va.splits\<close>)
qed

lemma vprintf_loop_prints:
  assumes "render cs args n = Some (n', out)"
  shows "\<exists>s'. vprintf_loop cs args n s = Some (n', s') \<and> prints s out s'"
  using assms
proof (induction cs args n arbitrary: n' out s rule: render.induct)
  case (1 args n)
  then show ?case by (simp add: prints_Nil)
next
  case (2 c cs args n)
  show ?case
  proof (cases "c = 0x25")
    case False
    with 2(3) obtain out' where out: "out = [c] @ out'" "render cs args (n + 1) = Some (n', out')"
      by auto
    with 2(1) [OF False out(2), of "putchar c s"] False show ?thesis
      by (auto intro: prints_trans prints_putchar simp del: append.simps)
  next
    case True
    obtain f cs1 where pf: "parse_filler cs = (f, cs1)" by (cases "parse_filler cs")
    obtain w cs2 where pm: "parse_min 0 cs1 = (w, cs2)" by (cases "parse_min 0 cs1")
    show ?thesis
    proof (cases cs2)
      case Nil
      with True 2(3) pf pm show ?thesis using prints_putchar [of s "0x25"] by simp
    next
      case (Cons d cs3)
      with True 2(3) pf pm obtain args1 n1 out1 out2
        where d: "render_directive d w f args n = Some (args1, n1, out1)"
          and r: "render cs3 args1 n1 = Some (n', out2)" and out: "out = out1 @ out2"
        by (auto split: option.splits)
      from directive_prints [OF d, of s] obtain s1
        where s1: "directive d w f args n s = Some (args1, n1, s1)" "prints s out1 s1" by blast
      have "\<exists>s'. vprintf_loop cs3 args1 n1 s1 = Some (n', s') \<and> prints s1 out2 s'"
        using 2(2) True pf pm Cons d r by force
      with True pf pm Cons s1 out show ?thesis by (auto intro: prints_trans)
    qed
  qed
qed

lemma unat_neg:
  fixes w :: u32
  assumes "w <s 0"
  shows "int (unat (- w)) = - sint w"
proof -
  have neg: "sint w < 0" using assms by (simp add: word_sless_alt)
  have ge: "- 2147483648 \<le> sint w" using sint_greater_eq [of w] by simp
  have "- w = word_of_int (- sint w)" by simp
  then have "uint (- w) = take_bit 32 (- sint w)" by (simp only: uint_word_of_int_eq) simp
  also have "\<dots> = - sint w" using neg ge by (simp add: take_bit_eq_mod)
  finally show ?thesis by simp
qed

text \<open>The signed decimal numeral of an integer.\<close>

definition decimal :: "int \<Rightarrow> u8 list" where
  "decimal i = (if i < 0 then [0x2d] else []) @ map (digit_char 0) (numeral_of 10 (nat \<bar>i\<bar>))"

lemma render_percent_d: "render (lit ''%d'') [Word w] 0 = Some (int (length (decimal (sint w))), decimal (sint w))"
proof -
  have fmt: "lit ''%d'' = [0x25, 0x64]" by code_simp
  have neg: "w <s 0 \<longleftrightarrow> sint w < 0" by (simp add: word_sless_alt)
  have "unat (- w) = nat (- sint w)" if "sint w < 0" using unat_neg [of w] that neg by (simp flip: nat_uint_eq)
  moreover have "unat w = nat (sint w)" if "\<not> sint w < 0"
  proof -
    have "sint w < 2147483648" using sint_less [of w] by simp
    with that show ?thesis by (simp add: uint_sint take_bit_eq_mod flip: nat_uint_eq)
  qed
  ultimately show ?thesis
    unfolding fmt neg
    by (simp add: parse_filler_def render_directive_def render_num_def with_prefix_def pad_def decimal_def neg)
qed

section \<open>Properties\<close>

text \<open>
  C23. The number conversion behind every numeric directive returns for each radix from 8 on, never
  stores more than the 11 bytes of its \<open>digits\<close> array, and stores the numeral of \<open>x\<close>: digits
  below the radix whose positional value is \<open>x\<close>, without a leading zero.
\<close>

theorem digits_fit_and_denote:
  assumes "8 \<le> unat r"
  shows "\<exists>ds. digits_loop x r alpha = Some (rev (map (digit_char alpha) ds))
    \<and> length ds \<le> 11 \<and> (\<forall>d\<in>set ds. d < unat r)
    \<and> foldl (\<lambda>acc d. acc * unat r + d) 0 ds = unat x \<and> (x \<noteq> 0 \<longrightarrow> hd ds \<noteq> 0)"
proof (intro exI conjI ballI impI)
  let ?ds = "numeral_of (unat r) (unat x)"
  show "digits_loop x r alpha = Some (rev (map (digit_char alpha) ?ds))"
    using assms by (intro digits_loop_numeral) simp
  have "unat x < 8 ^ Suc 10" by (rule less_le_trans [OF unat_lt_2p32]) simp
  also have "\<dots> \<le> unat r ^ Suc 10" using assms by (rule power_mono) simp
  finally show "length ?ds \<le> 11"
    using numeral_of_length [of "unat r" "unat x" 10] assms by simp
  show "d < unat r" if "d \<in> set ?ds" for d using that assms by (intro numeral_of_digits) auto
  show "foldl (\<lambda>acc d. acc * unat r + d) 0 ?ds = unat x" by (rule numeral_of_value)
  show "hd ?ds \<noteq> 0" if "x \<noteq> 0" using that assms by (intro numeral_of_hd) (auto simp: unat_gt_0)
qed

theorem digits_fit_and_denote_witness:
  "\<exists>ds. digits_loop 0xffffffff 8 0 = Some (rev (map (digit_char 0) ds)) \<and> length ds \<le> 11"
  using digits_fit_and_denote [of 8 "0xffffffff" 0] by auto



text \<open>
  \<open>printf("%d", w)\<close> shows the signed decimal numeral of every 32-bit integer, INT_MIN included,
  and returns its length.
\<close>

theorem printf_decimal:
  assumes "console_ok s"
  shows "\<exists>s'. printf ''%d'' [Word w] s = Some (int (length (decimal (sint w))), s')
    \<and> screen_of s' = fold screen_put (decimal (sint w)) (screen_of s)"
  using vprintf_loop_prints [OF render_percent_d, of w s] assms
  by (auto simp: printf_def vprintf_def prints_def)

theorem printf_decimal_witness:
  "\<exists>s'. printf ''%d'' [Word 0x80000000] (console_start (\<lambda>_. 0) (\<lambda>_ _. 0)) = Some (11, s')
     \<and> screen_of s' = fold screen_put (lit ''-2147483648'') (screen_of (console_start (\<lambda>_. 0) (\<lambda>_ _. 0)))"
proof -
  have "decimal (sint (0x80000000 :: u32)) = lit ''-2147483648''"
    by (simp add: decimal_def numeral_of.simps digit_char_def lit_def)
  moreover have "length (lit ''-2147483648'') = 11" by code_simp
  moreover have "console_ok (console_start (\<lambda>_. 0) (\<lambda>_ _. 0))"
    by (simp add: console_ok_def console_start_def)
  ultimately show ?thesis
    using printf_decimal [of "console_start (\<lambda>_. 0) (\<lambda>_ _. 0)" "0x80000000"] by simp
qed

end
