(* ===== verification/Device_Table.thy ===== *)
theory Device_Table
  imports Stdio
begin

text \<open>
  kernel/drivers/driver.c with drivers/driver.h and drivers/major.h: device numbers, the two tables
  of 256 driver pointers and the dispatch of reads and writes through them. A driver pointer is the
  address of a static struct; what struct lives there is the parameter \<open>cdrv\<close> (or \<open>bdrv\<close>), the
  record of the driver's functions, over an arbitrary state. A block driver may trap (a division by
  zero), which is \<open>None\<close>.
\<close>

section \<open>Device numbers\<close>

definition DEV :: "u32 \<Rightarrow> u32 \<Rightarrow> dev_t" where
  "DEV major minor = push_bit 8 minor OR major"

definition MAJOR :: "dev_t \<Rightarrow> u8" where
  "MAJOR dev = ucast dev"

definition MINOR :: "dev_t \<Rightarrow> u32" where
  "MINOR dev = drop_bit 8 dev"

abbreviation (input) NULL_DEV :: dev_t where "NULL_DEV \<equiv> 0"
abbreviation (input) CHR_MEMDEV :: u8 where "CHR_MEMDEV \<equiv> 1"
abbreviation (input) CHR_TTY :: u8 where "CHR_TTY \<equiv> 2"
abbreviation (input) BLK_RAMDISK :: u8 where "BLK_RAMDISK \<equiv> 1"

section \<open>Driver structs and tables\<close>

record 's char_driver =
  cd_read :: "dev_t \<Rightarrow> off_t \<Rightarrow> addr \<Rightarrow> u32 \<Rightarrow> 's \<Rightarrow> int \<times> 's"
  cd_write :: "dev_t \<Rightarrow> off_t \<Rightarrow> addr \<Rightarrow> u32 \<Rightarrow> 's \<Rightarrow> int \<times> 's"

record 's block_driver =
  bd_getblksize :: "dev_t \<Rightarrow> 's \<Rightarrow> blksize_t"
  bd_readblk :: "dev_t \<Rightarrow> blkcnt_t \<Rightarrow> addr \<Rightarrow> 's \<Rightarrow> (int \<times> 's) option"
  bd_writeblk :: "dev_t \<Rightarrow> blkcnt_t \<Rightarrow> addr \<Rightarrow> 's \<Rightarrow> (int \<times> 's) option"

record drvtab = console +
  char_drivers :: "u8 \<Rightarrow> addr"
  block_drivers :: "u8 \<Rightarrow> addr"

definition char_taken_msg :: string where
  "char_taken_msg = ''err: device number taken: %d char'' @ [CHR 0x0A, CHR 0x09] @ ''driver 1: %p''
     @ [CHR 0x0A, CHR 0x09] @ ''driver 2: %p'' @ [CHR 0x0A]"

definition block_taken_msg :: string where
  "block_taken_msg = ''err: device number taken: %d block'' @ [CHR 0x0A, CHR 0x09] @ ''driver 1: %p''
     @ [CHR 0x0A, CHR 0x09] @ ''driver 2: %p'' @ [CHR 0x0A]"

definition register_char_driver :: "u8 \<Rightarrow> addr \<Rightarrow> 'a drvtab_scheme \<Rightarrow> 'a drvtab_scheme" where
  "register_char_driver major dr s =
     (if char_drivers s major \<noteq> NULL
      then printk char_taken_msg [Word (ucast major), Word (char_drivers s major), Word dr] s
      else s\<lparr>char_drivers := (char_drivers s)(major := dr)\<rparr>)"

definition register_block_driver :: "u8 \<Rightarrow> addr \<Rightarrow> 'a drvtab_scheme \<Rightarrow> 'a drvtab_scheme" where
  "register_block_driver major dr s =
     (if block_drivers s major \<noteq> NULL
      then printk block_taken_msg [Word (ucast major), Word (block_drivers s major), Word dr] s
      else s\<lparr>block_drivers := (block_drivers s)(major := dr)\<rparr>)"

section \<open>Dispatch\<close>

definition read_char ::
    "(addr \<Rightarrow> 'a drvtab_scheme char_driver) \<Rightarrow> dev_t \<Rightarrow> off_t \<Rightarrow> addr \<Rightarrow> u32
      \<Rightarrow> 'a drvtab_scheme \<Rightarrow> int \<times> 'a drvtab_scheme" where
  "read_char cdrv dev pos buf n s =
     (if char_drivers s (MAJOR dev) = NULL then (- ENODEV, s)
      else cd_read (cdrv (char_drivers s (MAJOR dev))) dev pos buf n s)"

definition write_char ::
    "(addr \<Rightarrow> 'a drvtab_scheme char_driver) \<Rightarrow> dev_t \<Rightarrow> off_t \<Rightarrow> addr \<Rightarrow> u32
      \<Rightarrow> 'a drvtab_scheme \<Rightarrow> int \<times> 'a drvtab_scheme" where
  "write_char cdrv dev pos buf n s =
     (if char_drivers s (MAJOR dev) = NULL then (- ENODEV, s)
      else cd_write (cdrv (char_drivers s (MAJOR dev))) dev pos buf n s)"

definition getblksize ::
    "(addr \<Rightarrow> 'a drvtab_scheme block_driver) \<Rightarrow> dev_t \<Rightarrow> 'a drvtab_scheme \<Rightarrow> blksize_t" where
  "getblksize bdrv dev s =
     (if block_drivers s (MAJOR dev) = NULL then 0
      else bd_getblksize (bdrv (block_drivers s (MAJOR dev))) dev s)"

definition read_block ::
    "(addr \<Rightarrow> 'a drvtab_scheme block_driver) \<Rightarrow> dev_t \<Rightarrow> blkcnt_t \<Rightarrow> addr
      \<Rightarrow> 'a drvtab_scheme \<Rightarrow> (int \<times> 'a drvtab_scheme) option" where
  "read_block bdrv dev blk buf s =
     (if block_drivers s (MAJOR dev) = NULL then Some (- ENODEV, s)
      else bd_readblk (bdrv (block_drivers s (MAJOR dev))) dev blk buf s)"

definition write_block ::
    "(addr \<Rightarrow> 'a drvtab_scheme block_driver) \<Rightarrow> dev_t \<Rightarrow> blkcnt_t \<Rightarrow> addr
      \<Rightarrow> 'a drvtab_scheme \<Rightarrow> (int \<times> 'a drvtab_scheme) option" where
  "write_block bdrv dev blk buf s =
     (if block_drivers s (MAJOR dev) = NULL then Some (- ENODEV, s)
      else bd_writeblk (bdrv (block_drivers s (MAJOR dev))) dev blk buf s)"

section \<open>Registries\<close>

text \<open>
  Both tables keep one contract: a free slot takes the driver, a taken slot keeps its first
  driver, and no other slot changes.
\<close>

locale registry =
  fixes reg :: "u8 \<Rightarrow> addr \<Rightarrow> 's \<Rightarrow> 's"
    and slot :: "'s \<Rightarrow> u8 \<Rightarrow> addr"
  assumes reg_free: "slot s m = 0 \<Longrightarrow> slot (reg m d s) m = d"
    and reg_taken: "slot s m \<noteq> 0 \<Longrightarrow> slot (reg m d s) m = slot s m"
    and reg_other: "m' \<noteq> m \<Longrightarrow> slot (reg m d s) m' = slot s m'"
begin

lemma reg_all_first:
  assumes "0 \<notin> snd ` set rs"
  shows "slot (fold (\<lambda>(m, d). reg m d) rs s) m =
    (if slot s m \<noteq> 0 then slot s m else case map_of rs m of None \<Rightarrow> 0 | Some d \<Rightarrow> d)"
  using assms
proof (induction rs arbitrary: s)
  case Nil
  then show ?case by simp
next
  case (Cons r rs)
  obtain m' d where r: "r = (m', d)" by (cases r)
  from Cons.prems r have "d \<noteq> 0" and IH: "0 \<notin> snd ` set rs" by auto
  then show ?case
    using Cons.IH [OF IH, of "reg m' d s"] r reg_free [of s m' d] reg_taken [of s m' d]
      reg_other [of m m' d s]
    by (cases "m = m'"; cases "slot s m' = 0") auto
qed

end

lemma drvtab_printk [simp]:
  "char_drivers (printk f a s) = char_drivers s" "block_drivers (printk f a s) = block_drivers s"
  using printk_frames(3) [of f a s] by (cases s, cases "printk f a s"; simp)+

interpretation char_reg: registry register_char_driver char_drivers
  by unfold_locales (simp_all add: register_char_driver_def)

interpretation block_reg: registry register_block_driver block_drivers
  by unfold_locales (simp_all add: register_block_driver_def)

section \<open>Properties\<close>

lemma MAJOR_DEV: "unat major < 256 \<Longrightarrow> MAJOR (DEV major minor) = ucast major"
  by (rule bit_word_eqI) (auto simp: MAJOR_def DEV_def bit_ucast_iff bit_or_iff bit_push_bit_iff)

lemma high_bits_zero:
  assumes "unat (w :: u32) < 2 ^ k" "k \<le> n"
  shows "\<not> bit w n"
proof
  assume "bit w n"
  then have b: "bit (unat w) n" by (simp add: bit_unsigned_iff bit_imp_le_length)
  have "unat w < 2 ^ n" using assms by (meson less_le_trans one_le_numeral power_increasing)
  then have "unat w div 2 ^ n = 0" by simp
  with b show False by (simp add: bit_iff_odd)
qed

lemma MINOR_DEV:
  assumes "unat major < 256" "unat minor < 16777216"
  shows "MINOR (DEV major minor) = minor"
proof (rule bit_word_eqI)
  fix n assume n: "n < LENGTH(32)"
  have "\<not> bit major (8 + n)" by (rule high_bits_zero [of _ 8]) (use assms in simp_all)
  moreover have "n < 24" if "bit minor n"
    using that assms high_bits_zero [of minor 24 n] by (cases "24 \<le> n") simp_all
  ultimately show "bit (MINOR (DEV major minor)) n = bit minor n"
    using n by (auto simp: MINOR_def DEV_def bit_drop_bit_eq bit_or_iff bit_push_bit_iff)
qed

text \<open>
  Packing a major number below 256 and a minor number below 2^24 into a device number and
  taking it apart again gives both back, and the packing is injective on such pairs.
\<close>

theorem dev_roundtrip:
  assumes "unat major < 256" "unat minor < 16777216"
  shows "MAJOR (DEV major minor) = ucast major \<and> MINOR (DEV major minor) = minor"
  using assms by (simp add: MAJOR_DEV MINOR_DEV)

theorem dev_roundtrip_witness: "MAJOR (DEV 2 1) = 2 \<and> MINOR (DEV 2 1) = 1"
  using dev_roundtrip [of 2 1] by simp

text \<open>
  After any sequence of character driver registrations a slot holds the first driver registered
  for it (or the one it held before), so reading through a major number without one is ENODEV and
  reading through any other reaches exactly that first driver.
\<close>

theorem char_registration_first_wins:
  assumes "NULL \<notin> snd ` set rs" "char_drivers s (MAJOR dev) = NULL"
    and "t = fold (\<lambda>(m, d). register_char_driver m d) rs s"
  shows "read_char cdrv dev pos buf n t =
    (case map_of rs (MAJOR dev) of None \<Rightarrow> (- ENODEV, t)
     | Some d \<Rightarrow> cd_read (cdrv d) dev pos buf n t)"
proof -
  have slot: "char_drivers t (MAJOR dev) = (case map_of rs (MAJOR dev) of None \<Rightarrow> 0 | Some d \<Rightarrow> d)"
    using char_reg.reg_all_first [OF assms(1), of s "MAJOR dev"] assms(2,3) by simp
  moreover have "d \<noteq> 0" if "map_of rs (MAJOR dev) = Some d" for d
    using assms(1) map_of_SomeD [OF that] by force
  ultimately show ?thesis by (auto simp: read_char_def split: option.splits)
qed

theorem char_registration_first_wins_witness:
  "fst (read_char (\<lambda>_. \<lparr>cd_read = \<lambda>_ _ _ n s. (7, s), cd_write = \<lambda>_ _ _ n s. (8, s)\<rparr>) (DEV 2 0) 0 0 1
     (register_char_driver 2 0x2000 (register_char_driver 1 0x1000
       (console.extend (console_start (\<lambda>_. 0) (\<lambda>_ _. 0)) (drvtab.fields (\<lambda>_. 0) (\<lambda>_. 0)))))) = 7"
  using char_registration_first_wins [of "[(1, 0x1000), (2, 0x2000)]"
      "console.extend (console_start (\<lambda>_. 0) (\<lambda>_ _. 0)) (drvtab.fields (\<lambda>_. 0) (\<lambda>_. 0))" "DEV 2 0" _
      "\<lambda>_. \<lparr>cd_read = \<lambda>_ _ _ n s. (7, s), cd_write = \<lambda>_ _ _ n s. (8, s)\<rparr>" 0 0 1]
  by (simp add: console.extend_def console_start_def drvtab.fields_def MAJOR_DEV)

end
