(* ===== verification/Ramdisk.thy ===== *)
theory Ramdisk
  imports Device_Table
begin

text \<open>
  kernel/drivers/block/ramdisk.c: RAM disks as block devices. The table of eight disks and the
  counter of used entries extend the kernel state; the blocks are bytes of the flat memory. A read
  from a disk with block size 0 divides by zero, which is \<open>None\<close>.
\<close>

section \<open>State and operations\<close>

abbreviation (input) MAX_RAMDISK :: nat where "MAX_RAMDISK \<equiv> 8"

record ramdisk =
  rd_blksize :: blksize_t
  rd_bufs :: addr
  rd_size :: u32

record rdtab = drvtab +
  ramdisks :: "ramdisk list"
  rd_idx :: nat

definition add_ramdisk ::
    "blksize_t \<Rightarrow> addr \<Rightarrow> u32 \<Rightarrow> 'a rdtab_scheme \<Rightarrow> dev_t \<times> 'a rdtab_scheme" where
  "add_ramdisk bs bufs sz s =
     (if rd_idx s \<ge> MAX_RAMDISK then (NULL_DEV, s)
      else (DEV (ucast BLK_RAMDISK) (of_nat (rd_idx s)),
            s\<lparr>ramdisks := (ramdisks s)[rd_idx s := \<lparr>rd_blksize = bs, rd_bufs = bufs, rd_size = sz\<rparr>],
              rd_idx := rd_idx s + 1\<rparr>))"

definition ramdisk_getblksize :: "dev_t \<Rightarrow> 'a rdtab_scheme \<Rightarrow> blksize_t" where
  "ramdisk_getblksize dev s =
     (let m = unat (MINOR dev) in
      if m \<ge> MAX_RAMDISK then 0
      else if rd_bufs (ramdisks s ! m) = NULL then 0
      else rd_blksize (ramdisks s ! m))"

definition ramdisk_readblk ::
    "dev_t \<Rightarrow> blkcnt_t \<Rightarrow> addr \<Rightarrow> 'a rdtab_scheme \<Rightarrow> (int \<times> 'a rdtab_scheme) option" where
  "ramdisk_readblk dev blk buf s =
     (let m = unat (MINOR dev); d = ramdisks s ! m in
      if m \<ge> MAX_RAMDISK then Some (- ENODEV, s)
      else if rd_bufs d = NULL then Some (- ENODEV, s)
      else if rd_blksize d = 0 then None
      else if blk > rd_size d div rd_blksize d then Some (- EFAULT, s)
      else Some (to_int (rd_blksize d),
             s\<lparr>ram := memcpy (ram s) buf (rd_bufs d + blk * rd_blksize d) (rd_blksize d)\<rparr>))"

definition ramdisk_writeblk ::
    "dev_t \<Rightarrow> blkcnt_t \<Rightarrow> addr \<Rightarrow> 'a rdtab_scheme \<Rightarrow> (int \<times> 'a rdtab_scheme) option" where
  "ramdisk_writeblk dev blk buf s =
     (let m = unat (MINOR dev); d = ramdisks s ! m in
      if m \<ge> MAX_RAMDISK then Some (- ENODEV, s)
      else if rd_bufs d = NULL then Some (- ENODEV, s)
      else Some (to_int (rd_blksize d),
             s\<lparr>ram := memcpy (ram s) (rd_bufs d + blk * rd_blksize d) buf (rd_blksize d)\<rparr>))"

definition ramdisk_driver :: "'a rdtab_scheme block_driver" where
  "ramdisk_driver = \<lparr>bd_getblksize = ramdisk_getblksize, bd_readblk = ramdisk_readblk,
     bd_writeblk = ramdisk_writeblk\<rparr>"

definition register_ramdisk_driver :: "addr \<Rightarrow> 'a drvtab_scheme \<Rightarrow> 'a drvtab_scheme" where
  "register_ramdisk_driver ramdisk_driver_addr s =
     register_block_driver BLK_RAMDISK ramdisk_driver_addr s"

section \<open>Block stores\<close>

text \<open>A sequence of writes, each of a block from a buffer.\<close>

primrec write_all ::
    "(blkcnt_t \<Rightarrow> addr \<Rightarrow> 's \<Rightarrow> (int \<times> 's) option) \<Rightarrow> (blkcnt_t \<times> addr) list \<Rightarrow> 's \<Rightarrow> 's option" where
  "write_all wr [] s = Some s"
| "write_all wr (w # ws) s =
     (case wr (fst w) (snd w) s of None \<Rightarrow> None | Some (_, t) \<Rightarrow> write_all wr ws t)"

text \<open>
  The contract of a block device for the blocks and buffers its \<open>ok\<close> admits: a write stores the
  bytes of the buffer in that block and nowhere else, a read delivers the bytes of the block, and
  the bytes of the buffers of later writes survive.
\<close>

locale block_store =
  fixes rd :: "blkcnt_t \<Rightarrow> addr \<Rightarrow> 's \<Rightarrow> (int \<times> 's) option"
    and wr :: "blkcnt_t \<Rightarrow> addr \<Rightarrow> 's \<Rightarrow> (int \<times> 's) option"
    and ok :: "blkcnt_t \<Rightarrow> addr \<Rightarrow> 's \<Rightarrow> bool"
    and block :: "'s \<Rightarrow> blkcnt_t \<Rightarrow> u8 list"
    and buffer :: "'s \<Rightarrow> addr \<Rightarrow> u8 list"
    and count :: "'s \<Rightarrow> int"
  assumes wr_total: "ok b a s \<Longrightarrow> \<exists>t. wr b a s = Some (count s, t)"
    and wr_block: "ok b a s \<Longrightarrow> wr b a s = Some (r, t) \<Longrightarrow> block t b = buffer s a"
    and wr_other: "ok b a s \<Longrightarrow> ok c e s \<Longrightarrow> wr b a s = Some (r, t) \<Longrightarrow> c \<noteq> b \<Longrightarrow> block t c = block s c"
    and wr_buffer: "ok b a s \<Longrightarrow> ok c e s \<Longrightarrow> wr b a s = Some (r, t) \<Longrightarrow> buffer t e = buffer s e"
    and wr_ok: "ok b a s \<Longrightarrow> ok c e s \<Longrightarrow> wr b a s = Some (r, t) \<Longrightarrow> ok c e t \<and> count t = count s"
    and rd_total: "ok b a s \<Longrightarrow> \<exists>t. rd b a s = Some (count s, t) \<and> buffer t a = block s b"
begin

lemma wr_all_block:
  assumes "\<And>c e. (c, e) \<in> set ws \<Longrightarrow> ok c e s" "ok b a s"
  shows "\<exists>t. write_all wr ws s = Some t \<and> ok b a t \<and> count t = count s
    \<and> block t b = (case map_of (rev ws) b of None \<Rightarrow> block s b | Some e \<Rightarrow> buffer s e)"
  using assms
proof (induction ws arbitrary: s)
  case (Cons w ws)
  obtain c e where w: "w = (c, e)" by (cases w)
  with Cons.prems have ce: "ok c e s" by simp
  then obtain t where t: "wr c e s = Some (count s, t)" using wr_total by blast
  have ok: "ok c' e' t" if "(c', e') \<in> set ws" for c' e'
    using wr_ok [OF ce _ t] Cons.prems(1) that by simp
  have okb: "ok b a t" "count t = count s" using wr_ok [OF ce Cons.prems(2) t] by simp_all
  obtain u where u: "write_all wr ws t = Some u" "ok b a u" "count u = count s"
    "block u b = (case map_of (rev ws) b of None \<Rightarrow> block t b | Some e \<Rightarrow> buffer t e)"
    using Cons.IH [OF ok okb(1)] okb(2) by auto
  have "block t b = (if b = c then buffer s e else block s b)"
    using wr_block [OF ce t] wr_other [OF ce Cons.prems(2) t] by simp
  moreover have "buffer t e' = buffer s e'" if "map_of (rev ws) b = Some e'" for e'
  proof -
    from that have "(b, e') \<in> set ws" using map_of_SomeD [OF that] by simp
    with Cons.prems(1) have "ok b e' s" by simp
    then show ?thesis by (rule wr_buffer [OF ce _ t])
  qed
  ultimately have "block u b
      = (case map_of (rev (w # ws)) b of None \<Rightarrow> block s b | Some e \<Rightarrow> buffer s e)"
    using u(4) by (auto simp: w map_add_def split: option.splits)
  then show ?case using u t w by simp
qed simp

lemma last_write_read:
  assumes "\<And>c e. (c, e) \<in> set ws \<Longrightarrow> ok c e s" "ok b a s"
  shows "\<exists>t u. write_all wr ws s = Some t \<and> rd b a t = Some (count s, u)
    \<and> buffer u a = (case map_of (rev ws) b of None \<Rightarrow> block s b | Some e \<Rightarrow> buffer s e)"
proof -
  obtain t where t: "write_all wr ws s = Some t" "ok b a t" "count t = count s"
    "block t b = (case map_of (rev ws) b of None \<Rightarrow> block s b | Some e \<Rightarrow> buffer s e)"
    using wr_all_block [OF assms] by blast
  then show ?thesis using rd_total [OF t(2)] by auto
qed

end

section \<open>RAM disks are block stores\<close>

abbreviation the_disk :: "dev_t \<Rightarrow> 'a rdtab_scheme \<Rightarrow> ramdisk" where
  "the_disk dev s \<equiv> ramdisks s ! unat (MINOR dev)"

text \<open>
  A disk in use that does not run past the end of the address space, one of its blocks, and a
  buffer of the size of a block that is apart from the whole disk.
\<close>

definition disk_ok :: "dev_t \<Rightarrow> blkcnt_t \<Rightarrow> addr \<Rightarrow> 'a rdtab_scheme \<Rightarrow> bool" where
  "disk_ok dev blk a s \<longleftrightarrow> (let d = the_disk dev s in
     unat (MINOR dev) < MAX_RAMDISK \<and> rd_bufs d \<noteq> NULL \<and> rd_blksize d \<noteq> 0
     \<and> unat (rd_bufs d) + unat (rd_size d) \<le> 4294967296
     \<and> (unat blk + 1) * unat (rd_blksize d) \<le> unat (rd_size d)
     \<and> disjoint (rd_bufs d) (unat (rd_size d)) a (unat (rd_blksize d)))"

definition disk_block :: "dev_t \<Rightarrow> 'a rdtab_scheme \<Rightarrow> blkcnt_t \<Rightarrow> u8 list" where
  "disk_block dev s blk = (let d = the_disk dev s in
     read_bytes (ram s) (rd_bufs d + blk * rd_blksize d) (unat (rd_blksize d)))"

definition disk_buffer :: "dev_t \<Rightarrow> 'a rdtab_scheme \<Rightarrow> addr \<Rightarrow> u8 list" where
  "disk_buffer dev s a = read_bytes (ram s) a (unat (rd_blksize (the_disk dev s)))"

definition disk_count :: "dev_t \<Rightarrow> 'a rdtab_scheme \<Rightarrow> int" where
  "disk_count dev s = to_int (rd_blksize (the_disk dev s))"

lemma disjoint_sub:
  assumes "disjoint a n b k" "j + l \<le> n" "n \<le> 4294967296" "0 < l"
  shows "disjoint (a + of_nat j) l b k"
proof -
  have j: "unat (of_nat j :: addr) = j" using assms by (simp add: unat_of_nat32)
  have n: "n \<le> unat (b - a)" and k: "k \<le> unat (a - b)" using assms by (simp_all add: disjoint_def)
  have "unat (b - (a + of_nat j)) = unat ((b - a) - of_nat j)" by (simp add: algebra_simps)
  also have "\<dots> = unat (b - a) - j" using n assms j by (simp add: unat_sub_if')
  finally have 1: "l \<le> unat (b - (a + of_nat j))" using n assms by simp
  have ne: "a \<noteq> b" using n assms by auto
  then have "unat (b - a) + unat (a - b) = 4294967296" by (rule unat_diffs)
  then have "unat (a - b) + j < 4294967296" using n assms by linarith
  moreover have "a + of_nat j - b = (a - b) + of_nat j" by simp
  ultimately have "unat (a + of_nat j - b) = unat (a - b) + j"
    using j by (simp only: unat_add_small)
  with 1 k show ?thesis by (simp add: disjoint_def)
qed

lemma block_start: "b + blk * bs = b + of_nat (unat blk * unat bs)" for b :: addr
  by simp

lemma disk_ok_sub:
  assumes "disk_ok dev blk a s"
  shows "disjoint (rd_bufs (the_disk dev s) + blk * rd_blksize (the_disk dev s))
    (unat (rd_blksize (the_disk dev s))) a (unat (rd_blksize (the_disk dev s)))"
  unfolding block_start
  by (rule disjoint_sub [of _ "unat (rd_size (the_disk dev s))"])
     (use assms in \<open>auto simp: disk_ok_def Let_def unat_gt_0 less_imp_le\<close>)

lemma ramdisk_writeblk_ok:
  assumes "disk_ok dev blk a s"
  shows "ramdisk_writeblk dev blk a s = Some (disk_count dev s,
    s\<lparr>ram := write_bytes (ram s) (rd_bufs (the_disk dev s) + blk * rd_blksize (the_disk dev s))
      (disk_buffer dev s a)\<rparr>)"
  using assms disk_ok_sub [OF assms]
  by (simp add: ramdisk_writeblk_def disk_ok_def Let_def disk_count_def disk_buffer_def memcpy_eq_write_bytes)

lemma disk_block_bound:
  assumes "disk_ok dev blk a s"
  shows "blk \<le> rd_size (the_disk dev s) div rd_blksize (the_disk dev s)"
proof -
  have "0 < unat (rd_blksize (the_disk dev s))"
    "unat blk * unat (rd_blksize (the_disk dev s)) \<le> unat (rd_size (the_disk dev s))"
    using assms by (auto simp: disk_ok_def Let_def unat_gt_0)
  then have "unat blk \<le> unat (rd_size (the_disk dev s)) div unat (rd_blksize (the_disk dev s))"
    by (simp add: less_eq_div_iff_mult_less_eq)
  then show ?thesis by (simp add: word_le_nat_alt unat_div_distrib)
qed

lemma ramdisk_readblk_ok:
  assumes "disk_ok dev blk a s"
  shows "ramdisk_readblk dev blk a s = Some (disk_count dev s,
    s\<lparr>ram := write_bytes (ram s) a (disk_block dev s blk)\<rparr>)"
  using assms disk_ok_sub [OF assms] disk_block_bound [OF assms]
  by (simp add: ramdisk_readblk_def disk_ok_def Let_def disk_count_def disk_block_def
    memcpy_eq_write_bytes disjoint_sym leD)

text \<open>Two blocks of a disk are apart.\<close>

lemma disk_blocks_apart:
  assumes "disk_ok dev b a s" "disk_ok dev c e s" "c \<noteq> b"
  shows "disjoint (rd_bufs (the_disk dev s) + b * rd_blksize (the_disk dev s))
    (unat (rd_blksize (the_disk dev s)))
    (rd_bufs (the_disk dev s) + c * rd_blksize (the_disk dev s)) (unat (rd_blksize (the_disk dev s)))"
proof -
  let ?d = "rd_bufs (the_disk dev s)" and ?n = "unat (rd_blksize (the_disk dev s))"
  have le: "disjoint (?d + of_nat (x * ?n)) ?n (?d + of_nat (y * ?n)) ?n"
    if "x < y" "(y + 1) * ?n \<le> unat (rd_size (the_disk dev s))" for x y
  proof -
    have xy: "x * ?n + ?n \<le> y * ?n" using that(1) mult_le_mono1 [of "Suc x" y ?n] by simp
    have "y * ?n + ?n < 4294967296"
      using that(2) unat_lt_2p32 [of "rd_size (the_disk dev s)"] by (simp add: add.commute del: unat_lt_2p32)
    moreover have "0 < ?n" using assms(1) by (simp add: disk_ok_def Let_def unat_gt_0)
    ultimately show ?thesis using xy by (intro disjoint_offsets)
  qed
  have "unat b < unat c \<or> unat c < unat b" using assms(3) by (metis linorder_neqE_nat word_unat_eq_iff)
  then show ?thesis
    using le [of "unat b" "unat c"] le [of "unat c" "unat b"] assms(1,2)
    unfolding block_start by (auto simp: disk_ok_def Let_def disjoint_sym)
qed

lemma disk_buffer_apart:
  assumes "disk_ok dev b a s" "disk_ok dev c e s"
  shows "disjoint (rd_bufs (the_disk dev s) + b * rd_blksize (the_disk dev s))
    (unat (rd_blksize (the_disk dev s))) e (unat (rd_blksize (the_disk dev s)))"
  by (rule disk_ok_sub) (use assms in \<open>simp add: disk_ok_def Let_def\<close>)

interpretation disk: block_store "ramdisk_readblk dev" "ramdisk_writeblk dev" "disk_ok dev"
  "disk_block dev" "disk_buffer dev" "disk_count dev" for dev
proof unfold_locales
  fix b a c e and s t :: "'a rdtab_scheme" and r
  assume ok: "disk_ok dev b a s"
  let ?n = "unat (rd_blksize (the_disk dev s))"
  have len: "length (disk_buffer dev s a) = ?n" "length (disk_block dev s b) = ?n"
    by (simp_all add: disk_buffer_def disk_block_def Let_def)
  show "\<exists>t. ramdisk_writeblk dev b a s = Some (disk_count dev s, t)"
    by (simp add: ramdisk_writeblk_ok [OF ok])
  show "\<exists>t. ramdisk_readblk dev b a s = Some (disk_count dev s, t)
      \<and> disk_buffer dev t a = disk_block dev s b"
    using len(2) read_write_bytes [of "disk_block dev s b" "ram s" a]
    by (simp add: ramdisk_readblk_ok [OF ok] disk_buffer_def less_imp_le)
  assume wr: "ramdisk_writeblk dev b a s = Some (r, t)"
  then have t: "t = s\<lparr>ram := write_bytes (ram s)
      (rd_bufs (the_disk dev s) + b * rd_blksize (the_disk dev s)) (disk_buffer dev s a)\<rparr>"
    by (simp add: ramdisk_writeblk_ok [OF ok])
  show "disk_block dev t b = disk_buffer dev s a"
    using len(1) read_write_bytes [of "disk_buffer dev s a" "ram s"] by (simp add: t disk_block_def Let_def less_imp_le)
  assume ok': "disk_ok dev c e s"
  show "disk_buffer dev t e = disk_buffer dev s e"
    unfolding t disk_buffer_def using len(1) disk_buffer_apart [OF ok ok']
    by (simp add: read_write_bytes_disjoint less_imp_le disk_buffer_def)
  show "disk_ok dev c e t \<and> disk_count dev t = disk_count dev s"
    using ok' by (simp add: t disk_ok_def disk_count_def)
  assume "c \<noteq> b"
  then show "disk_block dev t c = disk_block dev s c"
    unfolding t using len(1) disk_blocks_apart [OF ok ok']
    by (simp add: disk_block_def Let_def read_write_bytes_disjoint less_imp_le disk_buffer_def)
qed

text \<open>Through the driver table the operations of a disk are those of this file.\<close>

lemma write_block_ramdisk:
  assumes "block_drivers s (MAJOR dev) \<noteq> NULL" "bdrv (block_drivers s (MAJOR dev)) = ramdisk_driver"
  shows "write_block bdrv dev blk a s = ramdisk_writeblk dev blk a s"
    and "read_block bdrv dev blk a s = ramdisk_readblk dev blk a s"
    and "getblksize bdrv dev s = ramdisk_getblksize dev s"
  using assms by (simp_all add: write_block_def read_block_def getblksize_def ramdisk_driver_def)

lemma ramdisk_writeblk_frame:
  "ramdisk_writeblk dev blk a s = Some (r, t) \<Longrightarrow> block_drivers t = block_drivers s \<and> ramdisks t = ramdisks s"
  by (auto simp: ramdisk_writeblk_def Let_def split: if_splits)

lemma write_all_ramdisk:
  assumes "block_drivers s (MAJOR dev) \<noteq> NULL" "bdrv (block_drivers s (MAJOR dev)) = ramdisk_driver"
    "write_all (ramdisk_writeblk dev) ws s = Some t"
  shows "write_all (write_block bdrv dev) ws s = Some t \<and> block_drivers t = block_drivers s"
  using assms
proof (induction ws arbitrary: s)
  case (Cons w ws)
  then obtain r u where u: "ramdisk_writeblk dev (fst w) (snd w) s = Some (r, u)"
    "write_all (ramdisk_writeblk dev) ws u = Some t"
    by (auto split: option.splits)
  moreover have "block_drivers u = block_drivers s" using ramdisk_writeblk_frame [OF u(1)] by simp
  ultimately show ?case using Cons.IH [of u] Cons.prems(1,2)
    by (simp add: write_block_ramdisk)
qed simp

section \<open>The table of disks\<close>

text \<open>Entries from \<open>rd_idx\<close> on are unused, which is a null buffer.\<close>

definition rdtab_ok :: "'a rdtab_scheme \<Rightarrow> bool" where
  "rdtab_ok s \<longleftrightarrow> length (ramdisks s) = MAX_RAMDISK \<and> rd_idx s \<le> MAX_RAMDISK
     \<and> (\<forall>i < MAX_RAMDISK. rd_idx s \<le> i \<longrightarrow> rd_bufs (ramdisks s ! i) = NULL)"

lemma MINOR_DEV_small:
  assumes "i < MAX_RAMDISK"
  shows "MAJOR (DEV (ucast BLK_RAMDISK) (of_nat i)) = BLK_RAMDISK"
    and "MINOR (DEV (ucast BLK_RAMDISK) (of_nat i)) = of_nat i"
    and "DEV (ucast BLK_RAMDISK) (of_nat i) \<noteq> NULL_DEV"
proof -
  have i: "unat (of_nat i :: u32) = i" using assms by (simp add: unat_of_nat32)
  show m: "MAJOR (DEV (ucast BLK_RAMDISK) (of_nat i)) = BLK_RAMDISK" by (simp add: MAJOR_DEV)
  show "MINOR (DEV (ucast BLK_RAMDISK) (of_nat i)) = of_nat i"
    by (rule MINOR_DEV) (use assms i in simp_all)
  show "DEV (ucast BLK_RAMDISK) (of_nat i) \<noteq> NULL_DEV" using m by (auto simp: MAJOR_def)
qed

section \<open>Properties\<close>

text \<open>
  C25. Through the driver table, after any sequence of writes of blocks of a RAM disk from buffers
  apart from the disk, reading a block delivers the bytes of the buffer of the last write to it, or
  its old contents if none of the writes was to it; every write and the read return the block size.
\<close>

theorem ramdisk_last_write_read:
  assumes "\<And>c e. (c, e) \<in> set ws \<Longrightarrow> disk_ok dev c e s" "disk_ok dev b a s"
    and "block_drivers s (MAJOR dev) \<noteq> NULL" "bdrv (block_drivers s (MAJOR dev)) = ramdisk_driver"
  shows "\<exists>t u. write_all (write_block bdrv dev) ws s = Some t
    \<and> read_block bdrv dev b a t = Some (to_int (rd_blksize (the_disk dev s)), u)
    \<and> disk_buffer dev u a = (case map_of (rev ws) b of None \<Rightarrow> disk_block dev s b
         | Some e \<Rightarrow> disk_buffer dev s e)"
proof -
  obtain t u where tu: "write_all (ramdisk_writeblk dev) ws s = Some t"
    "ramdisk_readblk dev b a t = Some (disk_count dev s, u)"
    "disk_buffer dev u a = (case map_of (rev ws) b of None \<Rightarrow> disk_block dev s b
         | Some e \<Rightarrow> disk_buffer dev s e)"
    using disk.last_write_read [OF assms(1,2)] by blast
  note w = write_all_ramdisk [where bdrv = bdrv, OF assms(3,4) tu(1)]
  then have "read_block bdrv dev b a t = ramdisk_readblk dev b a t"
    using assms(3,4) by (simp add: write_block_ramdisk)
  with tu w show ?thesis by (simp add: disk_count_def)
qed

text \<open>A disk of four blocks of two bytes at 0x1000, registered as the first block driver.\<close>

definition one_disk :: rdtab where
  "one_disk = drvtab.extend (console.extend (console_start (\<lambda>x. ucast x) (\<lambda>_ _. 0))
       (drvtab.fields (\<lambda>_. 0) ((\<lambda>_. 0)(1 := 0x100))))
     (rdtab.fields (\<lparr>rd_blksize = 2, rd_bufs = 0x1000, rd_size = 8\<rparr>
        # replicate 7 \<lparr>rd_blksize = 0, rd_bufs = NULL, rd_size = 0\<rparr>) 1)"

lemma one_disk_simps [simp]:
  "ramdisks one_disk = \<lparr>rd_blksize = 2, rd_bufs = 0x1000, rd_size = 8\<rparr>
     # replicate 7 \<lparr>rd_blksize = 0, rd_bufs = NULL, rd_size = 0\<rparr>"
  "rd_idx one_disk = 1" "block_drivers one_disk = (\<lambda>_. 0)(1 := 0x100)" "ram one_disk = (\<lambda>x. ucast x)"
  by (simp_all add: one_disk_def drvtab.extend_def console.extend_def drvtab.fields_def
    rdtab.fields_def console_start_def)

lemma one_disk_dev: "MAJOR 1 = 1" "MINOR 1 = 0"
  by (simp_all add: MAJOR_def MINOR_def)

theorem ramdisk_last_write_read_witness:
  "\<exists>t u. write_all (write_block (\<lambda>_. ramdisk_driver) 1) [(2, 0x20), (2, 0x30), (1, 0x20)] one_disk = Some t
    \<and> read_block (\<lambda>_. ramdisk_driver) 1 2 0x40 t = Some (2, u) \<and> disk_buffer 1 u 0x40 = [0x30, 0x31]"
proof -
  have ok: "disk_ok 1 c e one_disk" if "(c, e) \<in> set [(2, 0x20), (2, 0x30), (1, 0x20)]" for c e
    using that by (auto simp: disk_ok_def one_disk_dev disjoint_def)
  have ok': "disk_ok 1 2 0x40 one_disk" by (simp add: disk_ok_def one_disk_dev disjoint_def)
  have "disk_buffer 1 one_disk 0x30 = [0x30, 0x31]"
    by (simp add: disk_buffer_def one_disk_dev read_bytes_def upt_rec)
  then show ?thesis
    using ramdisk_last_write_read [of "[(2, 0x20), (2, 0x30), (1, 0x20)]", OF ok ok',
        where bdrv = "\<lambda>_. ramdisk_driver"]
    by (simp add: one_disk_dev to_int_def del: write_all.simps)
qed

text \<open>
  Adding a RAM disk to a well-formed table with a free entry gives a device of the RAM disk
  major that is not the null device, whose block size is the one given, leaves every earlier disk
  alone and the table well formed; with all eight entries used it is the null device and nothing
  changes.
\<close>

theorem add_ramdisk_correct:
  assumes "rdtab_ok s" "bufs \<noteq> NULL"
  shows "if rd_idx s = MAX_RAMDISK then add_ramdisk bs bufs sz s = (NULL_DEV, s)
    else (case add_ramdisk bs bufs sz s of (dev, t) \<Rightarrow>
      rdtab_ok t \<and> dev \<noteq> NULL_DEV \<and> MAJOR dev = BLK_RAMDISK \<and> ramdisk_getblksize dev t = bs
      \<and> ramdisk_getblksize dev s = 0
      \<and> (\<forall>d. MINOR d \<noteq> MINOR dev \<longrightarrow> ramdisk_getblksize d t = ramdisk_getblksize d s))"
proof (cases "rd_idx s = MAX_RAMDISK")
  case False
  then have i: "rd_idx s < MAX_RAMDISK" and len: "length (ramdisks s) = MAX_RAMDISK"
    using assms by (auto simp: rdtab_ok_def)
  have u: "unat (of_nat (rd_idx s) :: u32) = rd_idx s" using i by (simp add: unat_of_nat32)
  note dev = MINOR_DEV_small [OF i]
  have other: "unat (MINOR d) \<noteq> rd_idx s" if "MINOR d \<noteq> of_nat (rd_idx s)" for d
    using that u by (metis word_unat_eq_iff)
  show ?thesis
    using i len assms dev u other
    by (auto simp: add_ramdisk_def rdtab_ok_def ramdisk_getblksize_def Let_def nth_list_update)
qed (simp add: add_ramdisk_def)

theorem add_ramdisk_correct_witness:
  "ramdisk_getblksize (fst (add_ramdisk 512 0x2000 1024 one_disk)) (snd (add_ramdisk 512 0x2000 1024 one_disk)) = 512"
proof -
  have "rdtab_ok one_disk" by (auto simp: rdtab_ok_def nth_Cons')
  then show ?thesis using add_ramdisk_correct [of one_disk "0x2000" 512 1024]
    by (simp add: split_beta)
qed

text \<open>
  No bound protects the last block: a read of the block just past the end of a disk whose size
  is a multiple of its block size is not refused but delivers the bytes after the disk, and a write
  is not refused for any block number at all.
\<close>

theorem ramdisk_past_end:
  assumes "unat (MINOR dev) < MAX_RAMDISK" "rd_bufs (the_disk dev s) \<noteq> NULL"
    and "rd_blksize (the_disk dev s) \<noteq> 0" "rd_size (the_disk dev s) = k * rd_blksize (the_disk dev s)"
    and "unat k * unat (rd_blksize (the_disk dev s)) < 4294967296"
    and "disjoint buf (unat (rd_blksize (the_disk dev s)))
      (rd_bufs (the_disk dev s) + rd_size (the_disk dev s)) (unat (rd_blksize (the_disk dev s)))"
  shows "(case ramdisk_readblk dev k buf s of None \<Rightarrow> False
      | Some (r, t) \<Rightarrow> r = to_int (rd_blksize (the_disk dev s))
          \<and> disk_buffer dev t buf = read_bytes (ram s) (rd_bufs (the_disk dev s) + rd_size (the_disk dev s))
              (unat (rd_blksize (the_disk dev s))))
    \<and> (\<forall>blk. map_option fst (ramdisk_writeblk dev blk buf s) = Some (to_int (rd_blksize (the_disk dev s))))"
proof -
  let ?n = "rd_blksize (the_disk dev s)"
  have "k \<le> (k * ?n) div ?n"
  proof -
    have "unat (k * ?n) = unat k * unat ?n" using assms(5) by (simp add: unat_word_ariths)
    moreover have "0 < unat ?n" using assms(3) by (simp add: unat_gt_0)
    ultimately have "unat ((k * ?n) div ?n) = unat k" by (simp add: unat_div_distrib)
    then show ?thesis by (simp add: word_le_nat_alt)
  qed
  then have "ramdisk_readblk dev k buf s = Some (to_int ?n,
      s\<lparr>ram := memcpy (ram s) buf (rd_bufs (the_disk dev s) + k * ?n) ?n\<rparr>)"
    using assms(1-4) by (simp add: ramdisk_readblk_def Let_def leD)
  moreover have "memcpy (ram s) buf (rd_bufs (the_disk dev s) + k * ?n) ?n
      = write_bytes (ram s) buf (read_bytes (ram s) (rd_bufs (the_disk dev s) + k * ?n) (unat ?n))"
    using assms(4,6) by (simp add: memcpy_eq_write_bytes)
  moreover have "read_bytes (write_bytes (ram s) buf bs) buf (unat ?n) = bs"
    if "length bs = unat ?n" for bs
    using read_write_bytes [of bs "ram s" buf] that by (simp add: less_imp_le)
  ultimately show ?thesis
    using assms(1,2,4) by (simp add: disk_buffer_def ramdisk_writeblk_def Let_def)
qed

theorem ramdisk_past_end_witness:
  "(case ramdisk_readblk 1 4 0x40 one_disk of None \<Rightarrow> False | Some (r, t) \<Rightarrow> r = 2)
    \<and> map_option fst (ramdisk_writeblk 1 1000 0x40 one_disk) = Some 2"
  using ramdisk_past_end [of 1 one_disk 4 "0x40"]
  by (auto simp: one_disk_dev disjoint_def to_int_def split: option.splits)

end
