(* ===== verification/Memdev.thy ===== *)
theory Memdev
  imports Ramdisk "HOL-Library.Signed_Division"
begin

text \<open>
  kernel/drivers/char/memdev.c and arch/i686/drivers/char/memdev_x86.c: the memory devices null,
  zero, full, port and urandom behind the minor numbers of one character driver. The generator of
  urandom keeps its seed between calls; it is a C \<open>int\<close>, whose arithmetic is shown never to leave
  the 32-bit range.
\<close>

section \<open>State and operations\<close>

abbreviation (input) MEMDEV_NULL :: u32 where "MEMDEV_NULL \<equiv> 1"
abbreviation (input) MEMDEV_ZERO :: u32 where "MEMDEV_ZERO \<equiv> 2"
abbreviation (input) MEMDEV_FULL :: u32 where "MEMDEV_FULL \<equiv> 3"
abbreviation (input) MEMDEV_PORT :: u32 where "MEMDEV_PORT \<equiv> 4"
abbreviation (input) MEMDEV_RANDOM :: u32 where "MEMDEV_RANDOM \<equiv> 5"
abbreviation (input) MEMDEV_URANDOM :: u32 where "MEMDEV_URANDOM \<equiv> 6"
abbreviation (input) UINT16_MAX :: u64 where "UINT16_MAX \<equiv> 0xffff"

record memdev = rdtab +
  seed :: int

definition seed_start :: int where "seed_start = 62521"

definition null_read :: "off_t \<Rightarrow> addr \<Rightarrow> u32 \<Rightarrow> 'a memdev_scheme \<Rightarrow> int \<times> 'a memdev_scheme" where
  "null_read pos buf n s = (0, s)"

definition null_write :: "off_t \<Rightarrow> addr \<Rightarrow> u32 \<Rightarrow> 'a memdev_scheme \<Rightarrow> int \<times> 'a memdev_scheme" where
  "null_write pos buf n s = (to_int n, s)"

definition zero_read :: "off_t \<Rightarrow> addr \<Rightarrow> u32 \<Rightarrow> 'a memdev_scheme \<Rightarrow> int \<times> 'a memdev_scheme" where
  "zero_read pos buf n s = (to_int n, s\<lparr>ram := memset (ram s) buf 0 n\<rparr>)"

definition full_write :: "off_t \<Rightarrow> addr \<Rightarrow> u32 \<Rightarrow> 'a memdev_scheme \<Rightarrow> int \<times> 'a memdev_scheme" where
  "full_write pos buf n s = (- ENOSPC, s)"

text \<open>The number of ports of a transfer is kept in 16 bits, as the code does.\<close>

definition port_count :: "off_t \<Rightarrow> u32 \<Rightarrow> u16" where
  "port_count pos n =
     (let newn = ucast (UINT16_MAX - pos + 1) :: u16
      in if (ucast newn :: u32) < n then newn else ucast n)"

fun port_read_loop :: "nat \<Rightarrow> off_t \<Rightarrow> addr \<Rightarrow> 'a machine_scheme \<Rightarrow> 'a machine_scheme" where
  "port_read_loop 0 pos buf s = s"
| "port_read_loop (Suc k) pos buf s =
     (let (v, s1) = inb (ucast pos) s
      in port_read_loop k (pos + 1) (buf + 1) (s1\<lparr>ram := (ram s1)(buf := v)\<rparr>))"

definition port_read :: "off_t \<Rightarrow> addr \<Rightarrow> u32 \<Rightarrow> 'a machine_scheme \<Rightarrow> int \<times> 'a machine_scheme" where
  "port_read pos buf n s =
     (if pos > UINT16_MAX then (- EFAULT, s)
      else (uint (port_count pos n), port_read_loop (unat (port_count pos n)) pos buf s))"

fun port_write_loop :: "nat \<Rightarrow> off_t \<Rightarrow> addr \<Rightarrow> 'a machine_scheme \<Rightarrow> 'a machine_scheme" where
  "port_write_loop 0 pos buf s = s"
| "port_write_loop (Suc k) pos buf s =
     port_write_loop k (pos + 1) (buf + 1) (outb (ucast pos) (ram s buf) s)"

definition port_write :: "off_t \<Rightarrow> addr \<Rightarrow> u32 \<Rightarrow> 'a machine_scheme \<Rightarrow> int \<times> 'a machine_scheme" where
  "port_write pos buf n s =
     (if pos > UINT16_MAX then (- EFAULT, s)
      else (uint (port_count pos n), port_write_loop (unat (port_count pos n)) pos buf s))"

text \<open>The linear congruential generator; \<open>%\<close> of C is \<open>smod\<close>.\<close>

definition next_seed :: "int \<Rightarrow> int" where
  "next_seed x = (9735 * x + 13997) smod 19468"

fun urandom_loop :: "nat \<Rightarrow> addr \<Rightarrow> 'a memdev_scheme \<Rightarrow> 'a memdev_scheme" where
  "urandom_loop 0 buf s = s"
| "urandom_loop (Suc k) buf s =
     (let x = next_seed (seed s)
      in urandom_loop k (buf + 1) (s\<lparr>seed := x, ram := (ram s)(buf := word_of_int x)\<rparr>))"

definition urandom_read :: "off_t \<Rightarrow> addr \<Rightarrow> u32 \<Rightarrow> 'a memdev_scheme \<Rightarrow> int \<times> 'a memdev_scheme" where
  "urandom_read pos buf n s = (to_int n, urandom_loop (unat n) buf s)"

definition memdev_read ::
    "dev_t \<Rightarrow> off_t \<Rightarrow> addr \<Rightarrow> u32 \<Rightarrow> 'a memdev_scheme \<Rightarrow> int \<times> 'a memdev_scheme" where
  "memdev_read dev pos buf n s =
     (let m = MINOR dev in
      if m = MEMDEV_NULL then null_read pos buf n s
      else if m = MEMDEV_FULL \<or> m = MEMDEV_ZERO then zero_read pos buf n s
      else if m = MEMDEV_PORT then port_read pos buf n s
      else if m = MEMDEV_URANDOM then urandom_read pos buf n s
      else (- ENODEV, s))"

definition memdev_write ::
    "dev_t \<Rightarrow> off_t \<Rightarrow> addr \<Rightarrow> u32 \<Rightarrow> 'a memdev_scheme \<Rightarrow> int \<times> 'a memdev_scheme" where
  "memdev_write dev pos buf n s =
     (let m = MINOR dev in
      if m = MEMDEV_NULL \<or> m = MEMDEV_ZERO \<or> m = MEMDEV_URANDOM then null_write pos buf n s
      else if m = MEMDEV_FULL then full_write pos buf n s
      else if m = MEMDEV_PORT then port_write pos buf n s
      else (- ENODEV, s))"

definition memdev_driver :: "'a memdev_scheme char_driver" where
  "memdev_driver = \<lparr>cd_read = memdev_read, cd_write = memdev_write\<rparr>"

definition register_memdev_driver :: "addr \<Rightarrow> 'a drvtab_scheme \<Rightarrow> 'a drvtab_scheme" where
  "register_memdev_driver memdev_driver_addr s =
     register_char_driver CHR_MEMDEV memdev_driver_addr s"

section \<open>Port transfers\<close>

text \<open>The events of reading \<open>k\<close> ports from \<open>p\<close> on, given the trace before.\<close>

fun in_events :: "(io_event list \<Rightarrow> u16 \<Rightarrow> u8) \<Rightarrow> io_event list \<Rightarrow> u16 \<Rightarrow> nat \<Rightarrow> io_event list" where
  "in_events dev tr p 0 = []"
| "in_events dev tr p (Suc k) =
     (let e = In p (dev tr p) in e # in_events dev (tr @ [e]) (p + 1) k)"

fun event_value :: "io_event \<Rightarrow> u8" where
  "event_value (In p v) = v"
| "event_value (Out p v) = v"

fun event_port :: "io_event \<Rightarrow> u16" where
  "event_port (In p v) = p"
| "event_port (Out p v) = p"

lemma length_in_events [simp]: "length (in_events dev tr p k) = k"
  by (induction k arbitrary: tr p) (simp_all add: Let_def)

lemma in_events_ports: "map event_port (in_events dev tr p k) = map (\<lambda>i. p + of_nat i) [0..<k]"
proof (induction k arbitrary: tr p)
  case (Suc k)
  then show ?case
    by (simp add: Let_def upt_conv_Cons map_Suc_upt [symmetric] add.assoc del: upt_Suc)
qed simp

lemma ucast_succ: "(ucast (pos + 1 :: u64) :: u16) = ucast pos + 1"
  by (simp add: word_unat_eq_iff unat_ucast unat_word_ariths mod_mod_cancel mod_simps)

lemma port_read_loop_eq:
  "port_read_loop k pos buf s =
     s\<lparr>io := io s @ in_events (device s) (io s) (ucast pos) k,
       ram := write_bytes (ram s) buf (map event_value (in_events (device s) (io s) (ucast pos) k))\<rparr>"
  by (induction k arbitrary: pos buf s) (simp_all add: inb_def Let_def ucast_succ)

lemma port_write_loop_eq:
  "port_write_loop k pos buf s =
     s\<lparr>io := io s @ map2 (\<lambda>i b. Out (ucast pos + of_nat i) b) [0..<k] (read_bytes (ram s) buf k)\<rparr>"
proof (induction k arbitrary: pos buf s)
  case (Suc k)
  have sh: "map2 (\<lambda>i b. Out (ucast (pos + 1) + of_nat i) b) [0..<k] bs
      = map2 (\<lambda>i b. Out (ucast pos + of_nat i) b) [1..<Suc k] bs" for bs
    by (rule nth_equalityI) (simp_all add: ucast_succ add.assoc del: upt_Suc)
  show ?case
    by (simp add: Suc.IH sh read_bytes_Suc upt_conv_Cons outb_def del: upt_Suc)
qed simp

lemma port_count_eq:
  assumes "0 < pos" "pos \<le> UINT16_MAX"
  shows "unat (port_count pos n) = min (65536 - unat pos) (unat n)"
proof -
  have p: "0 < unat pos" "unat pos \<le> 65535"
    using assms by (simp_all add: word_less_nat_alt word_le_nat_alt)
  have "unat (0xffff - pos + 1) = 65536 - unat pos"
    using p unat_sub_if' [of 65536 pos] by (simp add: diff_add_eq)
  then have c: "unat (ucast (0xffff - pos + 1) :: u16) = 65536 - unat pos"
    using p by (simp add: unat_ucast)
  then have "unat (ucast (ucast (0xffff - pos + 1) :: u16) :: u32) = 65536 - unat pos"
    using p by (simp add: unat_ucast)
  moreover have "unat (ucast n :: u16) = unat n" if "unat n \<le> 65536 - unat pos"
    using that p by (simp add: unat_ucast)
  ultimately show ?thesis
    using c by (simp add: port_count_def Let_def word_less_nat_alt min_def)
qed

lemma port_count_0: "port_count 0 n = 0"
  by (simp add: port_count_def unsigned_eq_0_iff word_gt_0)

section \<open>The generator\<close>

lemma next_seed_mod: "0 \<le> x \<Longrightarrow> next_seed x = (9735 * x + 13997) mod 19468"
  by (simp add: next_seed_def smod_mod_positive)

lemma next_seed_range: "0 \<le> x \<Longrightarrow> 0 \<le> next_seed x \<and> next_seed x < 19468"
  by (simp add: next_seed_mod)

lemma seeds_range: "0 \<le> x \<Longrightarrow> 0 \<le> (next_seed ^^ k) x"
  by (induction k) (simp_all add: next_seed_range)

lemma seeds_mod_4867: "0 \<le> x \<Longrightarrow> (next_seed ^^ k) x mod 4867 = (x + int k * 4263) mod 4867"
proof (induction k)
  case (Suc k)
  let ?y = "(next_seed ^^ k) x"
  have "next_seed ?y mod 4867 = (9735 * ?y + 13997) mod 4867"
    using Suc.prems by (simp add: next_seed_mod seeds_range mod_mod_cancel)
  also have "9735 * ?y + 13997 = (?y + 4263) + (2 * ?y + 2) * 4867" by simp
  also have "\<dots> mod 4867 = (?y + 4263) mod 4867" by (rule mod_mult_self1)
  also have "\<dots> = (?y mod 4867 + 4263) mod 4867" by (rule mod_add_left_eq [symmetric])
  also have "\<dots> = (x + int k * 4263 + 4263) mod 4867"
    using Suc.IH [OF Suc.prems] by (simp only: mod_add_left_eq)
  also have "x + int k * 4263 + 4263 = x + int (Suc k) * 4263" by simp
  finally show ?case by simp
qed simp

lemma mod_4_inner: "(3 * y + 1) mod 4 = (3 * (y mod 4) + 1) mod (4 :: int)"
  by (metis mod_add_left_eq mod_mult_right_eq)

lemma mod_4_twice: "(3 * ((3 * y + 1) mod 4) + 1) mod 4 = (y mod 4 :: int)"
proof -
  have "(3 * ((3 * y + 1) mod 4) + 1) mod 4 = (3 * (3 * y + 1) + 1) mod 4"
    by (rule mod_4_inner [symmetric])
  also have "3 * (3 * y + 1) + 1 = y + (2 * y + 1) * 4" by simp
  also have "\<dots> mod 4 = y mod 4" by (rule mod_mult_self1)
  finally show ?thesis .
qed

lemma seeds_mod_4: "0 \<le> x \<Longrightarrow> (next_seed ^^ (2 * k)) x mod 4 = x mod 4"
proof (induction k)
  case (Suc k)
  let ?y = "(next_seed ^^ (2 * k)) x"
  have step: "next_seed y mod 4 = (3 * y + 1) mod 4" if "0 \<le> y" for y
  proof -
    have "next_seed y mod 4 = (9735 * y + 13997) mod 4"
      using that by (simp add: next_seed_mod mod_mod_cancel)
    also have "9735 * y + 13997 = (3 * y + 1) + (2433 * y + 3499) * 4" by simp
    also have "\<dots> mod 4 = (3 * y + 1) mod 4" by (rule mod_mult_self1)
    finally show ?thesis .
  qed
  have y: "0 \<le> ?y" "0 \<le> next_seed ?y" using Suc.prems by (simp_all add: seeds_range next_seed_range)
  have "next_seed (next_seed ?y) mod 4 = (3 * next_seed ?y + 1) mod 4" using y by (simp only: step)
  also have "\<dots> = (3 * (next_seed ?y mod 4) + 1) mod 4" by (rule mod_4_inner)
  finally have "next_seed (next_seed ?y) mod 4 = ?y mod 4"
    by (simp only: step [OF y(1)] mod_4_twice)
  then show ?case using Suc by simp
qed simp

lemma seeds_period:
  assumes "0 \<le> x"
  shows "(next_seed ^^ (Suc k + 9734)) x = (next_seed ^^ Suc k) x"
proof -
  define y where "y = (next_seed ^^ Suc k) x"
  have y: "0 \<le> y" "y < 19468" using assms by (simp_all add: y_def next_seed_range seeds_range)
  define z where "z = (next_seed ^^ 9734) y"
  have "(9734 :: nat) = Suc 9733" by simp
  then have "z = next_seed ((next_seed ^^ 9733) y)" unfolding z_def by (simp only: funpow.simps o_apply)
  then have z: "0 \<le> z" "z < 19468" using next_seed_range [OF seeds_range [OF y(1)]] by auto
  have "z mod 4867 = (y + int 9734 * 4263) mod 4867" unfolding z_def by (rule seeds_mod_4867 [OF y(1)])
  also have "y + int 9734 * 4263 = y + 8526 * 4867" by simp
  also have "\<dots> mod 4867 = y mod 4867" by (rule mod_mult_self1)
  finally have "z mod 4867 = y mod 4867" .
  then have a: "4867 dvd z - y" by (simp add: mod_eq_dvd_iff)
  have "z mod 4 = y mod 4" using seeds_mod_4 [OF y(1), of 4867] by (simp add: z_def)
  then have b: "4 dvd z - y" by (simp add: mod_eq_dvd_iff)
  have "coprime (4 :: int) 4867" by code_simp
  then have "4 * 4867 dvd z - y" using a b by (intro divides_mult)
  then have "z = y" using y z zdvd_imp_le [of 19468 "z - y"] zdvd_imp_le [of 19468 "y - z"]
    by (cases "y < z"; cases "z < y") (auto simp: dvd_diff_commute)
  moreover have "(next_seed ^^ (Suc k + 9734)) x = (next_seed ^^ (9734 + Suc k)) x" by (simp only: add.commute)
  ultimately show ?thesis unfolding z_def y_def by (simp only: funpow_add o_apply)
qed

lemma seeds_map:
  "map (\<lambda>i. f ((next_seed ^^ Suc i) x)) [0..<Suc k]
    = f (next_seed x) # map (\<lambda>i. f ((next_seed ^^ Suc i) (next_seed x))) [0..<k]"
  by (simp add: upt_conv_Cons map_Suc_upt [symmetric] funpow_swap1 o_def del: upt_Suc)

lemma urandom_loop_eq:
  "urandom_loop k buf s =
     s\<lparr>seed := (next_seed ^^ k) (seed s),
       ram := write_bytes (ram s) buf (map (\<lambda>i. word_of_int ((next_seed ^^ Suc i) (seed s))) [0..<k])\<rparr>"
proof (induction k arbitrary: buf s)
  case (Suc k)
  show ?case
    unfolding urandom_loop.simps Let_def Suc.IH seeds_map write_bytes.simps
    by (simp add: funpow_swap1 del: fun_upd_apply)
qed simp

section \<open>Properties\<close>

text \<open>
  Reading \<open>n\<close> bytes of urandom stores the next \<open>n\<close> seeds, each cut to a byte, and returns
  \<open>n\<close>. The generator has period 9734, half of its modulus: any two bytes that far apart are equal.
  The seed stays below 62522, so the C expression on it never leaves the 32-bit integers.
\<close>

theorem urandom_stream:
  assumes "MINOR dev = MEMDEV_URANDOM" "0 \<le> seed s" "seed s \<le> seed_start"
    and "memdev_read dev pos buf n s = (r, t)"
  shows "r = to_int n \<and> seed t = (next_seed ^^ unat n) (seed s)
    \<and> (\<forall>i < unat n. ram t (buf + of_nat i) = word_of_int ((next_seed ^^ Suc i) (seed s)))
    \<and> (\<forall>i. i + 9734 < unat n \<longrightarrow> ram t (buf + of_nat (i + 9734)) = ram t (buf + of_nat i))
    \<and> 0 \<le> seed t \<and> seed t \<le> seed_start
    \<and> (\<forall>k. 9735 * (next_seed ^^ k) (seed s) + 13997 < 2147483648)"
proof -
  have t: "r = to_int n" "t = urandom_loop (unat n) buf s"
    using assms(1,4) by (simp_all add: memdev_read_def urandom_read_def)
  have range: "0 \<le> (next_seed ^^ k) (seed s) \<and> (next_seed ^^ k) (seed s) \<le> seed_start" for k
  proof (cases k)
    case (Suc j)
    have "(next_seed ^^ k) (seed s) < 19468"
      unfolding Suc using next_seed_range [OF seeds_range [OF assms(2)], of j] by simp
    then show ?thesis using seeds_range [OF assms(2)] by (simp add: seed_start_def)
  qed (use assms in simp)
  have byte: "ram t (buf + of_nat i) = word_of_int ((next_seed ^^ Suc i) (seed s))" if "i < unat n" for i
  proof -
    have i: "unat (of_nat i :: u32) = i" using that unat_lt_2p32 [of n] by (simp add: unat_of_nat32 del: unat_lt_2p32)
    show ?thesis using that i
      by (simp add: t urandom_loop_eq write_bytes_apply in_region_def less_imp_le del: upt_Suc funpow.simps)
  qed
  have period: "ram t (buf + of_nat (i + 9734)) = ram t (buf + of_nat i)" if "i + 9734 < unat n" for i
  proof -
    have "ram t (buf + of_nat (i + 9734)) = word_of_int ((next_seed ^^ (Suc i + 9734)) (seed s))"
      using byte [OF that] by (simp only: add_Suc)
    also have "\<dots> = word_of_int ((next_seed ^^ Suc i) (seed s))"
      by (simp only: seeds_period [OF assms(2)])
    also have "\<dots> = ram t (buf + of_nat i)" using byte [of i] that by simp
    finally show ?thesis .
  qed
  have st: "seed t = (next_seed ^^ unat n) (seed s)" by (simp add: t urandom_loop_eq)
  have "9735 * (next_seed ^^ k) (seed s) + 13997 < 2147483648" for k
    using range [of k] by (simp add: seed_start_def)
  then show ?thesis
    using range byte period by (intro conjI allI impI t(1) st) (simp_all only: st)
qed

text \<open>The state of the disk example with the generator as it starts.\<close>

definition memdev_start :: memdev where
  "memdev_start = rdtab.extend one_disk (memdev.fields seed_start)"

lemma memdev_start_simps [simp]:
  "seed memdev_start = 62521" "io memdev_start = []" "ram memdev_start = (\<lambda>x. ucast x)"
  by (simp_all add: memdev_start_def rdtab.extend_def memdev.fields_def seed_start_def one_disk_def
    drvtab.extend_def console.extend_def drvtab.fields_def rdtab.fields_def console_start_def)

theorem urandom_stream_witness:
  "ram (snd (memdev_read 0x601 0 0x5000 2 memdev_start)) 0x5000 = word_of_int (next_seed 62521)
    \<and> seed (snd (memdev_read 0x601 0 0x5000 2 memdev_start)) = next_seed (next_seed 62521)"
proof -
  let ?r = "memdev_read 0x601 0 0x5000 2 memdev_start"
  have m: "MINOR 0x601 = MEMDEV_URANDOM" by (simp add: MINOR_def)
  note u = urandom_stream [of "0x601" memdev_start 0 "0x5000" 2 "fst ?r" "snd ?r", OF m]
  have st: "seed (snd ?r) = (next_seed ^^ unat (2 :: u32)) (seed memdev_start)"
    and all: "\<forall>i < unat (2 :: u32). ram (snd ?r) (0x5000 + of_nat i)
      = word_of_int ((next_seed ^^ Suc i) (seed memdev_start))"
    using u by (simp_all only: memdev_start_simps seed_start_def prod.collapse) simp_all
  have "unat (2 :: u32) = 2" by simp
  moreover have "(next_seed ^^ 2) x = next_seed (next_seed x)" for x
    by (simp add: numeral_2_eq_2)
  ultimately show ?thesis using st all [rule_format, of 0] by simp
qed

text \<open>
  The port device accepts every position up to 0xffff. From a positive position it
  transfers the requested bytes, cut at the last port: a read stores what the ports answered, in the
  order of the ports, a write sends the bytes of the buffer to consecutive ports. Beyond 0xffff
  both are EFAULT.
\<close>

theorem port_transfer:
  assumes "MINOR dev = MEMDEV_PORT" "0 < pos"
    and "k = min (65536 - unat pos) (unat n)"
  shows "(case memdev_read dev pos buf n s of (r, t) \<Rightarrow>
      if pos > 0xffff then r = - EFAULT \<and> t = s
      else \<exists>evs. r = int k \<and> io t = io s @ evs
        \<and> map event_port evs = map (\<lambda>i. ucast pos + of_nat i) [0..<k]
        \<and> read_bytes (ram t) buf k = map event_value evs)
    \<and> (case memdev_write dev pos buf n s of (r, t) \<Rightarrow>
      if pos > 0xffff then r = - EFAULT \<and> t = s
      else r = int k \<and> t = s\<lparr>io := io s
        @ map2 (\<lambda>i b. Out (ucast pos + of_nat i) b) [0..<k] (read_bytes (ram s) buf k)\<rparr>)"
proof (cases "pos > 0xffff")
  case True
  then show ?thesis
    using assms(1) by (simp add: memdev_read_def memdev_write_def port_read_def port_write_def)
next
  case False
  then have k: "unat (port_count pos n) = k" using assms by (simp add: port_count_eq)
  let ?evs = "in_events (device s) (io s) (ucast pos) k"
  have "read_bytes (write_bytes (ram s) buf (map event_value ?evs)) buf k = map event_value ?evs"
    using read_write_bytes [of "map event_value ?evs" "ram s" buf] assms(3)
    by (simp add: less_imp_le min.coboundedI2)
  then have "\<exists>evs. io (port_read_loop k pos buf s) = io s @ evs
      \<and> map event_port evs = map (\<lambda>i. ucast pos + of_nat i) [0..<k]
      \<and> read_bytes (ram (port_read_loop k pos buf s)) buf k = map event_value evs"
    by (intro exI [of _ ?evs]) (simp add: port_read_loop_eq in_events_ports)
  then show ?thesis
    using False assms(1) k
    by (simp add: memdev_read_def memdev_write_def port_read_def port_write_def port_write_loop_eq
      uint_nat)
qed

theorem port_transfer_witness:
  "fst (memdev_write 0x401 0xfffe 0x5041 5 memdev_start) = 2
    \<and> io (snd (memdev_write 0x401 0xfffe 0x5041 5 memdev_start)) = [Out 0xfffe 0x41, Out 0xffff 0x42]"
proof -
  have m: "MINOR 0x401 = MEMDEV_PORT" by (simp add: MINOR_def)
  have "read_bytes (ram memdev_start) 0x5041 2 = [0x41, 0x42]"
    by (simp add: read_bytes_def upt_rec)
  moreover have "[0..<2] = [0, 1 :: nat]" by (simp add: upt_rec)
  moreover have "case memdev_write 0x401 0xfffe 0x5041 5 memdev_start of (r, t) \<Rightarrow>
      r = int 2 \<and> t = memdev_start\<lparr>io := io memdev_start @ map2 (\<lambda>i b. Out (ucast (0xfffe :: u64) + of_nat i) b)
        [0..<2] (read_bytes (ram memdev_start) 0x5041 2)\<rparr>"
  proof -
    have "(2 :: nat) = min (65536 - unat (0xfffe :: u64)) (unat (5 :: u32))" by simp
    moreover have "(0 :: u64) < 0xfffe" "(0xffff < (0xfffe :: u64)) = False" by simp_all
    ultimately show ?thesis
      using port_transfer [of "0x401" "0xfffe" 2 5 memdev_start "0x5041", OF m, THEN conjunct2]
      by (simp only: if_False)
  qed
  ultimately show ?thesis by (simp add: split_beta)
qed

text \<open>
  Position 0 of the port device transfers nothing: the number of ports left, 65536, is kept in
  16 bits and becomes 0, so no port is read or written and the result is 0 for every length.
\<close>

theorem port_zero_unreachable:
  assumes "MINOR dev = MEMDEV_PORT"
  shows "memdev_read dev 0 buf n s = (0, s) \<and> memdev_write dev 0 buf n s = (0, s)"
  using assms by (simp add: memdev_read_def memdev_write_def port_read_def port_write_def port_count_0)

theorem port_zero_unreachable_witness: "fst (memdev_read 0x401 0 0x5000 10 memdev_start) = 0"
  using port_zero_unreachable [of "0x401" "0x5000" 10 memdev_start] by (simp add: MINOR_def)

text \<open>
  The other minor numbers: null reads as empty, zero and full read as zero bytes, null, zero and
  urandom swallow what is written, full refuses it with ENOSPC, and random and every number without
  a device are ENODEV without an effect.
\<close>

theorem memdev_minors:
  "memdev_read dev pos buf n s =
      (if MINOR dev = MEMDEV_NULL then (0, s)
       else if MINOR dev \<in> {MEMDEV_ZERO, MEMDEV_FULL}
         then (to_int n, s\<lparr>ram := write_bytes (ram s) buf (replicate (unat n) 0)\<rparr>)
       else if MINOR dev = MEMDEV_PORT then port_read pos buf n s
       else if MINOR dev = MEMDEV_URANDOM then urandom_read pos buf n s
       else (- ENODEV, s))
    \<and> memdev_write dev pos buf n s =
      (if MINOR dev \<in> {MEMDEV_NULL, MEMDEV_ZERO, MEMDEV_URANDOM} then (to_int n, s)
       else if MINOR dev = MEMDEV_FULL then (- ENOSPC, s)
       else if MINOR dev = MEMDEV_PORT then port_write pos buf n s
       else (- ENODEV, s))"
proof -
  have "memset (ram s) buf 0 n = write_bytes (ram s) buf (replicate (unat n) 0)"
    by (rule ext) (simp add: memset_apply write_bytes_apply less_imp_le in_region_def)
  then show ?thesis
    by (simp add: memdev_read_def memdev_write_def null_read_def null_write_def zero_read_def
      full_write_def Let_def)
qed

end
