(* ===== verification/Keyboard.thy ===== *)
theory Keyboard
  imports Memdev "HOL-Library.Sublist"
begin

text \<open>
  kernel/drivers/kb.c with drivers/kb.h: the key map, the modifier keys and the queue of typed
  characters behind the virtual console's input. The queue is an array of 256 bytes in the flat
  memory at \<open>input_queue\<close>. Keys arrive in an interrupt handler, so the reader is also given step by
  step, to interleave it with a key press.
\<close>

section \<open>State and operations\<close>

abbreviation (input) VC_KEY_QUEUE_LEN :: u32 where "VC_KEY_QUEUE_LEN \<equiv> 256"

abbreviation (input) LSHIFT :: u8 where "LSHIFT \<equiv> 1"
abbreviation (input) RSHIFT :: u8 where "RSHIFT \<equiv> 2"
abbreviation (input) SHIFT :: u8 where "SHIFT \<equiv> 3"
abbreviation (input) LCTRL :: u8 where "LCTRL \<equiv> 4"
abbreviation (input) RCTRL :: u8 where "RCTRL \<equiv> 8"
abbreviation (input) CTRL :: u8 where "CTRL \<equiv> 12"
abbreviation (input) LALT :: u8 where "LALT \<equiv> 16"
abbreviation (input) RALT :: u8 where "RALT \<equiv> 32"
abbreviation (input) ALT :: u8 where "ALT \<equiv> 48"
abbreviation (input) CAPS :: u8 where "CAPS \<equiv> 64"

record kbd = memdev +
  input_queue :: addr
  queue_idx :: u32
  modifiers :: u8

text \<open>The two key maps; entries C leaves out of the initialiser are 0.\<close>

definition key_pad :: "u8 list" where
  "key_pad = replicate 4 0 @ lit ''/*-'' @ replicate 11 0"

definition plain_keys :: "u8 list" where
  "plain_keys = replicate 32 0
    @ [0x60] @ lit ''1234567890-='' @ [8] @ key_pad
    @ [9] @ lit ''qwertyuiop[]'' @ [0x5c] @ replicate 3 0 @ lit ''789+'' @ replicate 11 0
    @ [0] @ lit ''asdfghjkl;'' @ [0x27, 10] @ lit ''456'' @ replicate 17 0
    @ lit ''zxcvbnm,./'' @ replicate 2 0 @ lit ''123'' @ [10] @ replicate 18 0
    @ lit '' '' @ replicate 7 0 @ lit ''0.'' @ replicate 83 0"

definition shifted_keys :: "u8 list" where
  "shifted_keys = replicate 32 0
    @ lit ''~!@#$%^&*()_+'' @ [8] @ key_pad
    @ [9] @ lit ''QWERTYUIOP{}|'' @ replicate 3 0 @ lit ''789+'' @ replicate 11 0
    @ [0] @ lit ''ASDFGHJKL:'' @ [0x22, 10] @ lit ''456'' @ replicate 17 0
    @ lit ''ZXCVBNM<>?'' @ replicate 2 0 @ lit ''123'' @ [10] @ replicate 18 0
    @ lit '' '' @ replicate 7 0 @ lit ''0.'' @ replicate 83 0"

definition keycode_to_char :: "bool \<Rightarrow> u8 \<Rightarrow> u8" where
  "keycode_to_char shift keycode = (if shift then shifted_keys else plain_keys) ! unat keycode"

lemma key_maps_length: "length plain_keys = 256" "length shifted_keys = 256"
  by (simp_all add: plain_keys_def shifted_keys_def key_pad_def lit_def)

definition kb_get_mod :: "u8 \<Rightarrow> 'a kbd_scheme \<Rightarrow> bool" where
  "kb_get_mod m s \<longleftrightarrow> modifiers s AND m \<noteq> 0"

definition kb_set_mod :: "u8 \<Rightarrow> bool \<Rightarrow> 'a kbd_scheme \<Rightarrow> 'a kbd_scheme" where
  "kb_set_mod m v s =
     (if v then s\<lparr>modifiers := modifiers s OR m\<rparr> else s\<lparr>modifiers := modifiers s AND NOT m\<rparr>)"

text \<open>Queueing a character; a full queue first loses its oldest one.\<close>

definition kb_enqueue :: "u8 \<Rightarrow> 'a kbd_scheme \<Rightarrow> 'a kbd_scheme" where
  "kb_enqueue ch s =
     (let s1 = (if queue_idx s \<ge> VC_KEY_QUEUE_LEN
                then s\<lparr>ram := memmove (ram s) (input_queue s) (input_queue s + 1) (queue_idx s - 1),
                       queue_idx := queue_idx s - 1\<rparr>
                else s)
      in s1\<lparr>ram := (ram s1)(input_queue s1 + queue_idx s1 := ch), queue_idx := queue_idx s1 + 1\<rparr>)"

definition kb_key_pressed :: "u8 \<Rightarrow> 'a kbd_scheme \<Rightarrow> 'a kbd_scheme" where
  "kb_key_pressed keycode s =
     (if keycode = 0x80 then kb_set_mod LSHIFT True s
      else if keycode = 0x8b then kb_set_mod RSHIFT True s
      else if keycode = 0xa0 then kb_set_mod LCTRL True s
      else if keycode = 0xa7 then kb_set_mod RCTRL True s
      else if keycode = 0xa2 then kb_set_mod LALT True s
      else if keycode = 0xa4 then kb_set_mod RALT True s
      else if keycode = 0x60 then kb_set_mod CAPS (\<not> kb_get_mod CAPS s) s
      else
        (let shift = (kb_get_mod SHIFT s \<noteq> kb_get_mod CAPS s);
             ch = keycode_to_char shift keycode
         in if ch = 0 then s
            else kb_enqueue (if kb_get_mod CTRL s then ch AND 0x1f else ch) s))"

definition kb_key_released :: "u8 \<Rightarrow> 'a kbd_scheme \<Rightarrow> 'a kbd_scheme" where
  "kb_key_released keycode s =
     (if keycode = 0x80 then kb_set_mod LSHIFT False s
      else if keycode = 0x8b then kb_set_mod RSHIFT False s
      else if keycode = 0xa0 then kb_set_mod LCTRL False s
      else if keycode = 0xa7 then kb_set_mod RCTRL False s
      else if keycode = 0xa2 then kb_set_mod LALT False s
      else if keycode = 0xa4 then kb_set_mod RALT False s
      else s)"

text \<open>
  The reader as its four statements: the length, the copy out, the move of the rest, the update of
  the count. Between any two of them an interrupt can run \<open>kb_key_pressed\<close>.
\<close>

definition vcr_len :: "u32 \<Rightarrow> 'a kbd_scheme \<Rightarrow> u32" where
  "vcr_len n s = (if queue_idx s < n then queue_idx s else n)"

definition vcr_copy :: "addr \<Rightarrow> u32 \<Rightarrow> 'a kbd_scheme \<Rightarrow> 'a kbd_scheme" where
  "vcr_copy buf n s = s\<lparr>ram := memcpy (ram s) buf (input_queue s) n\<rparr>"

definition vcr_shift :: "u32 \<Rightarrow> 'a kbd_scheme \<Rightarrow> 'a kbd_scheme" where
  "vcr_shift n s = s\<lparr>ram := memmove (ram s) (input_queue s) (input_queue s + n) (queue_idx s - n)\<rparr>"

definition vcr_count :: "u32 \<Rightarrow> 'a kbd_scheme \<Rightarrow> 'a kbd_scheme" where
  "vcr_count n s = s\<lparr>queue_idx := queue_idx s - n\<rparr>"

definition vconsole_read :: "addr \<Rightarrow> u32 \<Rightarrow> 'a kbd_scheme \<Rightarrow> int \<times> 'a kbd_scheme" where
  "vconsole_read buf n s =
     (let k = vcr_len n s in (to_int k, vcr_count k (vcr_shift k (vcr_copy buf k s))))"

section \<open>Bounded queues\<close>

text \<open>
  The contract of a queue that forgets its oldest entries beyond a capacity. Its clients put and
  get in any order.
\<close>

datatype 'e qop = Put 'e | Get u32

definition qput :: "nat \<Rightarrow> 'e \<Rightarrow> 'e list \<Rightarrow> 'e list" where
  "qput cap x q = drop (Suc (length q) - cap) (q @ [x])"

fun qrun :: "nat \<Rightarrow> 'e qop list \<Rightarrow> 'e list \<Rightarrow> 'e list \<times> 'e list" where
  "qrun cap [] q = ([], q)"
| "qrun cap (Put x # ops) q = qrun cap ops (qput cap x q)"
| "qrun cap (Get n # ops) q =
     (let (out, q') = qrun cap ops (drop (unat n) q) in (take (unat n) q @ out, q'))"

fun puts_of :: "'e qop list \<Rightarrow> 'e list" where
  "puts_of [] = []"
| "puts_of (Put x # ops) = x # puts_of ops"
| "puts_of (Get n # ops) = puts_of ops"

lemma qrun_length: "length q \<le> cap \<Longrightarrow> length (snd (qrun cap ops q)) \<le> cap"
  by (induction cap ops q rule: qrun.induct) (auto simp: qput_def split_beta)

lemma qrun_subseq: "subseq (fst (qrun cap ops q) @ snd (qrun cap ops q)) (q @ puts_of ops)"
proof (induction cap ops q rule: qrun.induct)
  case (2 cap x ops q)
  have "subseq (qput cap x q) (q @ [x])"
    unfolding qput_def by (rule suffix_imp_subseq [OF suffix_drop])
  then have "subseq (qput cap x q @ puts_of ops) ((q @ [x]) @ puts_of ops)"
    by (rule list_emb_append_mono) simp
  with 2 show ?case by (auto intro: subseq_order.trans)
next
  case (3 cap n ops q)
  have "subseq (take (unat n) q @ (fst (qrun cap ops (drop (unat n) q)) @ snd (qrun cap ops (drop (unat n) q))))
      (take (unat n) q @ (drop (unat n) q @ puts_of ops))"
    by (rule list_emb_append_mono [OF _ 3]) simp
  then have "subseq (take (unat n) q @ (fst (qrun cap ops (drop (unat n) q)) @ snd (qrun cap ops (drop (unat n) q))))
      (q @ puts_of ops)"
    by (simp only: append_assoc [symmetric] append_take_drop_id)
  then show ?case by (simp add: split_beta)
qed simp

lemma qrun_lossless:
  assumes "length q + length (puts_of ops) \<le> cap"
  shows "fst (qrun cap ops q) @ snd (qrun cap ops q) = q @ puts_of ops"
  using assms
proof (induction cap ops q rule: qrun.induct)
  case (3 cap n ops q)
  then have "fst (qrun cap ops (drop (unat n) q)) @ snd (qrun cap ops (drop (unat n) q))
      = drop (unat n) q @ puts_of ops"
    by simp
  then have "take (unat n) q @ fst (qrun cap ops (drop (unat n) q)) @ snd (qrun cap ops (drop (unat n) q))
      = q @ puts_of ops"
    by (simp only: append_assoc [symmetric] append_take_drop_id)
  then show ?case by (simp add: split_beta)
qed (simp_all add: qput_def)

locale bounded_queue =
  fixes put :: "'e \<Rightarrow> 's \<Rightarrow> 's"
    and get :: "u32 \<Rightarrow> 's \<Rightarrow> 'e list \<times> 's"
    and ok :: "'s \<Rightarrow> bool"
    and queue :: "'s \<Rightarrow> 'e list"
    and cap :: nat
  assumes ok_cap: "ok s \<Longrightarrow> length (queue s) \<le> cap"
    and put_ok: "ok s \<Longrightarrow> ok (put x s)"
    and put_queue: "ok s \<Longrightarrow> queue (put x s) = qput cap x (queue s)"
    and get_ok: "ok s \<Longrightarrow> ok (snd (get n s))"
    and get_out: "ok s \<Longrightarrow> fst (get n s) = take (unat n) (queue s)"
    and get_queue: "ok s \<Longrightarrow> queue (snd (get n s)) = drop (unat n) (queue s)"

text \<open>Running the operations of any implementation.\<close>

fun run_queue ::
    "('e \<Rightarrow> 's \<Rightarrow> 's) \<Rightarrow> (u32 \<Rightarrow> 's \<Rightarrow> 'e list \<times> 's) \<Rightarrow> 'e qop list \<Rightarrow> 's \<Rightarrow> 'e list \<times> 's" where
  "run_queue put get [] s = ([], s)"
| "run_queue put get (Put x # ops) s = run_queue put get ops (put x s)"
| "run_queue put get (Get n # ops) s =
     (let (out, t) = run_queue put get ops (snd (get n s)) in (fst (get n s) @ out, t))"

context bounded_queue
begin

lemma run_refines:
  assumes "ok s"
  shows "ok (snd (run_queue put get ops s))
    \<and> fst (run_queue put get ops s) = fst (qrun cap ops (queue s))
    \<and> queue (snd (run_queue put get ops s)) = snd (qrun cap ops (queue s))"
  using assms
proof (induction ops arbitrary: s)
  case (Cons a ops)
  then show ?case
    by (cases a) (simp_all add: put_ok put_queue get_ok get_out get_queue split_beta)
qed simp

lemma nothing_reordered:
  "ok s \<Longrightarrow> subseq (fst (run_queue put get ops s) @ queue (snd (run_queue put get ops s))) (queue s @ puts_of ops)"
  using run_refines [of s ops] qrun_subseq [of cap ops "queue s"] by simp

lemma nothing_lost:
  "ok s \<Longrightarrow> length (queue s) + length (puts_of ops) \<le> cap
    \<Longrightarrow> fst (run_queue put get ops s) @ queue (snd (run_queue put get ops s)) = queue s @ puts_of ops"
  using run_refines [of s ops] qrun_lossless [of "queue s" ops cap] by simp

end

section \<open>The input queue is a bounded queue\<close>

definition kb_queue :: "'a kbd_scheme \<Rightarrow> u8 list" where
  "kb_queue s = read_bytes (ram s) (input_queue s) (unat (queue_idx s))"

text \<open>The reader's buffer is apart from the queue array.\<close>

definition kb_ok :: "addr \<Rightarrow> 'a kbd_scheme \<Rightarrow> bool" where
  "kb_ok buf s \<longleftrightarrow> unat (queue_idx s) \<le> 256 \<and> unat (input_queue s) + 256 < 4294967296
     \<and> disjoint (input_queue s) 256 buf 256"

definition kb_get :: "addr \<Rightarrow> u32 \<Rightarrow> 'a kbd_scheme \<Rightarrow> u8 list \<times> 'a kbd_scheme" where
  "kb_get buf n s = (case vconsole_read buf n s of (r, t) \<Rightarrow> (read_bytes (ram t) buf (nat r), t))"

lemma kb_queue_store:
  assumes "unat i < 256"
  shows "read_bytes ((m :: mem)(q + i := ch)) q (Suc (unat i)) = read_bytes m q (unat i) @ [ch]"
proof -
  have "read_bytes (m(q + i := ch)) q (unat i) = read_bytes m q (unat i)"
  proof (rule read_bytes_cong)
    fix j assume "j < unat i"
    then have "q + of_nat j \<noteq> q + of_nat (unat i)"
      using assms offset_eq_iff [of j "unat i" q] by simp
    then show "(m(q + i := ch)) (q + of_nat j) = m (q + of_nat j)" by simp
  qed
  then show ?thesis by (simp only: read_bytes_snoc) simp
qed

lemma memmove_read:
  assumes "unat d + n < 4294967296" "unat (d + of_nat k) + n < 4294967296"
  shows "read_bytes (memmove m d (d + of_nat k) (of_nat n)) d n = read_bytes m (d + of_nat k) n"
proof (rule read_bytes_cong)
  fix i assume i: "i < n"
  have n: "unat (of_nat n :: u32) = n" using assms by (simp add: unat_of_nat32)
  have "in_region d n (d + of_nat i)" by (rule in_region_offset) (use i assms in simp_all)
  moreover have "d + of_nat k + (d + of_nat i - d) = d + of_nat k + of_nat i" by simp
  ultimately show "memmove m d (d + of_nat k) (of_nat n) (d + of_nat i) = m (d + of_nat k + of_nat i)"
    using assms n memmove_apply [of "d + of_nat k" "of_nat n" d m "d + of_nat i"] by (simp only: if_True)
qed

lemma queue_start:
  assumes "unat q + 256 < 4294967296" "k \<le> 256"
  shows "unat (q + of_nat k :: addr) = unat q + k"
proof -
  have "unat (of_nat k :: addr) = k" using assms by (simp add: unat_of_nat32)
  then show ?thesis using assms by (simp add: unat_add_small)
qed

lemma kb_enqueue_queue:
  assumes "kb_ok buf s"
  shows "kb_queue (kb_enqueue ch s) = qput 256 ch (kb_queue s) \<and> kb_ok buf (kb_enqueue ch s)"
proof (cases "unat (queue_idx s) < 256")
  case True
  then have "unat (queue_idx s + 1) = Suc (unat (queue_idx s))" by (simp add: unat_succ)
  then show ?thesis
    using True assms kb_queue_store [OF True, of "ram s" "input_queue s" ch]
    by (simp add: kb_enqueue_def kb_queue_def kb_ok_def qput_def word_le_nat_alt)
next
  case False
  then have q256: "unat (queue_idx s) = 256" using assms by (simp add: kb_ok_def)
  then have q: "queue_idx s = 256" by (simp add: word_unat_eq_iff)
  let ?q = "input_queue s" and ?m = "memmove (ram s) (input_queue s) (input_queue s + 1) 255"
  have b: "unat ?q + 256 < 4294967296" using assms by (simp add: kb_ok_def)
  have "read_bytes (memmove (ram s) ?q (?q + of_nat 1) (of_nat 255)) ?q 255
      = read_bytes (ram s) (?q + of_nat 1) 255"
    by (rule memmove_read) (use b queue_start [OF b, of 1] in simp_all)
  then have "read_bytes ?m ?q 255 = drop 1 (read_bytes (ram s) ?q 256)"
    by (simp add: drop_read_bytes)
  moreover have "read_bytes (?m(?q + 255 := ch)) ?q 256 = read_bytes ?m ?q 255 @ [ch]"
    using kb_queue_store [of 255 ?m ?q ch] by simp
  ultimately show ?thesis
    using assms q by (simp add: kb_enqueue_def kb_queue_def kb_ok_def qput_def)
qed

lemma unat_vcr_len: "unat (vcr_len n s) = min (unat (queue_idx s)) (unat n)"
  by (simp add: vcr_len_def min_def word_less_nat_alt)

lemma to_int_small:
  assumes "unat k < 2147483648"
  shows "to_int k = int (unat k)"
proof -
  have "int (unat k) < int 2147483648" using assms by (simp only: of_nat_less_iff)
  then have u: "uint k < 2147483648" "0 \<le> uint k" by simp_all
  show ?thesis
    unfolding to_int_def sint_uint by (subst signed_take_bit_int_eq_self) (simp_all, (use u in linarith)+)
qed

text \<open>The bytes of the queue array, and of the reader's buffer, after the first three statements.\<close>

lemma vcr_memory:
  assumes "kb_ok buf s" "unat k \<le> unat (queue_idx s)"
  defines "m2 \<equiv> ram (vcr_shift k (vcr_copy buf k s))"
  shows "j < 256 \<Longrightarrow> m2 (input_queue s + of_nat j) =
      (if j + unat k < unat (queue_idx s) then ram s (input_queue s + of_nat (unat k + j))
       else ram s (input_queue s + of_nat j))"
    and "read_bytes m2 buf (unat k) = take (unat k) (kb_queue s)"
proof -
  let ?q = "input_queue s" and ?i = "unat (queue_idx s)"
  define m1 where "m1 = memcpy (ram s) buf ?q k"
  have b: "unat ?q + 256 < 4294967296" and i: "?i \<le> 256" and dj: "disjoint ?q 256 buf 256"
    using assms(1) by (simp_all add: kb_ok_def)
  note k = assms(2)
  have rest: "unat (queue_idx s - k) = ?i - unat k" using k by (simp add: unat_sub_if')
  have m2: "m2 = memmove m1 ?q (?q + k) (queue_idx s - k)"
    by (simp add: m2_def vcr_copy_def vcr_shift_def m1_def)
  have mv: "m2 x = (if in_region ?q (?i - unat k) x then m1 (?q + k + (x - ?q)) else m1 x)" for x
    using memmove_apply [of "?q + k" "queue_idx s - k" ?q m1] queue_start [OF b, of "unat k"] b i k rest
    by (simp add: m2)
  have m1: "m1 = write_bytes (ram s) buf (read_bytes (ram s) ?q (unat k))"
    unfolding m1_def by (rule memcpy_eq_write_bytes) (use dj k i in \<open>auto intro: disjoint_sym disjoint_mono\<close>)
  have djk: "disjoint ?q 256 buf (unat k)" by (rule disjoint_mono [OF dj]) (use k i in simp_all)
  have out: "m1 x = ram s x" if "j < 256" "x = ?q + of_nat j" for x j
  proof -
    have "\<not> in_region buf (unat k) x"
      unfolding that(2) by (rule disjoint_not_in_region [OF disjoint_sym [OF djk]]) (use that in simp_all)
    then show ?thesis using k i by (simp add: m1 write_bytes_outside)
  qed
  show "m2 (?q + of_nat j) = (if j + unat k < ?i then ram s (?q + of_nat (unat k + j))
      else ram s (?q + of_nat j))" if j: "j < 256"
  proof -
    have "unat (of_nat j :: u32) = j" using j by (simp add: unat_of_nat32)
    then have "in_region ?q (?i - unat k) (?q + of_nat j) \<longleftrightarrow> j + unat k < ?i"
      using k by (auto simp: in_region_def)
    moreover have "?q + k + (?q + of_nat j - ?q) = ?q + of_nat (unat k + j)" by simp
    ultimately show ?thesis
      using out [of "unat k + j"] out [OF j] i by (simp only: mv) simp
  qed
  have "read_bytes m2 buf (unat k) = read_bytes m1 buf (unat k)"
  proof (rule read_bytes_cong)
    fix j assume j: "j < unat k"
    have "\<not> in_region ?q (?i - unat k) (buf + of_nat j)"
      by (rule disjoint_not_in_region [of _ _ _ 256], rule disjoint_mono [OF dj]) (use j k i in simp_all)
    then show "m2 (buf + of_nat j) = m1 (buf + of_nat j)" by (simp only: mv if_False)
  qed
  also have "\<dots> = read_bytes (ram s) ?q (unat k)"
    using read_write_bytes [of "read_bytes (ram s) ?q (unat k)" "ram s" buf] i k by (simp add: m1)
  also have "\<dots> = take (unat k) (kb_queue s)"
    using k by (simp add: kb_queue_def take_read_bytes)
  finally show "read_bytes m2 buf (unat k) = take (unat k) (kb_queue s)" .
qed

lemma vcr_fields [simp]:
  "input_queue (vcr_shift k (vcr_copy buf k s)) = input_queue s"
  "queue_idx (vcr_shift k (vcr_copy buf k s)) = queue_idx s"
  "modifiers (vcr_shift k (vcr_copy buf k s)) = modifiers s"
  "input_queue (vcr_count k s) = input_queue s" "queue_idx (vcr_count k s) = queue_idx s - k"
  "ram (vcr_count k s) = ram s" "modifiers (vcr_count k s) = modifiers s"
  by (simp_all add: vcr_shift_def vcr_copy_def vcr_count_def)

lemma vconsole_read_memory:
  assumes "kb_ok buf s" "vconsole_read buf n s = (r, t)"
  shows "nat r = min (unat (queue_idx s)) (unat n)"
    and "read_bytes (ram t) buf (nat r) = take (unat n) (kb_queue s)"
    and "kb_queue t = drop (unat n) (kb_queue s)" "kb_ok buf t" "modifiers t = modifiers s"
proof -
  let ?q = "input_queue s" and ?i = "unat (queue_idx s)"
  define k where "k = vcr_len n s"
  have i: "?i \<le> 256" using assms(1) by (simp add: kb_ok_def)
  have k: "unat k = min ?i (unat n)" "unat k \<le> ?i" by (simp_all add: k_def unat_vcr_len)
  have rest: "unat (queue_idx s - k) = ?i - unat k" using k(2) by (simp add: unat_sub_if')
  have t: "t = vcr_count k (vcr_shift k (vcr_copy buf k s))" "r = to_int k"
    using assms(2) by (simp_all add: vconsole_read_def Let_def k_def)
  show r: "nat r = min ?i (unat n)" using k i by (simp add: t to_int_small)
  note mem = vcr_memory [OF assms(1) k(2)]
  show "read_bytes (ram t) buf (nat r) = take (unat n) (kb_queue s)"
    using mem(2) r k by (simp add: t kb_queue_def min_def)
  have "kb_queue t = drop (unat k) (kb_queue s)"
    by (rule nth_equalityI)
       (use rest i k mem(1) in \<open>simp_all add: t kb_queue_def add.assoc less_diff_conv\<close>)
  then show "kb_queue t = drop (unat n) (kb_queue s)"
    using k by (cases "?i \<le> unat n") (simp_all add: kb_queue_def)
  show "kb_ok buf t" using assms(1) rest i by (simp add: t kb_ok_def)
  show "modifiers t = modifiers s" by (simp add: t)
qed

interpretation keys: bounded_queue kb_enqueue "kb_get buf" "kb_ok buf" kb_queue 256 for buf
proof unfold_locales
  fix s :: "'a kbd_scheme" and n x
  assume ok: "kb_ok buf s"
  then show "length (kb_queue s) \<le> 256" by (simp add: kb_ok_def kb_queue_def)
  show "kb_ok buf (kb_enqueue x s)" "kb_queue (kb_enqueue x s) = qput 256 x (kb_queue s)"
    using kb_enqueue_queue [OF ok] by simp_all
  obtain r t where rt: "vconsole_read buf n s = (r, t)" by fastforce
  show "kb_ok buf (snd (kb_get buf n s))" "fst (kb_get buf n s) = take (unat n) (kb_queue s)"
    "kb_queue (snd (kb_get buf n s)) = drop (unat n) (kb_queue s)"
    using vconsole_read_memory [OF ok rt] by (simp_all add: kb_get_def rt)
qed

section \<open>Keys and modifiers\<close>

text \<open>What a key press does to the modifiers and what it types, as functions of the modifiers.\<close>

definition has_mod :: "u8 \<Rightarrow> u8 \<Rightarrow> bool" where
  "has_mod ms m \<longleftrightarrow> ms AND m \<noteq> 0"

definition typed :: "u8 \<Rightarrow> u8 \<Rightarrow> u8 option" where
  "typed ms keycode =
     (if keycode \<in> {0x80, 0x8b, 0xa0, 0xa7, 0xa2, 0xa4, 0x60} then None
      else let ch = keycode_to_char (has_mod ms SHIFT \<noteq> has_mod ms CAPS) keycode
           in if ch = 0 then None else Some (if has_mod ms CTRL then ch AND 0x1f else ch))"

lemma kb_key_pressed_typed:
  "kb_key_pressed keycode s = (case typed (modifiers s) keycode of
     Some ch \<Rightarrow> kb_enqueue ch s
   | None \<Rightarrow> s\<lparr>modifiers := modifiers (kb_key_pressed keycode s)\<rparr>)"
  by (auto simp: kb_key_pressed_def typed_def has_mod_def kb_get_mod_def kb_set_mod_def Let_def)

datatype key_event = Press u8 | Release u8

fun key_step :: "key_event \<Rightarrow> 'a kbd_scheme \<Rightarrow> 'a kbd_scheme" where
  "key_step (Press k) s = kb_key_pressed k s"
| "key_step (Release k) s = kb_key_released k s"

text \<open>The keys that are modifiers while they are held, and the bit of each.\<close>

definition held_keys :: "(u8 \<times> u8) list" where
  "held_keys = [(0x80, LSHIFT), (0x8b, RSHIFT), (0xa0, LCTRL), (0xa7, RCTRL), (0xa2, LALT), (0xa4, RALT)]"

fun key_code :: "key_event \<Rightarrow> u8" where
  "key_code (Press k) = k"
| "key_code (Release k) = k"

fun is_press :: "key_event \<Rightarrow> bool" where
  "is_press (Press k) = True"
| "is_press (Release k) = False"

lemma enqueue_modifiers [simp]: "modifiers (kb_enqueue ch s) = modifiers s"
  by (simp add: kb_enqueue_def Let_def)

text \<open>Modifiers as bits; the modifier keys in the order of their bits.\<close>

lemma get_mod_bit: "kb_get_mod (2 ^ i) s \<longleftrightarrow> bit (modifiers s) i"
  by (simp add: kb_get_mod_def and_exp_eq_0_iff_not_bit)

lemma set_mod_bit:
  "i < 8 \<Longrightarrow> bit (modifiers (kb_set_mod (2 ^ j) v s)) i = (if i = j then v else bit (modifiers s) i)"
  by (auto simp: kb_set_mod_def bit_or_iff bit_and_iff bit_not_iff bit_exp_iff)

definition held_codes :: "u8 list" where
  "held_codes = [0x80, 0x8b, 0xa0, 0xa7, 0xa2, 0xa4]"

lemma held_keys_zip: "held_keys = zip held_codes (map (\<lambda>i. 2 ^ i) [0..<6])"
  by (simp add: held_keys_def held_codes_def upt_rec)

lemma held_codes_facts: "length held_codes = 6" "distinct held_codes" "0x60 \<notin> set held_codes"
  by (simp_all add: held_codes_def)

lemma held_keyE:
  assumes "(k, m) \<in> set held_keys"
  obtains i where "i < 6" "k = held_codes ! i" "m = 2 ^ i"
  using assms by (auto simp: held_keys_zip set_zip held_codes_facts)

lemma CAPS_bit: "CAPS = 2 ^ 6"
  by simp

lemma set_held_mod:
  assumes "(k, m) \<in> set held_keys" "(k', m') \<in> set held_keys"
  shows "kb_get_mod m (kb_set_mod m' v s) = (if k' = k then v else kb_get_mod m s)"
proof -
  obtain i where i: "i < 6" "k = held_codes ! i" "m = 2 ^ i" by (rule held_keyE [OF assms(1)])
  obtain j where j: "j < 6" "k' = held_codes ! j" "m' = 2 ^ j" by (rule held_keyE [OF assms(2)])
  have "k' = k \<longleftrightarrow> i = j"
    using i j held_codes_facts by (auto simp: nth_eq_iff_index_eq)
  then show ?thesis using i(1) unfolding i(3) j(3) get_mod_bit by (simp add: set_mod_bit)
qed

lemma set_caps:
  "kb_get_mod CAPS (kb_set_mod CAPS v s) = v"
  "(k, m) \<in> set held_keys \<Longrightarrow> kb_get_mod m (kb_set_mod CAPS v s) = kb_get_mod m s"
  "(k, m) \<in> set held_keys \<Longrightarrow> kb_get_mod CAPS (kb_set_mod m v s) = kb_get_mod CAPS s"
  unfolding CAPS_bit get_mod_bit
  by (auto simp: set_mod_bit get_mod_bit elim!: held_keyE simp del: power_numeral)

lemma get_enqueue [simp]: "kb_get_mod m (kb_enqueue ch s) = kb_get_mod m s"
  by (simp add: kb_get_mod_def)

lemma key_pressed_map:
  "kb_key_pressed k s = (case map_of held_keys k of
     Some m \<Rightarrow> kb_set_mod m True s
   | None \<Rightarrow> if k = 0x60 then kb_set_mod CAPS (\<not> kb_get_mod CAPS s) s
             else (case typed (modifiers s) k of None \<Rightarrow> s | Some ch \<Rightarrow> kb_enqueue ch s))"
  unfolding kb_key_pressed_def held_keys_def map_of.simps fst_conv snd_conv fun_upd_apply typed_def
    has_mod_def kb_get_mod_def Let_def
  by simp

lemma key_released_map:
  "kb_key_released k s = (case map_of held_keys k of Some m \<Rightarrow> kb_set_mod m False s | None \<Rightarrow> s)"
  unfolding kb_key_released_def held_keys_def map_of.simps fst_conv snd_conv fun_upd_apply by simp

lemma key_step_map:
  "key_step e s = (case map_of held_keys (key_code e) of
     Some m \<Rightarrow> kb_set_mod m (is_press e) s
   | None \<Rightarrow> if e = Press 0x60 then kb_set_mod CAPS (\<not> kb_get_mod CAPS s) s
             else (case e of Press k \<Rightarrow> (case typed (modifiers s) k of None \<Rightarrow> s | Some ch \<Rightarrow> kb_enqueue ch s)
                   | Release k \<Rightarrow> s))"
  by (cases e) (simp_all add: key_pressed_map key_released_map split: option.split)

lemma key_step_caps_lock: "key_step (Press 0x60) s = kb_set_mod CAPS (\<not> kb_get_mod CAPS s) s"
  by (simp add: kb_key_pressed_def)

lemma get_key_step:
  assumes "map_of held_keys (key_code e) = None" "e \<noteq> Press 0x60"
  shows "kb_get_mod m (key_step e s) = kb_get_mod m s"
  unfolding key_step_map using assms by (auto split: key_event.split option.split)

lemma held_distinct: "distinct (map fst held_keys)"
  by (simp add: held_keys_def)

lemma key_step_held:
  assumes "(k, m) \<in> set held_keys"
  shows "kb_get_mod m (key_step e s) = (if key_code e = k then is_press e else kb_get_mod m s)"
proof (cases "map_of held_keys (key_code e)")
  case None
  moreover have "map_of held_keys k = Some m" using assms held_distinct by simp
  ultimately show ?thesis
    using assms get_key_step [OF None]
    by (cases "e = Press 0x60") (auto simp: set_caps key_step_caps_lock simp del: key_step.simps)
next
  case (Some m')
  then have "(key_code e, m') \<in> set held_keys" by (rule map_of_SomeD)
  moreover have "key_step e s = kb_set_mod m' (is_press e) s" using key_step_map [of e s] Some by simp
  ultimately show ?thesis by (simp add: set_held_mod [OF assms])
qed

lemma key_step_caps:
  "kb_get_mod CAPS (key_step e s) = (kb_get_mod CAPS s \<noteq> (e = Press 0x60))"
proof (cases "map_of held_keys (key_code e)")
  case None
  then show ?thesis using get_key_step [OF None]
    by (cases "e = Press 0x60") (auto simp: set_caps key_step_caps_lock simp del: key_step.simps)
next
  case (Some m')
  then have "(key_code e, m') \<in> set held_keys" by (rule map_of_SomeD)
  moreover have "e \<noteq> Press 0x60" using Some by (auto simp: held_keys_def)
  ultimately show ?thesis using key_step_map [of e s] Some by (simp add: set_caps)
qed

section \<open>Sessions\<close>

text \<open>
  A session mixes key events with reads into \<open>buf\<close>. Its specification tracks the modifiers as
  a value and turns every key event into at most one queued character.
\<close>

datatype kb_op = Key key_event | Read u32

fun kb_session :: "addr \<Rightarrow> kb_op list \<Rightarrow> 'a kbd_scheme \<Rightarrow> u8 list \<times> 'a kbd_scheme" where
  "kb_session buf [] s = ([], s)"
| "kb_session buf (Key e # ops) s = kb_session buf ops (key_step e s)"
| "kb_session buf (Read n # ops) s =
     (let (r, s1) = vconsole_read buf n s; (out, t) = kb_session buf ops s1
      in (read_bytes (ram s1) buf (nat r) @ out, t))"

definition mods_step :: "key_event \<Rightarrow> u8 \<Rightarrow> u8" where
  "mods_step e ms = (case map_of held_keys (key_code e) of
     Some m \<Rightarrow> if is_press e then ms OR m else ms AND NOT m
   | None \<Rightarrow> if e = Press 0x60 then (if has_mod ms CAPS then ms AND NOT CAPS else ms OR CAPS) else ms)"

fun queue_ops :: "u8 \<Rightarrow> kb_op list \<Rightarrow> u8 qop list" where
  "queue_ops ms [] = []"
| "queue_ops ms (Key e # ops) =
     (case e of Press k \<Rightarrow> (case typed ms k of None \<Rightarrow> [] | Some ch \<Rightarrow> [Put ch]) | Release k \<Rightarrow> [])
       @ queue_ops (mods_step e ms) ops"
| "queue_ops ms (Read n # ops) = Get n # queue_ops ms ops"

lemma typed_held: "map_of held_keys k = Some m \<Longrightarrow> typed ms k = None" "typed ms 0x60 = None"
  by (auto simp: typed_def held_keys_def split: if_splits)

lemma set_mod_modifiers [simp]:
  "modifiers (kb_set_mod m v s) = (if v then modifiers s OR m else modifiers s AND NOT m)"
  by (simp add: kb_set_mod_def)

lemma modifiers_key_step: "modifiers (key_step e s) = mods_step e (modifiers s)"
  by (auto simp: key_step_map mods_step_def has_mod_def kb_get_mod_def simp del: key_step.simps
    split: option.split key_event.split)

lemma kb_set_mod_queue [simp]:
  "kb_queue (kb_set_mod m v s) = kb_queue s" "kb_ok buf (kb_set_mod m v s) = kb_ok buf s"
  by (simp_all add: kb_set_mod_def kb_queue_def kb_ok_def)

lemma key_step_queue:
  assumes "kb_ok buf s"
  shows "kb_ok buf (key_step e s)"
    and "kb_queue (key_step e s) = (case e of Press k \<Rightarrow> (case typed (modifiers s) k of
        None \<Rightarrow> kb_queue s | Some ch \<Rightarrow> qput 256 ch (kb_queue s)) | Release k \<Rightarrow> kb_queue s)"
  using assms
  by (auto simp: key_step_map keys.put_ok keys.put_queue [OF assms] typed_held simp del: key_step.simps
    split: option.split key_event.split)

lemma kb_session_qrun:
  assumes "kb_ok buf s"
  shows "kb_ok buf (snd (kb_session buf ops s))
    \<and> (fst (kb_session buf ops s), kb_queue (snd (kb_session buf ops s)))
        = qrun 256 (queue_ops (modifiers s) ops) (kb_queue s)"
  using assms
proof (induction ops arbitrary: s)
  case (Cons a ops)
  show ?case
  proof (cases a)
    case (Key e)
    then show ?thesis
      using Cons.IH [OF key_step_queue(1) [OF Cons.prems, of e]] key_step_queue(2) [OF Cons.prems, of e]
      by (simp add: modifiers_key_step split: option.split key_event.split)
  next
    case (Read n)
    obtain r s1 where rs: "vconsole_read buf n s = (r, s1)" by fastforce
    note m = vconsole_read_memory [OF Cons.prems rs]
    show ?thesis using Cons.IH [OF m(4)] m Read rs by (simp add: split_beta prod_eq_iff)
  qed
qed simp

section \<open>Properties\<close>

text \<open>
  C26. In any session of key presses, releases and reads, what the reads deliver followed by what
  is left in the queue is a subsequence, in order, of what was queued at the start followed by the
  characters typed; it is all of it when no more than 256 characters are outstanding. It equals the
  run of a list that forgets its oldest characters beyond 256.
\<close>

theorem keyboard_fifo:
  assumes "kb_ok buf s" "kb_session buf ops s = (out, t)"
  shows "(out, kb_queue t) = qrun 256 (queue_ops (modifiers s) ops) (kb_queue s)
    \<and> subseq (out @ kb_queue t) (kb_queue s @ puts_of (queue_ops (modifiers s) ops))
    \<and> (length (kb_queue s) + length (puts_of (queue_ops (modifiers s) ops)) \<le> 256
        \<longrightarrow> out @ kb_queue t = kb_queue s @ puts_of (queue_ops (modifiers s) ops))"
proof -
  have q: "(out, kb_queue t) = qrun 256 (queue_ops (modifiers s) ops) (kb_queue s)"
    using kb_session_qrun [OF assms(1), of ops] assms(2) by simp
  then have "fst (qrun 256 (queue_ops (modifiers s) ops) (kb_queue s)) = out"
    "snd (qrun 256 (queue_ops (modifiers s) ops) (kb_queue s)) = kb_queue t"
    by (simp_all flip: q)
  with q show ?thesis
    using qrun_subseq [of 256 "queue_ops (modifiers s) ops" "kb_queue s"]
      qrun_lossless [of "kb_queue s" "queue_ops (modifiers s) ops" 256]
    by (intro conjI impI) simp_all
qed

definition kbd_start :: kbd where
  "kbd_start = memdev.extend memdev_start (kbd.fields 0x9000 0 0)"

lemma kbd_start_simps [simp]:
  "input_queue kbd_start = 0x9000" "queue_idx kbd_start = 0" "modifiers kbd_start = 0"
  by (simp_all add: kbd_start_def memdev.extend_def kbd.fields_def)

theorem keyboard_fifo_witness:
  "(let (out, t) = kb_session 0x5000 [Key (Press 0x80), Key (Press 0x61), Key (Release 0x80),
        Key (Press 0x61), Key (Press 0x62), Read 2] kbd_start
    in out @ kb_queue t) = [65, 97, 115]"
proof -
  let ?ops = "[Key (Press 0x80), Key (Press 0x61), Key (Release 0x80), Key (Press 0x61), Key (Press 0x62), Read 2]"
  have ok: "kb_ok 0x5000 kbd_start" "kb_queue kbd_start = []"
    by (simp_all add: kb_ok_def disjoint_def kb_queue_def)
  have "puts_of (queue_ops 0 ?ops) = [65, 97, 115]" by code_simp
  then show ?thesis
    using keyboard_fifo [OF ok(1), of ?ops "fst (kb_session 0x5000 ?ops kbd_start)" "snd (kb_session 0x5000 ?ops kbd_start)"] ok(2)
    by (simp add: split_beta del: kb_session.simps queue_ops.simps)
qed

text \<open>
  C27. After any sequence of key events a modifier key counts as held exactly when the last event of
  that key was a press (or it was held before and had no event), and Caps Lock is on exactly when it
  was and has been pressed an even number of times since, or was not and an odd number.
\<close>

theorem modifiers_track_keys:
  "(\<forall>(k, m) \<in> set held_keys. kb_get_mod m (fold key_step es s) =
      (case find (\<lambda>e. key_code e = k) (rev es) of None \<Rightarrow> kb_get_mod m s | Some e \<Rightarrow> is_press e))
    \<and> kb_get_mod CAPS (fold key_step es s)
        = (kb_get_mod CAPS s \<noteq> odd (length (filter (\<lambda>e. e = Press 0x60) es)))"
proof (induction es rule: rev_induct)
  case (snoc e es)
  have "kb_get_mod m (fold key_step (es @ [e]) s) =
      (case find (\<lambda>e. key_code e = k) (rev (es @ [e])) of None \<Rightarrow> kb_get_mod m s | Some e \<Rightarrow> is_press e)"
    if "(k, m) \<in> set held_keys" for k m
    using snoc that key_step_held [OF that, of e "fold key_step es s"] by auto
  moreover have "kb_get_mod CAPS (fold key_step (es @ [e]) s)
      = (kb_get_mod CAPS s \<noteq> odd (length (filter (\<lambda>e. e = Press 0x60) (es @ [e]))))"
    using snoc key_step_caps [of e "fold key_step es s"] by auto
  ultimately show ?case by blast
qed simp

theorem modifiers_track_keys_witness:
  "kb_get_mod RSHIFT (fold key_step [Press 0x8b, Press 0x60, Press 0x80, Release 0x80] kbd_start)
    \<and> \<not> kb_get_mod LSHIFT (fold key_step [Press 0x8b, Press 0x60, Press 0x80, Release 0x80] kbd_start)
    \<and> kb_get_mod CAPS (fold key_step [Press 0x8b, Press 0x60, Press 0x80, Release 0x80] kbd_start)"
proof -
  have held: "(0x80, LSHIFT) \<in> set held_keys" "(0x8b, RSHIFT) \<in> set held_keys" by (simp_all add: held_keys_def)
  have caps: "\<not> kb_get_mod CAPS kbd_start" by (simp add: kb_get_mod_def)
  note tracks = modifiers_track_keys [of "[Press 0x8b, Press 0x60, Press 0x80, Release 0x80]" kbd_start]
  show ?thesis
    using bspec [OF conjunct1 [OF tracks] held(1)] bspec [OF conjunct1 [OF tracks] held(2)] conjunct2 [OF tracks] caps
    by (simp del: key_step.simps fold_simps)
qed

text \<open>
  C28. The reader is not protected against the keyboard interrupt: when a key that types a character
  arrives after the rest of the queue has been moved and before the count is updated, the typed
  character is lost and an old one is delivered a second time in its place.
\<close>

theorem key_press_during_read:
  assumes "kb_ok buf s" "unat (queue_idx s) < 256" "0 < vcr_len n s"
    and "typed (modifiers s) k = Some ch"
    and "t = vcr_count (vcr_len n s) (kb_key_pressed k (vcr_shift (vcr_len n s) (vcr_copy buf (vcr_len n s) s)))"
  shows "kb_queue t = drop (unat (vcr_len n s)) (kb_queue s)
    @ [kb_queue s ! (length (kb_queue s) - unat (vcr_len n s))]"
proof -
  let ?q = "input_queue s" and ?i = "unat (queue_idx s)" and ?k = "unat (vcr_len n s)"
  let ?u = "vcr_shift (vcr_len n s) (vcr_copy buf (vcr_len n s) s)"
  have k: "0 < ?k" "?k \<le> ?i" using assms(3) by (simp_all add: unat_vcr_len word_less_nat_alt)
  note mem = vcr_memory(1) [OF assms(1) k(2)]
  have "kb_key_pressed k ?u = kb_enqueue ch ?u"
    using assms(4) by (subst kb_key_pressed_typed) simp
  then have t: "t = vcr_count (vcr_len n s) (?u\<lparr>ram := (ram ?u)(?q + queue_idx s := ch), queue_idx := queue_idx s + 1\<rparr>)"
    using assms(2,5) by (simp add: kb_enqueue_def word_le_nat_alt Let_def)
  have cnt: "unat (queue_idx s + 1 - vcr_len n s) = Suc ?i - ?k"
  proof -
    have "unat (queue_idx s + 1) = Suc ?i" using assms(2) by (simp add: unat_succ)
    then show ?thesis using k by (simp add: unat_sub_if')
  qed
  have byte: "ram t (?q + of_nat j) = kb_queue s ! (if j < ?i - ?k then ?k + j else j)" if "j \<le> ?i - ?k" for j
  proof -
    have "?q + of_nat j \<noteq> ?q + of_nat ?i" using that k assms(2) offset_eq_iff [of j ?i ?q] by simp
    then have "ram t (?q + of_nat j) = ram ?u (?q + of_nat j)" by (simp add: t)
    then show ?thesis using mem [of j] that k assms(2) by (simp add: kb_queue_def less_diff_conv add.commute)
  qed
  have len: "length (kb_queue t) = Suc ?i - ?k" "length (kb_queue s) = ?i"
    using cnt by (simp_all add: kb_queue_def t)
  show ?thesis
  proof (rule nth_equalityI)
    fix j assume "j < length (kb_queue t)"
    then have j: "j \<le> ?i - ?k" using len k by simp
    have "kb_queue t ! j = ram t (?q + of_nat j)"
      using j len k cnt by (simp add: kb_queue_def t)
    then show "kb_queue t ! j = (drop ?k (kb_queue s) @ [kb_queue s ! (length (kb_queue s) - ?k)]) ! j"
      using byte [OF j] j len k by (auto simp: nth_append)
  qed (use len k in simp)
qed

theorem key_press_during_read_witness:
  "kb_queue (vcr_count 1 (kb_key_pressed 0x62 (vcr_shift 1 (vcr_copy 0x5000 1 (kb_key_pressed 0x61 kbd_start)))))
    = [97]"
proof -
  let ?s = "kb_key_pressed 0x61 kbd_start"
  have "kb_ok 0x5000 kbd_start" by (simp add: kb_ok_def disjoint_def)
  then have ok: "kb_ok 0x5000 ?s" using key_step_queue(1) [of _ kbd_start "Press 0x61"] by simp
  have ty: "typed 0 0x61 = Some 97" "typed 0 0x62 = Some 115" by code_simp+
  have s: "?s = kb_enqueue 97 kbd_start" using ty by (subst kb_key_pressed_typed) simp
  have q: "queue_idx ?s = 1" "modifiers ?s = 0" unfolding s by (simp_all add: kb_enqueue_def)
  have "kb_queue ?s = [97]" unfolding s by (simp add: kb_queue_def kb_enqueue_def read_bytes_def)
  then show ?thesis
    using key_press_during_read [OF ok, of 1 "0x62" 115, OF _ _ _ refl] q ty by (simp add: vcr_len_def)
qed

end
