(* ===== verification/Tty_Driver.thy ===== *)
theory Tty_Driver
  imports Keyboard
begin

text \<open>
  kernel/drivers/char/tty.c: the terminal character device. Minor number 0 is the virtual console,
  whose input is the keyboard queue and whose output is the screen; the minor numbers below 128 are
  serial ports.
\<close>

section \<open>Operations\<close>

definition tty_read ::
    "dev_t \<Rightarrow> off_t \<Rightarrow> addr \<Rightarrow> u32 \<Rightarrow> 'a kbd_scheme \<Rightarrow> int \<times> 'a kbd_scheme" where
  "tty_read dev pos buf n s =
     (let m = MINOR dev in
      if m = 0 then vconsole_read buf n s
      else if m < 128 then serial_read (uint m) buf n s
      else (- ENODEV, s))"

definition tty_write ::
    "dev_t \<Rightarrow> off_t \<Rightarrow> addr \<Rightarrow> u32 \<Rightarrow> 'a kbd_scheme \<Rightarrow> int \<times> 'a kbd_scheme" where
  "tty_write dev pos buf n s =
     (let m = MINOR dev in
      if m = 0 then vconsole_write buf n s
      else if m < 128 then serial_write (uint m) buf n s
      else (- ENODEV, s))"

definition tty_driver :: "'a kbd_scheme char_driver" where
  "tty_driver = \<lparr>cd_read = tty_read, cd_write = tty_write\<rparr>"

definition register_tty_driver :: "addr \<Rightarrow> 'a drvtab_scheme \<Rightarrow> 'a drvtab_scheme" where
  "register_tty_driver tty_driver_addr s = register_char_driver CHR_TTY tty_driver_addr s"

section \<open>Lemmas\<close>

lemma tty_through_table:
  assumes "char_drivers s (MAJOR dev) \<noteq> NULL" "cdrv (char_drivers s (MAJOR dev)) = tty_driver"
  shows "write_char cdrv dev pos buf n s = tty_write dev pos buf n s"
    and "read_char cdrv dev pos buf n s = tty_read dev pos buf n s"
  using assms by (simp_all add: write_char_def read_char_def tty_driver_def)

lemma serial_write_com:
  "serial_write 1 buf n s = (to_int n, s\<lparr>io := io s @ map (Out 0x3f8) (read_bytes (ram s) buf (unat n))\<rparr>)"
  "serial_write 2 buf n s = (to_int n, s\<lparr>io := io s @ map (Out 0x2f8) (read_bytes (ram s) buf (unat n))\<rparr>)"
  by (simp_all add: serial_write_def serial_port_def serial_write_loop_io)

section \<open>Properties\<close>

text \<open>
  Writing through the driver table to a terminal device: minor 1 and 2 send exactly the bytes of
  the buffer to the data port of COM1 and COM2, every other minor number but 0 is ENODEV without an
  effect, and minor 0 puts the bytes on the screen one after the other; all return the length.
\<close>

theorem tty_write_routes:
  assumes "char_drivers s (MAJOR dev) \<noteq> NULL" "cdrv (char_drivers s (MAJOR dev)) = tty_driver"
    and "console_ok s" "\<And>i. i < unat n \<Longrightarrow> \<not> in_region (vga_buffer s) 4000 (buf + of_nat i)"
  shows "case write_char cdrv dev pos buf n s of (r, t) \<Rightarrow>
    if MINOR dev = 0 then r = to_int n \<and> console_ok t
      \<and> screen_of t = fold screen_put (read_bytes (ram s) buf (unat n)) (screen_of s)
    else if MINOR dev = 1 then r = to_int n
      \<and> t = s\<lparr>io := io s @ map (Out 0x3f8) (read_bytes (ram s) buf (unat n))\<rparr>
    else if MINOR dev = 2 then r = to_int n
      \<and> t = s\<lparr>io := io s @ map (Out 0x2f8) (read_bytes (ram s) buf (unat n))\<rparr>
    else r = - ENODEV \<and> t = s"
proof -
  have w: "write_char cdrv dev pos buf n s = tty_write dev pos buf n s"
    by (rule tty_through_table) (use assms in simp_all)
  have three: "uint (MINOR dev) > 2" if "MINOR dev \<noteq> 0" "MINOR dev \<noteq> 1" "MINOR dev \<noteq> 2"
  proof -
    have "unat (MINOR dev) \<noteq> 0" "unat (MINOR dev) \<noteq> 1" "unat (MINOR dev) \<noteq> 2"
      using that by (auto simp: word_unat_eq_iff)
    then have "2 < unat (MINOR dev)" by linarith
    then have "int 2 < int (unat (MINOR dev))" by (simp only: of_nat_less_iff)
    then show ?thesis by simp
  qed
  show ?thesis
  proof (cases "MINOR dev = 0")
    case True
    then show ?thesis
      using vga.fold_put_ok [OF assms(3)] vga.fold_put_view [OF assms(3)]
      by (simp add: w tty_write_def vconsole_write_eq [OF assms(3,4)] Let_def)
  next
    case False
    consider "MINOR dev = 1" | "MINOR dev = 2" | "MINOR dev \<noteq> 1" "MINOR dev \<noteq> 2" by blast
    then show ?thesis
    proof cases
      case 3
      with three False show ?thesis by (simp add: w tty_write_def serial_write_def Let_def)
    qed (simp_all add: w tty_write_def serial_write_com)
  qed
qed

text \<open>
  Reading through the driver table from the console device takes the oldest typed characters,
  at most the number asked for, out of the keyboard queue; serial ports read as empty and the
  reserved minor numbers are ENODEV.
\<close>

theorem tty_read_routes:
  assumes "char_drivers s (MAJOR dev) \<noteq> NULL" "cdrv (char_drivers s (MAJOR dev)) = tty_driver"
    and "kb_ok buf s"
  shows "case read_char cdrv dev pos buf n s of (r, t) \<Rightarrow>
    if MINOR dev = 0 then r = int (min (length (kb_queue s)) (unat n))
      \<and> read_bytes (ram t) buf (nat r) = take (unat n) (kb_queue s)
      \<and> kb_queue t = drop (unat n) (kb_queue s) \<and> kb_ok buf t
    else if MINOR dev < 128 then r = 0 \<and> t = s
    else r = - ENODEV \<and> t = s"
proof -
  have w: "read_char cdrv dev pos buf n s = tty_read dev pos buf n s"
    by (rule tty_through_table) (use assms in simp_all)
  obtain r t where rt: "vconsole_read buf n s = (r, t)" by fastforce
  note m = vconsole_read_memory [OF assms(3) rt]
  have "r = to_int (vcr_len n s)" using rt by (auto simp: vconsole_read_def Let_def)
  then have "r = int (min (length (kb_queue s)) (unat n))"
    using assms(3) to_int_small [of "vcr_len n s"]
    by (simp add: unat_vcr_len kb_queue_def kb_ok_def min.strict_coboundedI1)
  then show ?thesis using m rt by (simp add: w tty_read_def serial_read_def Let_def)
qed

text \<open>The keyboard's example state with the terminal driver registered, after typing two keys.\<close>

definition tty_example :: kbd where
  "tty_example = kb_enqueue 115 (kb_enqueue 97 (register_tty_driver 0x200 kbd_start))"

lemma tty_example_facts:
  "char_drivers tty_example = (\<lambda>_. 0)(2 := 0x200)" "vga_buffer tty_example = 0"
  "tty_pos tty_example = 0" "tty_format tty_example = 7" "io tty_example = []"
  "kb_ok 0x5000 tty_example" "kb_queue tty_example = [97, 115]"
  "input_queue tty_example = 0x9000" "queue_idx tty_example = 2"
  by (simp_all add: tty_example_def register_tty_driver_def register_char_driver_def kb_enqueue_def
    kbd_start_def memdev.extend_def kbd.fields_def memdev_start_def rdtab.extend_def
    memdev.fields_def one_disk_def drvtab.extend_def console.extend_def drvtab.fields_def
    rdtab.fields_def console_start_def kb_ok_def disjoint_def kb_queue_def read_bytes_def upt_rec word_le_nat_alt)

theorem tty_read_routes_witness:
  "(case read_char (\<lambda>_. tty_driver) 2 0 0x5000 1 tty_example of (r, t) \<Rightarrow>
      r = 1 \<and> read_bytes (ram t) 0x5000 (nat r) = [97] \<and> kb_queue t = [115])"
  using tty_read_routes [of tty_example 2 "\<lambda>_. tty_driver" "0x5000" 1 0]
  by (auto simp: tty_example_facts MAJOR_def MINOR_def split_beta)

theorem tty_write_routes_witness:
  "snd (write_char (\<lambda>_. tty_driver) 0x102 0 0x9000 2 tty_example)
    = tty_example\<lparr>io := [Out 0x3f8 97, Out 0x3f8 115]\<rparr>"
proof -
  have out: "\<not> in_region (vga_buffer tty_example) 4000 (0x9000 + of_nat i)" if "i < unat (2 :: u32)" for i
  proof -
    have "i = 0 \<or> i = 1" using that by auto
    then show ?thesis by (auto simp: in_region_def tty_example_facts)
  qed
  have "read_bytes (ram tty_example) 0x9000 2 = [97, 115]"
    using tty_example_facts(7) by (simp add: kb_queue_def tty_example_facts(8,9))
  then show ?thesis
    using tty_write_routes [of tty_example "0x102" "\<lambda>_. tty_driver" 2 "0x9000", OF _ _ _ out]
    by (simp add: tty_example_facts MAJOR_def MINOR_def split_beta console_ok_def)
qed

end
