(* ===== verification/Paging.thy ===== *)
theory Paging
  imports Tty_Driver
begin

text \<open>
  kernel/arch/i686/mem.c with x86/mem.h: the bitmap of used page frames, and the page tables, which
  the last entry of the page directory makes visible as an array of 2^20 entries at 0xffc00000 whose
  last 1024 are the directory itself. The array is the field \<open>ptes\<close>; an access to a part of it
  whose directory entry is not present, or past its end, is a page fault, which is \<open>None\<close>. What a
  frame holds when it becomes a page table is not determined by the code: the field \<open>frame_words\<close>.
  The bitmap is a function on all byte positions; the C array ends at 65535.
\<close>

section \<open>State\<close>

abbreviation (input) PAGE_SIZE :: u32 where "PAGE_SIZE \<equiv> 4096"
abbreviation (input) HUGE_PAGE_SIZE :: u32 where "HUGE_PAGE_SIZE \<equiv> 4194304"
abbreviation (input) PG_PRES :: u32 where "PG_PRES \<equiv> 1"
abbreviation (input) DEFAULT_PAGE_FLAGS :: u32 where "DEFAULT_PAGE_FLAGS \<equiv> 3"
abbreviation (input) PAGE_DIRECTORY_FLAGS :: u32 where "PAGE_DIRECTORY_FLAGS \<equiv> 7"
abbreviation (input) K_MEM_START :: u32 where "K_MEM_START \<equiv> 0xc0000000"
abbreviation (input) K_MEM_HEAP_START :: u32 where "K_MEM_HEAP_START \<equiv> 0xd0000000"
abbreviation (input) K_MEM_HEAP_END :: u32 where "K_MEM_HEAP_END \<equiv> 0xefffffff"
abbreviation (input) K_MEM_DEV_START :: u32 where "K_MEM_DEV_START \<equiv> 0xf0000000"
abbreviation (input) PROT_PHYS_START :: u32 where "PROT_PHYS_START \<equiv> 0x00100000"
abbreviation (input) PROT_PHYS_END :: u32 where "PROT_PHYS_END \<equiv> 0x00f00000"

text \<open>Where the page directory starts in the array of page table entries.\<close>

abbreviation (input) PD_INDEX :: u32 where "PD_INDEX \<equiv> 0xffc00"

record paging = kbd +
  ptes :: "u32 \<Rightarrow> u32"
  frame_words :: "u32 \<Rightarrow> u32 \<Rightarrow> u32"
  phys_page_bitmap :: "nat \<Rightarrow> u8"
  lower_bound :: u32
  upper_bound :: u32

section \<open>Page frames\<close>

definition phys_oom_msg :: string where
  "phys_oom_msg = ''err: mem: out of memory (phys)'' @ [CHR 0x0A]"

definition is_phys_used :: "u32 \<Rightarrow> 'a paging_scheme \<Rightarrow> bool" where
  "is_phys_used phys s =
     (let byte = unat (phys div PAGE_SIZE div 8); k = unat (phys div PAGE_SIZE mod 8)
      in drop_bit k (phys_page_bitmap s byte) AND 1 \<noteq> 0)"

definition set_phys_used :: "u32 \<Rightarrow> bool \<Rightarrow> 'a paging_scheme \<Rightarrow> 'a paging_scheme" where
  "set_phys_used phys used s =
     (let byte = unat (phys div PAGE_SIZE div 8); k = unat (phys div PAGE_SIZE mod 8);
          b = phys_page_bitmap s byte
      in s\<lparr>phys_page_bitmap := (phys_page_bitmap s)
             (byte := (if used then b OR push_bit k 1 else b AND NOT (push_bit k 1)))\<rparr>)"

text \<open>The search for a free frame; it does not end when the bound is in the last page and no frame is free.\<close>

partial_function (option) alloc_phys_loop ::
    "u32 \<Rightarrow> 'a paging_scheme \<Rightarrow> (u32 \<times> 'a paging_scheme) option" where
  "alloc_phys_loop ret s =
     (if ret < upper_bound s then
        if \<not> is_phys_used ret s then Some (ret, set_phys_used ret True s)
        else alloc_phys_loop (ret + PAGE_SIZE) s
      else Some (- 1, printk phys_oom_msg [] s))"

definition alloc_phys :: "'a paging_scheme \<Rightarrow> (u32 \<times> 'a paging_scheme) option" where
  "alloc_phys s = alloc_phys_loop (lower_bound s) s"

text \<open>Marking the pages from \<open>p\<close> up to \<open>e\<close>, given by virtual addresses \<open>off\<close> above the physical ones.\<close>

partial_function (option) mark_pages ::
    "u32 \<Rightarrow> u32 \<Rightarrow> u32 \<Rightarrow> 'a paging_scheme \<Rightarrow> 'a paging_scheme option" where
  "mark_pages off p e s =
     (if p < e then mark_pages off (p + PAGE_SIZE) e (set_phys_used (p - off) True s) else Some s)"

definition mem_init_regions :: "u32 \<Rightarrow> u32 \<Rightarrow> 'a paging_scheme \<Rightarrow> 'a paging_scheme option" where
  "mem_init_regions lower upper s =
     (case mark_pages 0 (lower AND NOT 4095) 0x100000 s of None \<Rightarrow> None
      | Some s1 \<Rightarrow> Some (s1\<lparr>upper_bound := 0x100000 + upper, lower_bound := 0\<rparr>))"

partial_function (option) mem_set_used_loop ::
    "u32 \<Rightarrow> u64 \<Rightarrow> 'a paging_scheme \<Rightarrow> 'a paging_scheme option" where
  "mem_set_used_loop page lim s =
     (let s1 = set_phys_used page True s; page1 = page + PAGE_SIZE
      in if ucast page1 < lim \<and> page1 \<noteq> 0 then mem_set_used_loop page1 lim s1 else Some s1)"

definition mem_set_used :: "u64 \<Rightarrow> u64 \<Rightarrow> 'a paging_scheme \<Rightarrow> 'a paging_scheme option" where
  "mem_set_used phys min_size s =
     (if phys > 0xffffffff then Some s
      else let lim = phys + min_size
           in mem_set_used_loop (ucast (phys AND NOT 4095)) (if lim > 0xffffffff then 0xffffffff else lim) s)"

text \<open>The symbols of the linker script are parameters.\<close>

definition mem_init :: "addr \<Rightarrow> addr \<Rightarrow> addr \<Rightarrow> 'a paging_scheme \<Rightarrow> 'a paging_scheme option" where
  "mem_init kernel_start kernel_end kernel_virtual_offset s =
     mark_pages kernel_virtual_offset (kernel_start AND NOT 4095) kernel_end s"

section \<open>Page tables\<close>

text \<open>Reading and writing the array. A directory entry that is written brings its table into view.\<close>

definition read_entry :: "u32 \<Rightarrow> 'a paging_scheme \<Rightarrow> u32 option" where
  "read_entry i s =
     (if i < 0x100000 \<and> ptes s (PD_INDEX + i div 1024) AND PG_PRES \<noteq> 0 then Some (ptes s i) else None)"

definition write_entry :: "u32 \<Rightarrow> u32 \<Rightarrow> 'a paging_scheme \<Rightarrow> 'a paging_scheme option" where
  "write_entry i v s =
     (if i < 0x100000 \<and> ptes s (PD_INDEX + i div 1024) AND PG_PRES \<noteq> 0
      then Some (s\<lparr>ptes := (\<lambda>j.
             if j = i then v
             else if i \<ge> PD_INDEX \<and> j < PD_INDEX \<and> j div 1024 = i - PD_INDEX
             then frame_words s (v AND NOT 4095) (j mod 1024)
             else ptes s j)\<rparr>)
      else None)"

text \<open>\<open>page_directory[t]\<close>; the directory is present in its own last entry or nothing is accessible.\<close>

abbreviation (input) read_pde :: "u32 \<Rightarrow> 'a paging_scheme \<Rightarrow> u32 option" where
  "read_pde t s \<equiv> (if t < 1024 then read_entry (PD_INDEX + t) s else None)"

text \<open>\<open>memset\<close> of \<open>n\<close> entries from \<open>i\<close> on to 0.\<close>

fun zero_entries :: "nat \<Rightarrow> u32 \<Rightarrow> 'a paging_scheme \<Rightarrow> 'a paging_scheme option" where
  "zero_entries 0 i s = Some s"
| "zero_entries (Suc n) i s = Option.bind (write_entry i 0 s) (zero_entries n (i + 1))"

text \<open>
  The test of a region: whether it is used, and the value \<open>*start_page\<close> is left with. The skip of a
  missing table sets bits of a byte address in a page number.
\<close>

function virt_used_loop :: "u32 \<Rightarrow> u32 \<Rightarrow> u32 \<Rightarrow> 'a paging_scheme \<Rightarrow> (bool \<times> u32) option" where
  "virt_used_loop start page end_page s =
     (if page < end_page then
        case read_pde (page div 1024) s of None \<Rightarrow> None
        | Some pde \<Rightarrow>
            if pde AND PG_PRES = 0
            then virt_used_loop start ((page OR ((HUGE_PAGE_SIZE - 1) AND NOT 4095)) + 1) end_page s
            else (case read_entry page s of None \<Rightarrow> None
                  | Some pte \<Rightarrow>
                      if pte AND PG_PRES \<noteq> 0 then Some (True, page + 1)
                      else virt_used_loop start (page + 1) end_page s)
      else Some (False, start))"
  by pat_completeness auto

lemma skip_bounds:
  assumes "page div 1024 < (1024 :: u32)"
  shows "unat page < 1048576" "unat page \<le> unat (page OR 0x3ff000)" "unat (page OR 0x3ff000) < 4194304"
proof -
  have "unat (page div 1024) < unat (1024 :: u32)" using assms by (simp only: word_less_nat_alt)
  then have "unat page div 1024 < 1024" by (simp add: unat_div_distrib)
  then show p: "unat page < 1048576" by simp
  show "unat page \<le> unat (page OR 0x3ff000)" 
    by (simp add: le_word_or2 flip: word_le_nat_alt)
  have "take_bit 22 page = page" using p by (simp add: word_unat_eq_iff unsigned_take_bit_eq take_bit_nat_eq_self)
  then have "take_bit 22 (page OR 0x3ff000) = page OR 0x3ff000" by (simp add: take_bit_or)
  then have "unat (page OR 0x3ff000) = take_bit 22 (unat (page OR 0x3ff000))"
    by (metis unsigned_take_bit_eq)
  then show "unat (page OR 0x3ff000) < 4194304"
    using take_bit_nat_less_exp [of 22 "unat (page OR 0x3ff000)"] by simp
qed

termination virt_used_loop
proof (relation "measure (\<lambda>(start, page, end_page, s). 4294967296 - unat page)", goal_cases)
  case (2 start page end_page s pde)
  then have "page div 1024 < 1024" by (auto split: if_splits)
  note b = skip_bounds [OF this]
  then have "unat ((page OR 0x3ff000) + 1) = unat (page OR 0x3ff000) + 1" by (intro unat_succ) simp
  then show ?case using b by simp
next
  case (3 start page end_page s pde pte)
  then have "page div 1024 < 1024" by (auto split: if_splits)
  note b = skip_bounds(1) [OF this]
  then have "unat (page + 1) = unat page + 1" by (intro unat_succ) simp
  then show ?case using b by simp
qed simp

definition is_virt_region_used :: "u32 \<Rightarrow> u32 \<Rightarrow> 'a paging_scheme \<Rightarrow> (bool \<times> u32) option" where
  "is_virt_region_used start_page n s =
     (let end_page = start_page + n
      in if end_page < start_page then Some (True, 0)
         else virt_used_loop start_page start_page end_page s)"

section \<open>Mapping\<close>

definition virt_oom_msg :: string where
  "virt_oom_msg = ''err: mem: out of memory (virt)'' @ [CHR 0x0A]"

definition unaligned_msg :: string where
  "unaligned_msg = ''err: mem: physical address not page aligned: 0x%x'' @ [CHR 0x0A]"

definition invalid_region_msg :: string where
  "invalid_region_msg = ''err: mem: invalid region: %08X..%08X''"

text \<open>The loop of \<open>mem_map\<close> that looks for a free region; \<open>Some None\<close> is running out of addresses.\<close>

partial_function (option) find_region ::
    "u32 \<Rightarrow> u32 \<Rightarrow> 'a paging_scheme \<Rightarrow> u32 option option" where
  "find_region page_start n s =
     (case is_virt_region_used page_start n s of None \<Rightarrow> None
      | Some (used, st) \<Rightarrow>
          if used then if st = 0 then Some None else find_region st n s
          else Some (Some st))"

text \<open>A page whose table is missing gets one, which is then cleared from the entry of that page on.\<close>

definition ensure_table :: "u32 \<Rightarrow> 'a paging_scheme \<Rightarrow> 'a paging_scheme option" where
  "ensure_table page s =
     (case read_pde (page div 1024) s of None \<Rightarrow> None
      | Some pde \<Rightarrow>
          if pde AND PG_PRES = 0 then
            (case alloc_phys s of None \<Rightarrow> None
             | Some (frame, s1) \<Rightarrow>
                 Option.bind (write_entry (PD_INDEX + page div 1024) (frame OR PAGE_DIRECTORY_FLAGS) s1)
                   (zero_entries 1024 page))
          else Some s)"

fun map_pages :: "nat \<Rightarrow> u32 \<Rightarrow> u32 \<Rightarrow> u32 \<Rightarrow> 'a paging_scheme \<Rightarrow> 'a paging_scheme option" where
  "map_pages 0 page phys flags s = Some s"
| "map_pages (Suc k) page phys flags s =
     Option.bind (ensure_table page s) (\<lambda>s1.
     Option.bind (write_entry page (phys OR flags) s1)
       (map_pages k (page + 1) (phys + PAGE_SIZE) flags))"

definition mem_map ::
    "u32 \<Rightarrow> u32 \<Rightarrow> u32 \<Rightarrow> u32 \<Rightarrow> 'a paging_scheme \<Rightarrow> (addr \<times> 'a paging_scheme) option" where
  "mem_map virt_min n phys flags s =
     (if phys mod PAGE_SIZE \<noteq> 0 then Some (NULL, printk unaligned_msg [Word phys] s)
      else case find_region (virt_min div PAGE_SIZE) n s of None \<Rightarrow> None
      | Some None \<Rightarrow> Some (NULL, printk virt_oom_msg [] s)
      | Some (Some page_start) \<Rightarrow>
          map_option (\<lambda>t. (page_start * PAGE_SIZE, t)) (map_pages (unat n) page_start phys flags s))"

definition mem_map_range ::
    "u32 \<Rightarrow> u32 \<Rightarrow> u32 \<Rightarrow> u32 \<Rightarrow> 'a paging_scheme \<Rightarrow> (addr \<times> 'a paging_scheme) option" where
  "mem_map_range virt_min phys_start phys_end flags s =
     (if phys_end < phys_start
      then Some (NULL, printk invalid_region_msg [Word phys_start, Word phys_end] s)
      else
        (let page_offset = phys_start AND 4095; n = (phys_end - phys_start + 4095) div PAGE_SIZE
         in map_option (\<lambda>(a, t). (a + page_offset, t))
              (mem_map virt_min n (phys_start AND NOT 4095) flags s)))"

fun alloc_pages :: "nat \<Rightarrow> u32 \<Rightarrow> u32 \<Rightarrow> 'a paging_scheme \<Rightarrow> 'a paging_scheme option" where
  "alloc_pages 0 page flags s = Some s"
| "alloc_pages (Suc k) page flags s =
     (case alloc_phys s of None \<Rightarrow> None
      | Some (phys, s1) \<Rightarrow>
          (case mem_map (page * PAGE_SIZE) 1 phys flags s1 of None \<Rightarrow> None
           | Some (_, s2) \<Rightarrow> alloc_pages k (page + 1) flags s2))"

definition mem_alloc ::
    "u32 \<Rightarrow> u32 \<Rightarrow> u32 \<Rightarrow> u32 \<Rightarrow> 'a paging_scheme \<Rightarrow> (addr \<times> 'a paging_scheme) option" where
  "mem_alloc virt virt_end_max n flags s =
     (let page_start = virt div PAGE_SIZE; page_max = virt_end_max div PAGE_SIZE
      in if page_start + n > page_max then Some (NULL, s)
         else case is_virt_region_used page_start n s of None \<Rightarrow> None
         | Some (used, st) \<Rightarrow>
             if used then Some (NULL, s)
             else map_option (\<lambda>t. (virt, t)) (alloc_pages (unat n) st flags s))"

text \<open>drivers/tty.c: the text buffer is mapped into the device area.\<close>

definition tty_init :: "'a paging_scheme \<Rightarrow> 'a paging_scheme option" where
  "tty_init s = map_option (\<lambda>(a, t). t\<lparr>vga_buffer := a\<rparr>)
     (mem_map K_MEM_DEV_START 1 0xb8000 DEFAULT_PAGE_FLAGS s)"

section \<open>The bitmap as a set of frames\<close>

definition frame_used :: "'a paging_scheme \<Rightarrow> nat \<Rightarrow> bool" where
  "frame_used s f \<longleftrightarrow> bit (phys_page_bitmap s (f div 8)) (f mod 8)"

lemma bitmap_position:
  "unat (phys div PAGE_SIZE div 8) = unat phys div 4096 div 8"
  "unat (phys div PAGE_SIZE mod 8) = unat phys div 4096 mod 8"
  by (simp_all add: unat_div_distrib unat_mod_distrib)

lemma is_phys_used_frame: "is_phys_used phys s = frame_used s (unat phys div 4096)"
  unfolding is_phys_used_def frame_used_def Let_def bitmap_position
  by (simp add: bit_iff_odd_drop_bit and_one_eq odd_iff_mod_2_eq_one)

lemma set_phys_used_frame:
  "frame_used (set_phys_used phys u s) f = (if f = unat phys div 4096 then u else frame_used s f)"
proof -
  have "f div 8 = g div 8 \<and> f mod 8 = g mod 8 \<longleftrightarrow> f = g" for f g :: nat
    by (metis div_mult_mod_eq)
  moreover have "bit (b OR push_bit k 1) i \<longleftrightarrow> bit b i \<or> i = k" "bit (b AND NOT (push_bit k 1)) i \<longleftrightarrow> bit b i \<and> i \<noteq> k"
    if "i < 8" for b :: u8 and k i
    using that by (auto simp: bit_or_iff bit_and_iff bit_not_iff bit_exp_iff)
  ultimately show ?thesis
    unfolding set_phys_used_def frame_used_def Let_def bitmap_position by auto
qed

lemma set_phys_used_fields [simp]:
  "lower_bound (set_phys_used p u s) = lower_bound s" "upper_bound (set_phys_used p u s) = upper_bound s"
  "ptes (set_phys_used p u s) = ptes s" "frame_words (set_phys_used p u s) = frame_words s"
  "paging.more (set_phys_used p u s) = paging.more s" "ram (set_phys_used p u s) = ram s"
  by (simp_all add: set_phys_used_def Let_def)

lemma paging_printk [simp]:
  "ptes (printk f a s) = ptes s" "frame_words (printk f a s) = frame_words s"
  "phys_page_bitmap (printk f a s) = phys_page_bitmap s" "lower_bound (printk f a s) = lower_bound s"
  "upper_bound (printk f a s) = upper_bound s" "paging.more (printk f a s) = paging.more s"
  using printk_frames(3) [of f a s] by (cases s, cases "printk f a s"; simp)+

text \<open>The allocator's bounds are such that the search ends: whole pages below the last one.\<close>

definition bounds_ok :: "'a paging_scheme \<Rightarrow> bool" where
  "bounds_ok s \<longleftrightarrow> unat (lower_bound s) mod 4096 = 0 \<and> unat (upper_bound s) \<le> 0xfffff000"

definition frame_range :: "'a paging_scheme \<Rightarrow> nat list" where
  "frame_range s = [unat (lower_bound s) div 4096 ..< (unat (upper_bound s) + 4095) div 4096]"

definition alloc_spec :: "nat list \<Rightarrow> 'a paging_scheme \<Rightarrow> u32 \<times> 'a paging_scheme" where
  "alloc_spec fs s = (case find (\<lambda>f. \<not> frame_used s f) fs of
     Some f \<Rightarrow> (of_nat (4096 * f), set_phys_used (of_nat (4096 * f)) True s)
   | None \<Rightarrow> (- 1, printk phys_oom_msg [] s))"

lemma alloc_phys_loop_spec:
  assumes "unat (upper_bound s) \<le> 0xfffff000" "k \<le> 1048575"
  shows "alloc_phys_loop (of_nat (4096 * k)) s
    = Some (alloc_spec [k ..< (unat (upper_bound s) + 4095) div 4096] s)"
  using assms(2)
proof (induction "1048576 - k" arbitrary: k rule: less_induct)
  case less
  have u: "unat (of_nat (4096 * k) :: u32) = 4096 * k"
    using less.prems by (intro unat_of_nat32) simp
  have lt: "of_nat (4096 * k) < upper_bound s \<longleftrightarrow> k < (unat (upper_bound s) + 4095) div 4096"
    by (simp only: word_less_nat_alt u) auto
  show ?case
  proof (cases "of_nat (4096 * k) < upper_bound s")
    case False
    then have e: "[k ..< (unat (upper_bound s) + 4095) div 4096] = []" using lt by (simp only: upt_eq_Nil_conv) simp
    show ?thesis using False by (subst alloc_phys_loop.simps) (simp only: e alloc_spec_def, simp)
  next
    case True
    then have k: "k < (unat (upper_bound s) + 4095) div 4096" using lt by simp
    then have next_k: "k < 1048575" using assms(1) by simp
    have step: "of_nat (4096 * k) + 4096 = (of_nat (4096 * Suc k) :: u32)" by simp
    have used: "is_phys_used (of_nat (4096 * k)) s = frame_used s k"
      by (simp only: is_phys_used_frame u) simp
    have IH: "alloc_phys_loop (of_nat (4096 * Suc k)) s
        = Some (alloc_spec [Suc k ..< (unat (upper_bound s) + 4095) div 4096] s)"
      by (rule less.hyps) (use next_k in simp_all)
    have up: "[k ..< (unat (upper_bound s) + 4095) div 4096]
        = k # [Suc k ..< (unat (upper_bound s) + 4095) div 4096]"
      using k by (rule upt_conv_Cons)
    show ?thesis
      using True used IH by (subst alloc_phys_loop.simps) (simp only: step up alloc_spec_def find.simps, simp)
  qed
qed

lemma alloc_phys_spec:
  assumes "bounds_ok s"
  shows "alloc_phys s = Some (alloc_spec (frame_range s) s)"
proof -
  have "lower_bound s = of_nat (4096 * (unat (lower_bound s) div 4096))"
    using assms by (auto simp: bounds_ok_def simp flip: mod_eq_0_iff_dvd)
  moreover have "unat (lower_bound s) div 4096 \<le> 1048575" using unat_lt_2p32 [of "lower_bound s"] by linarith
  ultimately show ?thesis
    using assms alloc_phys_loop_spec [of s "unat (lower_bound s) div 4096"]
    by (simp only: alloc_phys_def bounds_ok_def frame_range_def)
qed

section \<open>Frame allocators\<close>

text \<open>The contract of an allocator of frames, and what its clients get from it.\<close>

fun alloc_many :: "('s \<Rightarrow> ('f \<times> 's) option) \<Rightarrow> nat \<Rightarrow> 's \<Rightarrow> ('f list \<times> 's) option" where
  "alloc_many alloc 0 s = Some ([], s)"
| "alloc_many alloc (Suc n) s =
     (case alloc s of None \<Rightarrow> None
      | Some (f, t) \<Rightarrow> map_option (\<lambda>(fs, u). (f # fs, u)) (alloc_many alloc n t))"

locale frame_allocator =
  fixes alloc :: "'s \<Rightarrow> ('f \<times> 's) option"
    and ok :: "'s \<Rightarrow> bool"
    and used :: "'s \<Rightarrow> 'f \<Rightarrow> bool"
  assumes alloc_ok: "ok s \<Longrightarrow> alloc s = Some (f, t) \<Longrightarrow> ok t"
    and alloc_fresh: "ok s \<Longrightarrow> alloc s = Some (f, t) \<Longrightarrow> \<not> used s f"
    and alloc_used: "ok s \<Longrightarrow> alloc s = Some (f, t) \<Longrightarrow> used t g \<longleftrightarrow> g = f \<or> used s g"
begin

lemma alloc_many_distinct:
  assumes "ok s" "alloc_many alloc n s = Some (fs, t)"
  shows "ok t \<and> length fs = n \<and> distinct fs \<and> (\<forall>f \<in> set fs. \<not> used s f)
    \<and> (\<forall>g. used t g \<longleftrightarrow> g \<in> set fs \<or> used s g)"
  using assms
proof (induction n arbitrary: s fs)
  case (Suc n)
  then obtain f u where f: "alloc s = Some (f, u)" by (auto split: option.splits)
  with Suc.prems obtain gs where gs: "alloc_many alloc n u = Some (gs, t)" "fs = f # gs"
    by (auto split: option.splits)
  have IH: "ok t \<and> length gs = n \<and> distinct gs \<and> (\<forall>g \<in> set gs. \<not> used u g)
      \<and> (\<forall>g. used t g \<longleftrightarrow> g \<in> set gs \<or> used u g)"
    by (rule Suc.IH) (use alloc_ok [OF Suc.prems(1) f] gs in simp_all)
  then show ?case
    using alloc_fresh [OF Suc.prems(1) f] alloc_used [OF Suc.prems(1) f] gs(2) by auto
qed simp

end

text \<open>The frame a successful \<open>alloc_phys\<close> gives.\<close>

definition phys_frame :: "'a paging_scheme \<Rightarrow> (nat \<times> 'a paging_scheme) option" where
  "phys_frame s = (case alloc_phys s of None \<Rightarrow> None
     | Some (p, t) \<Rightarrow> if p = - 1 then None else Some (unat p div 4096, t))"

lemma find_SomeD: "find P xs = Some x \<Longrightarrow> x \<in> set xs \<and> P x"
  by (auto simp: find_Some_iff)

lemma phys_frame_spec:
  assumes "bounds_ok s"
  shows "phys_frame s = (case find (\<lambda>f. \<not> frame_used s f) (frame_range s) of None \<Rightarrow> None
    | Some f \<Rightarrow> Some (f, set_phys_used (of_nat (4096 * f)) True s))"
proof (cases "find (\<lambda>f. \<not> frame_used s f) (frame_range s)")
  case (Some f)
  then have "f < (unat (upper_bound s) + 4095) div 4096"
    using find_SomeD [OF Some] by (simp add: frame_range_def)
  then have f: "f < 1048575" using assms by (auto simp: bounds_ok_def)
  then have u: "unat (of_nat (4096 * f) :: u32) = 4096 * f" by (intro unat_of_nat32) simp
  have "of_nat (4096 * f) \<noteq> (- 1 :: u32)"
  proof
    assume e: "of_nat (4096 * f) = (- 1 :: u32)"
    have "unat (of_nat (4096 * f) + 1 :: u32) = unat (of_nat (4096 * f) :: u32) + 1"
      by (rule unat_succ, unfold u) (use f in simp)
    then show False by (simp only: e) simp
  qed
  then show ?thesis
    using Some u by (simp only: phys_frame_def alloc_phys_spec [OF assms] alloc_spec_def) simp
qed (simp add: phys_frame_def alloc_phys_spec [OF assms] alloc_spec_def)

interpretation frames: frame_allocator phys_frame bounds_ok frame_used
proof unfold_locales
  fix s t :: "'a paging_scheme" and f g
  assume ok: "bounds_ok s" and "phys_frame s = Some (f, t)"
  then have f: "find (\<lambda>f. \<not> frame_used s f) (frame_range s) = Some f"
    and t: "t = set_phys_used (of_nat (4096 * f)) True s"
    by (auto simp: phys_frame_spec split: option.splits)
  show "bounds_ok t" using ok by (simp add: t bounds_ok_def)
  show "\<not> frame_used s f" using find_SomeD [OF f] by simp
  have "f < 1048576" using find_SomeD [OF f] ok by (auto simp: frame_range_def bounds_ok_def)
  then have "unat (of_nat (4096 * f) :: u32) = 4096 * f" by (intro unat_of_nat32) simp
  then show "frame_used t g \<longleftrightarrow> g = f \<or> frame_used s g"
    by (simp only: t set_phys_used_frame) auto
qed

section \<open>Marking memory as used\<close>

text \<open>Rounding an address down to its page.\<close>

lemma page_down:
  fixes x :: "'a :: len word"
  assumes "12 < LENGTH('a)"
  shows "unat (x AND NOT 4095) = 4096 * (unat x div 4096)"
proof -
  have m: "(4095 :: 'a word) = mask 12" by (simp add: mask_eq_exp_minus_1)
  have "x AND NOT (mask 12) = push_bit 12 (drop_bit 12 x)"
    by (rule bit_word_eqI)
       (auto simp: bit_push_bit_iff bit_drop_bit_eq bit_and_iff bit_not_iff bit_mask_iff)
  moreover have "4096 * (unat x div 4096) < 2 ^ LENGTH('a)"
    using unsigned_less [of x] by (metis le_less_trans mult.commute div_times_less_eq_dividend)
  moreover have "unat (push_bit 12 (drop_bit 12 x)) = take_bit LENGTH('a) (4096 * (unat x div 4096))"
    unfolding unsigned_push_bit_eq unsigned_drop_bit_eq
    by (simp add: drop_bit_eq_div push_bit_eq_mult mult.commute take_bit_nat_eq_self)
  ultimately show ?thesis unfolding m by (simp only: take_bit_nat_eq_self)
qed

lemma mark_pages_spec:
  assumes "unat e \<le> 0xfffff000"
  shows "\<exists>bm. mark_pages off p e s = Some (s\<lparr>phys_page_bitmap := bm\<rparr>)
    \<and> (\<forall>f. frame_used (s\<lparr>phys_page_bitmap := bm\<rparr>) f \<longleftrightarrow> frame_used s f
        \<or> (\<exists>i. unat p + 4096 * i < unat e \<and> f = unat (p - off + of_nat (4096 * i)) div 4096))"
proof (induction "unat e - unat p" arbitrary: p s rule: less_induct)
  case less
  show ?case
  proof (cases "p < e")
    case False
    then have "\<not> unat p < unat e" by (simp add: word_less_nat_alt)
    then show ?thesis
      using False by (intro exI [of _ "phys_page_bitmap s"]) (subst mark_pages.simps, simp)
  next
    case True
    then have lt: "unat p < unat e" by (simp add: word_less_nat_alt)
    then have p1: "unat (p + 4096) = unat p + 4096" using assms by (subst unat_add_small) simp_all
    let ?s = "set_phys_used (p - off) True s"
    have "unat e - unat (p + 4096) < unat e - unat p" using p1 lt by simp
    from less.hyps [OF this, of ?s] obtain bm where bm: "mark_pages off (p + 4096) e ?s = Some (?s\<lparr>phys_page_bitmap := bm\<rparr>)"
      "\<And>f. frame_used (?s\<lparr>phys_page_bitmap := bm\<rparr>) f \<longleftrightarrow> frame_used ?s f
        \<or> (\<exists>i. unat (p + 4096) + 4096 * i < unat e \<and> f = unat (p + 4096 - off + of_nat (4096 * i)) div 4096)"
      by blast
    have same: "?s\<lparr>phys_page_bitmap := bm\<rparr> = s\<lparr>phys_page_bitmap := bm\<rparr>" by (simp add: set_phys_used_def Let_def)
    have shift: "p + 4096 - off + of_nat (4096 * i) = p - off + of_nat (4096 * Suc i)" for i
      by simp
    have "(\<exists>i. unat p + 4096 * i < unat e \<and> f = unat (p - off + of_nat (4096 * i)) div 4096)
        \<longleftrightarrow> f = unat (p - off) div 4096
          \<or> (\<exists>i. unat (p + 4096) + 4096 * i < unat e \<and> f = unat (p + 4096 - off + of_nat (4096 * i)) div 4096)"
      (is "(\<exists>i. ?P i) \<longleftrightarrow> ?A \<or> (\<exists>i. ?Q i)") for f
    proof -
      have "?P 0 \<longleftrightarrow> ?A" using lt by simp
      moreover have "?P (Suc i) \<longleftrightarrow> ?Q i" for i unfolding shift p1 by (simp add: add.assoc)
      ultimately show ?thesis by (metis not0_implies_Suc)
    qed
    then have "frame_used (s\<lparr>phys_page_bitmap := bm\<rparr>) f \<longleftrightarrow> frame_used s f
        \<or> (\<exists>i. unat p + 4096 * i < unat e \<and> f = unat (p - off + of_nat (4096 * i)) div 4096)" for f
      using bm(2) [of f] unfolding same set_phys_used_frame by auto
    then show ?thesis using True bm(1) unfolding same by (intro exI [of _ bm]) (subst mark_pages.simps, simp)
  qed
qed

text \<open>For page-aligned starts the marked frames form an interval.\<close>

lemma aligned_interval:
  fixes p off e :: u32
  assumes "unat p mod 4096 = 0" "unat off mod 4096 = 0" "unat off \<le> unat p" "unat e \<le> 0xfffff000"
  shows "(\<exists>i. unat p + 4096 * i < unat e \<and> f = unat (p - off + of_nat (4096 * i)) div 4096)
    \<longleftrightarrow> unat p \<le> 4096 * f + unat off \<and> 4096 * f + unat off < unat e"
proof -
  obtain a b where ab: "unat p = 4096 * a" "unat off = 4096 * b"
    using assms(1,2) by (meson dvdE mod_0_imp_dvd)
  have "unat (p - off + of_nat (4096 * i)) = 4096 * (a - b + i)" if "unat p + 4096 * i < unat e" for i
  proof -
    have i: "unat (of_nat (4096 * i) :: u32) = 4096 * i" by (rule unat_of_nat32) (use that assms(4) in simp)
    have d: "unat (p - off) = 4096 * (a - b)"
      using assms(3) ab by (simp add: unat_sub_if' diff_mult_distrib2)
    have "unat (p - off + of_nat (4096 * i)) = unat (p - off) + unat (of_nat (4096 * i) :: u32)"
      using that assms(4) ab by (intro unat_add_small, unfold i d) simp
    then show ?thesis by (simp only: i d) simp
  qed
  then have "(\<exists>i. unat p + 4096 * i < unat e \<and> f = unat (p - off + of_nat (4096 * i)) div 4096)
      \<longleftrightarrow> (\<exists>i. 4096 * a + 4096 * i < unat e \<and> f = a - b + i)"
    unfolding ab(1) by (metis mult.commute nonzero_mult_div_cancel_right zero_neq_numeral)
  also have "\<dots> \<longleftrightarrow> a - b \<le> f \<and> 4096 * a + 4096 * (f - (a - b)) < unat e"
    by (metis add_diff_cancel_left' le_add1 le_add_diff_inverse)
  also have "\<dots> \<longleftrightarrow> unat p \<le> 4096 * f + unat off \<and> 4096 * f + unat off < unat e"
    using assms(3) unfolding ab by auto
  finally show ?thesis .
qed

lemma mem_set_used_loop_spec:
  assumes "unat lim \<le> 0xffffffff" "k < 1048576"
  shows "\<exists>bm. mem_set_used_loop (of_nat (4096 * k)) lim s = Some (s\<lparr>phys_page_bitmap := bm\<rparr>)
    \<and> (\<forall>f. frame_used (s\<lparr>phys_page_bitmap := bm\<rparr>) f \<longleftrightarrow> frame_used s f
        \<or> f = k \<or> k \<le> f \<and> 4096 * f < unat lim)"
  using assms(2)
proof (induction "1048576 - k" arbitrary: k s rule: less_induct)
  case less
  let ?s = "set_phys_used (of_nat (4096 * k)) True s"
  have k: "unat (of_nat (4096 * k) :: u32) = 4096 * k" by (rule unat_of_nat32) (use less.prems in simp)
  have fu: "frame_used ?s f \<longleftrightarrow> f = k \<or> frame_used s f" for f by (simp only: set_phys_used_frame k) auto
  have next_page: "of_nat (4096 * k) + 4096 = (of_nat (4096 * Suc k) :: u32)" by simp
  show ?case
  proof (cases "Suc k < 1048576 \<and> 4096 * Suc k < unat lim")
    case True
    then have k1: "unat (of_nat (4096 * Suc k) :: u32) = 4096 * Suc k" by (intro unat_of_nat32) simp
    then have "(of_nat (4096 * Suc k) :: u32) \<noteq> 0" by (metis mult_eq_0_iff nat.distinct(1) unat_0 zero_neq_numeral)
    moreover have "ucast (of_nat (4096 * Suc k) :: u32) < lim"
      using True by (simp only: word_less_nat_alt unat_ucast k1) simp
    ultimately have step: "mem_set_used_loop (of_nat (4096 * k)) lim s
        = mem_set_used_loop (of_nat (4096 * Suc k)) lim ?s"
      by (subst mem_set_used_loop.simps) (simp only: Let_def next_page simp_thms if_True)
    have "1048576 - Suc k < 1048576 - k" "Suc k < 1048576" using True by auto
    from less.hyps [OF this, of ?s] obtain bm where bm:
      "mem_set_used_loop (of_nat (4096 * Suc k)) lim ?s = Some (?s\<lparr>phys_page_bitmap := bm\<rparr>)"
      "\<And>f. frame_used (?s\<lparr>phys_page_bitmap := bm\<rparr>) f \<longleftrightarrow> frame_used ?s f
        \<or> f = Suc k \<or> Suc k \<le> f \<and> 4096 * f < unat lim"
      by blast
    have same: "?s\<lparr>phys_page_bitmap := bm\<rparr> = s\<lparr>phys_page_bitmap := bm\<rparr>"
      by (simp add: set_phys_used_def Let_def)
    have "frame_used (s\<lparr>phys_page_bitmap := bm\<rparr>) f \<longleftrightarrow> frame_used s f
        \<or> f = k \<or> k \<le> f \<and> 4096 * f < unat lim" for f
    proof -
      have "f = Suc k \<or> Suc k \<le> f \<and> 4096 * f < unat lim \<longleftrightarrow> k < f \<and> 4096 * f < unat lim"
        using True by (metis Suc_le_eq lessI)
      then show ?thesis using bm(2) [of f] unfolding same fu by (metis le_neq_implies_less less_imp_le)
    qed
    then show ?thesis using bm(1) unfolding step same by blast
  next
    case False
    have stop: "\<not> (ucast (of_nat (4096 * Suc k) :: u32) < lim \<and> (of_nat (4096 * Suc k) :: u32) \<noteq> 0)"
    proof (cases "Suc k = 1048576")
      case True
      then show ?thesis by simp
    next
      case nk: False
      then have "unat (of_nat (4096 * Suc k) :: u32) = 4096 * Suc k"
        by (intro unat_of_nat32) (use less.prems in simp)
      then have "unat (ucast (of_nat (4096 * Suc k) :: u32) :: u64) = 4096 * Suc k"
        using less.prems by (simp only: unat_ucast) simp
      then show ?thesis using False nk less.prems by (simp only: word_less_nat_alt) auto
    qed
    have "4096 * f < unat lim \<Longrightarrow> k \<le> f \<Longrightarrow> f = k" for f using False assms(1) less.prems by auto
    moreover have "mem_set_used_loop (of_nat (4096 * k)) lim s = Some ?s"
      using stop by (subst mem_set_used_loop.simps) (simp only: Let_def next_page if_False)
    moreover have "?s = s\<lparr>phys_page_bitmap := phys_page_bitmap ?s\<rparr>" by (simp add: set_phys_used_def Let_def)
    ultimately show ?thesis using fu by (intro exI [of _ "phys_page_bitmap ?s"]) (metis)
  qed
qed

section \<open>Regions of pages\<close>

text \<open>Pages by their number: whether a page is mapped, and whether its table is there.\<close>

definition page_present :: "'a paging_scheme \<Rightarrow> nat \<Rightarrow> bool" where
  "page_present s i \<longleftrightarrow> ptes s (of_nat i) AND PG_PRES \<noteq> 0"

definition table_present :: "'a paging_scheme \<Rightarrow> nat \<Rightarrow> bool" where
  "table_present s t \<longleftrightarrow> ptes s (PD_INDEX + of_nat t) AND PG_PRES \<noteq> 0"

text \<open>The directory maps itself, and the tables of the pages from \<open>p\<close> up to \<open>e\<close> are there.\<close>

definition tables_ok :: "'a paging_scheme \<Rightarrow> nat \<Rightarrow> nat \<Rightarrow> bool" where
  "tables_ok s p e \<longleftrightarrow> e \<le> 1048576 \<and> table_present s 1023
     \<and> (\<forall>i. p \<le> i \<and> i < e \<longrightarrow> table_present s (i div 1024))"

lemma pde_index:
  assumes "unat t < 1024"
  shows "(PD_INDEX + t) div 1024 = 1023" "PD_INDEX + t < 0x100000"
proof -
  have u: "unat (PD_INDEX + t) = 0xffc00 + unat t" using assms by (subst unat_add_small) simp_all
  have "unat ((PD_INDEX + t) div 1024) = 1023" using u assms by (simp add: unat_div_distrib)
  then show "(PD_INDEX + t) div 1024 = 1023" by (simp add: word_unat_eq_iff)
  show "PD_INDEX + t < 0x100000" using u assms by (simp add: word_less_nat_alt)
qed

lemma read_entry_pde:
  "unat t < 1024 \<Longrightarrow> read_entry (PD_INDEX + t) s
    = (if table_present s 1023 then Some (ptes s (PD_INDEX + t)) else None)"
  by (simp add: read_entry_def pde_index table_present_def)

lemma page_word:
  assumes "i < 1048576"
  shows "unat (of_nat i :: u32) = i" "(of_nat i :: u32) div 1024 = of_nat (i div 1024)"
    "(of_nat i :: u32) div 1024 < 1024" "(of_nat i :: u32) < 0x100000"
proof -
  show u: "unat (of_nat i :: u32) = i" using assms by (intro unat_of_nat32) simp
  have d: "unat ((of_nat i :: u32) div 1024) = i div 1024" by (simp only: unat_div_distrib u) simp
  moreover have "unat (of_nat (i div 1024) :: u32) = i div 1024" by (rule unat_of_nat32) (use assms in simp)
  ultimately show "(of_nat i :: u32) div 1024 = of_nat (i div 1024)" by (simp only: word_unat_eq_iff)
  show "(of_nat i :: u32) div 1024 < 1024" by (simp only: word_less_nat_alt d) (use assms in simp)
  show "(of_nat i :: u32) < 0x100000" by (simp only: word_less_nat_alt u) (use assms in simp)
qed

lemma read_page:
  assumes "i < 1048576" "table_present s 1023"
  shows "read_pde ((of_nat i :: u32) div 1024) s = Some (ptes s (PD_INDEX + of_nat (i div 1024)))"
    and "read_entry (of_nat i) s = (if table_present s (i div 1024) then Some (ptes s (of_nat i)) else None)"
proof -
  have "unat (of_nat (i div 1024) :: u32) < 1024"
    using page_word(2,3) [OF assms(1)] by (simp add: word_less_nat_alt)
  then show "read_pde ((of_nat i :: u32) div 1024) s = Some (ptes s (PD_INDEX + of_nat (i div 1024)))"
    using page_word(3) [OF assms(1)] assms(2) by (simp only: page_word(2) [OF assms(1)] read_entry_pde if_True)
  show "read_entry (of_nat i) s = (if table_present s (i div 1024) then Some (ptes s (of_nat i)) else None)"
    using page_word(4) [OF assms(1)]
    by (simp only: read_entry_def page_word(2) [OF assms(1)] table_present_def simp_thms)
qed

lemma page_succ: "(of_nat i :: u32) + 1 = of_nat (Suc i)"
  by simp

text \<open>With all tables there the test finds the first used page.\<close>

lemma virt_used_loop_present:
  assumes "tables_ok s p e" "p \<le> e"
  shows "virt_used_loop start (of_nat p) (of_nat e) s =
    Some (case find (page_present s) [p ..< e] of None \<Rightarrow> (False, start) | Some q \<Rightarrow> (True, of_nat (Suc q)))"
  using assms
proof (induction "e - p" arbitrary: p rule: less_induct)
  case less
  have e: "unat (of_nat e :: u32) = e"
    using less.prems(1) by (intro unat_of_nat32) (simp add: tables_ok_def)
  show ?case
  proof (cases "p < e")
    case False
    then show ?thesis using less.prems(2) by (subst virt_used_loop.simps) simp
  next
    case True
    then have p: "p < 1048576" and pd: "table_present s 1023" and tp: "table_present s (p div 1024)"
      using less.prems by (auto simp: tables_ok_def)
    have lt: "(of_nat p :: u32) < of_nat e"
      by (simp only: word_less_nat_alt e page_word(1) [OF p] True)
    have pde: "(ptes s (PD_INDEX + of_nat (p div 1024)) AND PG_PRES = 0) = False"
      using tp by (simp add: table_present_def)
    have "tables_ok s (Suc p) e" using less.prems(1) by (simp add: tables_ok_def)
    then have IH: "virt_used_loop start (of_nat (Suc p)) (of_nat e) s =
        Some (case find (page_present s) [Suc p ..< e] of None \<Rightarrow> (False, start) | Some q \<Rightarrow> (True, of_nat (Suc q)))"
      by (intro less.hyps) (use True in simp_all)
    have up: "[p ..< e] = p # [Suc p ..< e]" using True by (rule upt_conv_Cons)
    show ?thesis
      by (subst virt_used_loop.simps)
         (simp only: lt read_page [OF p pd] tp pde if_True if_False option.case page_succ IH up
            find.simps page_present_def, simp)
  qed
qed

lemma find_region_unfold:
  "find_region p n s = (case is_virt_region_used p n s of None \<Rightarrow> None
     | Some (used, st) \<Rightarrow> if used then if st = 0 then Some None else find_region st n s else Some (Some st))"
  by (subst find_region.simps) rule

text \<open>With all tables there up to the end of the first free region, the search finds that region.\<close>

definition region_free :: "'a paging_scheme \<Rightarrow> nat \<Rightarrow> nat \<Rightarrow> bool" where
  "region_free s q n \<longleftrightarrow> (\<forall>i. q \<le> i \<and> i < q + n \<longrightarrow> \<not> page_present s i)"

lemma region_test:
  assumes "tables_ok s p (p + n)" "n < 1048576"
  shows "is_virt_region_used (of_nat p) (of_nat n) s =
    Some (case find (page_present s) [p ..< p + n] of None \<Rightarrow> (False, of_nat p) | Some q \<Rightarrow> (True, of_nat (Suc q)))"
proof -
  have le: "p + n \<le> 1048576" using assms(1) by (simp add: tables_ok_def)
  then have u: "unat (of_nat (p + n) :: u32) = p + n" "unat (of_nat p :: u32) = p"
    by (intro unat_of_nat32; simp)+
  have s: "(of_nat p :: u32) + of_nat n = of_nat (p + n)" by simp
  have "\<not> (of_nat (p + n) :: u32) < of_nat p" unfolding word_less_nat_alt u by simp
  then show ?thesis
    using virt_used_loop_present [OF assms(1), of "of_nat p"]
    by (simp only: is_virt_region_used_def Let_def s if_False)
qed

lemma find_region_first:
  assumes "tables_ok s p (q + n)" "p \<le> q" "region_free s q n" "n < 1048576"
    and "\<And>k. p \<le> k \<Longrightarrow> k < q \<Longrightarrow> \<not> region_free s k n"
  shows "find_region (of_nat p) (of_nat n) s = Some (Some (of_nat q))"
  using assms(1,2,5)
proof (induction "q - p" arbitrary: p rule: less_induct)
  case less
  have tp: "tables_ok s p (p + n)" using less.prems(1,2) by (auto simp: tables_ok_def)
  note test = region_test [OF tp assms(4)]
  show ?case
  proof (cases "region_free s p n")
    case True
    then have "\<not> p < q" using less.prems(3) by blast
    then have "p = q" using less.prems(2) by simp
    moreover have "find (page_present s) [p ..< p + n] = None"
      using True by (auto simp: find_None_iff region_free_def)
    ultimately show ?thesis using test by (subst find_region_unfold) simp
  next
    case False
    then obtain u where u: "find (page_present s) [p ..< p + n] = Some u"
      by (cases "find (page_present s) [p ..< p + n]") (auto simp: find_None_iff region_free_def)
    then have pu: "p \<le> u" "u < p + n" "page_present s u" using find_SomeD [OF u] by auto
    then have uq: "u < q" using assms(3) less.prems(2) by (auto simp: region_free_def not_less)
    then have "Suc u < 4294967296" using less.prems(1) by (auto simp: tables_ok_def)
    then have "unat (of_nat (Suc u) :: u32) = Suc u" by (rule unat_of_nat32)
    then have nz: "(of_nat (Suc u) :: u32) \<noteq> 0" by (metis nat.distinct(1) unat_0)
    have "find_region (of_nat (Suc u)) (of_nat n) s = Some (Some (of_nat q))"
      by (rule less.hyps) (use pu uq less.prems in \<open>auto simp: tables_ok_def\<close>)
    then show ?thesis using test u nz by (subst find_region_unfold) (simp del: of_nat_Suc)
  qed
qed

section \<open>Writing page tables\<close>

text \<open>Entries \<open>q\<close> to \<open>q + k - 1\<close> set, the others kept.\<close>

definition set_entries :: "nat \<Rightarrow> nat \<Rightarrow> (nat \<Rightarrow> u32) \<Rightarrow> 'a paging_scheme \<Rightarrow> 'a paging_scheme" where
  "set_entries q k v s =
     s\<lparr>ptes := (\<lambda>j. if q \<le> unat j \<and> unat j < q + k then v (unat j - q) else ptes s j)\<rparr>"

lemma set_entries_0 [simp]: "set_entries q 0 v s = s"
proof -
  have "(\<lambda>j. if q \<le> unat j \<and> unat j < q + 0 then v (unat j - q) else ptes s j) = ptes s"
    by (auto simp: fun_eq_iff)
  then show ?thesis by (simp only: set_entries_def) simp
qed

lemma set_entries_fields [simp]:
  "lower_bound (set_entries q k v s) = lower_bound s" "upper_bound (set_entries q k v s) = upper_bound s"
  "frame_words (set_entries q k v s) = frame_words s" "paging.more (set_entries q k v s) = paging.more s"
  "phys_page_bitmap (set_entries q k v s) = phys_page_bitmap s" "ram (set_entries q k v s) = ram s"
  "frame_used (set_entries q k v s) = frame_used s"
  by (simp_all add: set_entries_def frame_used_def fun_eq_iff)

lemma unat_pd_index: "t < 1024 \<Longrightarrow> unat (PD_INDEX + of_nat t) = 1047552 + t"
  by (subst unat_add_small) (simp_all add: unat_of_nat32)

lemma set_entries_table [simp]:
  assumes "q + k \<le> 1047552" "t < 1024"
  shows "table_present (set_entries q k v s) t = table_present s t"
  using assms by (simp add: table_present_def set_entries_def unat_pd_index)

lemma set_entries_tables_ok [simp]:
  assumes "q + k \<le> 1047552"
  shows "tables_ok (set_entries q k v s) p e = tables_ok s p e"
proof -
  have "table_present (set_entries q k v s) (i div 1024) = table_present s (i div 1024)" if "i < 1048576" for i
    using that by (intro set_entries_table [OF assms]) simp
  then show ?thesis using assms by (auto simp: tables_ok_def)
qed

lemma unat_eq_of_nat: "i < 4294967296 \<Longrightarrow> j = (of_nat i :: u32) \<longleftrightarrow> unat j = i"
  by (auto simp: word_unat_eq_iff unat_of_nat32)

lemma write_entry_page:
  assumes "i < 1047552" "table_present s 1023" "table_present s (i div 1024)"
  shows "write_entry (of_nat i) v s = Some (set_entries i 1 (\<lambda>_. v) s)"
proof -
  have i: "i < 1048576" using assms by simp
  have "(of_nat i \<ge> PD_INDEX) = False"
    using page_word(1) [OF i] assms(1) by (simp add: word_le_nat_alt)
  moreover have "(of_nat i < (0x100000 :: u32) \<and> ptes s (PD_INDEX + of_nat i div 1024) AND PG_PRES \<noteq> 0) = True"
    using page_word(4) [OF i] assms(3) by (simp only: page_word(2) [OF i] table_present_def simp_thms)
  moreover have "(\<lambda>j. if j = of_nat i then v else ptes s j)
      = (\<lambda>j. if i \<le> unat j \<and> unat j < i + 1 then v else ptes s j)"
    using i by (auto simp: fun_eq_iff unat_eq_of_nat)
  ultimately show ?thesis
    by (simp only: write_entry_def set_entries_def simp_thms if_True if_False)
qed

lemma set_entries_Suc:
  assumes "\<And>j. w j = v (Suc j)"
  shows "set_entries (Suc q) k w (set_entries q 1 (\<lambda>_. v 0) s) = set_entries q (Suc k) v s"
proof -
  have "(if Suc q \<le> n \<and> n < Suc q + k then w (n - Suc q) else if q \<le> n \<and> n < q + 1 then v 0 else x)
      = (if q \<le> n \<and> n < q + Suc k then v (n - q) else x)" for n x
    using assms by (cases "n = q") (auto simp: Suc_diff_Suc simp flip: Suc_diff_Suc)
  then have "(\<lambda>j. if Suc q \<le> unat j \<and> unat j < Suc q + k then w (unat j - Suc q)
        else if q \<le> unat j \<and> unat j < q + 1 then v 0 else ptes s j)
      = (\<lambda>j. if q \<le> unat j \<and> unat j < q + Suc k then v (unat j - q) else ptes s j)"
    by (intro ext)
  moreover have "ptes (s\<lparr>ptes := g\<rparr>) j = g j" "s\<lparr>ptes := g, ptes := h\<rparr> = s\<lparr>ptes := h\<rparr>" for g h and j :: u32
    by simp_all
  ultimately show ?thesis unfolding set_entries_def by (simp only:)
qed

lemma zero_entries_spec:
  assumes "tables_ok s q (q + n)" "q + n \<le> 1047552"
  shows "zero_entries n (of_nat q) s = Some (set_entries q n (\<lambda>_. 0) s)"
  using assms
proof (induction n arbitrary: q s)
  case (Suc n)
  then have q: "q < 1047552" and pd: "table_present s 1023" "table_present s (q div 1024)"
    by (auto simp: tables_ok_def)
  have "tables_ok s (Suc q) (Suc q + n)" using Suc.prems by (simp add: tables_ok_def)
  then have "zero_entries n (of_nat (Suc q)) (set_entries q 1 (\<lambda>_. 0) s)
      = Some (set_entries (Suc q) n (\<lambda>_. 0) (set_entries q 1 (\<lambda>_. 0) s))"
    using Suc.prems q by (intro Suc.IH) simp_all
  then show ?case
    using set_entries_Suc [of "\<lambda>_. 0" "\<lambda>_. 0" q n s]
    by (simp only: zero_entries.simps write_entry_page [OF q pd] Option.bind.bind_lunit page_succ)
qed simp

lemma zero_entries_add:
  "zero_entries (a + b) i s = Option.bind (zero_entries a i s) (zero_entries b (i + of_nat a))"
proof (induction a arbitrary: i s)
  case (Suc a)
  then show ?case by (cases "write_entry i 0 s") (simp_all add: add.assoc)
qed simp

lemma ensure_table_present:
  assumes "i < 1048576" "table_present s 1023" "table_present s (i div 1024)"
  shows "ensure_table (of_nat i) s = Some s"
proof -
  have "(ptes s (PD_INDEX + of_nat (i div 1024)) AND PG_PRES = 0) = False"
    using assms(3) by (simp add: table_present_def)
  then show ?thesis by (simp only: ensure_table_def read_page [OF assms(1,2)] option.case if_False)
qed

lemma map_pages_present:
  assumes "tables_ok s q (q + k)" "q + k \<le> 1047552"
  shows "map_pages k (of_nat q) phys flags s
    = Some (set_entries q k (\<lambda>i. (phys + of_nat (4096 * i)) OR flags) s)"
  using assms
proof (induction k arbitrary: q phys s)
  case (Suc k)
  then have q: "q < 1047552" "q < 1048576" and pd: "table_present s 1023" "table_present s (q div 1024)"
    by (auto simp: tables_ok_def)
  have "tables_ok s (Suc q) (Suc q + k)" using Suc.prems by (simp add: tables_ok_def)
  then have IH: "map_pages k (of_nat (Suc q)) (phys + 4096) flags (set_entries q 1 (\<lambda>_. phys OR flags) s)
      = Some (set_entries (Suc q) k (\<lambda>i. (phys + 4096 + of_nat (4096 * i)) OR flags)
          (set_entries q 1 (\<lambda>_. phys OR flags) s))"
    using Suc.prems q by (intro Suc.IH) simp_all
  have "set_entries (Suc q) k (\<lambda>i. (phys + 4096 + of_nat (4096 * i)) OR flags)
      (set_entries q 1 (\<lambda>_. (phys + of_nat (4096 * 0)) OR flags) s)
    = set_entries q (Suc k) (\<lambda>i. (phys + of_nat (4096 * i)) OR flags) s"
    by (rule set_entries_Suc) (simp add: add.assoc)
  then show ?case
    using IH
    by (simp only: map_pages.simps ensure_table_present [OF q(2) pd] Option.bind.bind_lunit
        write_entry_page [OF q(1) pd] page_succ, simp)
qed simp

section \<open>Mapping into free regions\<close>

lemma page_shift:
  assumes "q < 1048576"
  shows "(of_nat q * PAGE_SIZE) div PAGE_SIZE = (of_nat q :: u32)"
proof -
  have "(of_nat q * PAGE_SIZE) = (of_nat (q * 4096) :: u32)" by simp
  moreover have "unat (of_nat (q * 4096) :: u32) = q * 4096" by (rule unat_of_nat32) (use assms in simp)
  ultimately have "unat ((of_nat q * PAGE_SIZE) div PAGE_SIZE :: u32) = q" by (simp only: unat_div_distrib) simp
  then show ?thesis using page_word(1) [OF assms] by (simp only: word_unat_eq_iff)
qed

lemma find_region_free:
  assumes "tables_ok s q (q + n)" "region_free s q n" "n < 1048576"
  shows "find_region (of_nat q) (of_nat n) s = Some (Some (of_nat q))"
  by (rule find_region_first) (use assms in simp_all)

lemma mem_map_one:
  assumes "tables_ok s q (q + 1)" "q < 1047552" "region_free s q 1" "phys mod PAGE_SIZE = 0"
  shows "mem_map (of_nat q * PAGE_SIZE) 1 phys flags s
    = Some (of_nat q * PAGE_SIZE, set_entries q 1 (\<lambda>_. phys OR flags) s)"
proof -
  have q: "q < 1048576" using assms(2) by simp
  have fr: "find_region (of_nat q) 1 s = Some (Some (of_nat q))"
    using find_region_free [OF assms(1,3)] by simp
  have tp: "table_present s 1023" "table_present s (q div 1024)"
    using assms(1) by (auto simp: tables_ok_def)
  have mp: "map_pages 1 (of_nat q) phys flags s = Some (set_entries q 1 (\<lambda>_. phys OR flags) s)"
    using ensure_table_present [OF q tp] write_entry_page [OF assms(2) tp] by simp
  show ?thesis
    using assms(4) fr mp by (simp add: mem_map_def page_shift [OF q] del: map_pages.simps)
qed

text \<open>A frame's address is page aligned.\<close>

lemma frame_aligned: "(of_nat (4096 * f) :: u32) mod PAGE_SIZE = 0"
proof -
  have "unat ((of_nat (4096 * f) :: u32) mod PAGE_SIZE) = (4096 * f) mod 4294967296 mod 4096"
    by (simp only: unat_mod_distrib unat_of_nat) simp
  also have "\<dots> = 0" by (simp add: mod_mod_cancel)
  finally show ?thesis by (simp only: unat_eq_zero)
qed

lemma phys_frame_alloc:
  assumes "bounds_ok s" "phys_frame s = Some (f, t)"
  shows "alloc_phys s = Some (of_nat (4096 * f), t)" "t = set_phys_used (of_nat (4096 * f)) True s"
  using assms alloc_phys_spec [OF assms(1)]
  by (auto simp: phys_frame_spec alloc_spec_def split: option.splits)

lemma frame_range_set_entries [simp]:
  "frame_range (set_entries q k v s) = frame_range s" "bounds_ok (set_entries q k v s) = bounds_ok s"
  by (simp_all add: frame_range_def bounds_ok_def)

lemma set_phys_used_commute: "set_phys_used p u (set_entries q k v s) = set_entries q k v (set_phys_used p u s)"
  by (rule paging.equality) (simp_all add: set_phys_used_def set_entries_def Let_def cong: if_cong)

lemma phys_frame_set_entries:
  "bounds_ok s \<Longrightarrow> phys_frame (set_entries q k v s)
    = map_option (\<lambda>(f, t). (f, set_entries q k v t)) (phys_frame s)"
  by (simp add: phys_frame_spec set_phys_used_commute split: option.splits)

lemma alloc_many_set_entries:
  "bounds_ok s \<Longrightarrow> alloc_many phys_frame n (set_entries q k v s)
    = map_option (\<lambda>(fs, t). (fs, set_entries q k v t)) (alloc_many phys_frame n s)"
proof (induction n arbitrary: s)
  case (Suc n)
  show ?case
  proof (cases "phys_frame s")
    case (Some a)
    obtain f t where a: "a = (f, t)" by (cases a)
    then have "bounds_ok t" using frames.alloc_ok [OF Suc.prems] Some by simp
    then show ?thesis
      using Some a Suc by (simp add: phys_frame_set_entries split_beta option.map_comp o_def)
  qed (use Suc in \<open>simp add: phys_frame_set_entries\<close>)
qed simp

lemma region_free_set_phys [simp]:
  "region_free (set_phys_used p u s) q n = region_free s q n"
  "tables_ok (set_phys_used p u s) q e = tables_ok s q e"
  "table_present (set_phys_used p u s) i = table_present s i"
  by (simp_all add: region_free_def page_present_def tables_ok_def table_present_def)

lemma region_free_Suc:
  assumes "region_free s q (Suc n)" "q + Suc n \<le> 1047552"
  shows "region_free s q 1" "region_free (set_entries q 1 v s) (Suc q) n"
proof -
  show "region_free s q 1" using assms(1) by (auto simp: region_free_def)
  have "page_present (set_entries q 1 v s) i = page_present s i" if "Suc q \<le> i" "i < Suc q + n" for i
    using that assms(2) page_word(1) [of i] by (simp add: page_present_def set_entries_def)
  then show "region_free (set_entries q 1 v s) (Suc q) n"
    using assms(1) by (auto simp: region_free_def)
qed

lemma alloc_pages_spec:
  assumes "bounds_ok s" "tables_ok s q (q + n)" "q + n \<le> 1047552" "region_free s q n"
    and "alloc_many phys_frame n s = Some (fs, u)"
  shows "alloc_pages n (of_nat q) flags s = Some (set_entries q n (\<lambda>i. of_nat (4096 * fs ! i) OR flags) u)"
  using assms
proof (induction n arbitrary: q s fs u)
  case (Suc n)
  then obtain f t gs where f: "phys_frame s = Some (f, t)" and gs: "alloc_many phys_frame n t = Some (gs, u)" "fs = f # gs"
    by (auto split: option.splits)
  note al = phys_frame_alloc [OF Suc.prems(1) f]
  have okt: "bounds_ok t" using frames.alloc_ok [OF Suc.prems(1) f] .
  let ?v = "of_nat (4096 * f) OR flags"
  have rf: "region_free t q 1" "region_free (set_entries q 1 (\<lambda>_. ?v) t) (Suc q) n"
    using region_free_Suc [of t q n] Suc.prems(3,4) al(2) by simp_all
  have to: "tables_ok t q (q + 1)" "tables_ok (set_entries q 1 (\<lambda>_. ?v) t) (Suc q) (Suc q + n)"
    using Suc.prems(2,3) al(2) by (auto simp: tables_ok_def)
  have mm: "mem_map (of_nat q * PAGE_SIZE) 1 (of_nat (4096 * f)) flags t
      = Some (of_nat q * PAGE_SIZE, set_entries q 1 (\<lambda>_. ?v) t)"
    by (rule mem_map_one) (use to rf Suc.prems(3) frame_aligned in simp_all)
  have IH: "alloc_pages n (of_nat (Suc q)) flags (set_entries q 1 (\<lambda>_. ?v) t)
      = Some (set_entries (Suc q) n (\<lambda>i. of_nat (4096 * gs ! i) OR flags) (set_entries q 1 (\<lambda>_. ?v) u))"
  proof (rule Suc.IH)
    show "alloc_many phys_frame n (set_entries q 1 (\<lambda>_. ?v) t) = Some (gs, set_entries q 1 (\<lambda>_. ?v) u)"
      using alloc_many_set_entries [OF okt] gs(1) by simp
  qed (use okt to rf Suc.prems(3) in simp_all)
  have "set_entries (Suc q) n (\<lambda>i. of_nat (4096 * gs ! i) OR flags) (set_entries q 1 (\<lambda>_. of_nat (4096 * fs ! 0) OR flags) u)
      = set_entries q (Suc n) (\<lambda>i. of_nat (4096 * fs ! i) OR flags) u"
    by (rule set_entries_Suc) (simp add: gs(2))
  then show ?case
    using al(1) mm IH gs(2) by (simp only: alloc_pages.simps option.case prod.case page_succ, simp)
qed simp

section \<open>Page tables that are missing\<close>

lemma directory_flags: "(frame OR PAGE_DIRECTORY_FLAGS) AND NOT 4095 = frame AND NOT (4095 :: u32)"
  "(frame OR PAGE_DIRECTORY_FLAGS) AND PG_PRES \<noteq> (0 :: u32)"
proof -
  have "(7 :: u32) AND NOT 4095 = 0" by simp
  then show "(frame OR PAGE_DIRECTORY_FLAGS) AND NOT 4095 = frame AND NOT 4095"
    by (simp only: word_ao_dist) simp
  have "bit ((frame OR 7) AND 1) 0" by (simp add: bit_and_iff bit_or_iff)
  then show "(frame OR PAGE_DIRECTORY_FLAGS) AND PG_PRES \<noteq> 0" by auto
qed

text \<open>The state after a new frame has become the table \<open>t\<close>.\<close>

definition new_table :: "nat \<Rightarrow> u32 \<Rightarrow> 'a paging_scheme \<Rightarrow> 'a paging_scheme" where
  "new_table t frame s = s\<lparr>ptes := (\<lambda>j.
     if unat j = 1047552 + t then frame OR PAGE_DIRECTORY_FLAGS
     else if unat j div 1024 = t then frame_words s (frame AND NOT 4095) (j mod 1024)
     else ptes s j)\<rparr>"

lemma new_table_present:
  assumes "t < 1023" "u < 1024"
  shows "table_present (new_table t frame s) u \<longleftrightarrow> u = t \<or> table_present s u"
  using assms directory_flags(2) [of frame] by (auto simp: table_present_def new_table_def unat_pd_index)

lemma ensure_table_absent:
  assumes "q < 1047552" "table_present s 1023" "\<not> table_present s (q div 1024)"
    and "alloc_phys s = Some (frame, s1)" "ptes s1 = ptes s" "frame_words s1 = frame_words s"
  shows "ensure_table (of_nat q) s = zero_entries 1024 (of_nat q) (new_table (q div 1024) frame s1)"
proof -
  have q: "q < 1048576" using assms(1) by simp
  let ?t = "q div 1024"
  have t: "?t < 1023" using assms(1) by simp
  have pi: "unat (PD_INDEX + of_nat ?t) = 1047552 + ?t" using t by (intro unat_pd_index) simp
  have absent: "(ptes s (PD_INDEX + of_nat ?t) AND PG_PRES = 0) = True"
    using assms(3) by (simp add: table_present_def)
  have "unat (of_nat ?t :: u32) < 1024" using t by (simp add: unat_of_nat32)
  note pd = pde_index [OF this]
  have acc: "(PD_INDEX + of_nat ?t < 0x100000 \<and> ptes s1 (PD_INDEX + (PD_INDEX + of_nat ?t) div 1024) AND PG_PRES \<noteq> 0) = True"
    using pd assms(2,5) by (simp add: table_present_def)
  have win: "(PD_INDEX \<le> PD_INDEX + of_nat ?t \<and> j < PD_INDEX \<and> j div 1024 = PD_INDEX + of_nat ?t - PD_INDEX)
      = (unat j div 1024 = ?t)" for j :: u32
  proof -
    have "unat (PD_INDEX + of_nat ?t - PD_INDEX :: u32) = ?t" using t by (simp add: unat_of_nat32)
    then have "j div 1024 = PD_INDEX + of_nat ?t - PD_INDEX \<longleftrightarrow> unat j div 1024 = ?t"
      by (simp only: word_unat_eq_iff unat_div_distrib) simp
    moreover have "PD_INDEX \<le> PD_INDEX + of_nat ?t" by (simp only: word_le_nat_alt pi) simp
    moreover have "j < PD_INDEX" if "unat j div 1024 = ?t" using that t by (simp add: word_less_nat_alt)
    ultimately show ?thesis by blast
  qed
  have eq: "j = PD_INDEX + of_nat ?t \<longleftrightarrow> unat j = 1047552 + ?t" for j
    using pi by (simp only: word_unat_eq_iff)
  have "write_entry (PD_INDEX + of_nat ?t) (frame OR PAGE_DIRECTORY_FLAGS) s1 = Some (new_table ?t frame s1)"
    unfolding write_entry_def acc new_table_def win eq directory_flags(1) by simp
  then show ?thesis
    using assms(4)
    by (simp only: ensure_table_def read_page [OF q assms(2)] option.case prod.case absent if_True)
       (simp only: page_word(2) [OF q] Option.bind.bind_lunit)
qed

lemma zero_entries_fault:
  assumes "i < 1048576" "\<not> table_present s (i div 1024)"
  shows "zero_entries (Suc n) (of_nat i) s = None"
proof -
  have "(of_nat i < (0x100000 :: u32) \<and> ptes s (PD_INDEX + of_nat i div 1024) AND PG_PRES \<noteq> 0) = False"
    using assms(2) by (simp only: page_word(2) [OF assms(1)] table_present_def simp_thms)
  then show ?thesis by (simp only: zero_entries.simps write_entry_def if_False Option.bind.bind_lzero)
qed

lemma alloc_phys_tables:
  assumes "bounds_ok s" "alloc_phys s = Some (frame, s1)"
  shows "ptes s1 = ptes s" "frame_words s1 = frame_words s"
  using assms alloc_phys_spec [OF assms(1)] by (auto simp: alloc_spec_def split: option.splits)

text \<open>A region whose first table is missing counts as free, whatever follows.\<close>

lemma region_test_absent:
  assumes "q < 1048576" "q + n \<le> 0x3ff000" "table_present s 1023" "\<not> table_present s (q div 1024)"
  shows "is_virt_region_used (of_nat q) (of_nat n) s = Some (False, of_nat q)"
proof -
  have u: "unat (of_nat (q + n) :: u32) = q + n" "unat (of_nat q :: u32) = q"
    using assms(2) by (simp_all only: unat_of_nat32)
  have sm: "(of_nat q :: u32) + of_nat n = of_nat (q + n)" by simp
  have nw: "\<not> (of_nat (q + n) :: u32) < of_nat q" unfolding word_less_nat_alt u by simp
  have absent: "(ptes s (PD_INDEX + of_nat (q div 1024)) AND PG_PRES = 0) = True"
    using assms(4) by (simp add: table_present_def)
  let ?next = "((of_nat q :: u32) OR ((HUGE_PAGE_SIZE - 1) AND NOT 4095)) + 1"
  have m: "(HUGE_PAGE_SIZE - 1) AND NOT 4095 = (0x3ff000 :: u32)" by simp
  have b: "unat ((of_nat q :: u32) OR 0x3ff000) < 4194304" "0x3ff000 \<le> unat ((of_nat q :: u32) OR 0x3ff000)"
  proof -
    show "unat ((of_nat q :: u32) OR 0x3ff000) < 4194304" by (rule skip_bounds(3)) (rule page_word(3) [OF assms(1)])
    have "(0x3ff000 :: u32) \<le> 0x3ff000 OR of_nat q" by (rule le_word_or2)
    then show "0x3ff000 \<le> unat ((of_nat q :: u32) OR 0x3ff000)" by (simp add: word_le_nat_alt or.commute)
  qed
  have "unat (((of_nat q :: u32) OR 0x3ff000) + 1) = unat ((of_nat q :: u32) OR 0x3ff000) + 1"
    by (rule unat_succ) (use b in simp)
  then have past: "(?next < of_nat (q + n)) = False"
    unfolding m word_less_nat_alt u using b assms(2) by simp
  have done_loop: "virt_used_loop st ?next (of_nat (q + n)) s = Some (False, st)" for st
    by (subst virt_used_loop.simps) (simp only: past if_False)
  have "virt_used_loop (of_nat q) (of_nat q) (of_nat (q + n)) s = Some (False, of_nat q)"
    by (subst virt_used_loop.simps)
       (simp only: read_page(1) [OF assms(1,3)] option.case absent if_True done_loop if_cancel)
  then show ?thesis using nw by (simp only: is_virt_region_used_def Let_def sm if_False)
qed

lemma find_region_absent:
  assumes "q < 1048576" "q + n \<le> 0x3ff000" "table_present s 1023" "\<not> table_present s (q div 1024)"
  shows "find_region (of_nat q) (of_nat n) s = Some (Some (of_nat q))"
  using region_test_absent [OF assms] by (subst find_region_unfold) simp

lemma page_of_address:
  assumes "q < 1048576"
  shows "(of_nat (4096 * q) :: u32) div PAGE_SIZE = of_nat q"
  using page_shift [OF assms] by (simp add: mult.commute)

lemma mem_map_first:
  assumes "phys mod PAGE_SIZE = 0" "unat virt_min div 4096 \<le> q" "q + unat n \<le> 1047552"
    and "tables_ok s (unat virt_min div 4096) (q + unat n)" "region_free s q (unat n)"
    and "\<And>k. unat virt_min div 4096 \<le> k \<Longrightarrow> k < q \<Longrightarrow> \<not> region_free s k (unat n)"
  shows "mem_map virt_min n phys flags s = Some (of_nat (4096 * q), s\<lparr>ptes := (\<lambda>j.
      if q \<le> unat j \<and> unat j < q + unat n then (phys + of_nat (4096 * (unat j - q))) OR flags
      else ptes s j)\<rparr>)"
proof -
  have p: "virt_min div PAGE_SIZE = of_nat (unat virt_min div 4096)"
    using unat_of_nat32 [of "unat virt_min div 4096"] unat_lt_2p32 [of virt_min]
    by (simp only: word_unat_eq_iff unat_div_distrib) simp
  have "find_region (of_nat (unat virt_min div 4096)) (of_nat (unat n)) s = Some (Some (of_nat q))"
    by (rule find_region_first) (use assms in simp_all)
  then have fr: "find_region (virt_min div PAGE_SIZE) n s = Some (Some (of_nat q))" using p by simp
  have "tables_ok s q (q + unat n)" using assms(2,4) by (auto simp: tables_ok_def)
  then have "map_pages (unat n) (of_nat q) phys flags s
      = Some (set_entries q (unat n) (\<lambda>i. (phys + of_nat (4096 * i)) OR flags) s)"
    by (rule map_pages_present) (rule assms(3))
  moreover have "of_nat q * PAGE_SIZE = (of_nat (4096 * q) :: u32)" by simp
  ultimately show ?thesis
    using assms(1) fr by (simp only: mem_map_def set_entries_def option.case option.map) simp
qed

text \<open>Without a free frame nothing is mapped, page after page.\<close>

lemma minus_one_unaligned: "(- 1 :: u32) mod PAGE_SIZE \<noteq> 0"
  by simp

lemma alloc_pages_exhausted:
  assumes "bounds_ok s" "find (\<lambda>f. \<not> frame_used s f) (frame_range s) = None"
  shows "\<exists>t. alloc_pages n q flags s = Some t \<and> ptes t = ptes s \<and> phys_page_bitmap t = phys_page_bitmap s"
  using assms
proof (induction n arbitrary: q s)
  case (Suc n)
  let ?s1 = "printk phys_oom_msg [] s"
  let ?s2 = "printk unaligned_msg [Word (- 1)] ?s1"
  have a: "alloc_phys s = Some (- 1, ?s1)"
    using Suc.prems by (simp add: alloc_phys_spec alloc_spec_def)
  have m: "mem_map v 1 (- 1) flags ?s1 = Some (NULL, ?s2)" for v
    using minus_one_unaligned by (simp only: mem_map_def if_True simp_thms)
  have same: "frame_used ?s2 = frame_used s" "frame_range ?s2 = frame_range s" "bounds_ok ?s2 = bounds_ok s"
    by (simp_all add: frame_used_def fun_eq_iff frame_range_def bounds_ok_def)
  have "\<exists>t. alloc_pages n (q + 1) flags ?s2 = Some t \<and> ptes t = ptes ?s2 \<and> phys_page_bitmap t = phys_page_bitmap ?s2"
    by (rule Suc.IH) (use Suc.prems same in simp_all)
  then show ?case using a m by simp
qed simp

lemma mem_alloc_region:
  assumes "p = unat virt div 4096" "p + unat n \<le> unat virt_end_max div 4096"
    and "tables_ok s p (p + unat n)"
  shows "mem_alloc virt virt_end_max n flags s =
    (if region_free s p (unat n) then map_option (\<lambda>t. (virt, t)) (alloc_pages (unat n) (of_nat p) flags s)
     else Some (NULL, s))"
proof -
  have b: "unat virt_end_max div 4096 < 1048576" using unat_lt_2p32 [of virt_end_max] by linarith
  have p: "virt div PAGE_SIZE = of_nat p"
    using unat_of_nat32 [of p] b assms(1,2) by (simp only: word_unat_eq_iff unat_div_distrib) simp
  have "unat (of_nat p + n :: u32) = p + unat n"
    using unat_of_nat32 [of p] b assms(2) by (subst unat_add_small) simp_all
  then have fits: "(of_nat p + n > virt_end_max div PAGE_SIZE) = False"
    using assms(2) by (simp add: word_less_nat_alt unat_div_distrib)
  have test: "is_virt_region_used (of_nat p) n s = Some (case find (page_present s) [p ..< p + unat n] of
      None \<Rightarrow> (False, of_nat p) | Some q \<Rightarrow> (True, of_nat (Suc q)))"
    using region_test [OF assms(3)] b assms(2) by simp
  show ?thesis
  proof (cases "region_free s p (unat n)")
    case True
    then have "find (page_present s) [p ..< p + unat n] = None" by (auto simp: find_None_iff region_free_def)
    then show ?thesis using True test by (simp only: mem_alloc_def Let_def p fits if_False) simp
  next
    case False
    then obtain u where "find (page_present s) [p ..< p + unat n] = Some u"
      by (cases "find (page_present s) [p ..< p + unat n]") (auto simp: find_None_iff region_free_def)
    then show ?thesis using False test by (simp only: mem_alloc_def Let_def p fits if_False) simp
  qed
qed

section \<open>An example\<close>

text \<open>
  The directory maps itself and has the table of the kernel heap; of the frames from 1 MiB to 15 MiB
  none is in use. Unused frames hold ones.
\<close>

definition paging_start :: paging where
  "paging_start = kbd.extend kbd_start
     (paging.fields (\<lambda>i. if i = 0xfffff then 0x1003 else if i = 0xfff40 then 0x2003 else 0)
       (\<lambda>_ _. 0xffffffff) (\<lambda>_. 0) PROT_PHYS_START PROT_PHYS_END)"

lemma paging_start_simps [simp]:
  "ptes paging_start = (\<lambda>i. if i = 0xfffff then 0x1003 else if i = 0xfff40 then 0x2003 else 0)"
  "frame_words paging_start = (\<lambda>_ _. 0xffffffff)" "phys_page_bitmap paging_start = (\<lambda>_. 0)"
  "lower_bound paging_start = 0x100000" "upper_bound paging_start = 0xf00000"
  by (simp_all add: paging_start_def kbd.extend_def paging.fields_def)

lemma paging_start_ok:
  "bounds_ok paging_start" "\<not> frame_used paging_start f" "frame_range paging_start = [256 ..< 3840]"
  "table_present paging_start 1023" "table_present paging_start 832"
  "\<not> table_present paging_start 831" "\<not> table_present paging_start 960"
  by (simp_all add: bounds_ok_def frame_used_def frame_range_def table_present_def)

lemma paging_start_pages: "q + n \<le> 1047552 \<Longrightarrow> region_free paging_start q n"
proof -
  assume le: "q + n \<le> 1047552"
  have "ptes paging_start (of_nat i) = 0" if "i < q + n" for i
  proof -
    have "unat (of_nat i :: u32) = i" by (rule unat_of_nat32) (use that le in simp)
    then have "of_nat i \<noteq> (0xfffff :: u32)" "of_nat i \<noteq> (0xfff40 :: u32)"
      using that le by (auto simp: word_unat_eq_iff)
    then show ?thesis by simp
  qed
  then show ?thesis by (simp add: region_free_def page_present_def)
qed

lemma paging_start_heap: "851968 \<le> q \<Longrightarrow> e \<le> 852992 \<Longrightarrow> tables_ok paging_start q e"
proof -
  assume "851968 \<le> q" "e \<le> 852992"
  then have "i div 1024 = 832" if "q \<le> i" "i < e" for i using that by linarith
  then show ?thesis using \<open>e \<le> 852992\<close> paging_start_ok(4,5) by (auto simp: tables_ok_def)
qed

lemma find_first: "a < b \<Longrightarrow> P a \<Longrightarrow> find P [a ..< b] = Some a"
  by (simp add: upt_conv_Cons)

lemma paging_start_frame:
  "phys_frame paging_start = Some (256, set_phys_used 0x100000 True paging_start)"
  "alloc_phys paging_start = Some (0x100000, set_phys_used 0x100000 True paging_start)"
proof -
  have f: "find (\<lambda>f. \<not> frame_used paging_start f) (frame_range paging_start) = Some 256"
    unfolding paging_start_ok(3) by (rule find_first) (simp_all add: paging_start_ok(2))
  then show "phys_frame paging_start = Some (256, set_phys_used 0x100000 True paging_start)"
    by (simp add: phys_frame_spec [OF paging_start_ok(1)])
  from phys_frame_alloc(1) [OF paging_start_ok(1) this]
  show "alloc_phys paging_start = Some (0x100000, set_phys_used 0x100000 True paging_start)" by simp
qed

section \<open>Properties\<close>

text \<open>
  Allocating a page frame takes the lowest frame between the bounds that is not marked as used,
  marks exactly that one and touches no page table; when there is none the result is the all-ones
  word, a message is printed and nothing else changes.
\<close>

theorem alloc_phys_lowest_free:
  assumes "bounds_ok s"
  shows "case find (\<lambda>f. \<not> frame_used s f) (frame_range s) of
      Some f \<Rightarrow> (\<exists>t. alloc_phys s = Some (of_nat (4096 * f), t) \<and> bounds_ok t \<and> ptes t = ptes s
        \<and> (\<forall>g. frame_used t g \<longleftrightarrow> g = f \<or> frame_used s g))
    | None \<Rightarrow> alloc_phys s = Some (- 1, printk phys_oom_msg [] s)"
proof (cases "find (\<lambda>f. \<not> frame_used s f) (frame_range s)")
  case None
  then show ?thesis by (simp add: alloc_phys_spec [OF assms] alloc_spec_def)
next
  case (Some f)
  then have f: "phys_frame s = Some (f, set_phys_used (of_nat (4096 * f)) True s)"
    by (simp add: phys_frame_spec [OF assms])
  note a = phys_frame_alloc(1) [OF assms f]
  then show ?thesis
    using Some frames.alloc_ok [OF assms f] frames.alloc_used [OF assms f] by simp
qed

theorem alloc_phys_lowest_free_witness:
  "\<exists>t. alloc_phys paging_start = Some (0x100000, t) \<and> frame_used t 256"
proof -
  have "find (\<lambda>f. \<not> frame_used paging_start f) (frame_range paging_start) = Some 256"
    unfolding paging_start_ok(3) by (rule find_first) (simp_all add: paging_start_ok(2))
  then show ?thesis using alloc_phys_lowest_free [OF paging_start_ok(1)] by auto
qed



lemma mem_set_used_spec:
  assumes "unat phys + unat min_size < 18446744073709551616"
  shows "\<exists>bm. mem_set_used phys min_size s = Some (s\<lparr>phys_page_bitmap := bm\<rparr>)
    \<and> (\<forall>f. frame_used (s\<lparr>phys_page_bitmap := bm\<rparr>) f \<longleftrightarrow> frame_used s f
        \<or> unat phys < 4294967296 \<and> (f = unat phys div 4096
            \<or> unat phys div 4096 \<le> f \<and> 4096 * f < min (unat phys + unat min_size) 4294967295))"
proof (cases "phys > 0xffffffff")
  case True
  then have "\<not> unat phys < 4294967296" by (simp add: word_less_nat_alt)
  with True show ?thesis by (intro exI [of _ "phys_page_bitmap s"]) (simp add: mem_set_used_def)
next
  case False
  then have p: "unat phys < 4294967296" by (simp add: word_less_nat_alt)
  let ?k = "unat phys div 4096"
  let ?lim = "if phys + min_size > 0xffffffff then 0xffffffff else phys + min_size"
  have sum: "unat (phys + min_size) = unat phys + unat min_size"
    using assms by (simp add: unat_word_ariths)
  have lim: "unat ?lim = min (unat phys + unat min_size) 4294967295"
    using sum by (simp add: word_less_nat_alt min_def)
  have page: "(ucast (phys AND NOT 4095) :: u32) = of_nat (4096 * ?k)"
  proof -
    have "unat (phys AND NOT 4095) = 4096 * ?k" by (rule page_down) simp
    then show ?thesis by (simp only: word_unat_eq_iff unat_ucast unat_of_nat)
  qed
  have k: "?k < 1048576" using p by linarith
  have "\<exists>bm. mem_set_used_loop (of_nat (4096 * ?k)) ?lim s = Some (s\<lparr>phys_page_bitmap := bm\<rparr>)
    \<and> (\<forall>f. frame_used (s\<lparr>phys_page_bitmap := bm\<rparr>) f \<longleftrightarrow> frame_used s f
        \<or> f = ?k \<or> ?k \<le> f \<and> 4096 * f < unat ?lim)"
    by (rule mem_set_used_loop_spec) (use lim k in simp_all)
  then show ?thesis using False p by (simp only: mem_set_used_def Let_def page lim if_False) simp
qed

text \<open>
  Marking a region of the 64-bit memory map always returns and marks exactly the frames that the
  region touches below 4 GiB: the frame of its first byte and every later frame that starts before
  its end; a region that starts above is ignored.
\<close>

theorem mem_set_used_marks:
  assumes "unat phys + unat min_size < 18446744073709551616"
  shows "\<exists>bm. mem_set_used phys min_size s = Some (s\<lparr>phys_page_bitmap := bm\<rparr>)
    \<and> (\<forall>f. frame_used (s\<lparr>phys_page_bitmap := bm\<rparr>) f \<longleftrightarrow> frame_used s f
        \<or> unat phys < 4294967296 \<and> (f = unat phys div 4096
            \<or> unat phys div 4096 \<le> f \<and> 4096 * f < min (unat phys + unat min_size) 4294967295))"
  by (rule mem_set_used_spec [OF assms])

theorem mem_set_used_marks_witness:
  "\<exists>bm. mem_set_used 0x100800 0x1000 paging_start = Some (paging_start\<lparr>phys_page_bitmap := bm\<rparr>)
    \<and> frame_used (paging_start\<lparr>phys_page_bitmap := bm\<rparr>) 257
    \<and> \<not> frame_used (paging_start\<lparr>phys_page_bitmap := bm\<rparr>) 258"
  using mem_set_used_marks [of "0x100800" "0x1000" paging_start] paging_start_ok(2) by auto

lemma mem_init_regions_spec:
  "\<exists>bm. mem_init_regions lower upper s
      = Some (s\<lparr>phys_page_bitmap := bm, upper_bound := 0x100000 + upper, lower_bound := 0\<rparr>)
    \<and> (\<forall>f. frame_used (s\<lparr>phys_page_bitmap := bm\<rparr>) f \<longleftrightarrow> frame_used s f \<or> unat lower div 4096 \<le> f \<and> f < 256)"
proof -
  have down: "unat (lower AND NOT 4095) = 4096 * (unat lower div 4096)" by (rule page_down) simp
  then have al: "unat (lower AND NOT 4095) mod 4096 = 0" by simp
  obtain bm where bm: "mark_pages 0 (lower AND NOT 4095) 0x100000 s = Some (s\<lparr>phys_page_bitmap := bm\<rparr>)"
    "\<And>f. frame_used (s\<lparr>phys_page_bitmap := bm\<rparr>) f \<longleftrightarrow> frame_used s f
      \<or> (\<exists>i. unat (lower AND NOT 4095) + 4096 * i < unat (0x100000 :: u32)
          \<and> f = unat ((lower AND NOT 4095) - 0 + of_nat (4096 * i)) div 4096)"
    using mark_pages_spec [of "0x100000" 0 "lower AND NOT 4095" s] by (auto simp del: diff_0_right)
  have iv0: "(\<exists>i. unat (lower AND NOT 4095) + 4096 * i < unat (0x100000 :: u32)
          \<and> f = unat ((lower AND NOT 4095) - 0 + of_nat (4096 * i)) div 4096)
      \<longleftrightarrow> unat lower div 4096 \<le> f \<and> f < 256" for f
    using aligned_interval [of "lower AND NOT 4095" 0 "0x100000" f, OF al] unfolding down by simp
  show ?thesis using bm(2) unfolding iv0
    by (intro exI [of _ bm]) (simp only: mem_init_regions_def bm(1) option.case simp_thms)
qed

text \<open>
  Marking the kernel image always returns and marks exactly the frames of its pages, at their
  physical addresses; marking the gap between lower and upper memory marks exactly the frames from
  the end of lower memory up to 1 MiB and sets the bounds of the allocator.
\<close>

theorem mem_init_marks:
  assumes "unat off mod 4096 = 0" "unat off \<le> unat kstart" "unat kend \<le> 0xfffff000"
  shows "(\<exists>bm. mem_init kstart kend off s = Some (s\<lparr>phys_page_bitmap := bm\<rparr>)
      \<and> (\<forall>f. frame_used (s\<lparr>phys_page_bitmap := bm\<rparr>) f \<longleftrightarrow> frame_used s f
          \<or> 4096 * (unat kstart div 4096) \<le> 4096 * f + unat off \<and> 4096 * f + unat off < unat kend))
    \<and> (\<exists>t. mem_init_regions lower upper s = Some t \<and> lower_bound t = 0 \<and> upper_bound t = 0x100000 + upper
      \<and> (\<forall>f. frame_used t f \<longleftrightarrow> frame_used s f \<or> unat lower div 4096 \<le> f \<and> f < 256))"
proof
  have down: "unat (x AND NOT 4095) = 4096 * (unat x div 4096)" for x :: u32
    by (rule page_down) simp
  have al: "unat (x AND NOT 4095) mod 4096 = 0" for x :: u32 unfolding down by simp
  have "unat off \<le> unat (kstart AND NOT 4095)"
  proof -
    obtain b where b: "unat off = 4096 * b" using assms(1) by (meson dvdE mod_0_imp_dvd)
    with assms(2) have "b \<le> unat kstart div 4096" by simp
    then show ?thesis unfolding down b by simp
  qed
  note iv = aligned_interval [OF al assms(1) this assms(3)]
  show "\<exists>bm. mem_init kstart kend off s = Some (s\<lparr>phys_page_bitmap := bm\<rparr>)
      \<and> (\<forall>f. frame_used (s\<lparr>phys_page_bitmap := bm\<rparr>) f \<longleftrightarrow> frame_used s f
          \<or> 4096 * (unat kstart div 4096) \<le> 4096 * f + unat off \<and> 4096 * f + unat off < unat kend)"
    using mark_pages_spec [OF assms(3), of off "kstart AND NOT 4095" s]
    by (simp only: mem_init_def iv) (simp only: down)
  from mem_init_regions_spec [of lower upper s] obtain bm where
    bm: "mem_init_regions lower upper s = Some (s\<lparr>phys_page_bitmap := bm, upper_bound := 0x100000 + upper, lower_bound := 0\<rparr>)"
    "\<forall>f. frame_used (s\<lparr>phys_page_bitmap := bm\<rparr>) f \<longleftrightarrow> frame_used s f \<or> unat lower div 4096 \<le> f \<and> f < 256" by blast
  show "\<exists>t. mem_init_regions lower upper s = Some t \<and> lower_bound t = 0 \<and> upper_bound t = 0x100000 + upper
      \<and> (\<forall>f. frame_used t f \<longleftrightarrow> frame_used s f \<or> unat lower div 4096 \<le> f \<and> f < 256)"
    using bm by (auto simp: frame_used_def)
qed

theorem mem_init_marks_witness:
  "\<exists>bm. mem_init 0xc0100000 0xc0102345 0xc0000000 paging_start = Some (paging_start\<lparr>phys_page_bitmap := bm\<rparr>)
    \<and> frame_used (paging_start\<lparr>phys_page_bitmap := bm\<rparr>) 258
    \<and> \<not> frame_used (paging_start\<lparr>phys_page_bitmap := bm\<rparr>) 259"
  using mem_init_marks [of "0xc0000000" "0xc0100000" "0xc0102345" paging_start 0 0, THEN conjunct1]
    paging_start_ok(2)
  by auto



lemma mem_map_table_first:
  assumes "phys mod PAGE_SIZE = 0" "q < 1047552" "q mod 1024 = 0" "bounds_ok s"
    and "table_present s 1023" "\<not> table_present s (q div 1024)" "alloc_phys s = Some (frame, s1)"
  shows "mem_map (of_nat (4096 * q)) 1 phys flags s = Some (of_nat (4096 * q), s1\<lparr>ptes := (\<lambda>j.
      if unat j = q then phys OR flags
      else if unat j div 1024 = q div 1024 then 0
      else if unat j = 1047552 + q div 1024 then frame OR PAGE_DIRECTORY_FLAGS
      else ptes s j)\<rparr>)"
proof -
  let ?t = "q div 1024"
  have q: "q < 1048576" "q + 1024 \<le> 1047552" and qt: "q = 1024 * ?t" using assms(2,3) by (auto simp: mod_eq_0_iff_dvd)
  note tabs = alloc_phys_tables [OF assms(4,7)]
  have same: "table_present s1 i = table_present s i" for i by (simp add: table_present_def tabs)
  have et: "ensure_table (of_nat q) s = zero_entries 1024 (of_nat q) (new_table ?t frame s1)"
    by (rule ensure_table_absent) (use assms tabs in simp_all)
  have in_t: "i div 1024 = ?t" if "q \<le> i" "i < q + 1024" for i using that qt by linarith
  have np: "table_present (new_table ?t frame s1) 1023" "table_present (new_table ?t frame s1) ?t"
    using q(2) assms(5) by (simp_all add: new_table_present same)
  have "table_present (new_table ?t frame s1) (i div 1024)" if "q \<le> i" "i < q + 1024" for i
    unfolding in_t [OF that] by (rule np(2))
  then have "tables_ok (new_table ?t frame s1) q (q + 1024)"
    using np(1) q(2) unfolding tables_ok_def by (intro conjI allI impI) simp_all
  then have z: "zero_entries 1024 (of_nat q) (new_table ?t frame s1)
      = Some (set_entries q 1024 (\<lambda>_. 0) (new_table ?t frame s1))"
    by (rule zero_entries_spec) (rule q(2))
  have w: "write_entry (of_nat q) v (set_entries q 1024 (\<lambda>_. 0) (new_table ?t frame s1))
      = Some (set_entries q 1 (\<lambda>_. v) (set_entries q 1024 (\<lambda>_. 0) (new_table ?t frame s1)))" for v
    by (rule write_entry_page) (use assms(2) q(2) np in simp_all)
  have mp: "map_pages 1 (of_nat q) phys flags s
      = Some (set_entries q 1 (\<lambda>_. phys OR flags) (set_entries q 1024 (\<lambda>_. 0) (new_table ?t frame s1)))"
    by (simp add: et z w)
  have inside: "q \<le> x \<and> x < q + 1024 \<longleftrightarrow> x div 1024 = ?t" for x using qt by linarith
  have "(\<lambda>j. if q \<le> unat j \<and> unat j < q + 1 then phys OR flags
        else if q \<le> unat j \<and> unat j < q + 1024 then 0
        else if unat j = 1047552 + ?t then frame OR 7
        else if unat j div 1024 = ?t then frame_words s1 (frame AND NOT 4095) (j mod 1024) else ptes s1 j)
      = (\<lambda>j. if unat j = q then phys OR flags else if unat j div 1024 = ?t then 0
        else if unat j = 1047552 + ?t then frame OR 7 else ptes s j)"
  proof
    fix j :: u32
    have "unat j = q \<longleftrightarrow> q \<le> unat j \<and> unat j < q + 1" by auto
    then show "(if q \<le> unat j \<and> unat j < q + 1 then phys OR flags
        else if q \<le> unat j \<and> unat j < q + 1024 then 0
        else if unat j = 1047552 + ?t then frame OR 7
        else if unat j div 1024 = ?t then frame_words s1 (frame AND NOT 4095) (j mod 1024) else ptes s1 j)
      = (if unat j = q then phys OR flags else if unat j div 1024 = ?t then 0
        else if unat j = 1047552 + ?t then frame OR 7 else ptes s j)"
      using inside [of "unat j"] tabs(1) by (simp only: split: if_split) blast
  qed
  then have "set_entries q 1 (\<lambda>_. phys OR flags) (set_entries q 1024 (\<lambda>_. 0) (new_table ?t frame s1))
      = s1\<lparr>ptes := (\<lambda>j. if unat j = q then phys OR flags else if unat j div 1024 = ?t then 0
        else if unat j = 1047552 + ?t then frame OR 7 else ptes s j)\<rparr>"
    by (simp add: set_entries_def new_table_def cong: if_cong)
  moreover have "find_region (of_nat q) (of_nat 1) s = Some (Some (of_nat q))"
    by (rule find_region_absent) (use q assms in simp_all)
  moreover have "of_nat q * PAGE_SIZE = (of_nat (4096 * q) :: u32)" by simp
  ultimately show ?thesis
    using assms(1) mp page_of_address [OF q(1)]
    by (simp only: mem_map_def option.case option.map) simp
qed

text \<open>
  Mapping one page that is the first of a missing page table: a free frame becomes the table,
  all 1024 entries of it are cleared, the page is mapped, and no other entry changes.
\<close>

theorem mem_map_new_table:
  assumes "phys mod PAGE_SIZE = 0" "q < 1047552" "q mod 1024 = 0" "bounds_ok s"
    and "table_present s 1023" "\<not> table_present s (q div 1024)" "alloc_phys s = Some (frame, s1)"
  shows "mem_map (of_nat (4096 * q)) 1 phys flags s = Some (of_nat (4096 * q), s1\<lparr>ptes := (\<lambda>j.
      if unat j = q then phys OR flags
      else if unat j div 1024 = q div 1024 then 0
      else if unat j = 1047552 + q div 1024 then frame OR PAGE_DIRECTORY_FLAGS
      else ptes s j)\<rparr>)"
  by (rule mem_map_table_first [OF assms])

theorem mem_map_new_table_witness:
  "\<exists>t. mem_map 0xf0000000 1 0xb8000 3 paging_start = Some (0xf0000000, t)
    \<and> ptes t 0xf0000 = 0xb8003 \<and> ptes t 0xf0001 = 0 \<and> ptes t 0xfffc0 = 0x100007"
  using mem_map_new_table [of "0xb8000" 983040 paging_start "0x100000" _ 3,
      OF _ _ _ paging_start_ok(1,4) _ paging_start_frame(2)] paging_start_ok(7)
  by simp

text \<open>
  When the page is not the first of its missing table, clearing starts at the page's entry and
  is a whole table long, so with \<open>m\<close> the page's place in its table it spills into the first \<open>m\<close>
  entries of the next table: pages mapped there lose their mapping, while the first \<open>m\<close> entries of
  the new table keep what the frame held. When the next table is missing too the kernel faults.
\<close>

theorem new_table_clears_next:
  assumes "q + 1024 \<le> 1047552" "q mod 1024 = m" "0 < m" "bounds_ok s"
    and "table_present s 1023" "\<not> table_present s (q div 1024)" "alloc_phys s = Some (frame, s1)"
  shows "if table_present s (q div 1024 + 1)
    then (\<exists>t. ensure_table (of_nat q) s = Some t
      \<and> (\<forall>i < m. ptes t (of_nat (1024 * (q div 1024 + 1) + i)) = 0)
      \<and> (\<forall>i < m. ptes t (of_nat (1024 * (q div 1024) + i)) = frame_words s (frame AND NOT 4095) (of_nat i)))
    else ensure_table (of_nat q) s = None"
proof -
  let ?t = "q div 1024"
  let ?n = "new_table ?t frame s1"
  have q: "q < 1048576" "q = 1024 * ?t + m" "m < 1024" using assms(1,2) by auto
  note tabs = alloc_phys_tables [OF assms(4,7)]
  have same: "table_present s1 i = table_present s i" for i by (simp add: table_present_def tabs)
  have et: "ensure_table (of_nat q) s = zero_entries 1024 (of_nat q) ?n"
    by (rule ensure_table_absent) (use assms tabs in simp_all)
  have t: "?t + 1 < 1023" using assms(1,3) q(2) by linarith
  then have np: "table_present ?n 1023" "table_present ?n ?t" "table_present ?n (?t + 1) = table_present s (?t + 1)"
    using assms(5) by (simp_all add: new_table_present same)
  show ?thesis
  proof (cases "table_present s (?t + 1)")
    case True
    have two: "i div 1024 = ?t \<or> i div 1024 = ?t + 1" if "q \<le> i" "i < q + 1024" for i
      using that q by linarith
    have "table_present ?n (i div 1024)" if "q \<le> i" "i < q + 1024" for i
      using two [OF that] np(2,3) True by metis
    then have "tables_ok ?n q (q + 1024)"
      using np(1) assms(1) unfolding tables_ok_def by (intro conjI allI impI) simp_all
    from zero_entries_spec [OF this] have z: "ensure_table (of_nat q) s = Some (set_entries q 1024 (\<lambda>_. 0) ?n)"
      unfolding et using assms(1) by blast
    have hi: "ptes (set_entries q 1024 (\<lambda>_. 0) ?n) (of_nat (1024 * (?t + 1) + i)) = 0" if "i < m" for i
    proof -
      have "1024 * (?t + 1) \<le> 1024 * 1023" using t by (intro mult_le_mono2) simp
      then have "1024 * (?t + 1) + i < 4294967296" using that q(3) by simp
      then have "unat (of_nat (1024 * (?t + 1) + i) :: u32) = 1024 * (?t + 1) + i" by (rule unat_of_nat32)
      then show ?thesis using that q by (simp only: set_entries_def) simp
    qed
    have lo: "ptes (set_entries q 1024 (\<lambda>_. 0) ?n) (of_nat (1024 * ?t + i))
        = frame_words s (frame AND NOT 4095) (of_nat i)" if "i < m" for i
    proof -
      define x where "x = (of_nat (1024 * ?t + i) :: u32)"
      have u: "unat x = 1024 * ?t + i" "unat (of_nat i :: u32) = i"
        unfolding x_def using that q by (intro unat_of_nat32; linarith)+
      have "unat (x mod 1024) = i" using that q by (simp only: unat_mod_distrib u) simp
      then have md: "x mod 1024 = of_nat i" using u by (simp only: word_unat_eq_iff)
      have cd: "unat x div 1024 = ?t" "\<not> q \<le> unat x" "unat x \<noteq> 1047552 + ?t"
        unfolding u(1) using that q t by linarith+
      show ?thesis
        unfolding x_def [symmetric] by (simp add: set_entries_def new_table_def md cd tabs)
    qed
    show ?thesis using True z hi lo by auto
  next
    case False
    have split: "1024 = (1024 - m) + Suc (m - 1)" using q(3) assms(3) by simp
    have "tables_ok ?n q (q + (1024 - m))"
    proof -
      have "i div 1024 = ?t" if "q \<le> i" "i < q + (1024 - m)" for i using that q by linarith
      then have "table_present ?n (i div 1024)" if "q \<le> i" "i < q + (1024 - m)" for i
        using that np(2) by metis
      then show ?thesis
        using np(1) assms(1) unfolding tables_ok_def by (intro conjI allI impI) simp_all
    qed
    then have z1: "zero_entries (1024 - m) (of_nat q) ?n = Some (set_entries q (1024 - m) (\<lambda>_. 0) ?n)"
      by (rule zero_entries_spec) (use assms(1) in simp)
    have idx: "of_nat q + of_nat (1024 - m) = (of_nat (1024 * (?t + 1)) :: u32)"
    proof -
      have "m + (1024 - m) = 1024" using q(3) by simp
      then have "(1024 * ?t + m) + (1024 - m) = 1024 * (?t + 1)" by simp
      then have "q + (1024 - m) = 1024 * (?t + 1)" unfolding q(2) [symmetric] .
      then show ?thesis by (metis of_nat_add)
    qed
    have "\<not> table_present (set_entries q (1024 - m) (\<lambda>_. 0) ?n) (1024 * (?t + 1) div 1024)"
      using np(3) False t assms(1) q(3) by simp
    moreover have "1024 * (?t + 1) < 1048576" using t by simp
    ultimately have z2: "zero_entries (Suc (m - 1)) (of_nat (1024 * (?t + 1))) (set_entries q (1024 - m) (\<lambda>_. 0) ?n) = None"
      by (intro zero_entries_fault)
    have "zero_entries 1024 (of_nat q) ?n = None"
      by (subst split) (simp only: zero_entries_add z1 idx z2 Option.bind.bind_lunit)
    then show ?thesis using False et by simp
  qed
qed

theorem new_table_clears_next_witness:
  "\<exists>t. ensure_table 0xcffff paging_start = Some t \<and> ptes t 0xd0000 = 0 \<and> ptes t 0xcfc00 = 0xffffffff"
proof -
  have "if table_present paging_start (851967 div 1024 + 1)
    then (\<exists>t. ensure_table (of_nat 851967) paging_start = Some t
      \<and> (\<forall>i < 1023. ptes t (of_nat (1024 * (851967 div 1024 + 1) + i)) = 0)
      \<and> (\<forall>i < 1023. ptes t (of_nat (1024 * (851967 div 1024) + i)) = frame_words paging_start (0x100000 AND NOT 4095) (of_nat i)))
    else ensure_table (of_nat 851967) paging_start = None"
    by (rule new_table_clears_next [OF _ _ _ paging_start_ok(1,4) _ paging_start_frame(2)])
       (simp_all add: paging_start_ok)
  then obtain t where t: "ensure_table 0xcffff paging_start = Some t"
    "\<forall>i < 1023. ptes t (of_nat (851968 + i)) = 0" "\<forall>i < 1023. ptes t (of_nat (850944 + i)) = 0xffffffff"
    using paging_start_ok(5) by auto
  then show ?thesis using t(2) [rule_format, of 0] t(3) [rule_format, of 0] by simp
qed

text \<open>
  A missing table ends the search for used pages: a region that starts in one counts as free
  although pages of a later, present table that belong to it are mapped, because the skip sets bits
  of a byte address in a page number and so leaves the region.
\<close>

theorem missing_table_hides_used_pages:
  assumes "q < 1048576" "q + unat n \<le> 1048576" "table_present s 1023" "\<not> table_present s (q div 1024)"
    and "q \<le> i" "i < q + unat n" "table_present s (i div 1024)" "page_present s i"
  shows "is_virt_region_used (of_nat q) n s = Some (False, of_nat q) \<and> \<not> region_free s q (unat n)"
proof -
  have "is_virt_region_used (of_nat q) (of_nat (unat n)) s = Some (False, of_nat q)"
    by (rule region_test_absent) (use assms in simp_all)
  moreover have "\<not> region_free s q (unat n)" using assms(5,6,8) by (auto simp: region_free_def)
  ultimately show ?thesis by simp
qed

theorem missing_table_hides_used_pages_witness:
  "\<not> region_free (set_entries 851968 1 (\<lambda>_. 3) paging_start) 851967 2
    \<and> is_virt_region_used 0xcffff 2 (set_entries 851968 1 (\<lambda>_. 3) paging_start) = Some (False, 0xcffff)"
proof -
  let ?s = "set_entries 851968 1 (\<lambda>_. 3) paging_start"
  have "page_present ?s 851968" by (simp add: page_present_def set_entries_def)
  then show ?thesis
    using missing_table_hides_used_pages [of 851967 2 ?s 851968] paging_start_ok(4-6) by simp
qed



text \<open>
  The result of the frame allocator is not checked: with all frames in use \<open>mem_alloc\<close> prints
  messages but still returns the address asked for, with none of its pages mapped.
\<close>

theorem mem_alloc_out_of_frames:
  assumes "bounds_ok s" "find (\<lambda>f. \<not> frame_used s f) (frame_range s) = None"
    and "p = unat virt div 4096" "p + unat n \<le> unat virt_end_max div 4096"
    and "tables_ok s p (p + unat n)" "region_free s p (unat n)"
  shows "\<exists>t. mem_alloc virt virt_end_max n flags s = Some (virt, t) \<and> ptes t = ptes s
    \<and> region_free t p (unat n)"
proof -
  obtain t where t: "alloc_pages (unat n) (of_nat p) flags s = Some t" "ptes t = ptes s"
    using alloc_pages_exhausted [OF assms(1,2)] by blast
  then have "region_free t p (unat n)" using assms(6) by (simp add: region_free_def page_present_def)
  then show ?thesis using t assms(6) by (simp add: mem_alloc_region [OF assms(3,4,5)])
qed

theorem mem_alloc_out_of_frames_witness:
  "\<exists>t. mem_alloc 0xd0000000 0xefffffff 1 3 (paging_start\<lparr>phys_page_bitmap := \<lambda>_. 0xff\<rparr>) = Some (0xd0000000, t)
    \<and> region_free t 851968 1"
proof -
  let ?s = "paging_start\<lparr>phys_page_bitmap := \<lambda>_. 0xff\<rparr>"
  have ff: "(0xff :: u8) = mask 8" by (simp add: mask_eq_exp_minus_1)
  have "frame_used ?s f" for f by (simp add: frame_used_def ff bit_mask_iff)
  then have all: "find (\<lambda>f. \<not> frame_used ?s f) (frame_range ?s) = None" by (simp add: find_None_iff)
  have fr: "region_free ?s 851968 1"
    using paging_start_pages [of 851968 1] by (simp add: region_free_def page_present_def)
  have tb: "tables_ok ?s 851968 851969"
    using paging_start_heap [of 851968 851969] by (simp add: tables_ok_def table_present_def)
  have "unat (0xd0000000 :: u32) div 4096 = 851968" "unat (0xefffffff :: u32) div 4096 = 983039" by simp_all
  then show ?thesis
    using mem_alloc_out_of_frames [OF _ all, of 851968 "0xd0000000" 1 "0xefffffff" 3] tb fr
    by (auto simp: bounds_ok_def)
qed

text \<open>
  \<open>mem_map_range\<close> counts pages from the length only: a range of at most a page that crosses a
  page boundary gets a single page, so its last byte lies in the page after the mapping.
\<close>

theorem mem_map_range_short:
  assumes "unat start mod 4096 = off" "unat stop = unat start + len" "0 < len" "len \<le> 4096" "4096 < off + len"
    and "unat virt_min div 4096 \<le> q" "q + 1 \<le> 1047552" "tables_ok s (unat virt_min div 4096) (q + 1)"
    and "region_free s q 1" "\<And>k. unat virt_min div 4096 \<le> k \<Longrightarrow> k < q \<Longrightarrow> \<not> region_free s k 1"
  shows "(case mem_map_range virt_min start stop flags s of None \<Rightarrow> False
      | Some (a, t) \<Rightarrow> unat a = 4096 * q + off \<and> (unat a + len - 1) div 4096 = q + 1
          \<and> t = s\<lparr>ptes := (ptes s)(of_nat q := (start AND NOT 4095) OR flags)\<rparr>)"
proof -
  have lt: "(stop < start) = False" using assms(2) by (simp add: word_less_nat_alt)
  have "unat (stop - start) = len" using assms(2) by (simp add: unat_sub_if')
  then have "unat (stop - start + 4095) = len + 4095" using assms(4) by (subst unat_add_small) simp_all
  then have "unat ((stop - start + 4095) div PAGE_SIZE) = 1"
    using assms(3,4) by (simp add: unat_div_distrib)
  then have n: "(stop - start + 4095) div PAGE_SIZE = 1" by (simp add: word_unat_eq_iff)
  have so: "unat (start AND 4095) = off"
  proof -
    have "start AND 4095 = take_bit 12 start" by (simp only: take_bit_eq_mask) (simp add: mask_eq_exp_minus_1)
    moreover have "unat (take_bit 12 start) = unat start mod 4096"
      unfolding unsigned_take_bit_eq by (simp add: take_bit_eq_mod)
    ultimately show ?thesis using assms(1) by simp
  qed
  have aq: "unat (of_nat (4096 * q) :: u32) = 4096 * q" by (rule unat_of_nat32) (use assms(7) in simp)
  have off: "off < 4096" using assms(1) by auto
  have "unat (of_nat (4096 * q) :: u32) + unat (start AND 4095) < 4294967296"
    unfolding aq so using assms(7) off by linarith
  from unat_add_small [OF this] have ret: "unat (of_nat (4096 * q) + (start AND 4095)) = 4096 * q + off"
    by (simp only: aq so)
  have al: "(start AND NOT 4095) mod PAGE_SIZE = 0"
  proof -
    have "unat (start AND NOT 4095) = 4096 * (unat start div 4096)" by (rule page_down) simp
    then have "unat ((start AND NOT 4095) mod PAGE_SIZE) = 0" by (simp only: unat_mod_distrib) simp
    then show ?thesis by (simp only: unat_eq_zero)
  qed
  have one: "unat (1 :: u32) = 1" by simp
  have "mem_map virt_min 1 (start AND NOT 4095) flags s = Some (of_nat (4096 * q), s\<lparr>ptes := (\<lambda>j.
      if q \<le> unat j \<and> unat j < q + unat (1 :: u32) then ((start AND NOT 4095) + of_nat (4096 * (unat j - q))) OR flags
      else ptes s j)\<rparr>)"
    by (rule mem_map_first) (use al assms(6-10) in \<open>simp_all only: one simp_thms\<close>)
  moreover have "(\<lambda>j. if q \<le> unat j \<and> unat j < q + unat (1 :: u32)
        then ((start AND NOT 4095) + of_nat (4096 * (unat j - q))) OR flags else ptes s j)
      = (ptes s)(of_nat q := (start AND NOT 4095) OR flags)"
    using unat_eq_of_nat [of q] assms(7) by (auto simp: fun_eq_iff)
  moreover have "(4096 * q + off + len - 1) div 4096 = q + 1" using assms(3-5) off by linarith
  ultimately show ?thesis
    using ret by (simp only: mem_map_range_def lt if_False Let_def n option.map option.case prod.case simp_thms)
qed

theorem mem_map_range_short_witness:
  "(case mem_map_range 0xd0000000 0x200fff 0x201001 3 paging_start of None \<Rightarrow> False
    | Some (a, t) \<Rightarrow> unat a = 0xd0000fff \<and> (unat a + 1) div 4096 = 0xd0001)"
proof -
  have "unat (0xd0000000 :: u32) div 4096 = 851968" by simp
  then show ?thesis
    using mem_map_range_short [of "0x200fff" 4095 "0x201001" 2 "0xd0000000" 851968 paging_start 3]
      paging_start_heap [of 851968 851969] paging_start_pages [of 851968 1]
    by (auto split: option.splits)
qed

end
