(* ===== verification/Interrupts.thy ===== *)
theory Interrupts
  imports Paging
begin

text \<open>
  kernel/arch/i686/interrupts.c with x86/interrupts.h, the two routines of interrupts.s it uses, and
  kernel/panic.c: the interrupt descriptor table, the two interrupt controllers, the exception
  handlers. The table of exception stubs and where the linker puts \<open>IDT\<close> are parameters. What the
  controllers make of the bytes written to them is the documented behaviour of the 8259 chip, a
  state machine over the trace of port accesses.
\<close>

section \<open>State\<close>

datatype isr_type = INTERRUPT | TRAP

fun isr_type_code :: "isr_type \<Rightarrow> nat" where
  "isr_type_code INTERRUPT = 0xe"
| "isr_type_code TRAP = 0xf"

record idt_entry =
  offset_low :: u16
  segment :: u16
  gate_type :: isr_type
  ring :: nat
  present :: bool
  offset_high :: u16

record interrupts = paging +
  IDT :: "u8 \<Rightarrow> idt_entry"
  IDT_addr :: addr
  IDTR :: "u16 \<times> addr"
  loaded_idt :: "u16 \<times> addr"
  interrupts_on :: bool
  halted :: bool

abbreviation (input) MS_CMD :: u16 where "MS_CMD \<equiv> 0x20"
abbreviation (input) MS_DATA :: u16 where "MS_DATA \<equiv> 0x21"
abbreviation (input) SL_CMD :: u16 where "SL_CMD \<equiv> 0xa0"
abbreviation (input) SL_DATA :: u16 where "SL_DATA \<equiv> 0xa1"
abbreviation (input) PIC_INIT :: u8 where "PIC_INIT \<equiv> 0x10"
abbreviation (input) PIC_CASC :: u8 where "PIC_CASC \<equiv> 0x01"
abbreviation (input) PIC_8086 :: u8 where "PIC_8086 \<equiv> 0x01"
abbreviation (input) PIC_EOI :: u8 where "PIC_EOI \<equiv> 0x20"
abbreviation (input) IRQ_OFFSET :: u8 where "IRQ_OFFSET \<equiv> 0x20"

section \<open>The interrupt controllers\<close>

definition init_pic :: "'a machine_scheme \<Rightarrow> 'a machine_scheme" where
  "init_pic s =
     (let s = outb MS_CMD (PIC_INIT OR PIC_CASC) s;
          s = outb SL_CMD (PIC_INIT OR PIC_CASC) s;
          s = io_wait s;
          s = outb MS_DATA IRQ_OFFSET s;
          s = outb SL_DATA (IRQ_OFFSET + 8) s;
          s = io_wait s;
          s = outb MS_DATA 4 s;
          s = outb SL_DATA 2 s;
          s = io_wait s;
          s = outb MS_DATA PIC_8086 s;
          s = outb SL_DATA PIC_8086 s;
          s = io_wait s;
          s = outb MS_DATA 0xfb s;
          s = outb SL_DATA 0xff s
      in io_wait s)"

text \<open>
  The data port and the bit for an interrupt request line. The shift is done on a 32-bit \<open>int\<close>; it
  is defined for lines below 40, and the byte keeps its low 8 bits.
\<close>

definition mask_port :: "u8 \<Rightarrow> u16 \<times> u8" where
  "mask_port irq = (if irq > 8 then (SL_DATA, irq - 8) else (MS_DATA, irq))"

definition pic_set_mask :: "u8 \<Rightarrow> 'a machine_scheme \<Rightarrow> 'a machine_scheme" where
  "pic_set_mask irq s =
     (let (port, irq) = mask_port irq;
          (v, s) = inb port s;
          v = ucast (ucast v OR push_bit (unat irq) (1 :: u32))
      in io_wait (outb port v s))"

definition pic_clear_mask :: "u8 \<Rightarrow> 'a machine_scheme \<Rightarrow> 'a machine_scheme" where
  "pic_clear_mask irq s =
     (let (port, irq) = mask_port irq;
          (v, s) = inb port s;
          v = ucast (ucast v AND NOT (push_bit (unat irq) (1 :: u32)))
      in io_wait (outb port v s))"

definition pic_eoi :: "u8 \<Rightarrow> 'a machine_scheme \<Rightarrow> 'a machine_scheme" where
  "pic_eoi irq s = outb MS_CMD PIC_EOI (if irq \<ge> 8 then outb SL_CMD PIC_EOI s else s)"

section \<open>The descriptor table\<close>

definition init_table :: "'a interrupts_scheme \<Rightarrow> 'a interrupts_scheme" where
  "init_table s =
     (let base_entry = \<lparr>offset_low = 0, segment = 0x08, gate_type = INTERRUPT, ring = 0,
                        present = False, offset_high = 0\<rparr>
      in s\<lparr>IDT := (\<lambda>_. base_entry), IDTR := (256 * 8 - 1, IDT_addr s)\<rparr>)"

definition set_isr :: "u8 \<Rightarrow> addr \<Rightarrow> 'a interrupts_scheme \<Rightarrow> 'a interrupts_scheme" where
  "set_isr int_no stub s =
     s\<lparr>IDT := (IDT s)(int_no := (IDT s int_no)
         \<lparr>offset_low := ucast stub, offset_high := ucast (drop_bit 16 stub), present := stub \<noteq> 0\<rparr>)\<rparr>"

definition set_isr_type :: "u8 \<Rightarrow> addr \<Rightarrow> isr_type \<Rightarrow> 'a interrupts_scheme \<Rightarrow> 'a interrupts_scheme" where
  "set_isr_type int_no stub ty s =
     set_isr int_no stub (s\<lparr>IDT := (IDT s)(int_no := (IDT s int_no)\<lparr>gate_type := ty\<rparr>)\<rparr>)"

text \<open>interrupts.s: \<open>lidt IDTR; sti\<close>.\<close>

definition load_enable_interrupts :: "'a interrupts_scheme \<Rightarrow> 'a interrupts_scheme" where
  "load_enable_interrupts s = s\<lparr>loaded_idt := IDTR s, interrupts_on := True\<rparr>"

definition setup_interrupts :: "(nat \<Rightarrow> addr) \<Rightarrow> 'a interrupts_scheme \<Rightarrow> 'a interrupts_scheme" where
  "setup_interrupts exc_isrs s =
     (let s = init_pic s;
          s = init_table s;
          s = fold (\<lambda>i. set_isr_type (of_nat i) (exc_isrs i) TRAP) [0 ..< 32] s
      in load_enable_interrupts s)"

section \<open>Panics and exceptions\<close>

text \<open>\<open>panic_unwind\<close> is not implemented: it returns 0 and stores nothing.\<close>

definition panic_unwind :: "addr \<Rightarrow> 'a machine_scheme \<Rightarrow> int \<times> addr \<times> 'a machine_scheme" where
  "panic_unwind unwind_ptr s = (0, unwind_ptr, s)"

partial_function (option) unwind_loop :: "addr \<Rightarrow> 'a console_scheme \<Rightarrow> 'a console_scheme option" where
  "unwind_loop p s =
     (let (r, p', s') = panic_unwind p s in
      if r \<noteq> 0 then unwind_loop p' (printk ([CHR 0x09] @ ''at %p'' @ [CHR 0x0A]) [Word p'] s') else Some s')"

text \<open>\<open>halt_loop\<close> (boot0.s) repeats \<open>hlt\<close> and never returns: the state has \<open>halted\<close> set.\<close>

definition halt_loop :: "'a interrupts_scheme \<Rightarrow> 'a interrupts_scheme" where
  "halt_loop s = s\<lparr>halted := True\<rparr>"

definition panic :: "string \<Rightarrow> va list \<Rightarrow> 'a interrupts_scheme \<Rightarrow> 'a interrupts_scheme option" where
  "panic format args s =
     (case vprintf (lit format) args s of None \<Rightarrow> None
      | Some (_, s1) \<Rightarrow> map_option halt_loop (unwind_loop 0 s1))"

text \<open>
  The registers a stub leaves on the stack: what \<open>pushal\<close> saves, the error code for the exceptions
  that have one, and the interrupt frame.
\<close>

record registers =
  edi :: u32
  esi :: u32
  ebp :: u32
  esp :: u32
  ebx :: u32
  edx :: u32
  ecx :: u32
  eax :: u32
  eip :: u32
  cs_sel :: u16
  eflags :: u32

record error_registers = registers +
  error_code :: u32

definition exceptions :: "string list" where
  "exceptions =
    [''Division Error (#DE)'', ''Debug (#DB)'', ''<Non-Maskable Interrupt>'', ''Breakpoint (#BP)'',
     ''Overflow (#OF)'', ''Bound Range Exceeded (#BR)'', ''Invalid Opcode (#UD)'',
     ''Device Not Available (#NM)'', ''Double Fault (#DF)'', ''Coprocessor Segment Overrun'',
     ''Invalid TSS (#TS)'', ''Segment Not Present (#NP)'', ''Stack-Segment Fault (#SS)'',
     ''General Protection Fault (#GP)'', ''Page Fault (#PF)'', ''<Reserved>'',
     ''x87 Floating-Point Exception (#MF)'', ''Alignment Check (#AC)'', ''Machine Check (#MC)'',
     ''SIMD Floating-Point Exception (#XM)'', ''Virtualization Exception (#VE)'',
     ''Control Protection Exception (#CP)'', ''<Reserved>'', ''<Reserved>'', ''<Reserved>'',
     ''<Reserved>'', ''<Reserved>'', ''<Reserved>'', ''Hypervisor Injection Exception (#HV)'',
     ''VMM Communication Exception (#VC)'', ''Security Exception (#SX)'', ''<Reserved>'']"

definition nl :: string where "nl = [CHR 0x0A]"
definition tab :: string where "tab = [CHR 0x09]"

definition exception_code_format :: string where
  "exception_code_format = ''An exception occured: %s'' @ nl @ ''Error code: %08x'' @ nl @ ''Register dump:'' @ nl
     @ ''%%eax = %08x'' @ tab @ ''%%ebx = %08x'' @ nl @ ''%%ecx = %08x'' @ tab @ ''%%edx = %08x'' @ nl
     @ ''%%ebp = %08x'' @ tab @ ''%%esp = %08x'' @ nl @ ''%%esi = %08x'' @ tab @ ''%%edi = %08x'' @ nl
     @ ''%%eflags = %08x'' @ nl"

definition exception_no_code_format :: string where
  "exception_no_code_format = ''An exception occured: %s'' @ nl @ ''Register dump:'' @ nl
     @ ''%%eax = %08x'' @ tab @ ''%%ebx = %08x'' @ nl @ ''%%ecx = %08x'' @ tab @ ''%%edx = %08x'' @ nl
     @ ''%%ebp = %08x'' @ tab @ ''%%esp = %08x'' @ nl @ ''%%esi = %08x'' @ tab @ ''%%edi = %08x'' @ nl
     @ ''%%eflags = %08x'' @ nl"

text \<open>The arguments common to both handlers, after the name and the error code.\<close>

definition dump_args :: "'a registers_scheme \<Rightarrow> va list" where
  "dump_args regs = map (\<lambda>f. Word (f regs)) [eax, ebx, ecx, edx, ebp, esp, esi, edi, eflags]"

text \<open>The table has 32 names; an index past it is an access out of bounds, \<open>None\<close>.\<close>

definition exception_code :: "u32 \<Rightarrow> error_registers \<Rightarrow> 'a interrupts_scheme \<Rightarrow> 'a interrupts_scheme option" where
  "exception_code error regs s =
     (if unat error < length exceptions then
        panic exception_code_format
          (Str (lit (exceptions ! unat error)) # Word (error_code regs) # dump_args regs) s
      else None)"

definition exception_no_code :: "u32 \<Rightarrow> registers \<Rightarrow> 'a interrupts_scheme \<Rightarrow> 'a interrupts_scheme option" where
  "exception_no_code error regs s =
     (if unat error < length exceptions then
        panic exception_no_code_format (Str (lit (exceptions ! unat error)) # dump_args regs) s
      else None)"

section \<open>The documented behaviour of the controller\<close>

text \<open>
  The 8259: a command byte with bit 4 starts the initialisation and clears the mask, after which the
  data port takes the vector offset, the cascade wiring and, when bit 0 of the command was set, the
  mode; from then on a byte on the data port is the mask, and the command 0x20 ends an interrupt.
  (The kernel only uses the cascaded mode, in which the wiring byte is expected.)
\<close>

datatype pic_stage = Ready | Want_offset | Want_wiring | Want_mode

record pic_chip =
  stage :: pic_stage
  wants_mode :: bool
  vectors :: u8
  wiring :: u8
  mode_8086 :: bool
  imr :: u8
  eois :: nat

fun pic_step :: "u16 \<Rightarrow> io_event \<Rightarrow> pic_chip \<Rightarrow> pic_chip" where
  "pic_step cmd (Out p v) c =
     (if p = cmd then
        (if bit v 4 then c\<lparr>stage := Want_offset, wants_mode := bit v 0, imr := 0\<rparr>
         else if v = 0x20 then c\<lparr>eois := eois c + 1\<rparr> else c)
      else if p = cmd + 1 then
        (case stage c of
           Want_offset \<Rightarrow> c\<lparr>vectors := v AND 0xf8, stage := Want_wiring\<rparr>
         | Want_wiring \<Rightarrow> c\<lparr>wiring := v, stage := if wants_mode c then Want_mode else Ready\<rparr>
         | Want_mode \<Rightarrow> c\<lparr>mode_8086 := bit v 0, stage := Ready\<rparr>
         | Ready \<Rightarrow> c\<lparr>imr := v\<rparr>)
      else c)"
| "pic_step cmd (In p v) c = c"

definition pic_run :: "u16 \<Rightarrow> pic_chip \<Rightarrow> io_event list \<Rightarrow> pic_chip" where
  "pic_run cmd c tr = fold (pic_step cmd) tr c"

text \<open>The two chips of the machine, from the states \<open>m\<close> and \<open>l\<close> they were switched on in.\<close>

abbreviation (input) pic_master :: "pic_chip \<Rightarrow> 'a machine_scheme \<Rightarrow> pic_chip" where
  "pic_master m s \<equiv> pic_run MS_CMD m (io s)"

abbreviation (input) pic_slave :: "pic_chip \<Rightarrow> 'a machine_scheme \<Rightarrow> pic_chip" where
  "pic_slave l s \<equiv> pic_run SL_CMD l (io s)"

text \<open>Reading a data port gives the mask.\<close>

definition pic_readback :: "pic_chip \<Rightarrow> pic_chip \<Rightarrow> (io_event list \<Rightarrow> u16 \<Rightarrow> u8) \<Rightarrow> bool" where
  "pic_readback m l dev \<longleftrightarrow>
     (\<forall>tr. dev tr MS_DATA = imr (pic_run MS_CMD m tr) \<and> dev tr SL_DATA = imr (pic_run SL_CMD l tr))"

definition irq_masked :: "pic_chip \<Rightarrow> pic_chip \<Rightarrow> 'a machine_scheme \<Rightarrow> nat \<Rightarrow> bool" where
  "irq_masked m l s n \<longleftrightarrow> (if n < 8 then bit (imr (pic_master m s)) n else bit (imr (pic_slave l s)) (n - 8))"

definition pics_ready :: "pic_chip \<Rightarrow> pic_chip \<Rightarrow> 'a machine_scheme \<Rightarrow> bool" where
  "pics_ready m l s \<longleftrightarrow> stage (pic_master m s) = Ready \<and> stage (pic_slave l s) = Ready"

text \<open>The address a gate jumps to.\<close>

definition gate_offset :: "idt_entry \<Rightarrow> addr" where
  "gate_offset e = push_bit 16 (ucast (offset_high e)) OR ucast (offset_low e)"

lemma pic_run_append [simp]: "pic_run cmd c (tr @ tr') = pic_run cmd (pic_run cmd c tr) tr'"
  by (simp add: pic_run_def)

lemma pic_run_simps [simp]:
  "pic_run cmd c [] = c" "pic_run cmd c (e # tr) = pic_run cmd (pic_step cmd e c) tr"
  by (simp_all add: pic_run_def)

lemma gate_offset_join: "push_bit 16 (ucast (ucast (drop_bit 16 a) :: u16)) OR ucast (ucast a :: u16) = (a :: u32)"
  by (rule bit_eqI) (auto simp: bit_or_iff bit_push_bit_iff bit_ucast_iff bit_drop_bit_eq)


section \<open>Initialisation\<close>

lemma init_pic_master:
  "pic_master m (init_pic s) = (pic_master m s)
     \<lparr>stage := Ready, wants_mode := True, vectors := 0x20, wiring := 4, mode_8086 := True, imr := 0xfb\<rparr>"
  by (simp add: init_pic_def)

lemma init_pic_slave:
  "pic_slave l (init_pic s) = (pic_slave l s)
     \<lparr>stage := Ready, wants_mode := True, vectors := 0x28, wiring := 2, mode_8086 := True, imr := 0xff\<rparr>"
  by (simp add: init_pic_def)

lemma init_pic_frame [frame]: "IDT_addr (init_pic s) = IDT_addr s" "device (init_pic s) = device s"
  by (simp_all add: init_pic_def outb_def io_wait_def)

lemma set_isr_frame [frame]:
  "io (set_isr n p s) = io s" "device (set_isr n p s) = device s" "IDT_addr (set_isr n p s) = IDT_addr s"
  "IDTR (set_isr n p s) = IDTR s"
  by (simp_all add: set_isr_def)

lemma set_isr_type_frame [frame]:
  "io (set_isr_type n p ty s) = io s" "device (set_isr_type n p ty s) = device s"
  "IDT_addr (set_isr_type n p ty s) = IDT_addr s" "IDTR (set_isr_type n p ty s) = IDTR s"
  by (simp_all add: set_isr_type_def frame)

lemma set_isr_other: "k \<noteq> n \<Longrightarrow> IDT (set_isr n p s) k = IDT s k"
  by (simp add: set_isr_def)

lemma set_isr_gate:
  "gate_offset (IDT (set_isr n p s) n) = p" "present (IDT (set_isr n p s) n) \<longleftrightarrow> p \<noteq> 0"
  "gate_type (IDT (set_isr n p s) n) = gate_type (IDT s n)"
  "segment (IDT (set_isr n p s) n) = segment (IDT s n)" "ring (IDT (set_isr n p s) n) = ring (IDT s n)"
  by (simp_all add: set_isr_def gate_offset_def gate_offset_join)

lemma set_isr_type_IDT:
  "IDT (set_isr_type n p ty s) k = (if k = n then
      (IDT s n)\<lparr>gate_type := ty, offset_low := ucast p, offset_high := ucast (drop_bit 16 p), present := p \<noteq> 0\<rparr>
    else IDT s k)"
  by (simp add: set_isr_type_def set_isr_def)

lemma u8_index_eq: "i < 256 \<Longrightarrow> (k :: u8) = of_nat i \<longleftrightarrow> unat k = i"
  by (auto simp: unat_of_nat word_unat_eq_iff)

lemma fold_gates:
  assumes "j \<le> 32"
  shows "IDT (fold (\<lambda>i. set_isr_type (of_nat i) (exc i) TRAP) [0 ..< j] s) k =
    (if unat k < j then (IDT s k)\<lparr>gate_type := TRAP, offset_low := ucast (exc (unat k)),
         offset_high := ucast (drop_bit 16 (exc (unat k))), present := exc (unat k) \<noteq> 0\<rparr>
     else IDT s k)"
  using assms
proof (induction j)
  case (Suc j)
  then have "k = of_nat j \<longleftrightarrow> unat k = j" by (intro u8_index_eq) simp
  with Suc show ?case by (auto simp: set_isr_type_IDT less_Suc_eq)
qed simp

lemma fold_gates_frame:
  "io (fold (\<lambda>i. set_isr_type (f i) (exc i) ty) is s) = io s"
  "device (fold (\<lambda>i. set_isr_type (f i) (exc i) ty) is s) = device s"
  "IDTR (fold (\<lambda>i. set_isr_type (f i) (exc i) ty) is s) = IDTR s"
  by (induction "is" arbitrary: s) (simp_all add: frame)

section \<open>Masks\<close>

lemma mask_step:
  "pic_run MS_CMD m (io (io_wait (outb MS_DATA v (snd (inb p s))))) = pic_step MS_CMD (Out MS_DATA v) (pic_master m s)"
  "pic_run SL_CMD l (io (io_wait (outb MS_DATA v (snd (inb p s))))) = pic_slave l s"
  "pic_run SL_CMD l (io (io_wait (outb SL_DATA v (snd (inb p s))))) = pic_step SL_CMD (Out SL_DATA v) (pic_slave l s)"
  "pic_run MS_CMD m (io (io_wait (outb SL_DATA v (snd (inb p s))))) = pic_master m s"
  by simp_all

lemma bit_set_byte:
  "n < 8 \<Longrightarrow> bit (ucast (ucast (v :: u8) OR (2 :: u32) ^ k) :: u8) n = (if k = n then True else bit v n)"
  by (auto simp: bit_ucast_iff bit_or_iff bit_exp_iff)

lemma bit_clear_byte:
  "n < 8 \<Longrightarrow> bit (ucast (ucast (v :: u8) AND NOT ((2 :: u32) ^ k)) :: u8) n
     = (if k = n then False else bit v n)"
  by (auto simp: bit_ucast_iff bit_and_iff bit_not_iff bit_exp_iff)

lemma byte_high_bit:
  fixes v :: u8
  assumes "8 \<le> k"
  shows "ucast (ucast v OR (2 :: u32) ^ k) = v" "ucast (ucast v AND NOT ((2 :: u32) ^ k)) = v"
  using assms by (auto intro!: bit_eqI simp: bit_set_byte bit_clear_byte)

lemma bit_ff: "bit (0xff :: u8) n \<longleftrightarrow> n < 8"
proof -
  have "(0xff :: u8) = mask 8" by (simp add: mask_eq_exp_minus_1)
  then show ?thesis by (simp only: bit_mask_iff) simp
qed

lemma bit_fb: "bit (0xfb :: u8) n \<longleftrightarrow> n < 8 \<and> n \<noteq> 2"
proof -
  have "(0xfb :: u8) = NOT (2 ^ 2)" by simp
  then show ?thesis by (simp only: bit_not_iff bit_exp_iff) auto
qed

lemma mask_port_unat:
  "unat irq \<le> 8 \<Longrightarrow> mask_port irq = (MS_DATA, irq)"
  "8 < unat irq \<Longrightarrow> mask_port irq = (SL_DATA, irq - 8) \<and> unat (irq - 8) = unat irq - 8"
  by (simp_all add: mask_port_def word_less_nat_alt unat_sub_if')

text \<open>What writing a mask byte computed by \<open>f\<close> from the old one does to the two chips.\<close>

definition update_mask :: "(u8 \<Rightarrow> u8 \<Rightarrow> u8) \<Rightarrow> u8 \<Rightarrow> 'a machine_scheme \<Rightarrow> 'a machine_scheme" where
  "update_mask f irq s =
     (let (port, irq) = mask_port irq; (v, s) = inb port s in io_wait (outb port (f irq v) s))"

lemma pic_masks_update:
  "pic_set_mask = update_mask (\<lambda>irq v. ucast (ucast v OR (2 :: u32) ^ unat irq))"
  "pic_clear_mask = update_mask (\<lambda>irq v. ucast (ucast v AND NOT ((2 :: u32) ^ unat irq)))"
  by (intro ext, simp add: pic_set_mask_def pic_clear_mask_def update_mask_def Let_def case_prod_beta)+

lemma update_mask_low:
  assumes "unat irq \<le> 8" "pics_ready m l s" "pic_readback m l (device s)"
  shows "pic_master m (update_mask f irq s) = (pic_master m s)\<lparr>imr := f irq (imr (pic_master m s))\<rparr>"
    "pic_slave l (update_mask f irq s) = pic_slave l s"
    "pics_ready m l (update_mask f irq s)" "device (update_mask f irq s) = device s"
  using assms
  by (simp_all add: update_mask_def mask_port_unat case_prod_beta pics_ready_def pic_readback_def)

lemma update_mask_high:
  assumes "8 < unat irq" "pics_ready m l s" "pic_readback m l (device s)"
  shows "pic_slave l (update_mask f irq s) = (pic_slave l s)\<lparr>imr := f (irq - 8) (imr (pic_slave l s))\<rparr>"
    "pic_master m (update_mask f irq s) = pic_master m s"
    "pics_ready m l (update_mask f irq s)" "device (update_mask f irq s) = device s"
  using assms
  by (simp_all add: update_mask_def mask_port_unat case_prod_beta pics_ready_def pic_readback_def)

lemma update_mask_masked:
  assumes "pics_ready m l s" "pic_readback m l (device s)" "n < 16" "unat irq < 16" "unat irq \<noteq> 8"
    and upd: "\<And>k v i. i < 8 \<Longrightarrow> bit (f k v) i = (if unat k = i then b else bit v i)"
  shows "irq_masked m l (update_mask f irq s) n = (if unat irq = n then b else irq_masked m l s n)"
proof (cases "unat irq \<le> 8")
  case True
  with assms(5) have "unat irq < 8" by simp
  with True show ?thesis using assms(1-3)
    by (auto simp: irq_masked_def update_mask_low upd)
next
  case False
  then have "unat (irq - 8) = unat irq - 8" using mask_port_unat(2) [of irq] by simp
  with False show ?thesis using assms(1-4)
    by (auto simp: irq_masked_def update_mask_high upd)
qed

lemma update_mask_cascade:
  assumes "pics_ready m l s" "pic_readback m l (device s)"
    and upd: "\<And>v. f 8 v = v"
  shows "irq_masked m l (update_mask f 8 s) n = irq_masked m l s n"
  using assms by (simp add: irq_masked_def update_mask_low)


lemma pic_mask_lines:
  assumes "pics_ready m l s" "pic_readback m l (device s)" "unat irq < 16" "unat irq \<noteq> 8" "n < 16"
  shows "irq_masked m l (pic_set_mask irq s) n = (unat irq = n \<or> irq_masked m l s n)
    \<and> irq_masked m l (pic_clear_mask irq s) n = (unat irq \<noteq> n \<and> irq_masked m l s n)"
proof -
  note upd = update_mask_masked [OF assms(1,2,5,3,4)]
  have "irq_masked m l (pic_set_mask irq s) n = (if unat irq = n then True else irq_masked m l s n)"
    unfolding pic_masks_update by (rule upd) (rule bit_set_byte)
  moreover have "irq_masked m l (pic_clear_mask irq s) n = (if unat irq = n then False else irq_masked m l s n)"
    unfolding pic_masks_update by (rule upd) (rule bit_clear_byte)
  ultimately show ?thesis by simp
qed

section \<open>The register dump\<close>

text \<open>Eight lower-case hexadecimal digits.\<close>

definition hex8 :: "u32 \<Rightarrow> u8 list" where
  "hex8 x = pad 8 48 (map (digit_char 0x61) (numeral_of 16 (unat x)))"

definition reg_line :: "string \<Rightarrow> u32 \<Rightarrow> string \<Rightarrow> u8 list" where
  "reg_line name x end = lit (''%'' @ name @ '' = '') @ hex8 x @ lit end"

definition dump_text :: "'a registers_scheme \<Rightarrow> u8 list" where
  "dump_text regs = lit ''Register dump:'' @ lit nl
     @ reg_line ''eax'' (eax regs) tab @ reg_line ''ebx'' (ebx regs) nl
     @ reg_line ''ecx'' (ecx regs) tab @ reg_line ''edx'' (edx regs) nl
     @ reg_line ''ebp'' (ebp regs) tab @ reg_line ''esp'' (esp regs) nl
     @ reg_line ''esi'' (esi regs) tab @ reg_line ''edi'' (edi regs) nl
     @ reg_line ''eflags'' (eflags regs) nl"

lemma lit_append [simp]: "lit (a @ b) = lit a @ lit b"
  by (simp add: lit_def)

lemma hex8_length: "length (hex8 x) = 8"
proof -
  have "length (numeral_of 16 (unat x)) \<le> Suc 7"
    by (rule numeral_of_length) (use unat_lt_2p32 [of x] in \<open>simp_all\<close>)
  then show ?thesis by (simp add: hex8_def pad_def)
qed

text \<open>
  \<open>renders format args out\<close>: the format prints \<open>out\<close>. Formats are taken apart from the left: a piece
  without directives and the directives of the dump.
\<close>

definition renders :: "u8 list \<Rightarrow> va list \<Rightarrow> u8 list \<Rightarrow> bool" where
  "renders cs args out \<longleftrightarrow> (\<forall>n. \<exists>n'. render cs args n = Some (n', out))"

lemma renders_Nil: "renders [] args []"
  by (simp add: renders_def)

lemma renders_plain: "0x25 \<notin> set bs \<Longrightarrow> renders cs args out \<Longrightarrow> renders (bs @ cs) args (bs @ out)"
proof (induction bs)
  case (Cons b bs)
  then have "renders (bs @ cs) args (bs @ out)" "b \<noteq> 0x25" by auto
  then show ?case by (fastforce simp: renders_def)
qed simp

lemma renders_hex8:
  "renders cs args out \<Longrightarrow> renders (0x25 # 0x30 # 0x38 # 0x78 # cs) (Word x # args) (hex8 x @ out)"
  by (fastforce simp: renders_def parse_filler_def render_directive_def render_num_def Let_def hex8_def)

lemma renders_str: "renders cs args out \<Longrightarrow> renders (0x25 # 0x73 # cs) (Str bs # args) (bs @ out)"
  by (fastforce simp: renders_def parse_filler_def render_directive_def)

lemma renders_percent: "renders cs args out \<Longrightarrow> renders (0x25 # 0x25 # cs) args (0x25 # out)"
  by (fastforce simp: renders_def parse_filler_def render_directive_def)

text \<open>One register of the dump, in the format and on the screen.\<close>

definition reg_format :: "string \<Rightarrow> string \<Rightarrow> u8 list" where
  "reg_format name end = 0x25 # 0x25 # lit name @ lit '' = '' @ 0x25 # 0x30 # 0x38 # 0x78 # lit end"

definition plain :: "string \<Rightarrow> bool" where
  "plain cs \<longleftrightarrow> 0x25 \<notin> set (lit cs)"

lemma renders_reg:
  assumes "plain name" "plain end" "renders cs args out"
  shows "renders (reg_format name end @ cs) (Word x # args) (reg_line name x end @ out)"
proof -
  have pc: "lit (''%'' @ name @ '' = '') = 0x25 # lit name @ lit '' = ''"
    by (simp only: lit_append) (simp add: lit_def)
  have eq: "0x25 \<notin> set (lit '' = '')" by code_simp
  have "renders (lit end @ cs) args (lit end @ out)"
    by (rule renders_plain [OF assms(2) [unfolded plain_def] assms(3)])
  from renders_plain [OF eq renders_hex8 [OF this]]
  have "renders (lit '' = '' @ 0x25 # 0x30 # 0x38 # 0x78 # lit end @ cs) (Word x # args)
      (lit '' = '' @ hex8 x @ lit end @ out)" .
  from renders_percent [OF renders_plain [OF assms(1) [unfolded plain_def] this]]
  have "renders (0x25 # 0x25 # lit name @ lit '' = '' @ 0x25 # 0x30 # 0x38 # 0x78 # lit end @ cs) (Word x # args)
      (0x25 # lit name @ lit '' = '' @ hex8 x @ lit end @ out)" .
  then show ?thesis
    unfolding reg_format_def reg_line_def pc by (simp only: append_assoc append_Cons)
qed

definition dump_format :: "u8 list" where
  "dump_format = lit ''Register dump:'' @ lit nl
     @ reg_format ''eax'' tab @ reg_format ''ebx'' nl @ reg_format ''ecx'' tab @ reg_format ''edx'' nl
     @ reg_format ''ebp'' tab @ reg_format ''esp'' nl @ reg_format ''esi'' tab @ reg_format ''edi'' nl
     @ reg_format ''eflags'' nl @ []"

lemma plain_names:
  "plain ''eax''" "plain ''ebx''" "plain ''ecx''" "plain ''edx''" "plain ''ebp''" "plain ''esp''"
  "plain ''esi''" "plain ''edi''" "plain ''eflags''" "plain nl" "plain tab"
  by code_simp+

lemma renders_dump: "renders dump_format (dump_args regs) (dump_text regs)"
proof -
  have "0x25 \<notin> set (lit ''Register dump:'')" "0x25 \<notin> set (lit nl)" by code_simp+
  then have "renders dump_format (dump_args regs) (lit ''Register dump:'' @ lit nl
     @ reg_line ''eax'' (eax regs) tab @ reg_line ''ebx'' (ebx regs) nl
     @ reg_line ''ecx'' (ecx regs) tab @ reg_line ''edx'' (edx regs) nl
     @ reg_line ''ebp'' (ebp regs) tab @ reg_line ''esp'' (esp regs) nl
     @ reg_line ''esi'' (esi regs) tab @ reg_line ''edi'' (edi regs) nl
     @ reg_line ''eflags'' (eflags regs) nl @ [])"
    unfolding dump_format_def dump_args_def list.map
    by (intro renders_plain renders_reg renders_Nil plain_names)
  then show ?thesis by (simp only: dump_text_def append_Nil2)
qed

lemma exception_formats:
  "lit exception_no_code_format = lit ''An exception occured: '' @ 0x25 # 0x73 # lit nl @ dump_format"
  "lit exception_code_format = lit ''An exception occured: '' @ 0x25 # 0x73 # lit nl @ lit ''Error code: ''
     @ 0x25 # 0x30 # 0x38 # 0x78 # lit nl @ dump_format"
  by code_simp+

lemma renders_exception:
  "renders (lit exception_no_code_format) (Str bs # dump_args regs)
     (lit ''An exception occured: '' @ bs @ lit nl @ dump_text regs)"
  "renders (lit exception_code_format) (Str bs # Word e # dump_args regs)
     (lit ''An exception occured: '' @ bs @ lit nl @ lit ''Error code: '' @ hex8 e @ lit nl @ dump_text regs)"
proof -
  have np: "0x25 \<notin> set (lit ''An exception occured: '')" "0x25 \<notin> set (lit ''Error code: '')" "0x25 \<notin> set (lit nl)"
    by code_simp+
  show "renders (lit exception_no_code_format) (Str bs # dump_args regs)
     (lit ''An exception occured: '' @ bs @ lit nl @ dump_text regs)"
    unfolding exception_formats by (intro renders_plain renders_str renders_dump np)
  show "renders (lit exception_code_format) (Str bs # Word e # dump_args regs)
     (lit ''An exception occured: '' @ bs @ lit nl @ lit ''Error code: '' @ hex8 e @ lit nl @ dump_text regs)"
    unfolding exception_formats by (intro renders_plain renders_str renders_hex8 renders_dump np)
qed

lemma printk_prints:
  assumes "renders (lit format) args out"
  shows "prints s out (printk format args s)"
proof -
  from assms obtain n where "render (lit format) args 0 = Some (n, out)" by (auto simp: renders_def)
  from vprintf_loop_prints [OF this, of s] show ?thesis by (auto simp: printk_def printf_def vprintf_def)
qed

lemma panic_prints:
  assumes "renders (lit format) args out" "console_ok s"
  shows "\<exists>t. panic format args s = Some t \<and> halted t
    \<and> screen_of t = fold screen_put out (screen_of s)"
proof -
  from assms(1) obtain n where "render (lit format) args 0 = Some (n, out)" by (auto simp: renders_def)
  from vprintf_loop_prints [OF this, of s] assms(2) obtain s1
    where s1: "vprintf (lit format) args s = Some (n, s1)" "screen_of s1 = fold screen_put out (screen_of s)"
    by (auto simp: vprintf_def prints_def)
  have "screen_of (halt_loop s1) = screen_of s1" by (simp add: halt_loop_def screen_of_def)
  with s1 show ?thesis
    by (simp add: panic_def unwind_loop.simps panic_unwind_def halt_loop_def)
qed

section \<open>Properties\<close>

definition idle_chip :: pic_chip where
  "idle_chip = \<lparr>stage = Ready, wants_mode = False, vectors = 0, wiring = 0, mode_8086 = False,
     imr = 0, eois = 0\<rparr>"

definition interrupts_start :: interrupts where
  "interrupts_start = paging.extend paging_start
     (interrupts.fields (\<lambda>_. \<lparr>offset_low = 0, segment = 0, gate_type = INTERRUPT, ring = 0,
        present = False, offset_high = 0\<rparr>) 0xc0100000 (0, 0) (0, 0) False False)"

text \<open>A machine whose controllers answer their masks.\<close>

definition pic_device :: "io_event list \<Rightarrow> u16 \<Rightarrow> u8" where
  "pic_device tr p = (if p = MS_DATA then imr (pic_run MS_CMD idle_chip tr) else imr (pic_run SL_CMD idle_chip tr))"

definition pic_start :: interrupts where
  "pic_start = interrupts_start\<lparr>io := [], device := pic_device\<rparr>"

lemma pic_start_ok:
  "pics_ready idle_chip idle_chip pic_start" "pic_readback idle_chip idle_chip (device pic_start)"
  "irq_masked idle_chip idle_chip pic_start n = False"
  by (simp_all add: pics_ready_def pic_start_def pic_readback_def pic_device_def irq_masked_def idle_chip_def)

text \<open>
  C32. \<open>setup_interrupts\<close> leaves in gates 0 to 31 present trap gates whose split offset is the stub of
  that exception (absent for a null stub), every other gate absent, all of them for the kernel code
  segment and ring 0; the table of 256 entries is loaded and interrupts are on. Whatever state the
  controllers were in, they end in 8086 mode with vectors 0x20 and 0x28, wired to each other through
  line 2, every line but that one masked.
\<close>

theorem setup_interrupts_correct:
  "let t = setup_interrupts exc_isrs s in
     (gate_offset (IDT t k), present (IDT t k), gate_type (IDT t k)) =
       (if unat k < 32 then (exc_isrs (unat k), exc_isrs (unat k) \<noteq> 0, TRAP) else (0, False, INTERRUPT))
   \<and> segment (IDT t k) = 0x08 \<and> ring (IDT t k) = 0
   \<and> loaded_idt t = (2047, IDT_addr s) \<and> interrupts_on t
   \<and> pics_ready m l t \<and> irq_masked m l t n = (n \<noteq> 2 \<and> n < 16)
   \<and> vectors (pic_master m t) = 0x20 \<and> wiring (pic_master m t) = 4 \<and> mode_8086 (pic_master m t)
   \<and> vectors (pic_slave l t) = 0x28 \<and> wiring (pic_slave l t) = 2 \<and> mode_8086 (pic_slave l t)"
proof -
  define i where "i = init_table (init_pic s)"
  define t where "t = setup_interrupts exc_isrs s"
  have t: "t = load_enable_interrupts (fold (\<lambda>i. set_isr_type (of_nat i) (exc_isrs i) TRAP) [0 ..< 32] i)"
    by (simp add: setup_interrupts_def Let_def i_def t_def)
  have base: "IDT i k = \<lparr>offset_low = 0, segment = 0x08, gate_type = INTERRUPT, ring = 0, present = False, offset_high = 0\<rparr>"
    by (simp add: i_def init_table_def)
  have gate: "IDT t k = (if unat k < 32
      then (IDT i k)\<lparr>gate_type := TRAP, offset_low := ucast (exc_isrs (unat k)),
         offset_high := ucast (drop_bit 16 (exc_isrs (unat k))), present := exc_isrs (unat k) \<noteq> 0\<rparr>
      else IDT i k)"
    using fold_gates [of 32 exc_isrs i k] by (simp add: t load_enable_interrupts_def)
  have regs: "io t = io (init_pic s)" "loaded_idt t = (2047, IDT_addr s)" "interrupts_on t"
    by (simp_all add: t i_def load_enable_interrupts_def fold_gates_frame init_table_def frame)
  show ?thesis
    unfolding Let_def t_def [symmetric]
    by (simp add: gate base regs pics_ready_def irq_masked_def init_pic_master init_pic_slave
        gate_offset_join gate_offset_def bit_ff bit_fb del: bit_numeral_word_iff) auto
qed

text \<open>
  On controllers that answer the mask when their data port is read, \<open>pic_set_mask\<close> and
  \<open>pic_clear_mask\<close> mask and unmask the given request line, and change no other line, for each of
  the 16 lines except line 8.
\<close>

theorem pic_masks_one_line:
  assumes "pics_ready m l s" "pic_readback m l (device s)" "unat irq < 16" "unat irq \<noteq> 8" "n < 16"
  shows "irq_masked m l (pic_set_mask irq s) n = (unat irq = n \<or> irq_masked m l s n)
    \<and> irq_masked m l (pic_clear_mask irq s) n = (unat irq \<noteq> n \<and> irq_masked m l s n)"
  using assms by (rule pic_mask_lines)

theorem pic_masks_one_line_witness:
  "irq_masked idle_chip idle_chip (pic_set_mask 9 pic_start) 9
    \<and> \<not> irq_masked idle_chip idle_chip (pic_set_mask 9 pic_start) 1"
  using pic_masks_one_line [OF pic_start_ok(1,2), of 9 9] pic_masks_one_line [OF pic_start_ok(1,2), of 9 1]
  by (simp add: pic_start_ok(3))

text \<open>
  Line 8, the first of the second controller, can neither be masked nor unmasked: both
  operations change no mask.
\<close>

theorem pic_masks_miss_line_8:
  assumes "pics_ready m l s" "pic_readback m l (device s)"
  shows "irq_masked m l (pic_set_mask 8 s) n = irq_masked m l s n
    \<and> irq_masked m l (pic_clear_mask 8 s) n = irq_masked m l s n"
proof -
  have "8 \<le> unat (8 :: u8)" by simp
  note high = byte_high_bit [OF this]
  show ?thesis
    unfolding pic_masks_update
    by (intro conjI update_mask_cascade [OF assms] high)
qed

theorem pic_masks_miss_line_8_witness: "\<not> irq_masked idle_chip idle_chip (pic_set_mask 8 pic_start) 8"
  using pic_masks_miss_line_8 [OF pic_start_ok(1,2), of 8] by (simp add: pic_start_ok(3))

text \<open>
  An exception handler called with one of the 32 exception numbers ends in the halt loop, after
  showing the name of the exception, the error code if it has one, and every saved register with
  exactly eight hexadecimal digits under its own name.
\<close>

theorem exceptions_dump_registers:
  assumes "unat k < 32" "console_ok s"
  shows "\<exists>t u. exception_no_code k regs s = Some t \<and> halted t
      \<and> screen_of t = fold screen_put (lit ''An exception occured: '' @ lit (exceptions ! unat k) @ lit nl
          @ dump_text regs) (screen_of s)
      \<and> exception_code k eregs s = Some u \<and> halted u
      \<and> screen_of u = fold screen_put (lit ''An exception occured: '' @ lit (exceptions ! unat k) @ lit nl
          @ lit ''Error code: '' @ hex8 (error_code eregs) @ lit nl @ dump_text eregs) (screen_of s)"
proof -
  have "length exceptions = 32" by (simp add: exceptions_def)
  with panic_prints [OF renders_exception(1) assms(2)] panic_prints [OF renders_exception(2) assms(2)]
  show ?thesis using assms(1) unfolding exception_code_def exception_no_code_def by (smt (verit))
qed

definition fault_registers :: error_registers where
  "fault_registers = \<lparr>edi = 1, esi = 2, ebp = 3, esp = 0xc0008000, ebx = 5, edx = 6, ecx = 7, eax = 0xdead,
     eip = 0xc0100000, cs_sel = 8, eflags = 0x202, error_code = 2\<rparr>"

lemma interrupts_start_console: "console_ok interrupts_start"
  by (simp add: console_ok_def interrupts_start_def paging.extend_def paging_start_def kbd.extend_def
      kbd_start_def memdev.extend_def memdev_start_def rdtab.extend_def one_disk_def drvtab.extend_def
      console.extend_def console_start_def interrupts.fields_def paging.fields_def kbd.fields_def
      memdev.fields_def rdtab.fields_def drvtab.fields_def)

theorem exceptions_dump_registers_witness:
  "\<exists>u. exception_code 14 fault_registers interrupts_start = Some u \<and> halted u
     \<and> screen_of u = fold screen_put (lit ''An exception occured: '' @ lit ''Page Fault (#PF)'' @ lit nl
          @ lit ''Error code: '' @ lit ''00000002'' @ lit nl @ dump_text fault_registers) (screen_of interrupts_start)"
proof -
  have "hex8 (error_code fault_registers) = lit ''00000002''" by code_simp
  moreover have "exceptions ! unat (14 :: u32) = ''Page Fault (#PF)''" by code_simp
  ultimately show ?thesis
    using exceptions_dump_registers [of 14 interrupts_start undefined fault_registers]
    by (auto simp: interrupts_start_console)
qed

end
