(* ===== verification/Ps2.thy ===== *)
theory Ps2
  imports Interrupts "HOL-Library.Monad_Syntax"
begin

text \<open>
  kernel/arch/i686/drivers/ps2_kb.c: the driver of the keyboard controller. What the controller
  answers is the parameter \<open>device\<close> of the machine. A loop that waits for the controller may never
  end, which is \<open>None\<close>. The interrupt handler is a decoder of scancode sequences; it is refined to the
  key events of the keyboard component.
\<close>

section \<open>State\<close>

abbreviation (input) PS2_KB_DATA :: u16 where "PS2_KB_DATA \<equiv> 0x60"
abbreviation (input) PS2_KB_CMD :: u16 where "PS2_KB_CMD \<equiv> 0x64"
abbreviation (input) PS2_KB_STATUS :: u16 where "PS2_KB_STATUS \<equiv> 0x64"
abbreviation (input) PS2_KB_OUTPUT_BUFFER_STATUS :: u8 where "PS2_KB_OUTPUT_BUFFER_STATUS \<equiv> 1"
abbreviation (input) PS2_KB_INPUT_BUFFER_STATUS :: u8 where "PS2_KB_INPUT_BUFFER_STATUS \<equiv> 2"
abbreviation (input) PS2_KB_ENABLE_IRQ1 :: u8 where "PS2_KB_ENABLE_IRQ1 \<equiv> 1"
abbreviation (input) PS2_KB_ENABLE_IRQ2 :: u8 where "PS2_KB_ENABLE_IRQ2 \<equiv> 2"
abbreviation (input) PS2_KB_TRANSLATE :: u8 where "PS2_KB_TRANSLATE \<equiv> 0x40"
abbreviation (input) PS2_KB_GETCONFIG :: u8 where "PS2_KB_GETCONFIG \<equiv> 0x20"
abbreviation (input) PS2_KB_SETCONFIG :: u8 where "PS2_KB_SETCONFIG \<equiv> 0x60"
abbreviation (input) PS2_KB_DISABLE2 :: u8 where "PS2_KB_DISABLE2 \<equiv> 0xa7"
abbreviation (input) PS2_KB_CONTROLLER_SELF_TEST :: u8 where "PS2_KB_CONTROLLER_SELF_TEST \<equiv> 0xaa"
abbreviation (input) PS2_KB_DISABLE1 :: u8 where "PS2_KB_DISABLE1 \<equiv> 0xad"
abbreviation (input) PS2_KB_ENABLE1 :: u8 where "PS2_KB_ENABLE1 \<equiv> 0xae"
abbreviation (input) PS2_KB_CONTROLLER_SELF_TEST_PASSED :: u8 where
  "PS2_KB_CONTROLLER_SELF_TEST_PASSED \<equiv> 0x55"
abbreviation (input) PS2_KB_SETSCANCODESET :: u8 where "PS2_KB_SETSCANCODESET \<equiv> 0xf0"
abbreviation (input) PS2_KB_RESET :: u8 where "PS2_KB_RESET \<equiv> 0xff"
abbreviation (input) PS2_KB_SELF_TEST_PASSED :: u8 where "PS2_KB_SELF_TEST_PASSED \<equiv> 0xaa"
abbreviation (input) PS2_KB_ACK :: u8 where "PS2_KB_ACK \<equiv> 0xfa"
abbreviation (input) PS2_KB_RESEND :: u8 where "PS2_KB_RESEND \<equiv> 0xfe"

record ps2 = interrupts +
  scancode_set :: u8
  release_next :: bool
  ignore_next :: u8
  scancode_plane :: u8

text \<open>The translation tables, each with 256 entries per plane.\<close>

definition scs2_keycodes :: "u8 list list" where
  "scs2_keycodes =
    [[0xff, 0x09, 0x07, 0x05, 0x03, 0x01, 0x02, 0x0c, 0xff, 0x0a, 0x08, 0x06,
      0x04, 0x40, 0x20, 0xff, 0xff, 0xa2, 0x80, 0xff, 0xa0, 0x41, 0x21, 0xff,
      0xff, 0xff, 0x81, 0x62, 0x61, 0x42, 0x22, 0xff, 0xff, 0x83, 0x82, 0x63,
      0x43, 0x24, 0x23, 0xff, 0xff, 0xa3, 0x84, 0x64, 0x45, 0x44, 0x25, 0xff,
      0xff, 0x86, 0x85, 0x66, 0x65, 0x46, 0x26, 0xff, 0xff, 0xff, 0x87, 0x67,
      0x47, 0x27, 0x28, 0xff, 0xff, 0x88, 0x68, 0x48, 0x49, 0x2a, 0x29, 0xff,
      0xff, 0x89, 0x8a, 0x69, 0x6a, 0x4a, 0x2b, 0xff, 0xff, 0xff, 0x6b, 0xff,
      0x4b, 0x2c, 0xff, 0xff, 0x60, 0x8b, 0x6c, 0x4c, 0xff, 0x4d, 0xff, 0xff,
      0xff, 0x91, 0xff, 0xff, 0xff, 0xff, 0x2d, 0xff, 0xff, 0x8d, 0xff, 0x6d,
      0x51, 0xff, 0xff, 0xff, 0xab, 0xac, 0x8e, 0x6e, 0x6f, 0x52, 0x00, 0x31,
      0x0b, 0x54, 0x8f, 0x34, 0x33, 0x53, 0x0e, 0xff, 0xff, 0xff, 0xff, 0x07] @ replicate 124 0xff,
     [0xff, 0xff, 0xff, 0xff, 0xff, 0xff, 0xff, 0xff, 0xff, 0xff, 0xff, 0xff,
      0xff, 0xff, 0xff, 0xff, 0xff, 0xa4, 0xfe, 0xff, 0xa7, 0xff, 0xff, 0xff,
      0xff, 0xff, 0xff, 0xff, 0xff, 0xff, 0xff, 0xa1, 0xff, 0xff, 0xff, 0xff,
      0xff, 0xff, 0xff, 0xa5, 0xff, 0xff, 0xff, 0xff, 0xff, 0xff, 0xff, 0xa6,
      0xff, 0xff, 0xff, 0xff, 0xff, 0xff, 0xff, 0xff, 0xff, 0xff, 0xff, 0xff,
      0xff, 0xff, 0xff, 0xff, 0xff, 0xff, 0xff, 0xff, 0xff, 0xff, 0xff, 0xff,
      0xff, 0xff, 0x32, 0xff, 0xff, 0xff, 0xff, 0xff, 0xff, 0xff, 0xff, 0xff,
      0xff, 0xff, 0xff, 0xff, 0xff, 0xff, 0x90, 0xff, 0xff, 0xff, 0xff, 0xff,
      0xff, 0xff, 0xff, 0xff, 0xff, 0xff, 0xff, 0xff, 0xff, 0x4f, 0xff, 0xa8,
      0x2f, 0xff, 0xff, 0xff, 0x2e, 0x4e, 0xa9, 0xff, 0xaa, 0x8c, 0xff, 0xff,
      0xff, 0xff, 0x50, 0xff, 0x0d, 0x30, 0xff, 0xff, 0xff, 0xff, 0xff, 0xff] @ replicate 124 0xff]"

definition scs3_keycodes :: "u8 list" where
  "scs3_keycodes =
     [0xff, 0xff, 0xff, 0xff, 0xff, 0xff, 0xff, 0x01, 0x00, 0xff, 0xff, 0xff,
      0xff, 0x40, 0x20, 0x02, 0xff, 0xa0, 0x80, 0x91, 0x60, 0x41, 0x21, 0x03,
      0xff, 0xa2, 0x81, 0x62, 0x61, 0x42, 0x22, 0x04, 0xff, 0x83, 0x82, 0x63,
      0x43, 0x24, 0x23, 0x05, 0xff, 0xa3, 0x84, 0x64, 0x45, 0x44, 0x25, 0x06,
      0xff, 0x86, 0x85, 0x66, 0x65, 0x46, 0x26, 0x07, 0xff, 0xa4, 0x87, 0x67,
      0x47, 0x27, 0x28, 0x08, 0xff, 0x88, 0x68, 0x48, 0x49, 0x2a, 0x29, 0x09,
      0xff, 0x89, 0x8a, 0x69, 0x6a, 0x4a, 0x2b, 0x0a, 0xff, 0xff, 0x6b, 0xff,
      0x4b, 0x2c, 0x0b, 0x0d, 0xa7, 0x8b, 0x6c, 0x4c, 0x4d, 0xff, 0x0c, 0x0e,
      0xa9, 0xa8, 0x0f, 0x8c, 0x4e, 0x4f, 0x2d, 0x2e, 0xff, 0x8d, 0xaa, 0x6d,
      0x51, 0x50, 0x2f, 0x30, 0xab, 0xac, 0x8e, 0x6e, 0x6f, 0x52, 0x31, 0xff,
      0xff, 0x90, 0x8f, 0xff, 0x54, 0x53, 0x33, 0xff, 0xff, 0xff, 0xff, 0xff,
      0xff, 0xff, 0xff, 0xff, 0xff, 0xff, 0xff, 0xa1, 0xa5, 0xa6, 0xff, 0xff] @ replicate 112 0xff"

section \<open>Talking to the controller\<close>

partial_function (option) wait_out :: "u16 \<Rightarrow> u8 \<Rightarrow> 'a machine_scheme \<Rightarrow> 'a machine_scheme option" where
  "wait_out port val s =
     (let (status, s) = inb PS2_KB_STATUS s in
      if status AND PS2_KB_INPUT_BUFFER_STATUS \<noteq> 0 then wait_out port val s
      else Some (outb port val s))"

partial_function (option) wait_in :: "'a machine_scheme \<Rightarrow> (u8 \<times> 'a machine_scheme) option" where
  "wait_in s =
     (let (status, s) = inb PS2_KB_STATUS s in
      if status AND PS2_KB_OUTPUT_BUFFER_STATUS = 0 then wait_in s
      else Some (inb PS2_KB_DATA s))"

partial_function (option) send_dev_command1 :: "u8 \<Rightarrow> 'a machine_scheme \<Rightarrow> (u8 \<times> 'a machine_scheme) option" where
  "send_dev_command1 command s =
     do {
       s \<leftarrow> wait_out PS2_KB_DATA command s;
       (status, s) \<leftarrow> wait_in s;
       if status = PS2_KB_RESEND then send_dev_command1 command s else Some (status, s)
     }"

text \<open>A message with its newline.\<close>

definition msg :: "string \<Rightarrow> string" where "msg cs = cs @ nl"

definition send_dev_command2 :: "u8 \<Rightarrow> u8 \<Rightarrow> 'a console_scheme \<Rightarrow> (u8 \<times> 'a console_scheme) option" where
  "send_dev_command2 command arg s =
     do {
       (status, s) \<leftarrow> send_dev_command1 command s;
       let s = (if status \<noteq> PS2_KB_ACK
                then printk (msg ''err: ps/2: first byte not ACKed: %02X %02X'') [Word (ucast command), Word (ucast arg)] s
                else s);
       send_dev_command1 arg s
     }"

definition cfg_set :: "u8 \<Rightarrow> 'a machine_scheme \<Rightarrow> 'a machine_scheme option" where
  "cfg_set flag s =
     do {
       s \<leftarrow> wait_out PS2_KB_CMD PS2_KB_GETCONFIG s;
       (config, s) \<leftarrow> wait_in s;
       s \<leftarrow> wait_out PS2_KB_CMD PS2_KB_SETCONFIG s;
       wait_out PS2_KB_DATA (config OR flag) s
     }"

definition cfg_clear :: "u8 \<Rightarrow> 'a machine_scheme \<Rightarrow> 'a machine_scheme option" where
  "cfg_clear flag s =
     do {
       s \<leftarrow> wait_out PS2_KB_CMD PS2_KB_GETCONFIG s;
       (config, s) \<leftarrow> wait_in s;
       s \<leftarrow> wait_out PS2_KB_CMD PS2_KB_SETCONFIG s;
       wait_out PS2_KB_DATA (config AND NOT flag) s
     }"

text \<open>
  \<open>controller_setup\<close> in the order of its early returns: the self test, the reset, the choice of the
  scancode set, and the part after its last check.
\<close>

definition controller_enable :: "'a ps2_scheme \<Rightarrow> (bool \<times> 'a ps2_scheme) option" where
  "controller_enable s =
     do {
       s \<leftarrow> cfg_set PS2_KB_ENABLE_IRQ1 s;
       s \<leftarrow> wait_out PS2_KB_CMD PS2_KB_ENABLE1 s;
       Some (True, printk (msg ''info: ps/2: setup successful'') [] s)
     }"

definition controller_scancodes :: "'a ps2_scheme \<Rightarrow> (bool \<times> 'a ps2_scheme) option" where
  "controller_scancodes s =
     do {
       (response, s) \<leftarrow> send_dev_command2 PS2_KB_SETSCANCODESET 3 s;
       let s = (if response \<noteq> PS2_KB_ACK
                then printk (msg ''warn: ps/2: unable to set scancode set'') [] s else s);
       (response, s) \<leftarrow> send_dev_command2 PS2_KB_SETSCANCODESET 0 s;
       if response \<noteq> PS2_KB_ACK
       then Some (False, printk (msg ''err: ps/2: failed to determine scancode set'') [] s)
       else do {
         (v, s) \<leftarrow> wait_in s;
         let s = s\<lparr>scancode_set := v\<rparr>;
         if v < 1 \<or> v > 3
         then Some (False, printk (msg ''err: ps/2: unknown scancode set: %d'') [Word (ucast v)] s)
         else controller_enable (printk (msg ''info: ps/2: using scancode set %d'') [Word (ucast v)] s)
       }
     }"

definition controller_reset :: "'a ps2_scheme \<Rightarrow> (bool \<times> 'a ps2_scheme) option" where
  "controller_reset s =
     do {
       (response, s) \<leftarrow> send_dev_command1 PS2_KB_RESET s;
       if response \<noteq> PS2_KB_ACK
       then controller_scancodes (printk (msg ''warn: ps/2: unable to reset devices'') [] s)
       else do {
         (result, s) \<leftarrow> wait_in s;
         if result \<noteq> PS2_KB_SELF_TEST_PASSED
         then Some (False, printk (msg ''err: ps/2: device self test failed'') [] s)
         else controller_scancodes s
       }
     }"

definition controller_setup :: "'a ps2_scheme \<Rightarrow> (bool \<times> 'a ps2_scheme) option" where
  "controller_setup s =
     do {
       s \<leftarrow> wait_out PS2_KB_CMD PS2_KB_CONTROLLER_SELF_TEST s;
       (result, s) \<leftarrow> wait_in s;
       if result \<noteq> PS2_KB_CONTROLLER_SELF_TEST_PASSED
       then Some (False, printk (msg ''err: ps/2: controller self test failed'') [] s)
       else do {
         s \<leftarrow> wait_out PS2_KB_CMD PS2_KB_DISABLE1 s;
         s \<leftarrow> wait_out PS2_KB_CMD PS2_KB_DISABLE2 s;
         s \<leftarrow> cfg_clear (PS2_KB_ENABLE_IRQ1 OR PS2_KB_ENABLE_IRQ2 OR PS2_KB_TRANSLATE) s;
         controller_reset s
       }
     }"

text \<open>The address of the assembly stub that calls the handler is a parameter.\<close>

definition ps2_kb_driversetup :: "addr \<Rightarrow> 'a ps2_scheme \<Rightarrow> 'a ps2_scheme option" where
  "ps2_kb_driversetup int_ps2_key_pressed s =
     do {
       (ok, s) \<leftarrow> controller_setup s;
       if \<not> ok then Some (printk (msg ''FATAL: ps/2: keyboard will not be available'') [] s)
       else Some (pic_clear_mask 1 (set_isr (IRQ_OFFSET + 1) int_ps2_key_pressed s))
     }"

section \<open>The interrupt handler\<close>

definition report_key :: "u8 \<Rightarrow> 'a ps2_scheme \<Rightarrow> 'a ps2_scheme" where
  "report_key keycode s = (if release_next s then kb_key_released keycode s else kb_key_pressed keycode s)"

definition unknown_scancode :: "u8 \<Rightarrow> 'a console_scheme \<Rightarrow> 'a console_scheme" where
  "unknown_scancode scancode s = printk (msg ''warn: ps/2: unknown scancode: %02X'') [Word (ucast scancode)] s"

definition scan3 :: "u8 \<Rightarrow> 'a ps2_scheme \<Rightarrow> 'a ps2_scheme" where
  "scan3 scancode s =
     (if scancode = 0xf0 then s\<lparr>release_next := True\<rparr>
      else let keycode = scs3_keycodes ! unat scancode;
               s = (if keycode = 0xff then unknown_scancode scancode s else report_key keycode s)
           in s\<lparr>release_next := False\<rparr>)"

definition scan2 :: "u8 \<Rightarrow> 'a ps2_scheme \<Rightarrow> 'a ps2_scheme" where
  "scan2 scancode s =
     (if scancode = 0xf0 then s\<lparr>release_next := True\<rparr>
      else if scancode = 0xe0 then s\<lparr>scancode_plane := 1\<rparr>
      else if scancode = 0xe1 then s\<lparr>ignore_next := 2\<rparr>
      else let keycode = scs2_keycodes ! unat (scancode_plane s) ! unat scancode;
               (keycode, s) =
                 (if ignore_next s \<noteq> 0
                  then let s = s\<lparr>ignore_next := ignore_next s - 1\<rparr>
                       in (if ignore_next s = 0 then 0x0f else 0xfe, s)
                  else (keycode, s));
               s = (if keycode = 0xff then unknown_scancode scancode s
                    else if keycode = 0xfe then s else report_key keycode s)
           in s\<lparr>release_next := False, scancode_plane := 0\<rparr>)"

definition scan_byte :: "u8 \<Rightarrow> 'a ps2_scheme \<Rightarrow> 'a ps2_scheme" where
  "scan_byte scancode s =
     (if scancode_set s = 3 then scan3 scancode s
      else if scancode_set s = 2 then scan2 scancode s
      else printk (msg ''info: ps/2: scancode set not yet supported'') [] s)"

definition ps2_key_pressed :: "'a ps2_scheme \<Rightarrow> 'a ps2_scheme" where
  "ps2_key_pressed s = (let (scancode, s) = inb PS2_KB_DATA s in pic_eoi 1 (scan_byte scancode s))"


section \<open>What the handler leaves alone\<close>

lemma ps2_printk [simp]:
  "scancode_set (printk f a s) = scancode_set s" "release_next (printk f a s) = release_next s"
  "ignore_next (printk f a s) = ignore_next s" "scancode_plane (printk f a s) = scancode_plane s"
  "IDT (printk f a s) = IDT s" "modifiers (printk f a s) = modifiers s" "queue_idx (printk f a s) = queue_idx s"
  using printk_frames(3) [of f a s] by (cases s, cases "printk f a s"; simp)+

lemma key_step_frame [frame]:
  "scancode_set (key_step e s) = scancode_set s" "release_next (key_step e s) = release_next s"
  "ignore_next (key_step e s) = ignore_next s" "scancode_plane (key_step e s) = scancode_plane s"
  "io (key_step e s) = io s" "device (key_step e s) = device s"
  by (simp_all add: key_step_map kb_set_mod_def kb_enqueue_def Let_def split: option.split key_event.split)

lemma key_step_commute:
  "key_step e (s\<lparr>io := x\<rparr>) = (key_step e s)\<lparr>io := x\<rparr>"
  "key_step e (s\<lparr>release_next := b\<rparr>) = (key_step e s)\<lparr>release_next := b\<rparr>"
  "key_step e (s\<lparr>scancode_plane := p\<rparr>) = (key_step e s)\<lparr>scancode_plane := p\<rparr>"
  "key_step e (s\<lparr>ignore_next := i\<rparr>) = (key_step e s)\<lparr>ignore_next := i\<rparr>"
  by (simp_all add: key_step_map kb_set_mod_def kb_get_mod_def kb_enqueue_def Let_def split: option.split key_event.split)

lemma report_key_step: "report_key k s = key_step (if release_next s then Release k else Press k) s"
  by (simp add: report_key_def)

section \<open>The decoder's states\<close>

definition scan_idle :: "'a ps2_scheme \<Rightarrow> bool" where
  "scan_idle s \<longleftrightarrow> \<not> release_next s \<and> ignore_next s = 0 \<and> scancode_plane s = 0"

definition decoder_ok :: "'a ps2_scheme \<Rightarrow> bool" where
  "decoder_ok s \<longleftrightarrow> unat (scancode_plane s) < 2 \<and> unat (ignore_next s) \<le> 2"

lemma idle_update:
  "\<not> release_next t \<Longrightarrow> t\<lparr>release_next := False\<rparr> = t" "scancode_plane t = 0 \<Longrightarrow> t\<lparr>scancode_plane := 0\<rparr> = t"
  "ignore_next t = 0 \<Longrightarrow> t\<lparr>ignore_next := 0\<rparr> = t"
  by (rule ps2.equality; simp)+

lemma table_lengths: "map length scs2_keycodes = [256, 256]" "length scs3_keycodes = 256"
  by (simp_all add: scs2_keycodes_def scs3_keycodes_def)

lemma decoder_fields_report [simp]:
  "scancode_plane (report_key k s) = scancode_plane s" "ignore_next (report_key k s) = ignore_next s"
  "scancode_set (report_key k s) = scancode_set s" "device (report_key k s) = device s"
  by (simp_all add: report_key_step frame del: key_step.simps)

lemma decoder_fields_unknown [simp]:
  "scancode_plane (unknown_scancode b s) = scancode_plane s" "ignore_next (unknown_scancode b s) = ignore_next s"
  "scancode_set (unknown_scancode b s) = scancode_set s" "device (unknown_scancode b s) = device s"
  by (simp_all add: unknown_scancode_def frame)

lemma scan_byte_frame [frame]:
  "scancode_set (scan_byte b s) = scancode_set s" "device (scan_byte b s) = device s"
  by (auto simp: scan_byte_def scan2_def scan3_def Let_def frame)

lemma unat_pred_le: "(i :: u8) \<noteq> 0 \<Longrightarrow> unat i \<le> 2 \<Longrightarrow> unat (i - 1) \<le> 2"
  by (simp add: unat_minus_one)

lemma decoder_ok_scan: "decoder_ok s \<Longrightarrow> decoder_ok (scan_byte b s)"
  by (auto simp: decoder_ok_def scan_byte_def scan2_def scan3_def Let_def intro: unat_pred_le)

text \<open>A byte is quiet when its handling neither reads nor writes the trace of port accesses.\<close>

definition quiet :: "u8 \<Rightarrow> 'a ps2_scheme \<Rightarrow> bool" where
  "quiet b s \<longleftrightarrow> (\<forall>x. scan_byte b (s\<lparr>io := x\<rparr>) = (scan_byte b s)\<lparr>io := x\<rparr>)"

fun quiet_run :: "u8 list \<Rightarrow> 'a ps2_scheme \<Rightarrow> bool" where
  "quiet_run [] s = True"
| "quiet_run (b # bs) s \<longleftrightarrow> quiet b s \<and> quiet_run bs (scan_byte b s)"

lemma quiet_run_append: "quiet_run (as @ bs) s \<longleftrightarrow> quiet_run as s \<and> quiet_run bs (fold scan_byte as s)"
  by (induction as arbitrary: s) auto

lemma quiet_io: "quiet b s \<Longrightarrow> quiet b (s\<lparr>io := x\<rparr>)"
  by (simp add: quiet_def)

lemma quiet_run_io: "quiet_run bs s \<Longrightarrow> quiet_run bs (s\<lparr>io := x\<rparr>)"
  by (induction bs arbitrary: s) (auto simp: quiet_io, auto simp: quiet_def)

text \<open>The data port of a keyboard that sends a given sequence of bytes, one for each read.\<close>

definition data_reads :: "io_event list \<Rightarrow> nat" where
  "data_reads tr = length (filter (\<lambda>e. case e of In p v \<Rightarrow> p = PS2_KB_DATA | _ \<Rightarrow> False) tr)"

definition sends :: "(nat \<Rightarrow> u8) \<Rightarrow> (io_event list \<Rightarrow> u16 \<Rightarrow> u8) \<Rightarrow> bool" where
  "sends bs dev \<longleftrightarrow> (\<forall>tr. dev tr PS2_KB_DATA = bs (data_reads tr))"

lemma data_reads_append: "data_reads (as @ bs) = data_reads as + data_reads bs"
  by (simp add: data_reads_def)

lemma interrupt_quiet:
  assumes "quiet (device s (io s) PS2_KB_DATA) s"
  shows "ps2_key_pressed s = (scan_byte (device s (io s) PS2_KB_DATA) s)
    \<lparr>io := io s @ [In PS2_KB_DATA (device s (io s) PS2_KB_DATA), Out 0x20 0x20]\<rparr>"
  using assms by (simp add: ps2_key_pressed_def quiet_def inb_def pic_eoi_def outb_def Let_def word_le_nat_alt)

lemma interrupts_quiet:
  assumes "quiet_run bs s" "sends stream (device s)"
    and "\<And>i. i < length bs \<Longrightarrow> stream (data_reads (io s) + i) = bs ! i"
  shows "\<exists>tr. (ps2_key_pressed ^^ length bs) s = (fold scan_byte bs s)\<lparr>io := tr\<rparr>"
  using assms
proof (induction bs arbitrary: s)
  case Nil
  have "s = s\<lparr>io := io s\<rparr>" by simp
  then show ?case by (metis fold_Nil funpow_0 id_apply list.size(3))
next
  case (Cons b bs)
  from Cons.prems(2) Cons.prems(3) [of 0] have b: "device s (io s) PS2_KB_DATA = b" by (simp add: sends_def)
  let ?x = "io s @ [In PS2_KB_DATA b, Out 0x20 0x20]"
  let ?t = "(scan_byte b s)\<lparr>io := ?x\<rparr>"
  have st: "ps2_key_pressed s = ?t" using interrupt_quiet [of s] b Cons.prems(1) by simp
  have n: "data_reads ?x = data_reads (io s) + 1" by (simp add: data_reads_append) (simp add: data_reads_def)
  have "\<exists>tr. (ps2_key_pressed ^^ length bs) ?t = (fold scan_byte bs ?t)\<lparr>io := tr\<rparr>"
  proof (rule Cons.IH)
    show "quiet_run bs ?t" using Cons.prems(1) by (simp add: quiet_run_io)
    show "sends stream (device ?t)" using Cons.prems(2) by (simp add: frame)
    show "stream (data_reads (io ?t) + i) = bs ! i" if "i < length bs" for i
      using Cons.prems(3) [of "Suc i"] that n by simp
  qed
  moreover have "(fold scan_byte bs ?t)\<lparr>io := tr\<rparr> = (fold scan_byte bs (scan_byte b s))\<lparr>io := tr\<rparr>" for tr
  proof -
    have "quiet_run bs u \<Longrightarrow> (fold scan_byte bs (u\<lparr>io := y\<rparr>))\<lparr>io := tr\<rparr> = (fold scan_byte bs u)\<lparr>io := tr\<rparr>" for u :: "'a ps2_scheme" and y
      by (induction bs arbitrary: u y) (auto simp: quiet_def)
    with Cons.prems(1) show ?thesis by simp
  qed
  moreover have "(ps2_key_pressed ^^ length (b # bs)) s = (ps2_key_pressed ^^ length bs) ?t"
    by (simp add: funpow_Suc_right st del: funpow.simps)
  ultimately show ?case by simp
qed

section \<open>Scancode protocols\<close>

text \<open>
  What the two scancode sets have in common: a keystroke is a sequence of bytes that takes the
  decoder from its idle state back to it, with the effect of the key events it stands for.
\<close>

definition spread :: "('k \<Rightarrow> bool \<Rightarrow> 'b list) \<Rightarrow> ('k \<times> bool) list \<Rightarrow> 'b list" where
  "spread f strokes = concat (map (\<lambda>(k, p). f k p) strokes)"

locale scan_protocol =
  fixes set_no :: u8
    and valid :: "'k \<Rightarrow> bool"
    and bytes :: "'k \<Rightarrow> bool \<Rightarrow> u8 list"
    and events :: "'k \<Rightarrow> bool \<Rightarrow> key_event list"
    and ready :: "'s ps2_scheme \<Rightarrow> bool"
  assumes ready_key: "ready s \<Longrightarrow> ready (key_step e s)"
    and decode: "valid k \<Longrightarrow> ready s \<Longrightarrow> fold scan_byte (bytes k p) s = fold key_step (events k p) s"
    and decode_quiet: "valid k \<Longrightarrow> ready s \<Longrightarrow> quiet_run (bytes k p) s"
begin

lemma ready_keys: "ready s \<Longrightarrow> ready (fold key_step es s)"
  by (induction es arbitrary: s) (auto simp: ready_key simp del: key_step.simps)

lemma decode_all:
  assumes "\<forall>(k, p) \<in> set strokes. valid k" "ready s"
  shows "fold scan_byte (spread bytes strokes) s = fold key_step (spread events strokes) s
    \<and> quiet_run (spread bytes strokes) s"
  using assms
proof (induction strokes arbitrary: s)
  case (Cons kp strokes)
  obtain k p where kp: "kp = (k, p)" by (cases kp)
  with Cons.prems have "valid k" by auto
  note d = decode [OF this Cons.prems(2), of p] decode_quiet [OF this Cons.prems(2), of p]
  have "ready (fold key_step (events k p) s)" by (rule ready_keys [OF Cons.prems(2)])
  from Cons.IH [OF _ this] Cons.prems(1) d show ?case
    by (simp add: kp spread_def quiet_run_append)
qed (simp add: spread_def)

lemma interrupts_decode:
  assumes "\<forall>(k, p) \<in> set strokes. valid k" "ready s" "sends stream (device s)"
    and "\<And>i. i < length (spread bytes strokes) \<Longrightarrow> stream (data_reads (io s) + i) = spread bytes strokes ! i"
  shows "\<exists>tr. (ps2_key_pressed ^^ length (spread bytes strokes)) s
    = (fold key_step (spread events strokes) s)\<lparr>io := tr\<rparr>"
  using interrupts_quiet [of "spread bytes strokes" s stream] decode_all [OF assms(1,2)] assms(3,4) by auto

end

definition set_ready :: "u8 \<Rightarrow> 'a ps2_scheme \<Rightarrow> bool" where
  "set_ready n s \<longleftrightarrow> scancode_set s = n \<and> scan_idle s"

lemma set_ready_key: "set_ready n s \<Longrightarrow> set_ready n (key_step e s)"
  by (simp add: set_ready_def scan_idle_def frame del: key_step.simps)

text \<open>Set 3: a byte for each key, after 0xf0 for a release.\<close>

definition break_code :: "bool \<Rightarrow> u8 list" where
  "break_code pressed = (if pressed then [] else [0xf0])"

definition key_event_of :: "bool \<Rightarrow> u8 \<Rightarrow> key_event" where
  "key_event_of pressed k = (if pressed then Press k else Release k)"

definition valid3 :: "u8 \<Rightarrow> bool" where
  "valid3 b \<longleftrightarrow> scs3_keycodes ! unat b \<noteq> 0xff"

definition bytes3 :: "u8 \<Rightarrow> bool \<Rightarrow> u8 list" where
  "bytes3 b p = break_code p @ [b]"

definition events3 :: "u8 \<Rightarrow> bool \<Rightarrow> key_event list" where
  "events3 b p = [key_event_of p (scs3_keycodes ! unat b)]"

lemma quiet_defs: "quiet 0xf0 s" if "scancode_set s = 3 \<or> scancode_set s = 2"
  using that by (auto simp: quiet_def scan_byte_def scan3_def scan2_def)

lemma scan3_key:
  assumes "valid3 b" "scancode_set s = 3"
  shows "scan_byte b s = (key_step (key_event_of (\<not> release_next s) (scs3_keycodes ! unat b)) s)\<lparr>release_next := False\<rparr>"
    and "quiet b s"
proof -
  have "scs3_keycodes ! unat (0xf0 :: u8) = 0xff" by code_simp
  with assms(1) have "b \<noteq> 0xf0" by (auto simp: valid3_def)
  then have *: "scan_byte b s = (key_step (key_event_of (\<not> release_next s) (scs3_keycodes ! unat b)) s)\<lparr>release_next := False\<rparr>"
    if "scancode_set s = 3" for s :: "'a ps2_scheme"
    using assms(1) that
    by (simp add: scan_byte_def scan3_def Let_def valid3_def report_key_step key_event_of_def del: key_step.simps)
  from * [OF assms(2)]
  show "scan_byte b s = (key_step (key_event_of (\<not> release_next s) (scs3_keycodes ! unat b)) s)\<lparr>release_next := False\<rparr>" .
  show "quiet b s" using assms(2) by (simp add: quiet_def * key_step_commute del: key_step.simps)
qed

interpretation set3: scan_protocol 3 valid3 bytes3 events3 "set_ready 3"
proof
  fix b p and s :: "'a ps2_scheme" and e
  show "set_ready 3 s \<Longrightarrow> set_ready 3 (key_step e s)" by (rule set_ready_key)
  assume v: "valid3 b" and r: "set_ready 3 s"
  then have r': "scancode_set s = 3" "\<not> release_next s" by (simp_all add: set_ready_def scan_idle_def)
  let ?t = "s\<lparr>release_next := True\<rparr>"
  have t: "scan_byte 0xf0 s = ?t" using r' by (simp add: scan_byte_def scan3_def)
  show "fold scan_byte (bytes3 b p) s = fold key_step (events3 b p) s"
    using scan3_key(1) [OF v, of s] scan3_key(1) [OF v, of ?t] r' t
    by (simp add: bytes3_def events3_def break_code_def key_event_of_def key_step_commute idle_update frame
        del: key_step.simps)
  show "quiet_run (bytes3 b p) s"
    using scan3_key(2) [OF v, of s] scan3_key(2) [OF v, of ?t] r' t
    by (simp add: bytes3_def break_code_def quiet_defs)
qed

text \<open>
  Set 2: one byte for most keys, one after 0xe0 for the others, 0xf0 before the byte of a release;
  the Pause key sends 0xe1 and two bytes. The extended byte 0x12 accompanies other keys and is no
  key of its own (table entry 0xfe).
\<close>

datatype scan_key = Plain u8 | Extended u8 | Pause

fun code2 :: "scan_key \<Rightarrow> u8" where
  "code2 (Plain b) = scs2_keycodes ! 0 ! unat b"
| "code2 (Extended b) = scs2_keycodes ! 1 ! unat b"
| "code2 Pause = 0x0f"

definition valid2 :: "scan_key \<Rightarrow> bool" where
  "valid2 k \<longleftrightarrow> code2 k \<noteq> 0xff"

fun bytes2 :: "scan_key \<Rightarrow> bool \<Rightarrow> u8 list" where
  "bytes2 (Plain b) p = break_code p @ [b]"
| "bytes2 (Extended b) p = 0xe0 # break_code p @ [b]"
| "bytes2 Pause p = 0xe1 # break_code p @ 0x14 # break_code p @ [0x77]"

definition events2 :: "scan_key \<Rightarrow> bool \<Rightarrow> key_event list" where
  "events2 k p = (if code2 k = 0xfe then [] else [key_event_of p (code2 k)])"

lemma scan2_prefixes:
  assumes "scancode_set s = 2"
  shows "scan_byte 0xf0 s = s\<lparr>release_next := True\<rparr>" "scan_byte 0xe0 s = s\<lparr>scancode_plane := 1\<rparr>"
    "scan_byte 0xe1 s = s\<lparr>ignore_next := 2\<rparr>" "quiet 0xf0 s" "quiet 0xe0 s" "quiet 0xe1 s"
  using assms by (simp_all add: quiet_def scan_byte_def scan2_def)

lemma scan2_key:
  assumes "scancode_set s = 2" "ignore_next s = 0" "b \<noteq> 0xf0" "b \<noteq> 0xe0" "b \<noteq> 0xe1"
    and "scs2_keycodes ! unat (scancode_plane s) ! unat b = k" "k \<noteq> 0xff"
  shows "scan_byte b s = (if k = 0xfe then s else key_step (key_event_of (\<not> release_next s) k) s)
      \<lparr>release_next := False, scancode_plane := 0\<rparr>" (is ?A)
    and "quiet b s" (is ?B)
proof -
  have *: "scan_byte b s = (if k = 0xfe then s else key_step (key_event_of (\<not> release_next s) k) s)
      \<lparr>release_next := False, scancode_plane := 0\<rparr>"
    if "scancode_set s = 2" "ignore_next s = 0" "scs2_keycodes ! unat (scancode_plane s) ! unat b = k"
    for s :: "'a ps2_scheme"
    using assms(3-5,7) that
    by (simp add: scan_byte_def scan2_def Let_def report_key_step key_event_of_def del: key_step.simps)
  from * [OF assms(1,2,6)] show ?A .
  show ?B using assms by (simp add: quiet_def * key_step_commute del: key_step.simps)
qed

lemma scan2_ignored:
  assumes "scancode_set s = 2" "b \<noteq> 0xf0" "b \<noteq> 0xe0" "b \<noteq> 0xe1" "ignore_next s = i" "i \<noteq> 0"
  shows "scan_byte b s = (if i = 1 then key_step (key_event_of (\<not> release_next s) 0x0f) s else s)
      \<lparr>ignore_next := i - 1, release_next := False, scancode_plane := 0\<rparr>" (is ?A)
    and "quiet b s" (is ?B)
proof -
  have *: "scan_byte b s = (if i = 1 then key_step (key_event_of (\<not> release_next s) 0x0f) s else s)
      \<lparr>ignore_next := i - 1, release_next := False, scancode_plane := 0\<rparr>"
    if "scancode_set s = 2" "ignore_next s = i" for s :: "'a ps2_scheme"
    using assms(2-4,6) that
    by (auto simp: scan_byte_def scan2_def Let_def report_key_step key_event_of_def key_step_commute
        simp del: key_step.simps)
  from * [OF assms(1,5)] show ?A .
  show ?B using assms by (simp add: quiet_def * key_step_commute del: key_step.simps)
qed

lemma prefixes_no_keys:
  "valid2 (Plain b) \<or> valid2 (Extended b) \<Longrightarrow> b \<noteq> 0xf0 \<and> b \<noteq> 0xe0 \<and> b \<noteq> 0xe1"
proof -
  have "scs2_keycodes ! 0 ! unat (0xf0 :: u8) = 0xff" "scs2_keycodes ! 1 ! unat (0xf0 :: u8) = 0xff"
    "scs2_keycodes ! 0 ! unat (0xe0 :: u8) = 0xff" "scs2_keycodes ! 1 ! unat (0xe0 :: u8) = 0xff"
    "scs2_keycodes ! 0 ! unat (0xe1 :: u8) = 0xff" "scs2_keycodes ! 1 ! unat (0xe1 :: u8) = 0xff"
    by code_simp+
  then show "valid2 (Plain b) \<or> valid2 (Extended b) \<Longrightarrow> b \<noteq> 0xf0 \<and> b \<noteq> 0xe0 \<and> b \<noteq> 0xe1"
    by (auto simp: valid2_def)
qed

lemma scan2_tail:
  assumes "scancode_set s = 2" "ignore_next s = 0" "\<not> release_next s" "b \<noteq> 0xf0 \<and> b \<noteq> 0xe0 \<and> b \<noteq> 0xe1"
    and k: "scs2_keycodes ! unat (scancode_plane s) ! unat b = k" "k \<noteq> 0xff"
  shows "fold scan_byte (break_code p @ [b]) s
      = (fold key_step (if k = 0xfe then [] else [key_event_of p k]) s)\<lparr>scancode_plane := 0\<rparr>"
    and "quiet_run (break_code p @ [b]) s"
proof -
  let ?t = "s\<lparr>release_next := True\<rparr>"
  have t: "scan_byte 0xf0 s = ?t" using assms(1) by (rule scan2_prefixes)
  note key = scan2_key [of s b k] scan2_key [of ?t b k]
  show "fold scan_byte (break_code p @ [b]) s
      = (fold key_step (if k = 0xfe then [] else [key_event_of p k]) s)\<lparr>scancode_plane := 0\<rparr>"
    using key assms by (simp add: break_code_def t key_step_commute idle_update frame del: key_step.simps)
  show "quiet_run (break_code p @ [b]) s"
    using key assms by (simp add: break_code_def t scan2_prefixes)
qed

lemma scan2_ignored_tail:
  assumes "scancode_set s = 2" "\<not> release_next s" "b \<noteq> 0xf0" "b \<noteq> 0xe0" "b \<noteq> 0xe1" "ignore_next s = i" "i \<noteq> 0"
  shows "fold scan_byte (break_code p @ [b]) s
      = (if i = 1 then key_step (key_event_of p 0x0f) s else s)
          \<lparr>ignore_next := i - 1, release_next := False, scancode_plane := 0\<rparr>"
    and "quiet_run (break_code p @ [b]) s"
proof -
  let ?t = "s\<lparr>release_next := True\<rparr>"
  have t: "scan_byte 0xf0 s = ?t" using assms(1) by (rule scan2_prefixes)
  note ignored = scan2_ignored [OF assms(1,3-7)] scan2_ignored [of ?t b i]
  show "fold scan_byte (break_code p @ [b]) s
      = (if i = 1 then key_step (key_event_of p 0x0f) s else s)
          \<lparr>ignore_next := i - 1, release_next := False, scancode_plane := 0\<rparr>"
    using ignored assms by (cases p) (simp_all add: break_code_def t key_step_commute del: key_step.simps)
  show "quiet_run (break_code p @ [b]) s"
    using ignored assms by (cases p) (simp_all add: break_code_def t scan2_prefixes)
qed

lemma scan2_pause:
  assumes "set_ready 2 s"
  shows "fold scan_byte (bytes2 Pause p) s = key_step (key_event_of p 0x0f) s" "quiet_run (bytes2 Pause p) s"
proof -
  have r: "scancode_set s = 2" "ignore_next s = 0" "\<not> release_next s" "scancode_plane s = 0"
    using assms by (simp_all add: set_ready_def scan_idle_def)
  have bytes: "bytes2 Pause p = 0xe1 # (break_code p @ [0x14]) @ (break_code p @ [0x77])" by simp
  define t where "t = s\<lparr>ignore_next := 2\<rparr>"
  define u where "u = t\<lparr>ignore_next := 1, release_next := False, scancode_plane := 0\<rparr>"
  have t: "scan_byte 0xe1 s = t" "quiet 0xe1 s" using r(1) by (simp_all add: scan2_prefixes t_def)
  have tu: "fold scan_byte (break_code p @ [0x14]) t = u" "quiet_run (break_code p @ [0x14]) t"
    using scan2_ignored_tail [of t "0x14" 2 p] r by (simp_all add: t_def u_def)
  have u: "u = s\<lparr>ignore_next := 1\<rparr>" using r by (intro ps2.equality) (simp_all add: u_def t_def)
  have "scancode_set u = 2" "\<not> release_next u" "ignore_next u = 1" using r by (simp_all add: u)
  note last = scan2_ignored_tail [OF this(1,2) _ _ _ this(3), of "0x77" p]
  have "quiet_run ((break_code p @ [0x14]) @ (break_code p @ [0x77])) t"
    using last(2) tu by (subst quiet_run_append) simp
  then show "quiet_run (bytes2 Pause p) s" by (simp only: bytes quiet_run.simps t)
  have "fold scan_byte (0xe1 # as @ bs) s = fold scan_byte bs (fold scan_byte as (scan_byte 0xe1 s))" for as bs
    by simp
  then have "fold scan_byte (bytes2 Pause p) s = fold scan_byte (break_code p @ [0x77]) u"
    by (simp only: bytes t tu)
  also have "\<dots> = (key_step (key_event_of p 0x0f) s)\<lparr>ignore_next := 0, release_next := False, scancode_plane := 0\<rparr>"
    using last(1) by (simp add: u key_step_commute del: key_step.simps)
  also have "\<dots> = key_step (key_event_of p 0x0f) s"
    using r by (simp add: idle_update frame del: key_step.simps)
  finally show "fold scan_byte (bytes2 Pause p) s = key_step (key_event_of p 0x0f) s" .
qed

interpretation set2: scan_protocol 2 valid2 bytes2 events2 "set_ready 2"
proof
  fix k p and s :: "'a ps2_scheme" and e
  show "set_ready 2 s \<Longrightarrow> set_ready 2 (key_step e s)" by (rule set_ready_key)
  assume v: "valid2 k" and r: "set_ready 2 s"
  have r': "scancode_set s = 2" "ignore_next s = 0" "\<not> release_next s" "scancode_plane s = 0"
    using r by (simp_all add: set_ready_def scan_idle_def)
  have "fold scan_byte (bytes2 k p) s = fold key_step (events2 k p) s \<and> quiet_run (bytes2 k p) s"
  proof (cases k)
    case (Plain b)
    then have b: "b \<noteq> 0xf0 \<and> b \<noteq> 0xe0 \<and> b \<noteq> 0xe1" using v prefixes_no_keys by blast
    from v Plain have c: "code2 k \<noteq> 0xff" "scs2_keycodes ! unat (scancode_plane s) ! unat b = code2 k"
      by (simp_all add: valid2_def r')
    from scan2_tail [OF r'(1-3) b c(2,1), of p] r'(4) Plain show ?thesis
      by (simp add: events2_def idle_update frame del: key_step.simps)
  next
    case (Extended b)
    then have b: "b \<noteq> 0xf0 \<and> b \<noteq> 0xe0 \<and> b \<noteq> 0xe1" using v prefixes_no_keys by blast
    let ?t = "s\<lparr>scancode_plane := 1\<rparr>"
    from v Extended have c: "code2 k \<noteq> 0xff" "scs2_keycodes ! unat (scancode_plane ?t) ! unat b = code2 k"
      by (simp_all add: valid2_def)
    have t: "scancode_set ?t = 2" "ignore_next ?t = 0" "\<not> release_next ?t" using r' by simp_all
    from scan2_tail [OF t b c(2,1), of p] r' Extended show ?thesis
      by (simp add: events2_def scan2_prefixes key_step_commute idle_update frame del: key_step.simps)
  next
    case Pause
    with scan2_pause [OF r, of p] show ?thesis by (simp add: events2_def)
  qed
  then show "fold scan_byte (bytes2 k p) s = fold key_step (events2 k p) s" "quiet_run (bytes2 k p) s" by simp_all
qed

section \<open>Polling\<close>

text \<open>The machine after \<open>n\<close> reads of the status port, and the status that the next one gives.\<close>

definition polls :: "nat \<Rightarrow> 'a machine_scheme \<Rightarrow> 'a machine_scheme" where
  "polls n = (\<lambda>s. snd (inb PS2_KB_STATUS s)) ^^ n"

definition status_at :: "nat \<Rightarrow> 'a machine_scheme \<Rightarrow> u8" where
  "status_at n s = device s (io (polls n s)) PS2_KB_STATUS"

text \<open>The first poll whose status satisfies \<open>P\<close>.\<close>

definition first_poll :: "(u8 \<Rightarrow> bool) \<Rightarrow> nat \<Rightarrow> 'a machine_scheme \<Rightarrow> bool" where
  "first_poll P n s \<longleftrightarrow> P (status_at n s) \<and> (\<forall>i<n. \<not> P (status_at i s))"

lemma polls_Suc: "polls (Suc n) s = polls n (snd (inb PS2_KB_STATUS s))"
  by (simp add: polls_def funpow_Suc_right del: funpow.simps)

lemma status_at_Suc: "status_at (Suc n) s = status_at n (snd (inb PS2_KB_STATUS s))"
  by (simp add: status_at_def polls_Suc)

lemma status_at_0: "status_at 0 s = fst (inb PS2_KB_STATUS s)"
  by (simp add: status_at_def polls_def)

lemma first_poll_0: "first_poll P 0 s \<longleftrightarrow> P (fst (inb PS2_KB_STATUS s))"
  by (simp add: first_poll_def status_at_0)

lemma first_poll_Suc:
  "first_poll P (Suc n) s \<longleftrightarrow> \<not> P (fst (inb PS2_KB_STATUS s)) \<and> first_poll P n (snd (inb PS2_KB_STATUS s))"
  by (auto simp: first_poll_def status_at_Suc status_at_0 All_less_Suc2)

lemma wait_out_polls:
  "first_poll (\<lambda>v. v AND 2 = 0) n s \<Longrightarrow> wait_out p v s = Some (outb p v (polls (Suc n) s))"
proof (induction n arbitrary: s)
  case 0
  then show ?case by (subst wait_out.simps) (simp add: first_poll_0 case_prod_beta polls_Suc, simp add: polls_def)
next
  case (Suc n)
  then show ?case by (subst wait_out.simps) (simp add: first_poll_Suc case_prod_beta polls_Suc [of "Suc n"])
qed

lemma wait_in_polls:
  "first_poll (\<lambda>v. v AND 1 \<noteq> 0) n s \<Longrightarrow> wait_in s = Some (inb PS2_KB_DATA (polls (Suc n) s))"
proof (induction n arbitrary: s)
  case 0
  then show ?case by (subst wait_in.simps) (simp add: first_poll_0 case_prod_beta polls_Suc, simp add: polls_def)
next
  case (Suc n)
  then show ?case by (subst wait_in.simps) (simp add: first_poll_Suc case_prod_beta polls_Suc [of "Suc n"])
qed

lemma first_pollI:
  "(\<not> P (fst (inb PS2_KB_STATUS s)) \<Longrightarrow> \<exists>n. first_poll P n (snd (inb PS2_KB_STATUS s))) \<Longrightarrow> \<exists>n. first_poll P n s"
  by (metis first_poll_0 first_poll_Suc)

lemma wait_out_returns:
  assumes "wait_out p v s = Some t"
  shows "\<exists>n. first_poll (\<lambda>v. v AND 2 = 0) n s"
proof (rule wait_out.raw_induct [where P = "\<lambda>p v s t. \<exists>n. first_poll (\<lambda>v. v AND 2 = 0) n s", OF _ assms])
  fix f p v and s :: "'a machine_scheme" and t
  assume f: "\<And>p v (s :: 'a machine_scheme) y. f p v s = Some y \<Longrightarrow> \<exists>n. first_poll (\<lambda>v. v AND 2 = 0) n s"
    and step: "(let (status, s) = inb PS2_KB_STATUS s in
      if status AND PS2_KB_INPUT_BUFFER_STATUS \<noteq> 0 then f p v s else Some (outb p v s)) = Some t"
  show "\<exists>n. first_poll (\<lambda>v. v AND 2 = 0) n s"
  proof (rule first_pollI)
    assume "fst (inb PS2_KB_STATUS s) AND 2 \<noteq> 0"
    with step have "f p v (snd (inb PS2_KB_STATUS s)) = Some t" by (cases "inb PS2_KB_STATUS s") simp
    then show "\<exists>n. first_poll (\<lambda>v. v AND 2 = 0) n (snd (inb PS2_KB_STATUS s))" by (rule f)
  qed
qed

lemma wait_in_returns:
  assumes "wait_in s = Some t"
  shows "\<exists>n. first_poll (\<lambda>v. v AND 1 \<noteq> 0) n s"
proof (rule wait_in.raw_induct [where P = "\<lambda>s t. \<exists>n. first_poll (\<lambda>v. v AND 1 \<noteq> 0) n s", OF _ assms])
  fix f and s :: "'a machine_scheme" and t
  assume f: "\<And>(s :: 'a machine_scheme) y. f s = Some y \<Longrightarrow> \<exists>n. first_poll (\<lambda>v. v AND 1 \<noteq> 0) n s"
    and step: "(let (status, s) = inb PS2_KB_STATUS s in
      if status AND PS2_KB_OUTPUT_BUFFER_STATUS = 0 then f s else Some (inb PS2_KB_DATA s)) = Some t"
  show "\<exists>n. first_poll (\<lambda>v. v AND 1 \<noteq> 0) n s"
  proof (rule first_pollI)
    assume "\<not> fst (inb PS2_KB_STATUS s) AND 1 \<noteq> 0"
    with step have "f (snd (inb PS2_KB_STATUS s)) = Some t" by (cases "inb PS2_KB_STATUS s") simp
    then show "\<exists>n. first_poll (\<lambda>v. v AND 1 \<noteq> 0) n (snd (inb PS2_KB_STATUS s))" by (rule f)
  qed
qed

section \<open>The handshake\<close>

text \<open>
  A trace is polite when every byte for the controller follows a status that says its input buffer
  is empty, and every byte is read from it after a status that says there is one.
\<close>

fun allowed :: "io_event option \<Rightarrow> io_event \<Rightarrow> bool" where
  "allowed prev (Out p v) = (p = PS2_KB_DATA \<or> p = PS2_KB_CMD \<longrightarrow>
     (case prev of Some (In q st) \<Rightarrow> q = PS2_KB_STATUS \<and> st AND PS2_KB_INPUT_BUFFER_STATUS = 0 | _ \<Rightarrow> False))"
| "allowed prev (In p v) = (p = PS2_KB_DATA \<longrightarrow>
     (case prev of Some (In q st) \<Rightarrow> q = PS2_KB_STATUS \<and> st AND PS2_KB_OUTPUT_BUFFER_STATUS \<noteq> 0 | _ \<Rightarrow> False))"

fun polite_after :: "io_event option \<Rightarrow> io_event list \<Rightarrow> bool" where
  "polite_after prev [] = True"
| "polite_after prev (e # es) \<longleftrightarrow> allowed prev e \<and> polite_after (Some e) es"

abbreviation (input) polite :: "io_event list \<Rightarrow> bool" where
  "polite \<equiv> polite_after None"

text \<open>Formats whose arguments match, so that printing them writes the screen only.\<close>

definition printable :: "u8 list \<Rightarrow> va list \<Rightarrow> bool" where
  "printable cs args \<longleftrightarrow> (\<exists>out. renders cs args out)"

lemma renders_number:
  assumes "renders cs args out"
  shows "renders (0x25 # 0x64 # cs) (Word x # args)
      ((if x <s 0 then 0x2d # map (digit_char 0) (numeral_of 10 (unat (- x))) else map (digit_char 0) (numeral_of 10 (unat x))) @ out)"
    "renders (0x25 # 0x30 # 0x32 # 0x58 # cs) (Word x # args) (pad 2 0x30 (map (digit_char 0x41) (numeral_of 16 (unat x))) @ out)"
proof -
  have p: "pad 0 f ds = ds" for f ds by (simp add: pad_def)
  show "renders (0x25 # 0x64 # cs) (Word x # args)
      ((if x <s 0 then 0x2d # map (digit_char 0) (numeral_of 10 (unat (- x))) else map (digit_char 0) (numeral_of 10 (unat x))) @ out)"
    using assms by (fastforce simp: renders_def parse_filler_def render_directive_def render_num_def with_prefix_def Let_def p)
  show "renders (0x25 # 0x30 # 0x32 # 0x58 # cs) (Word x # args) (pad 2 0x30 (map (digit_char 0x41) (numeral_of 16 (unat x))) @ out)"
    using assms by (fastforce simp: renders_def parse_filler_def render_directive_def render_num_def Let_def)
qed

lemma printable_plain: "0x25 \<notin> set bs \<Longrightarrow> printable bs []"
  using renders_plain [of bs "[]" "[]"] renders_Nil by (auto simp: printable_def)

lemma printable_step:
  "printable [] args" "c \<noteq> 0x25 \<Longrightarrow> printable cs args \<Longrightarrow> printable (c # cs) args"
  "printable cs args \<Longrightarrow> printable (0x25 # 0x64 # cs) (Word x # args)"
  "printable cs args \<Longrightarrow> printable (0x25 # 0x30 # 0x32 # 0x58 # cs) (Word x # args)"
proof -
  show "printable [] args" using renders_Nil by (auto simp: printable_def)
  show "c \<noteq> 0x25 \<Longrightarrow> printable cs args \<Longrightarrow> printable (c # cs) args"
    using renders_plain [of "[c]" cs args] by (auto simp: printable_def)
  show "printable cs args \<Longrightarrow> printable (0x25 # 0x64 # cs) (Word x # args)"
    unfolding printable_def by (blast intro: renders_number)
  show "printable cs args \<Longrightarrow> printable (0x25 # 0x30 # 0x32 # 0x58 # cs) (Word x # args)"
    unfolding printable_def by (blast intro: renders_number)
qed

text \<open>
  \<open>talks s t\<close>: from \<open>s\<close> to \<open>t\<close> the trace grows by a polite one, something may have been printed, and apart from the
  screen and the scan code set nothing changes.
\<close>

definition talks :: "'a ps2_scheme \<Rightarrow> 'a ps2_scheme \<Rightarrow> bool" where
  "talks s t \<longleftrightarrow> device t = device s \<and> char_drivers t = char_drivers s \<and> block_drivers t = block_drivers s
     \<and> (\<exists>new. io t = io s @ new \<and> polite new)
     \<and> (\<exists>out. prints s out t) \<and> same_rest (s\<lparr>scancode_set := 0\<rparr>) (t\<lparr>scancode_set := 0\<rparr>)"

lemma same_rest_set: "same_rest s t \<Longrightarrow> same_rest (s\<lparr>scancode_set := n\<rparr>) (t\<lparr>scancode_set := n\<rparr>)"
  by (cases s, cases t) (simp add: same_rest_def console_frame_def)

lemma same_rest_tables: "same_rest s t \<Longrightarrow> char_drivers t = char_drivers s" "same_rest s t \<Longrightarrow> block_drivers t = block_drivers s"
  by (cases s, cases t, simp add: same_rest_def console_frame_def)+

lemma talksI:
  assumes "same_rest s t" "io t = io s @ new" "polite new" "prints s out t"
  shows "talks s t"
  using assms same_rest_set [OF assms(1), of 0] same_rest_tables [OF assms(1)]
  by (auto simp: talks_def same_rest_def console_frame_def)

lemma prints_same: "ram t = ram s \<Longrightarrow> vga_buffer t = vga_buffer s \<Longrightarrow> tty_pos t = tty_pos s \<Longrightarrow> tty_format t = tty_format s \<Longrightarrow> prints s [] t"
  by (simp add: prints_def console_ok_def screen_of_def)

lemma port_tables [simp]:
  "char_drivers (outb p v s) = char_drivers s" "block_drivers (outb p v s) = block_drivers s"
  "char_drivers (snd (inb p s)) = char_drivers s" "block_drivers (snd (inb p s)) = block_drivers s"
  by (simp_all add: outb_def inb_def Let_def)

lemma port_quiet:
  "same_rest s (outb p v s)" "same_rest s (snd (inb p s))" "prints s [] (outb p v s)" "prints s [] (snd (inb p s))"
  by (simp_all add: outb_def inb_def Let_def same_rest_def console_frame_def prints_same)

lemma polls_tables [simp]: "char_drivers (polls n s) = char_drivers s" "block_drivers (polls n s) = block_drivers s"
  by (induction n arbitrary: s) (simp_all add: polls_def funpow_swap1)

lemma allowed_None: "allowed None e \<Longrightarrow> allowed q e"
  by (cases e) auto

lemma polite_after_append: "polite_after q as \<Longrightarrow> polite bs \<Longrightarrow> polite_after q (as @ bs)"
proof (induction as arbitrary: q)
  case Nil
  then show ?case by (cases bs) (auto intro: allowed_None)
qed auto

lemma polite_statuses: "polite_after q (map (In PS2_KB_STATUS) sts)"
  by (induction sts arbitrary: q) auto

lemma talks_trans:
  assumes "talks s t" "talks t u"
  shows "talks s u"
proof -
  obtain a b where "io t = io s @ a" "polite a" "io u = io t @ b" "polite b" using assms by (auto simp: talks_def)
  then have "io u = io s @ (a @ b)" "polite (a @ b)" by (simp_all add: polite_after_append)
  moreover obtain o1 o2 where "prints s o1 t" "prints t o2 u" using assms by (auto simp: talks_def)
  then have "prints s (o1 @ o2) u" by (rule prints_trans)
  moreover have "same_rest (s\<lparr>scancode_set := 0\<rparr>) (u\<lparr>scancode_set := 0\<rparr>)"
    using assms same_rest_trans by (auto simp: talks_def)
  ultimately show ?thesis using assms by (auto simp: talks_def)
qed

lemma talks_refl: "talks s s"
  using prints_Nil [of s] by (auto simp: talks_def)

lemma polls_io:
  "same_rest s (polls n s) \<and> prints s [] (polls n s) \<and> (\<exists>sts. io (polls n s) = io s @ map (In PS2_KB_STATUS) sts)"
proof (induction n arbitrary: s)
  case (Suc n)
  let ?u = "snd (inb PS2_KB_STATUS s)"
  from Suc [of ?u] obtain sts where
    "io (polls (Suc n) s) = io s @ map (In PS2_KB_STATUS) (device s (io s) PS2_KB_STATUS # sts)"
    "same_rest ?u (polls (Suc n) s)" "prints ?u [] (polls (Suc n) s)" by (auto simp: polls_Suc)
  moreover have "same_rest s ?u" "prints s [] ?u" by (simp_all add: port_quiet)
  ultimately show ?case using same_rest_trans prints_trans [of s "[]" ?u "[]"] by fastforce
qed (simp add: polls_def prints_Nil)

lemma last_poll: "polls (Suc n) s = snd (inb PS2_KB_STATUS (polls n s))"
  by (simp add: polls_def)

lemma talks_wait_out:
  fixes s :: "'a ps2_scheme"
  assumes w: "wait_out p v s = Some t"
  shows "talks s t"
proof -
  from wait_out_returns [OF w] obtain n where n: "first_poll (\<lambda>v. v AND 2 = 0) n s" ..
  from w wait_out_polls [OF n] have t: "t = outb p v (polls (Suc n) s)" by simp
  from polls_io [of s n] obtain sts where sts: "device (polls n s) = device s"
    "io (polls n s) = io s @ map (In PS2_KB_STATUS) sts" by (auto simp: same_rest_def console_frame_def)
  have "status_at n s AND 2 = 0" using n by (simp add: first_poll_def)
  then have "polite (map (In PS2_KB_STATUS) sts @ [In PS2_KB_STATUS (status_at n s), Out p v])"
    by (intro polite_after_append polite_statuses) simp
  moreover have "io t = io s @ map (In PS2_KB_STATUS) sts @ [In PS2_KB_STATUS (status_at n s), Out p v]"
    using sts by (simp add: t last_poll status_at_def)
  moreover have "same_rest s t" "prints s [] t"
    using polls_io [of s "Suc n"] same_rest_trans [OF _ port_quiet(1)] prints_trans [OF _ port_quiet(3), of s "[]"]
    by (auto simp: t)
  ultimately show ?thesis by (intro talksI)
qed

lemma talks_wait_in:
  fixes s :: "'a ps2_scheme"
  assumes w: "wait_in s = Some (v, t)"
  shows "talks s t"
proof -
  from wait_in_returns [OF w] obtain n where n: "first_poll (\<lambda>v. v AND 1 \<noteq> 0) n s" ..
  from w wait_in_polls [OF n] have "inb PS2_KB_DATA (polls (Suc n) s) = (v, t)" by simp
  then have t: "t = snd (inb PS2_KB_DATA (polls (Suc n) s))" by simp
  from polls_io [of s n] obtain sts where sts: "device (polls n s) = device s"
    "io (polls n s) = io s @ map (In PS2_KB_STATUS) sts" by (auto simp: same_rest_def console_frame_def)
  let ?d = "In PS2_KB_DATA (device s (io (polls (Suc n) s)) PS2_KB_DATA)"
  have "status_at n s AND 1 \<noteq> 0" using n by (simp add: first_poll_def)
  then have "polite (map (In PS2_KB_STATUS) sts @ [In PS2_KB_STATUS (status_at n s), ?d])"
    by (intro polite_after_append polite_statuses) simp
  moreover have "io t = io s @ map (In PS2_KB_STATUS) sts @ [In PS2_KB_STATUS (status_at n s), ?d]"
    using sts by (simp add: t last_poll status_at_def)
  moreover have "same_rest s t" "prints s [] t"
    using polls_io [of s "Suc n"] same_rest_trans [OF _ port_quiet(2)] prints_trans [OF _ port_quiet(4), of s "[]"]
    by (auto simp: t)
  ultimately show ?thesis by (intro talksI)
qed

lemma polite_cursor: "list_all cursor_event es \<Longrightarrow> polite_after q es"
proof (induction es arbitrary: q)
  case (Cons e es)
  then show ?case by (cases e) (auto simp: cursor_event_def)
qed simp

lemma talks_printk:
  assumes "printable (lit f) a"
  shows "talks s (printk f a s)"
proof -
  obtain out where "renders (lit f) a out" using assms by (auto simp: printable_def)
  then have "prints s out (printk f a s)" by (rule printk_prints)
  moreover obtain new where "io (printk f a s) = io s @ new" "list_all cursor_event new"
    using cursor_io_printk [of s f a] by (auto simp: cursor_io_def)
  ultimately show ?thesis using polite_cursor [of new None] by (intro talksI) simp_all
qed

lemma talks_send1:
  fixes s :: "'a ps2_scheme"
  assumes "send_dev_command1 c s = Some r"
  shows "talks s (snd r)"
proof (rule send_dev_command1.raw_induct [where P = "\<lambda>c s r. talks s (snd r)", OF _ assms])
  fix f c and s :: "'a ps2_scheme" and r
  assume f: "\<And>c (s :: 'a ps2_scheme) r. f c s = Some r \<Longrightarrow> talks s (snd r)"
    and step: "(do {
       s \<leftarrow> wait_out PS2_KB_DATA c s;
       (status, s) \<leftarrow> wait_in s;
       if status = PS2_KB_RESEND then f c s else Some (status, s)
     }) = Some r"
  from step obtain t v u where "wait_out PS2_KB_DATA c s = Some t" "wait_in t = Some (v, u)"
    and r: "(if v = PS2_KB_RESEND then f c u else Some (v, u)) = Some r"
    by (auto simp: Option.bind_eq_Some_conv split: prod.splits)
  then have "talks s u" by (blast intro: talks_trans talks_wait_out talks_wait_in)
  then show "talks s (snd r)" using r by (auto split: if_splits dest!: f intro: talks_trans)
qed

lemma talks_send1': "send_dev_command1 c s = Some (v, t) \<Longrightarrow> talks s t"
  by (drule talks_send1) simp

lemma talks_scancode_set [simp]: "talks s (t\<lparr>scancode_set := v\<rparr>) = talks s t" "talks (s\<lparr>scancode_set := v\<rparr>) t = talks s t"
  by (simp_all add: talks_def prints_def console_ok_def screen_of_def)

lemma talks_printk_right: "talks s t \<Longrightarrow> printable (lit f) a \<Longrightarrow> talks s (printk f a t)"
  by (blast intro: talks_trans talks_printk)

lemma talks_printk_left: "talks (printk f a s) t \<Longrightarrow> printable (lit f) a \<Longrightarrow> talks s t"
  by (blast intro: talks_trans talks_printk)

text \<open>The messages of the driver.\<close>

lemma ps2_messages [simp]:
  "printable (lit (msg ''err: ps/2: first byte not ACKed: %02X %02X'')) [Word x, Word y]"
  "printable (lit (msg ''info: ps/2: setup successful'')) []"
  "printable (lit (msg ''warn: ps/2: unable to set scancode set'')) []"
  "printable (lit (msg ''err: ps/2: failed to determine scancode set'')) []"
  "printable (lit (msg ''err: ps/2: unknown scancode set: %d'')) [Word x]"
  "printable (lit (msg ''info: ps/2: using scancode set %d'')) [Word x]"
  "printable (lit (msg ''warn: ps/2: unable to reset devices'')) []"
  "printable (lit (msg ''err: ps/2: device self test failed'')) []"
  "printable (lit (msg ''err: ps/2: controller self test failed'')) []"
  "printable (lit (msg ''FATAL: ps/2: keyboard will not be available'')) []"
  by (rule printable_plain, simp add: lit_def msg_def nl_def | simp add: lit_def msg_def nl_def printable_step)+

lemma talks_send2: "send_dev_command2 c a s = Some (v, t) \<Longrightarrow> talks s t"
  by (auto simp: send_dev_command2_def Option.bind_eq_Some_conv Let_def split: prod.splits if_splits
      intro: talks_trans dest!: talks_send1' talks_printk_left intro: talks_printk_right)

lemma talks_cfg: "cfg_set v s = Some t \<Longrightarrow> talks s t" "cfg_clear v s = Some t \<Longrightarrow> talks s t"
  by (auto simp: cfg_set_def cfg_clear_def Option.bind_eq_Some_conv split: prod.splits
      dest!: talks_wait_out talks_wait_in intro: talks_trans)

lemma talks_enable: "controller_enable s = Some r \<Longrightarrow> talks s (snd r)"
  by (auto simp: controller_enable_def Option.bind_eq_Some_conv dest!: talks_cfg talks_wait_out
      intro!: talks_printk_right elim: talks_trans)

lemma talks_scancodes:
  assumes "controller_scancodes s = Some r"
  shows "talks s (snd r)"
proof -
  from assms obtain v1 t1 v2 t2
    where t: "send_dev_command2 PS2_KB_SETSCANCODESET 3 s = Some (v1, t1)"
      and u: "send_dev_command2 PS2_KB_SETSCANCODESET 0
        (if v1 \<noteq> PS2_KB_ACK then printk (msg ''warn: ps/2: unable to set scancode set'') [] t1 else t1) = Some (v2, t2)"
      and rest: "(if v2 \<noteq> PS2_KB_ACK
       then Some (False, printk (msg ''err: ps/2: failed to determine scancode set'') [] t2)
       else do {
         (v, s) \<leftarrow> wait_in t2;
         let s = s\<lparr>scancode_set := v\<rparr>;
         if v < 1 \<or> v > 3
         then Some (False, printk (msg ''err: ps/2: unknown scancode set: %d'') [Word (ucast v)] s)
         else controller_enable (printk (msg ''info: ps/2: using scancode set %d'') [Word (ucast v)] s)
       }) = Some r"
    by (auto simp: controller_scancodes_def Option.bind_eq_Some_conv Let_def split: prod.splits)
  from talks_send2 [OF t] talks_send2 [OF u] have "talks s t2"
    by (auto split: if_splits dest: talks_printk_left intro: talks_trans)
  moreover have "talks t2 (snd r)"
  proof (cases "v2 = PS2_KB_ACK")
    case False
    with rest show ?thesis by (auto intro!: talks_printk)
  next
    case True
    with rest obtain v t3 where w: "wait_in t2 = Some (v, t3)"
      and r: "(if v < 1 \<or> v > 3
         then Some (False, printk (msg ''err: ps/2: unknown scancode set: %d'') [Word (ucast v)] (t3\<lparr>scancode_set := v\<rparr>))
         else controller_enable (printk (msg ''info: ps/2: using scancode set %d'') [Word (ucast v)] (t3\<lparr>scancode_set := v\<rparr>)))
         = Some r"
      by (auto simp: Option.bind_eq_Some_conv Let_def split: prod.splits)
    have "talks u (snd r)" if "u = t3\<lparr>scancode_set := v\<rparr>" for u
      using r unfolding that [symmetric] by (auto split: if_splits intro!: talks_printk dest!: talks_enable dest: talks_printk_left)
    then have "talks t3 (snd r)" by simp
    with talks_wait_in [OF w] show ?thesis by (rule talks_trans)
  qed
  ultimately show ?thesis by (rule talks_trans)
qed

lemma talks_reset:
  assumes "controller_reset s = Some r"
  shows "talks s (snd r)"
proof -
  from assms obtain v t where t: "send_dev_command1 PS2_KB_RESET s = Some (v, t)"
    and rest: "(if v \<noteq> PS2_KB_ACK
       then controller_scancodes (printk (msg ''warn: ps/2: unable to reset devices'') [] t)
       else do {
         (result, s) \<leftarrow> wait_in t;
         if result \<noteq> PS2_KB_SELF_TEST_PASSED
         then Some (False, printk (msg ''err: ps/2: device self test failed'') [] s)
         else controller_scancodes s
       }) = Some r"
    by (auto simp: controller_reset_def Option.bind_eq_Some_conv split: prod.splits)
  have "talks t (snd r)" using rest
    by (auto simp: Option.bind_eq_Some_conv split: if_splits prod.splits
        dest!: talks_scancodes talks_wait_in talks_printk_left intro!: talks_printk_right elim: talks_trans)
  with talks_send1' [OF t] show ?thesis by (rule talks_trans)
qed

lemma talks_setup:
  assumes "controller_setup s = Some r"
  shows "talks s (snd r)"
proof -
  from assms obtain t v u where t: "wait_out PS2_KB_CMD PS2_KB_CONTROLLER_SELF_TEST s = Some t" "wait_in t = Some (v, u)"
    and rest: "(if v \<noteq> PS2_KB_CONTROLLER_SELF_TEST_PASSED
       then Some (False, printk (msg ''err: ps/2: controller self test failed'') [] u)
       else do {
         s \<leftarrow> wait_out PS2_KB_CMD PS2_KB_DISABLE1 u;
         s \<leftarrow> wait_out PS2_KB_CMD PS2_KB_DISABLE2 s;
         s \<leftarrow> cfg_clear (PS2_KB_ENABLE_IRQ1 OR PS2_KB_ENABLE_IRQ2 OR PS2_KB_TRANSLATE) s;
         controller_reset s
       }) = Some r"
    by (auto simp: controller_setup_def Option.bind_eq_Some_conv split: prod.splits)
  have "talks s u" using t by (blast intro: talks_trans talks_wait_out talks_wait_in)
  moreover have "talks u (snd r)" using rest
    by (auto simp: Option.bind_eq_Some_conv split: if_splits
        dest!: talks_reset talks_wait_out talks_cfg(2) intro!: talks_printk_right talks_refl)
      (metis talks_trans)
  ultimately show ?thesis by (rule talks_trans)
qed

section \<open>A cooperative controller\<close>

text \<open>
  A controller that is always ready and whose data port gives a sequence of answers. \<open>dialogue s k outs t\<close>: from
  \<open>s\<close> to \<open>t\<close> the driver has read \<open>k\<close> answers and sent exactly \<open>outs\<close>, without touching the interrupt
  controllers or the descriptor table.
\<close>

definition cooperative :: "(nat \<Rightarrow> u8) \<Rightarrow> (io_event list \<Rightarrow> u16 \<Rightarrow> u8) \<Rightarrow> bool" where
  "cooperative answers dev \<longleftrightarrow> sends answers dev \<and>
     (\<forall>tr. dev tr PS2_KB_STATUS AND 2 = 0 \<and> dev tr PS2_KB_STATUS AND 1 \<noteq> 0)"

fun sent_byte :: "io_event \<Rightarrow> (u16 \<times> u8) list" where
  "sent_byte (Out p v) = (if p = PS2_KB_DATA \<or> p = PS2_KB_CMD then [(p, v)] else [])"
| "sent_byte (In p v) = []"

fun pic_free :: "io_event \<Rightarrow> bool" where
  "pic_free (Out p v) \<longleftrightarrow> p \<noteq> MS_CMD \<and> p \<noteq> MS_DATA \<and> p \<noteq> SL_CMD \<and> p \<noteq> SL_DATA"
| "pic_free (In p v) \<longleftrightarrow> True"

definition dialogue :: "'a ps2_scheme \<Rightarrow> nat \<Rightarrow> (u16 \<times> u8) list \<Rightarrow> 'a ps2_scheme \<Rightarrow> bool" where
  "dialogue s k outs t \<longleftrightarrow> device t = device s \<and> IDT t = IDT s \<and>
     (\<exists>new. io t = io s @ new \<and> list_all pic_free new \<and> data_reads new = k \<and> concat (map sent_byte new) = outs)"

lemma dialogue_trans: "dialogue s k a t \<Longrightarrow> dialogue t j b u \<Longrightarrow> dialogue s (k + j) (a @ b) u"
  by (auto simp: dialogue_def data_reads_append)

lemma dialogue_next: "dialogue s k a t \<Longrightarrow> data_reads (io t) = data_reads (io s) + k"
  by (auto simp: dialogue_def data_reads_append)

lemma dialogue_device: "dialogue s k a t \<Longrightarrow> device t = device s"
  by (simp add: dialogue_def)

lemma cursor_dialogue:
  "list_all cursor_event es \<Longrightarrow> list_all pic_free es \<and> data_reads es = 0 \<and> concat (map sent_byte es) = []"
  by (induction es) (auto simp: cursor_event_def data_reads_def split: io_event.splits)

lemma dialogue_printk: "dialogue s 0 [] (printk f a s)"
  using cursor_io_printk [of s f a] by (auto simp: dialogue_def cursor_io_def frame dest: cursor_dialogue)

lemma dialogue_scancode_set: "dialogue s k a t \<Longrightarrow> dialogue s k a (t\<lparr>scancode_set := v\<rparr>)"
  by (simp add: dialogue_def)

lemma ready_poll: "cooperative answers (device s) \<Longrightarrow> first_poll (\<lambda>v. v AND 2 = 0) 0 s \<and> first_poll (\<lambda>v. v AND 1 \<noteq> 0) 0 s"
  by (simp add: cooperative_def first_poll_0)

lemma dialogue_wait_out:
  fixes s :: "'a ps2_scheme"
  assumes "cooperative answers (device s)" "p = PS2_KB_DATA \<or> p = PS2_KB_CMD"
  shows "\<exists>t. wait_out p v s = Some t \<and> dialogue s 0 [(p, v)] t"
proof -
  have t: "wait_out p v s = Some (outb p v (snd (inb PS2_KB_STATUS s)))"
    using ready_poll [OF assms(1)] wait_out_polls [of 0 s p v] by (simp add: polls_def)
  have "dialogue s 0 [(p, v)] (outb p v (snd (inb PS2_KB_STATUS s)))"
    using assms(2) by (auto simp: dialogue_def data_reads_def) (auto simp: outb_def inb_def Let_def)
  with t show ?thesis by blast
qed

lemma dialogue_wait_in:
  fixes s :: "'a ps2_scheme"
  assumes "cooperative answers (device s)"
  shows "\<exists>t. wait_in s = Some (answers (data_reads (io s)), t) \<and> dialogue s 1 [] t"
proof -
  let ?t = "inb PS2_KB_DATA (snd (inb PS2_KB_STATUS s))"
  have t: "wait_in s = Some ?t"
    using ready_poll [OF assms] wait_in_polls [of 0 s] by (simp add: polls_def)
  have "fst ?t = answers (data_reads (io s))"
    using assms by (simp add: cooperative_def sends_def data_reads_append) (simp add: data_reads_def)
  moreover have "dialogue s 1 [] (snd ?t)"
    by (auto simp: dialogue_def data_reads_def) (auto simp: inb_def Let_def)
  ultimately show ?thesis using t by (metis prod.collapse)
qed

lemma dialogue_send1:
  assumes "cooperative answers (device s)" "answers (data_reads (io s)) \<noteq> PS2_KB_RESEND"
  shows "\<exists>t. send_dev_command1 c s = Some (answers (data_reads (io s)), t) \<and> dialogue s 1 [(PS2_KB_DATA, c)] t"
proof -
  from dialogue_wait_out [OF assms(1), of PS2_KB_DATA c] obtain t
    where t: "wait_out PS2_KB_DATA c s = Some t" "dialogue s 0 [(PS2_KB_DATA, c)] t" by blast
  from dialogue_wait_in [of answers t] assms(1) obtain u
    where u: "wait_in t = Some (answers (data_reads (io s)), u)" "dialogue t 1 [] u"
    using dialogue_device [OF t(2)] dialogue_next [OF t(2)] by auto
  from dialogue_trans [OF t(2) u(2)] t(1) u(1) assms(2) show ?thesis
    by (subst send_dev_command1.simps) simp
qed

lemma dialogue_send2:
  assumes "cooperative answers (device s)" "answers (data_reads (io s)) = PS2_KB_ACK"
    "answers (data_reads (io s) + 1) \<noteq> PS2_KB_RESEND"
  shows "\<exists>t. send_dev_command2 c a s = Some (answers (data_reads (io s) + 1), t)
    \<and> dialogue s 2 [(PS2_KB_DATA, c), (PS2_KB_DATA, a)] t"
proof -
  from dialogue_send1 [OF assms(1), of c] assms(2) obtain t
    where t: "send_dev_command1 c s = Some (PS2_KB_ACK, t)" "dialogue s 1 [(PS2_KB_DATA, c)] t" by auto
  from dialogue_send1 [of answers t a] assms(1,3) obtain u
    where u: "send_dev_command1 a t = Some (answers (data_reads (io s) + 1), u)" "dialogue t 1 [(PS2_KB_DATA, a)] u"
    using dialogue_device [OF t(2)] dialogue_next [OF t(2)] by auto
  from dialogue_trans [OF t(2) u(2)] t(1) u(1) show ?thesis
    by (simp add: send_dev_command2_def numeral_2_eq_2)
qed

text \<open>The four steps in which the configuration byte is changed by \<open>f\<close>.\<close>

lemma dialogue_config:
  fixes s :: "'a ps2_scheme"
  assumes "cooperative answers (device s)"
  shows "\<exists>t. do {
       s \<leftarrow> wait_out PS2_KB_CMD PS2_KB_GETCONFIG s;
       (config, s) \<leftarrow> wait_in s;
       s \<leftarrow> wait_out PS2_KB_CMD PS2_KB_SETCONFIG s;
       wait_out PS2_KB_DATA (f config) s
     } = Some t \<and> dialogue s 1 [(PS2_KB_CMD, PS2_KB_GETCONFIG), (PS2_KB_CMD, PS2_KB_SETCONFIG),
       (PS2_KB_DATA, f (answers (data_reads (io s))))] t"
proof -
  from dialogue_wait_out [OF assms, of PS2_KB_CMD PS2_KB_GETCONFIG] obtain t1
    where 1: "wait_out PS2_KB_CMD PS2_KB_GETCONFIG s = Some t1" "dialogue s 0 [(PS2_KB_CMD, PS2_KB_GETCONFIG)] t1" by blast
  note d1 = dialogue_device [OF 1(2)] dialogue_next [OF 1(2)]
  from dialogue_wait_in [of answers t1] d1 assms obtain t2
    where 2: "wait_in t1 = Some (answers (data_reads (io s)), t2)" "dialogue t1 1 [] t2" by auto
  from dialogue_wait_out [of answers t2 PS2_KB_CMD PS2_KB_SETCONFIG] dialogue_device [OF 2(2)] d1 assms obtain t3
    where 3: "wait_out PS2_KB_CMD PS2_KB_SETCONFIG t2 = Some t3" "dialogue t2 0 [(PS2_KB_CMD, PS2_KB_SETCONFIG)] t3" by auto
  let ?v = "f (answers (data_reads (io s)))"
  from dialogue_wait_out [of answers t3 PS2_KB_DATA ?v] dialogue_device [OF 3(2)] dialogue_device [OF 2(2)] d1 assms
  obtain t4 where 4: "wait_out PS2_KB_DATA ?v t3 = Some t4" "dialogue t3 0 [(PS2_KB_DATA, ?v)] t4" by auto
  show ?thesis
    using 1(1) 2(1) 3(1) 4(1)
      dialogue_trans [OF dialogue_trans [OF dialogue_trans [OF 1(2) 2(2)] 3(2)] 4(2)] by simp
qed

lemmas dialogue_cfg_set = dialogue_config [of _ _ "\<lambda>c. c OR flag" for flag, folded cfg_set_def]
lemmas dialogue_cfg_clear = dialogue_config [of _ _ "\<lambda>c. c AND NOT flag" for flag, folded cfg_clear_def]

text \<open>The same steps continuing a dialogue that started in \<open>s\<close>; \<open>answer s answers k\<close> is its \<open>k\<close>th answer.\<close>

definition answer :: "'a ps2_scheme \<Rightarrow> (nat \<Rightarrow> u8) \<Rightarrow> nat \<Rightarrow> u8" where
  "answer s answers k = answers (data_reads (io s) + k)"

lemma coop_now:
  assumes "cooperative answers (device s)" "dialogue s k outs t"
  shows "cooperative answers (device t)" "answers (data_reads (io t)) = answer s answers k"
    "answers (data_reads (io t) + 1) = answer s answers (Suc k)"
  using assms by (simp_all add: dialogue_device dialogue_next answer_def)

lemma next_out:
  assumes "cooperative answers (device s)" "dialogue s k outs t" "p = PS2_KB_DATA \<or> p = PS2_KB_CMD"
  shows "\<exists>u. wait_out p v t = Some u \<and> dialogue s k (outs @ [(p, v)]) u"
  using dialogue_wait_out [OF coop_now(1) [OF assms(1,2)] assms(3), of v] dialogue_trans [OF assms(2)] by fastforce

lemma next_in:
  assumes "cooperative answers (device s)" "dialogue s k outs t"
  shows "\<exists>u. wait_in t = Some (answer s answers k, u) \<and> dialogue s (Suc k) outs u"
  using dialogue_wait_in [OF coop_now(1) [OF assms]] dialogue_trans [OF assms(2)]
  by (fastforce simp: coop_now [OF assms])

lemma next_send1:
  assumes "cooperative answers (device s)" "dialogue s k outs t" "answer s answers k \<noteq> PS2_KB_RESEND"
  shows "\<exists>u. send_dev_command1 c t = Some (answer s answers k, u)
     \<and> dialogue s (Suc k) (outs @ [(PS2_KB_DATA, c)]) u"
  using dialogue_send1 [OF coop_now(1) [OF assms(1,2)], of c] dialogue_trans [OF assms(2)] assms(3)
  by (fastforce simp: coop_now [OF assms(1,2)])

lemma next_send2:
  assumes "cooperative answers (device s)" "dialogue s k outs t"
    "answer s answers k = PS2_KB_ACK" "answer s answers (Suc k) \<noteq> PS2_KB_RESEND"
  shows "\<exists>u. send_dev_command2 c a t = Some (answer s answers (Suc k), u)
     \<and> dialogue s (Suc (Suc k)) (outs @ [(PS2_KB_DATA, c), (PS2_KB_DATA, a)]) u"
  using dialogue_send2 [OF coop_now(1) [OF assms(1,2)], of c a] dialogue_trans [OF assms(2), of 2] assms(3,4)
  by (simp add: coop_now [OF assms(1,2)] del: One_nat_def) fastforce

lemma next_cfg_set:
  assumes "cooperative answers (device s)" "dialogue s k outs t"
  shows "\<exists>u. cfg_set flag t = Some u \<and> dialogue s (Suc k) (outs @ [(PS2_KB_CMD, PS2_KB_GETCONFIG),
     (PS2_KB_CMD, PS2_KB_SETCONFIG), (PS2_KB_DATA, answer s answers k OR flag)]) u"
  using dialogue_cfg_set [OF coop_now(1) [OF assms], of flag] dialogue_trans [OF assms(2)]
  by (fastforce simp: coop_now [OF assms])

lemma next_cfg_clear:
  assumes "cooperative answers (device s)" "dialogue s k outs t"
  shows "\<exists>u. cfg_clear flag t = Some u \<and> dialogue s (Suc k) (outs @ [(PS2_KB_CMD, PS2_KB_GETCONFIG),
     (PS2_KB_CMD, PS2_KB_SETCONFIG), (PS2_KB_DATA, answer s answers k AND NOT flag)]) u"
  using dialogue_cfg_clear [OF coop_now(1) [OF assms], of flag] dialogue_trans [OF assms(2)]
  by (fastforce simp: coop_now [OF assms])

lemma next_printk: "dialogue s k outs t \<Longrightarrow> dialogue s k outs (printk f a t)"
  using dialogue_trans [OF _ dialogue_printk] by fastforce

text \<open>
  The answers of a keyboard that passes its tests and reports scancode set \<open>v\<close>; \<open>a5\<close> is its answer
  to the request for set 3, \<open>c0\<close> and \<open>c1\<close> are the configuration bytes.
\<close>

definition setup_answers :: "u8 \<Rightarrow> u8 \<Rightarrow> u8 \<Rightarrow> u8 \<Rightarrow> u8 list" where
  "setup_answers c0 a5 v c1 = [PS2_KB_CONTROLLER_SELF_TEST_PASSED, c0, PS2_KB_ACK, PS2_KB_SELF_TEST_PASSED,
     PS2_KB_ACK, a5, PS2_KB_ACK, PS2_KB_ACK, v, c1]"

definition setup_commands :: "u8 \<Rightarrow> u8 \<Rightarrow> (u16 \<times> u8) list" where
  "setup_commands c0 c1 =
     [(PS2_KB_CMD, 0xaa), (PS2_KB_CMD, 0xad), (PS2_KB_CMD, 0xa7), (PS2_KB_CMD, 0x20), (PS2_KB_CMD, 0x60),
      (PS2_KB_DATA, c0 AND 0xbc), (PS2_KB_DATA, 0xff), (PS2_KB_DATA, 0xf0), (PS2_KB_DATA, 3),
      (PS2_KB_DATA, 0xf0), (PS2_KB_DATA, 0), (PS2_KB_CMD, 0x20), (PS2_KB_CMD, 0x60),
      (PS2_KB_DATA, c1 OR 1), (PS2_KB_CMD, 0xae)]"

lemma polls_scancode_set: "scancode_set (polls n s) = scancode_set s"
  by (induction n arbitrary: s) (simp_all add: polls_Suc, simp_all add: polls_def inb_def Let_def)

lemma wait_scancode_set:
  "wait_out p v s = Some t \<Longrightarrow> scancode_set t = scancode_set s"
  "wait_in s = Some (w, t) \<Longrightarrow> scancode_set t = scancode_set s"
proof -
  assume w: "wait_out p v s = Some t"
  from wait_out_returns [OF w] obtain n where "first_poll (\<lambda>v. v AND 2 = 0) n s" ..
  with w show "scancode_set t = scancode_set s"
    using wait_out_polls [of n s p v] polls_scancode_set [of "Suc n" s] by (auto simp: outb_def)
next
  assume w: "wait_in s = Some (w, t)"
  from wait_in_returns [OF w] obtain n where "first_poll (\<lambda>v. v AND 1 \<noteq> 0) n s" ..
  with w show "scancode_set t = scancode_set s"
    using wait_in_polls [of n s] polls_scancode_set [of "Suc n" s] by (auto simp: inb_def Let_def)
qed

lemma cfg_set_scancode_set: "cfg_set v s = Some t \<Longrightarrow> scancode_set t = scancode_set s"
  by (auto simp: cfg_set_def Option.bind_eq_Some_conv dest!: wait_scancode_set)

lemma controller_scancodes_succeeds:
  assumes coop: "cooperative answers (device s)" and d: "dialogue s k outs t"
    and ans: "answer s answers k = PS2_KB_ACK" "answer s answers (k + 1) = a5" "a5 \<noteq> PS2_KB_RESEND"
      "answer s answers (k + 2) = PS2_KB_ACK" "answer s answers (k + 3) = PS2_KB_ACK"
      "answer s answers (k + 4) = v" "1 \<le> v" "v \<le> 3" "answer s answers (k + 5) = c1"
  shows "\<exists>u. controller_scancodes t = Some (True, u) \<and> scancode_set u = v \<and>
    dialogue s (k + 6) (outs @ [(PS2_KB_DATA, 0xf0), (PS2_KB_DATA, 3), (PS2_KB_DATA, 0xf0), (PS2_KB_DATA, 0),
      (PS2_KB_CMD, 0x20), (PS2_KB_CMD, 0x60), (PS2_KB_DATA, c1 OR 1), (PS2_KB_CMD, 0xae)]) u"
proof -
  have ans': "answer s answers (Suc k) = a5" "answer s answers (Suc (Suc k)) = PS2_KB_ACK"
    "answer s answers (Suc (Suc (Suc k))) = PS2_KB_ACK" "answer s answers (Suc (Suc (Suc (Suc k)))) = v"
    "answer s answers (Suc (Suc (Suc (Suc (Suc k))))) = c1"
    using ans by (simp_all add: numeral_eq_Suc)
  from next_send2 [OF coop d ans(1), of PS2_KB_SETSCANCODESET 3] ans' ans(3) obtain t1
    where 1: "send_dev_command2 PS2_KB_SETSCANCODESET 3 t = Some (a5, t1)"
      "dialogue s (Suc (Suc k)) (outs @ [(PS2_KB_DATA, 0xf0), (PS2_KB_DATA, 3)]) t1" by auto
  define t2 where "t2 = (if a5 \<noteq> PS2_KB_ACK then printk (msg ''warn: ps/2: unable to set scancode set'') [] t1 else t1)"
  have 2: "dialogue s (Suc (Suc k)) (outs @ [(PS2_KB_DATA, 0xf0), (PS2_KB_DATA, 3)]) t2"
    using 1(2) by (simp add: t2_def next_printk)
  from next_send2 [OF coop 2 ans'(2), of PS2_KB_SETSCANCODESET 0] ans' obtain t3
    where 3: "send_dev_command2 PS2_KB_SETSCANCODESET 0 t2 = Some (PS2_KB_ACK, t3)"
      "dialogue s (Suc (Suc (Suc (Suc k)))) ((outs @ [(PS2_KB_DATA, 0xf0), (PS2_KB_DATA, 3)]) @
         [(PS2_KB_DATA, 0xf0), (PS2_KB_DATA, 0)]) t3" by auto
  from next_in [OF coop 3(2)] ans' obtain t4 where 4: "wait_in t3 = Some (v, t4)"
    "dialogue s (Suc (Suc (Suc (Suc (Suc k))))) ((outs @ [(PS2_KB_DATA, 0xf0), (PS2_KB_DATA, 3)]) @
         [(PS2_KB_DATA, 0xf0), (PS2_KB_DATA, 0)]) t4" by auto
  define t5 where "t5 = printk (msg ''info: ps/2: using scancode set %d'') [Word (ucast v)] (t4\<lparr>scancode_set := v\<rparr>)"
  have 5: "dialogue s (Suc (Suc (Suc (Suc (Suc k))))) ((outs @ [(PS2_KB_DATA, 0xf0), (PS2_KB_DATA, 3)]) @
         [(PS2_KB_DATA, 0xf0), (PS2_KB_DATA, 0)]) t5"
    unfolding t5_def by (intro next_printk dialogue_scancode_set 4(2))
  from next_cfg_set [OF coop 5, of PS2_KB_ENABLE_IRQ1] ans'(5) obtain t6
    where 6: "cfg_set PS2_KB_ENABLE_IRQ1 t5 = Some t6"
      "dialogue s (Suc (Suc (Suc (Suc (Suc (Suc k)))))) (((outs @ [(PS2_KB_DATA, 0xf0), (PS2_KB_DATA, 3)]) @
         [(PS2_KB_DATA, 0xf0), (PS2_KB_DATA, 0)]) @ [(PS2_KB_CMD, 0x20), (PS2_KB_CMD, 0x60), (PS2_KB_DATA, c1 OR 1)]) t6"
    by auto
  from next_out [OF coop 6(2), of PS2_KB_CMD PS2_KB_ENABLE1] obtain t7
    where 7: "wait_out PS2_KB_CMD PS2_KB_ENABLE1 t6 = Some t7"
      "dialogue s (Suc (Suc (Suc (Suc (Suc (Suc k)))))) ((((outs @ [(PS2_KB_DATA, 0xf0), (PS2_KB_DATA, 3)]) @
         [(PS2_KB_DATA, 0xf0), (PS2_KB_DATA, 0)]) @ [(PS2_KB_CMD, 0x20), (PS2_KB_CMD, 0x60), (PS2_KB_DATA, c1 OR 1)])
         @ [(PS2_KB_CMD, 0xae)]) t7" by auto
  have nz: "v \<noteq> 0" using ans(7) by auto
  let ?u = "printk (msg ''info: ps/2: setup successful'') [] t7"
  have en: "controller_enable t5 = Some (True, ?u)" using 6(1) 7(1) by (simp add: controller_enable_def)
  have "scancode_set ?u = v"
    using cfg_set_scancode_set [OF 6(1)] wait_scancode_set(1) [OF 7(1)] by (simp add: t5_def)
  moreover have "controller_scancodes t = Some (True, ?u)"
    unfolding controller_scancodes_def 1(1) Option.bind.bind_lunit case_prod_conv Let_def
    unfolding t2_def [symmetric] 3(1) Option.bind.bind_lunit case_prod_conv 4(1)
    using en ans(7,8) nz by (simp add: 4(1) t5_def linorder_not_less)
  moreover have "dialogue s (k + 6) (outs @ [(PS2_KB_DATA, 0xf0), (PS2_KB_DATA, 3), (PS2_KB_DATA, 0xf0), (PS2_KB_DATA, 0),
      (PS2_KB_CMD, 0x20), (PS2_KB_CMD, 0x60), (PS2_KB_DATA, c1 OR 1), (PS2_KB_CMD, 0xae)]) ?u"
    using next_printk [OF 7(2)] by (simp add: numeral_eq_Suc)
  ultimately show ?thesis by blast
qed

lemma controller_setup_succeeds:
  assumes coop: "cooperative answers (device s)"
    and ans: "map (answer s answers) [0 ..< 10] = setup_answers c0 a5 v c1" "a5 \<noteq> PS2_KB_RESEND" "1 \<le> v" "v \<le> 3"
  shows "\<exists>t. controller_setup s = Some (True, t) \<and> scancode_set t = v \<and> dialogue s 10 (setup_commands c0 c1) t"
proof -
  have a: "answer s answers 0 = PS2_KB_CONTROLLER_SELF_TEST_PASSED" "answer s answers 1 = c0"
    "answer s answers 2 = PS2_KB_ACK" "answer s answers 3 = PS2_KB_SELF_TEST_PASSED"
    "answer s answers 4 = PS2_KB_ACK" "answer s answers 5 = a5" "answer s answers 6 = PS2_KB_ACK"
    "answer s answers 7 = PS2_KB_ACK" "answer s answers 8 = v" "answer s answers 9 = c1"
    using ans(1) by (simp_all add: setup_answers_def upt_rec eval_nat_numeral)
  have 0: "dialogue s 0 [] s" by (simp add: dialogue_def data_reads_def)
  from next_out [OF coop 0, of PS2_KB_CMD PS2_KB_CONTROLLER_SELF_TEST] obtain t1
    where 1: "wait_out PS2_KB_CMD PS2_KB_CONTROLLER_SELF_TEST s = Some t1" "dialogue s 0 [(PS2_KB_CMD, 0xaa)] t1" by auto
  from next_in [OF coop 1(2)] a obtain t2
    where 2: "wait_in t1 = Some (PS2_KB_CONTROLLER_SELF_TEST_PASSED, t2)" "dialogue s 1 [(PS2_KB_CMD, 0xaa)] t2" by auto
  from next_out [OF coop 2(2), of PS2_KB_CMD PS2_KB_DISABLE1] obtain t3
    where 3: "wait_out PS2_KB_CMD PS2_KB_DISABLE1 t2 = Some t3"
      "dialogue s 1 [(PS2_KB_CMD, 0xaa), (PS2_KB_CMD, 0xad)] t3" by auto
  from next_out [OF coop 3(2), of PS2_KB_CMD PS2_KB_DISABLE2] obtain t4
    where 4: "wait_out PS2_KB_CMD PS2_KB_DISABLE2 t3 = Some t4"
      "dialogue s 1 [(PS2_KB_CMD, 0xaa), (PS2_KB_CMD, 0xad), (PS2_KB_CMD, 0xa7)] t4" by auto
  let ?flags = "PS2_KB_ENABLE_IRQ1 OR PS2_KB_ENABLE_IRQ2 OR PS2_KB_TRANSLATE"
  have flags: "NOT ?flags = 0xbc" by simp
  from next_cfg_clear [OF coop 4(2), of ?flags] a obtain t5
    where 5: "cfg_clear ?flags t4 = Some t5"
      "dialogue s 2 [(PS2_KB_CMD, 0xaa), (PS2_KB_CMD, 0xad), (PS2_KB_CMD, 0xa7), (PS2_KB_CMD, 0x20),
        (PS2_KB_CMD, 0x60), (PS2_KB_DATA, c0 AND 0xbc)] t5"
    unfolding flags by (auto simp: numeral_2_eq_2)
  from next_send1 [OF coop 5(2), of PS2_KB_RESET] a obtain t6
    where 6: "send_dev_command1 PS2_KB_RESET t5 = Some (PS2_KB_ACK, t6)"
      "dialogue s 3 [(PS2_KB_CMD, 0xaa), (PS2_KB_CMD, 0xad), (PS2_KB_CMD, 0xa7), (PS2_KB_CMD, 0x20),
        (PS2_KB_CMD, 0x60), (PS2_KB_DATA, c0 AND 0xbc), (PS2_KB_DATA, 0xff)] t6"
    by auto
  from next_in [OF coop 6(2)] a obtain t7
    where 7: "wait_in t6 = Some (PS2_KB_SELF_TEST_PASSED, t7)"
      "dialogue s 4 [(PS2_KB_CMD, 0xaa), (PS2_KB_CMD, 0xad), (PS2_KB_CMD, 0xa7), (PS2_KB_CMD, 0x20),
        (PS2_KB_CMD, 0x60), (PS2_KB_DATA, c0 AND 0xbc), (PS2_KB_DATA, 0xff)] t7"
    by auto
  from controller_scancodes_succeeds [OF coop 7(2), of a5 v c1] a ans obtain t
    where t: "controller_scancodes t7 = Some (True, t)" "scancode_set t = v" "dialogue s 10 (setup_commands c0 c1) t"
    by (auto simp: setup_commands_def)
  have "controller_reset t5 = Some (True, t)" using 6(1) 7(1) t(1) by (simp add: controller_reset_def)
  then have "controller_setup s = Some (True, t)"
    unfolding controller_setup_def 1(1) 2(1) Option.bind.bind_lunit case_prod_conv
    by (simp only: 3(1) 4(1) 5(1) Option.bind.bind_lunit) simp
  with t show ?thesis by blast
qed

lemma pic_run_free: "list_all pic_free es \<Longrightarrow> pic_run MS_CMD c es = c \<and> pic_run SL_CMD c es = c"
proof (induction es arbitrary: c)
  case (Cons e es)
  then show ?case by (cases e) auto
qed simp

lemma dialogue_pics:
  assumes "dialogue s k outs t"
  shows "pics_ready m l t = pics_ready m l s" "irq_masked m l t n = irq_masked m l s n"
  using assms by (auto simp: dialogue_def pics_ready_def irq_masked_def pic_run_free)

lemma clear_mask_frame:
  "IDT (pic_clear_mask irq s) = IDT s" "scancode_set (pic_clear_mask irq s) = scancode_set s"
  by (simp_all add: pic_clear_mask_def Let_def case_prod_beta io_wait_def outb_def inb_def)

lemma clear_mask_1_io: "\<exists>v w. io (pic_clear_mask 1 s) = io s @ [In MS_DATA v, Out MS_DATA w, Out 0x80 0]"
  by (simp add: pic_clear_mask_def mask_port_def word_less_nat_alt case_prod_beta Let_def)

section \<open>Properties\<close>

text \<open>A machine whose keyboard sends given bytes and whose controllers answer.\<close>

definition ps2_device :: "u8 list \<Rightarrow> io_event list \<Rightarrow> u16 \<Rightarrow> u8" where
  "ps2_device bs tr p =
     (if p = PS2_KB_DATA then (if data_reads tr < length bs then bs ! data_reads tr else 0)
      else if p = PS2_KB_STATUS then 1 else pic_device tr p)"

definition ps2_start :: "u8 \<Rightarrow> u8 list \<Rightarrow> ps2" where
  "ps2_start n bs = interrupts.extend (interrupts_start\<lparr>io := [], device := ps2_device bs\<rparr>) (ps2.fields n False 0 0)"

lemma ps2_start_simps [simp]:
  "scancode_set (ps2_start n bs) = n" "io (ps2_start n bs) = []" "device (ps2_start n bs) = ps2_device bs"
  "scan_idle (ps2_start n bs)" "decoder_ok (ps2_start n bs)"
  by (simp_all add: ps2_start_def interrupts.extend_def ps2.fields_def scan_idle_def decoder_ok_def)

lemma data_reads_Nil [simp]: "data_reads [] = 0"
  by (simp add: data_reads_def)

definition sent :: "u8 list \<Rightarrow> nat \<Rightarrow> u8" where
  "sent bs i = (if i < length bs then bs ! i else 0)"

lemma ps2_device_sends: "sends (sent bs) (ps2_device bs)"
  by (simp add: sends_def ps2_device_def sent_def)

lemma ps2_device_coop: "cooperative (sent bs) (ps2_device bs)"
  by (simp add: cooperative_def ps2_device_sends) (simp add: ps2_device_def)

lemma ps2_start_pics:
  "pics_ready idle_chip idle_chip (ps2_start n bs)" "pic_readback idle_chip idle_chip (device (ps2_start n bs))"
  by (simp_all add: pics_ready_def pic_readback_def ps2_device_def pic_device_def idle_chip_def)

lemma start_answers: "map (answer (ps2_start n bs) (sent bs)) [0 ..< length bs] = bs"
  by (rule nth_equalityI) (simp_all add: answer_def sent_def)

lemma start_answers10: "length bs = 10 \<Longrightarrow> map (answer (ps2_start n bs) (sent bs)) [0 ..< 10] = bs"
  using start_answers [of n bs] by simp



text \<open>
  C35. Whatever the controller answers, during set-up the driver writes to it only right after reading
  a status that says its input buffer is empty, and reads a byte from it only right after a status
  that says there is one.
\<close>

theorem ps2_setup_polite:
  assumes "controller_setup s = Some (ok, t)"
  shows "\<exists>new. io t = io s @ new \<and> polite_after None new"
  using talks_setup [OF assms] by (simp add: talks_def)

theorem ps2_setup_polite_witness:
  "\<exists>ok t new. controller_setup (ps2_start 0 (setup_answers 0x47 0xfa 3 0x44)) = Some (ok, t)
     \<and> io t = new \<and> polite_after None new"
proof -
  let ?bs = "setup_answers 0x47 0xfa 3 0x44"
  have "map (answer (ps2_start 0 ?bs) (sent ?bs)) [0 ..< 10] = ?bs"
    by (rule start_answers10) (simp add: setup_answers_def)
  from controller_setup_succeeds [OF _ this] ps2_device_coop [of ?bs] obtain t
    where t: "controller_setup (ps2_start 0 ?bs) = Some (True, t)" by auto
  from ps2_setup_polite [OF t] t show ?thesis by auto
qed

text \<open>
  C36. \<open>wait_out\<close> returns exactly when the controller is ready at some poll; it then has polled up to
  the first such status and written the byte once. The same holds of \<open>wait_in\<close> and the read.
\<close>

theorem polling_ends_when_ready:
  "(wait_out p v s = Some t \<longleftrightarrow> (\<exists>n. first_poll (\<lambda>w. w AND 2 = 0) n s \<and> t = outb p v (polls (Suc n) s)))
    \<and> (wait_in s = Some r \<longleftrightarrow> (\<exists>n. first_poll (\<lambda>w. w AND 1 \<noteq> 0) n s \<and> r = inb PS2_KB_DATA (polls (Suc n) s)))"
proof (intro conjI iffI)
  assume w: "wait_out p v s = Some t"
  from wait_out_returns [OF w] obtain n where n: "first_poll (\<lambda>w. w AND 2 = 0) n s" ..
  with w wait_out_polls [OF n, of p v]
  show "\<exists>n. first_poll (\<lambda>w. w AND 2 = 0) n s \<and> t = outb p v (polls (Suc n) s)" by auto
next
  assume w: "wait_in s = Some r"
  from wait_in_returns [OF w] obtain n where n: "first_poll (\<lambda>w. w AND 1 \<noteq> 0) n s" ..
  with w wait_in_polls [OF n]
  show "\<exists>n. first_poll (\<lambda>w. w AND 1 \<noteq> 0) n s \<and> r = inb PS2_KB_DATA (polls (Suc n) s)" by auto
qed (auto simp: wait_out_polls wait_in_polls)

text \<open>
  C37. The interrupt handler decodes scancode set 2: when the keyboard sends the bytes of a sequence of
  presses and releases (plain and extended keys, and the Pause key), the interrupts they cause have
  exactly the effect of these key events on the keyboard, and leave the decoder idle.
\<close>

theorem ps2_decodes_set2:
  assumes "scancode_set s = 2" "scan_idle s" "\<forall>(k, p) \<in> set strokes. valid2 k" "sends stream (device s)"
    and "\<And>i. i < length (spread bytes2 strokes) \<Longrightarrow>
      stream (data_reads (io s) + i) = spread bytes2 strokes ! i"
  shows "\<exists>tr. (ps2_key_pressed ^^ length (spread bytes2 strokes)) s
    = (fold key_step (spread events2 strokes) s)\<lparr>io := tr\<rparr>"
  using set2.interrupts_decode [OF assms(3) _ assms(4,5)] assms(1,2) by (simp add: set_ready_def)

theorem ps2_decodes_set2_witness:
  "\<exists>tr. (ps2_key_pressed ^^ 9) (ps2_start 2 [0x12, 0x1c, 0xf0, 0x1c, 0xe0, 0x11, 0xe1, 0x14, 0x77])
    = (fold key_step [Press 0x80, Press 0x61, Release 0x61, Press 0xa4, Press 0x0f]
        (ps2_start 2 [0x12, 0x1c, 0xf0, 0x1c, 0xe0, 0x11, 0xe1, 0x14, 0x77]))\<lparr>io := tr\<rparr>"
proof -
  let ?ks = "[(Plain 0x12, True), (Plain 0x1c, True), (Plain 0x1c, False), (Extended 0x11, True), (Pause, True)]"
  let ?bs = "[0x12, 0x1c, 0xf0, 0x1c, 0xe0, 0x11, 0xe1, 0x14, 0x77] :: u8 list"
  have bs: "spread bytes2 ?ks = ?bs" by (simp add: spread_def break_code_def)
  have codes: "code2 (Plain 0x12) = 0x80" "code2 (Plain 0x1c) = 0x61" "code2 (Extended 0x11) = 0xa4"
    by code_simp+
  have es: "spread events2 ?ks = [Press 0x80, Press 0x61, Release 0x61, Press 0xa4, Press 0x0f]"
    by (simp add: spread_def events2_def codes key_event_of_def del: code2.simps(1,2))
  have "\<forall>(k, p) \<in> set ?ks. valid2 k" by (simp add: valid2_def codes del: code2.simps(1,2))
  from ps2_decodes_set2 [OF _ _ this, of "ps2_start 2 ?bs" "sent ?bs"]
  show ?thesis unfolding bs es by (simp add: ps2_device_sends sent_def eval_nat_numeral del: funpow.simps key_step.simps)
qed

text \<open>It decodes scancode set 3 in the same sense: one byte for each key, after 0xf0 for a release.\<close>

theorem ps2_decodes_set3:
  assumes "scancode_set s = 3" "scan_idle s" "\<forall>(k, p) \<in> set strokes. valid3 k" "sends stream (device s)"
    and "\<And>i. i < length (spread bytes3 strokes) \<Longrightarrow>
      stream (data_reads (io s) + i) = spread bytes3 strokes ! i"
  shows "\<exists>tr. (ps2_key_pressed ^^ length (spread bytes3 strokes)) s
    = (fold key_step (spread events3 strokes) s)\<lparr>io := tr\<rparr>"
  using set3.interrupts_decode [OF assms(3) _ assms(4,5)] assms(1,2) by (simp add: set_ready_def)

theorem ps2_decodes_set3_witness:
  "\<exists>tr. (ps2_key_pressed ^^ 3) (ps2_start 3 [0x1c, 0xf0, 0x1c])
    = (fold key_step [Press 0x61, Release 0x61] (ps2_start 3 [0x1c, 0xf0, 0x1c]))\<lparr>io := tr\<rparr>"
proof -
  let ?ks = "[(0x1c, True), (0x1c, False)] :: (u8 \<times> bool) list"
  let ?bs = "[0x1c, 0xf0, 0x1c] :: u8 list"
  have bs: "spread bytes3 ?ks = ?bs" by (simp add: spread_def bytes3_def break_code_def)
  have code: "scs3_keycodes ! unat (0x1c :: u8) = 0x61" by code_simp
  then have code': "scs3_keycodes ! 28 = 0x61" by simp
  have es: "spread events3 ?ks = [Press 0x61, Release 0x61]"
    by (simp add: spread_def events3_def key_event_of_def code')
  have "\<forall>(k, p) \<in> set ?ks. valid3 k" by (simp add: valid3_def code')
  from ps2_decodes_set3 [OF _ _ this, of "ps2_start 3 ?bs" "sent ?bs"]
  show ?thesis unfolding bs es by (simp add: ps2_device_sends sent_def eval_nat_numeral del: funpow.simps key_step.simps)
qed

lemma key_step_port_fields:
  "key_step e (s\<lparr>scancode_set := n, device := d\<rparr>) = (key_step e s)\<lparr>scancode_set := n, device := d\<rparr>"
  by (cases e) (simp_all add: kb_key_pressed_def kb_key_released_def kb_enqueue_def kb_set_mod_def kb_get_mod_def Let_def)

lemma fold_key_port_fields:
  "fold key_step es (s\<lparr>scancode_set := n, device := d\<rparr>) = (fold key_step es s)\<lparr>scancode_set := n, device := d\<rparr>"
  by (induction es arbitrary: s) (simp_all add: key_step_port_fields del: key_step.simps)

text \<open>
  C19. The two scan code sets are equivalent: when the bytes that a keyboard sends in set 2 and those another one sends in set 3
  stand for the same presses and releases, the interrupts they cause leave the same keyboard state, memory and decoder, and
  the machines differ in nothing but the ports' trace, the keyboard and the set chosen.
\<close>

theorem scancode_sets_equivalent:
  assumes "scan_idle s" "\<forall>(k, p) \<in> set strokes2. valid2 k" "\<forall>(k, p) \<in> set strokes3. valid3 k"
    and "spread events2 strokes2 = spread events3 strokes3" "sends stream2 dev2" "sends stream3 dev3"
    and "\<And>i. i < length (spread bytes2 strokes2) \<Longrightarrow> stream2 (data_reads (io s) + i) = spread bytes2 strokes2 ! i"
    and "\<And>i. i < length (spread bytes3 strokes3) \<Longrightarrow> stream3 (data_reads (io s) + i) = spread bytes3 strokes3 ! i"
  shows "\<exists>tr. (ps2_key_pressed ^^ length (spread bytes3 strokes3)) (s\<lparr>scancode_set := 3, device := dev3\<rparr>)
    = ((ps2_key_pressed ^^ length (spread bytes2 strokes2)) (s\<lparr>scancode_set := 2, device := dev2\<rparr>))
        \<lparr>scancode_set := 3, device := dev3, io := tr\<rparr>"
proof -
  let ?s2 = "s\<lparr>scancode_set := 2, device := dev2\<rparr>" and ?s3 = "s\<lparr>scancode_set := 3, device := dev3\<rparr>"
  have "set_ready 2 ?s2" "set_ready 3 ?s3" using assms(1) by (simp_all add: set_ready_def scan_idle_def)
  then obtain tr2 tr3 where
    "(ps2_key_pressed ^^ length (spread bytes2 strokes2)) ?s2 = (fold key_step (spread events2 strokes2) ?s2)\<lparr>io := tr2\<rparr>"
    "(ps2_key_pressed ^^ length (spread bytes3 strokes3)) ?s3 = (fold key_step (spread events3 strokes3) ?s3)\<lparr>io := tr3\<rparr>"
    using set2.interrupts_decode [OF assms(2), of ?s2 stream2] set3.interrupts_decode [OF assms(3), of ?s3 stream3] assms(5-8) by auto
  then show ?thesis by (intro exI [of _ tr3]) (simp add: fold_key_port_fields assms(4))
qed

theorem scancode_sets_equivalent_witness:
  "\<exists>tr. (ps2_key_pressed ^^ 3) ((ps2_start 0 [])\<lparr>scancode_set := 3, device := ps2_device [0x1c, 0xf0, 0x1c]\<rparr>)
    = ((ps2_key_pressed ^^ 3) ((ps2_start 0 [])\<lparr>scancode_set := 2, device := ps2_device [0x1c, 0xf0, 0x1c]\<rparr>))
        \<lparr>scancode_set := 3, device := ps2_device [0x1c, 0xf0, 0x1c], io := tr\<rparr>"
proof -
  let ?k2 = "[(Plain 0x1c, True), (Plain 0x1c, False)]" and ?k3 = "[(0x1c, True), (0x1c, False)] :: (u8 \<times> bool) list"
  let ?bs = "[0x1c, 0xf0, 0x1c] :: u8 list"
  have bs: "spread bytes2 ?k2 = ?bs" "spread bytes3 ?k3 = ?bs" by (simp_all add: spread_def bytes3_def break_code_def)
  have c2: "code2 (Plain 0x1c) = 0x61" and "scs3_keycodes ! unat (0x1c :: u8) = 0x61" by code_simp+
  then have c3: "scs3_keycodes ! 28 = 0x61" by simp
  have es: "spread events2 ?k2 = spread events3 ?k3"
    by (simp add: spread_def events2_def events3_def key_event_of_def c2 c3 del: code2.simps(1,2))
  have v: "\<forall>(k, p) \<in> set ?k2. valid2 k" "\<forall>(k, p) \<in> set ?k3. valid3 k"
    by (simp_all add: valid2_def valid3_def c2 c3 del: code2.simps(1,2))
  from scancode_sets_equivalent [OF _ v es, of "ps2_start 0 []" "sent ?bs" "ps2_device ?bs" "sent ?bs" "ps2_device ?bs"]
  show ?thesis unfolding bs by (simp add: ps2_device_sends sent_def eval_nat_numeral del: funpow.simps key_step.simps)
qed

text \<open>
  C38. After any number of interrupts with any bytes the decoder's state stays in range, so that every
  table access is inside its table.
\<close>

theorem ps2_tables_in_bounds:
  fixes b :: u8
  assumes "decoder_ok s"
  shows "let t = (ps2_key_pressed ^^ n) s; plane = unat (scancode_plane t) in
    plane < length scs2_keycodes \<and> unat b < length (scs2_keycodes ! plane) \<and> unat b < length scs3_keycodes
    \<and> unat (ignore_next t) \<le> 2"
proof -
  have step: "decoder_ok u \<Longrightarrow> decoder_ok (ps2_key_pressed u)" for u :: "'a ps2_scheme"
    using decoder_ok_scan [of "snd (inb PS2_KB_DATA u)" "fst (inb PS2_KB_DATA u)"]
    by (simp add: ps2_key_pressed_def case_prod_beta decoder_ok_def pic_eoi_def outb_def inb_def Let_def)
  have "decoder_ok ((ps2_key_pressed ^^ n) s)" by (induction n) (simp_all add: assms step)
  moreover have "unat b < 256" using unsigned_less [of b] by simp
  moreover have two: "length scs2_keycodes = 2" by (simp add: scs2_keycodes_def)
  moreover have "length (scs2_keycodes ! p) = 256" if "p < 2" for p
  proof -
    have "length (scs2_keycodes ! p) = map length scs2_keycodes ! p" using that two by simp
    also have "\<dots> = 256" using that unfolding table_lengths(1) less_2_cases_iff by auto
    finally show ?thesis .
  qed
  ultimately show ?thesis by (simp add: decoder_ok_def table_lengths Let_def)
qed


theorem ps2_tables_in_bounds_witness:
  "unat (scancode_plane ((ps2_key_pressed ^^ 3) (ps2_start 2 [0xe0, 0xe1, 0xe0]))) < length scs2_keycodes"
  using ps2_tables_in_bounds [of "ps2_start 2 [0xe0, 0xe1, 0xe0]" 3 0] by (simp add: Let_def del: funpow.simps)

text \<open>
  Set 3, which the driver prefers, has no scancode for the keypad's division and subtraction keys
  (key codes 0x32 and 0x34), which set 2 has.
\<close>

theorem set3_misses_keys:
  "0x32 \<notin> set scs3_keycodes \<and> 0x34 \<notin> set scs3_keycodes
    \<and> code2 (Extended 0x4a) = 0x32 \<and> code2 (Plain 0x7b) = 0x34
    \<and> keycode_to_char False 0x32 = of_char CHR ''/'' \<and> keycode_to_char False 0x34 = of_char CHR ''-''"
proof -
  have "0x32 \<notin> set scs3_keycodes" "0x34 \<notin> set scs3_keycodes" by (simp_all add: scs3_keycodes_def)
  moreover have "keycode_to_char False 0x32 = of_char CHR ''/''" "keycode_to_char False 0x34 = of_char CHR ''-''"
    "code2 (Extended 0x4a) = 0x32" "code2 (Plain 0x7b) = 0x34" by code_simp+
  ultimately show ?thesis by (intro conjI)
qed

end
