(* ===== verification/Malloc.thy ===== *)
theory Malloc
  imports Ps2
begin

text \<open>
  libc/arch/i686/malloc.c in its kernel build: the heap as a chain of 16-byte headers and the blocks
  behind them, in the flat memory. Headers are read and written field by field where the C structure
  lays them out (\<open>status\<close> at 0, \<open>size\<close> at 4, \<open>prev_header\<close> at 8); an access to a header whose page is
  not mapped is a page fault, which is \<open>None\<close>. The heap is refined to a list of blocks on which
  \<open>malloc\<close> is a first-fit search.
\<close>

section \<open>State and operations\<close>

abbreviation (input) USED :: u8 where "USED \<equiv> 1"
abbreviation (input) END_OF_MEMORY :: u8 where "END_OF_MEMORY \<equiv> 2"

record heap = ps2 +
  first_hdr :: addr

text \<open>The hardware's view of the page tables: whether the page of an address is mapped.\<close>

definition virt_mapped :: "addr \<Rightarrow> 'a paging_scheme \<Rightarrow> bool" where
  "virt_mapped a s \<longleftrightarrow> table_present s (unat a div 4096 div 1024) \<and> page_present s (unat a div 4096)"

definition hdr_mapped :: "addr \<Rightarrow> 'a paging_scheme \<Rightarrow> bool" where
  "hdr_mapped p s \<longleftrightarrow> virt_mapped p s \<and> virt_mapped (p + 15) s"

definition hdr_status :: "addr \<Rightarrow> 'a paging_scheme \<Rightarrow> u8 option" where
  "hdr_status p s = (if hdr_mapped p s then Some (ram s p) else None)"

definition hdr_size :: "addr \<Rightarrow> 'a paging_scheme \<Rightarrow> u32 option" where
  "hdr_size p s = (if hdr_mapped p s then Some (rd32 (ram s) (p + 4)) else None)"

definition hdr_prev :: "addr \<Rightarrow> 'a paging_scheme \<Rightarrow> addr option" where
  "hdr_prev p s = (if hdr_mapped p s then Some (rd32 (ram s) (p + 8)) else None)"

definition put_status :: "addr \<Rightarrow> u8 \<Rightarrow> 'a paging_scheme \<Rightarrow> 'a paging_scheme option" where
  "put_status p v s = (if hdr_mapped p s then Some (s\<lparr>ram := (ram s)(p := v)\<rparr>) else None)"

definition put_size :: "addr \<Rightarrow> u32 \<Rightarrow> 'a paging_scheme \<Rightarrow> 'a paging_scheme option" where
  "put_size p v s = (if hdr_mapped p s then Some (s\<lparr>ram := wr32 (ram s) (p + 4) v\<rparr>) else None)"

definition put_prev :: "addr \<Rightarrow> addr \<Rightarrow> 'a paging_scheme \<Rightarrow> 'a paging_scheme option" where
  "put_prev p v s = (if hdr_mapped p s then Some (s\<lparr>ram := wr32 (ram s) (p + 8) v\<rparr>) else None)"

definition find_next_hdr :: "addr \<Rightarrow> 'a paging_scheme \<Rightarrow> addr option" where
  "find_next_hdr hdr s = map_option (\<lambda>n. hdr + 16 + n) (hdr_size hdr s)"

text \<open>A block that cannot take the allocation.\<close>

definition unfit :: "u8 \<Rightarrow> u32 \<Rightarrow> u32 \<Rightarrow> bool" where
  "unfit st n sz \<longleftrightarrow> st AND USED \<noteq> 0 \<or> n < sz"

partial_function (option) malloc_find :: "addr \<Rightarrow> u32 \<Rightarrow> 'a paging_scheme \<Rightarrow> addr option" where
  "malloc_find hdr sz s =
     (if hdr = NULL then Some hdr
      else do {
        st \<leftarrow> hdr_status hdr s;
        n \<leftarrow> hdr_size hdr s;
        if unfit st n sz \<and> st AND END_OF_MEMORY = 0 then malloc_find (hdr + 16 + n) sz s
        else Some hdr
      })"

text \<open>Whether the search has ended without a block, and the new block at the end of the heap.\<close>

definition malloc_must_grow :: "addr \<Rightarrow> u32 \<Rightarrow> 'a paging_scheme \<Rightarrow> bool option" where
  "malloc_must_grow hdr sz s =
     (if hdr = NULL then Some True
      else do {
        st \<leftarrow> hdr_status hdr s;
        n \<leftarrow> hdr_size hdr s;
        Some (unfit st n sz \<and> st AND END_OF_MEMORY \<noteq> 0)
      })"

definition malloc_grow :: "addr \<Rightarrow> u32 \<Rightarrow> 'a heap_scheme \<Rightarrow> (addr \<times> 'a heap_scheme) option" where
  "malloc_grow hdr sz s =
     do {
       let n = (sz + 16) div PAGE_SIZE + 1;
       virt \<leftarrow> (if hdr \<noteq> NULL then find_next_hdr hdr s else Some K_MEM_HEAP_START);
       (new_hdr, s) \<leftarrow> mem_alloc virt K_MEM_HEAP_END n DEFAULT_PAGE_FLAGS s;
       s \<leftarrow> put_status new_hdr END_OF_MEMORY s;
       s \<leftarrow> put_size new_hdr (n * PAGE_SIZE - 16) s;
       s \<leftarrow> put_prev new_hdr hdr s;
       s \<leftarrow> (if hdr \<noteq> NULL then do {
               st \<leftarrow> hdr_status hdr s;
               put_status hdr (st AND NOT END_OF_MEMORY) s
             }
             else Some (s\<lparr>first_hdr := new_hdr\<rparr>));
       Some (new_hdr, s)
     }"

definition malloc_split :: "addr \<Rightarrow> u32 \<Rightarrow> 'a paging_scheme \<Rightarrow> 'a paging_scheme option" where
  "malloc_split hdr sz s =
     do {
       n \<leftarrow> hdr_size hdr s;
       if n \<ge> sz + 2 * 16 then do {
         let remaining = n - (sz + 16);
         s \<leftarrow> put_size hdr sz s;
         next_hdr \<leftarrow> find_next_hdr hdr s;
         s \<leftarrow> put_status next_hdr 0 s;
         s \<leftarrow> put_prev next_hdr hdr s;
         s \<leftarrow> put_size next_hdr remaining s;
         st \<leftarrow> hdr_status hdr s;
         if st AND END_OF_MEMORY \<noteq> 0 then do {
           s \<leftarrow> put_status hdr (st AND NOT END_OF_MEMORY) s;
           st' \<leftarrow> hdr_status next_hdr s;
           put_status next_hdr (st' OR END_OF_MEMORY) s
         }
         else do {
           next_next \<leftarrow> find_next_hdr next_hdr s;
           put_prev next_next next_hdr s
         }
       }
       else Some s
     }"

definition malloc :: "u32 \<Rightarrow> 'a heap_scheme \<Rightarrow> (addr \<times> 'a heap_scheme) option" where
  "malloc sz s =
     do {
       let sz = (sz + 15) AND NOT 15;
       hdr \<leftarrow> malloc_find (first_hdr s) sz s;
       grow \<leftarrow> malloc_must_grow hdr sz s;
       (hdr, s) \<leftarrow> (if grow then malloc_grow hdr sz s else Some (hdr, s));
       st \<leftarrow> hdr_status hdr s;
       s \<leftarrow> put_status hdr (st OR USED) s;
       s \<leftarrow> malloc_split hdr sz s;
       Some (hdr + 16, s)
     }"

text \<open>\<open>free\<close>: the merge with the block before, the merge with the block after, the final mark.\<close>

definition free_merge_prev :: "addr \<Rightarrow> 'a paging_scheme \<Rightarrow> (addr \<times> 'a paging_scheme) option" where
  "free_merge_prev hdr s =
     do {
       prev \<leftarrow> hdr_prev hdr s;
       if prev = NULL then Some (hdr, s)
       else do {
         pst \<leftarrow> hdr_status prev s;
         if pst AND USED \<noteq> 0 then Some (hdr, s)
         else do {
           pn \<leftarrow> hdr_size prev s;
           n \<leftarrow> hdr_size hdr s;
           s \<leftarrow> put_size prev (pn + n) s;
           st \<leftarrow> hdr_status hdr s;
           s \<leftarrow> put_status prev (pst OR (st AND END_OF_MEMORY)) s;
           Some (prev, s)
         }
       }
     }"

definition free_merge_next :: "addr \<Rightarrow> 'a paging_scheme \<Rightarrow> 'a paging_scheme option" where
  "free_merge_next hdr s =
     do {
       st \<leftarrow> hdr_status hdr s;
       if st = END_OF_MEMORY then Some s
       else do {
         next_hdr \<leftarrow> find_next_hdr hdr s;
         nst \<leftarrow> hdr_status next_hdr s;
         if nst AND USED \<noteq> 0 then Some s
         else do {
           n \<leftarrow> hdr_size hdr s;
           nn \<leftarrow> hdr_size next_hdr s;
           s \<leftarrow> put_size hdr (n + nn) s;
           s \<leftarrow> put_status hdr (st OR (nst AND END_OF_MEMORY)) s;
           if nst AND END_OF_MEMORY = 0 then do {
             next_next \<leftarrow> find_next_hdr next_hdr s;
             put_prev next_next hdr s
           }
           else Some s
         }
       }
     }"

definition free :: "addr \<Rightarrow> 'a paging_scheme \<Rightarrow> 'a paging_scheme option" where
  "free ptr s =
     do {
       (hdr, s) \<leftarrow> free_merge_prev (ptr - 16) s;
       s \<leftarrow> free_merge_next hdr s;
       st \<leftarrow> hdr_status hdr s;
       put_status hdr (st AND NOT USED) s
     }"

section \<open>Blocks\<close>

text \<open>
  The abstract heap: the blocks from the first header on, each with its status and size. \<open>blocks\<close>
  says that the memory holds them one after the other from \<open>p\<close> on, \<open>prev\<close> being the header before
  the first, and \<open>fin\<close> whether the last one ends the heap.
\<close>

type_synonym block = "bool \<times> nat"

definition block_at :: "mem \<Rightarrow> nat \<Rightarrow> nat \<Rightarrow> bool \<Rightarrow> nat \<Rightarrow> bool \<Rightarrow> bool" where
  "block_at m prev p u n e \<longleftrightarrow> m (of_nat p) = (if u then 1 else 0) OR (if e then 2 else 0)
     \<and> rd32 m (of_nat p + 4) = of_nat n \<and> rd32 m (of_nat p + 8) = of_nat prev"

fun blocks :: "mem \<Rightarrow> bool \<Rightarrow> nat \<Rightarrow> nat \<Rightarrow> block list \<Rightarrow> bool" where
  "blocks m fin prev p [] = True"
| "blocks m fin prev p ((u, n) # bs) \<longleftrightarrow>
     block_at m prev p u n (fin \<and> bs = []) \<and> blocks m fin p (p + 16 + n) bs"

definition extent :: "block list \<Rightarrow> nat" where
  "extent bs = sum_list (map (\<lambda>(u, n). 16 + n) bs)"

text \<open>The last header of a list of blocks.\<close>

fun last_hdr :: "nat \<Rightarrow> nat \<Rightarrow> block list \<Rightarrow> nat" where
  "last_hdr prev p [] = prev"
| "last_hdr prev p ((u, n) # bs) = last_hdr p (p + 16 + n) bs"

lemma extent_simps [simp]:
  "extent [] = 0" "extent ((u, n) # bs) = 16 + n + extent bs" "extent (as @ bs) = extent as + extent bs"
  by (simp_all add: extent_def)

lemma blocks_append:
  "bs \<noteq> [] \<Longrightarrow> blocks m fin prev p (as @ bs) \<longleftrightarrow>
     blocks m False prev p as \<and> blocks m fin (last_hdr prev p as) (p + extent as) bs"
  by (induction as arbitrary: prev p) (auto simp: add.assoc)

text \<open>The three fields of a header, and the effect of a write to one of them.\<close>

definition hdr_view :: "mem \<Rightarrow> addr \<Rightarrow> u8 \<times> u32 \<times> addr" where
  "hdr_view m p = (m p, rd32 m (p + 4), rd32 m (p + 8))"

lemma block_at_view:
  "block_at m prev p u n e \<longleftrightarrow> hdr_view m (of_nat p) = ((if u then 1 else 0) OR (if e then 2 else 0), of_nat n, of_nat prev)"
  by (simp add: block_at_def hdr_view_def)

lemma add_offset_eq: "(p :: addr) + of_nat j = p + of_nat k \<longleftrightarrow> (of_nat j :: addr) = of_nat k"
  by simp

lemma hdr_view_same [simp]:
  "hdr_view (m(p := v)) p = (v, snd (hdr_view m p))"
  "hdr_view (wr32 m (p + 4) w) p = (fst (hdr_view m p), w, snd (snd (hdr_view m p)))"
  "hdr_view (wr32 m (p + 8) w) p = (fst (hdr_view m p), fst (snd (hdr_view m p)), w)"
proof -
  have ne: "p + of_nat j \<noteq> p + of_nat k" if "j < 16" "k < 16" "j \<noteq> k" for j k
  proof -
    have "unat (of_nat j :: addr) = j" "unat (of_nat k :: addr) = k" using that by (simp_all add: unat_of_nat32)
    with that(3) have "(of_nat j :: addr) \<noteq> of_nat k" by metis
    then show ?thesis by simp
  qed
  note ne' = ne [of 0 4, simplified] ne [of 0 5, simplified] ne [of 0 6, simplified] ne [of 0 7, simplified]
    ne [of 0 8, simplified] ne [of 0 9, simplified] ne [of 0 10, simplified] ne [of 0 11, simplified]
  show "hdr_view (m(p := v)) p = (v, snd (hdr_view m p))"
    using ne' by (simp add: hdr_view_def rd32_def add.assoc)
  show "hdr_view (wr32 m (p + 4) w) p = (fst (hdr_view m p), w, snd (snd (hdr_view m p)))"
    using ne' by (simp add: hdr_view_def) (simp add: wr32_def rd32_def add.assoc)
  show "hdr_view (wr32 m (p + 8) w) p = (fst (hdr_view m p), fst (snd (hdr_view m p)), w)"
    using ne' by (simp add: hdr_view_def) (simp add: wr32_def rd32_def add.assoc)
qed

text \<open>Memories that agree on a range of addresses.\<close>

definition agree :: "nat \<Rightarrow> nat \<Rightarrow> mem \<Rightarrow> mem \<Rightarrow> bool" where
  "agree a b m m' \<longleftrightarrow> (\<forall>i. a \<le> i \<and> i < b \<longrightarrow> m' (of_nat i) = m (of_nat i))"

lemma agree_mono: "agree a b m m' \<Longrightarrow> a \<le> a' \<Longrightarrow> b' \<le> b \<Longrightarrow> agree a' b' m m'"
  by (auto simp: agree_def)

lemma agree_trans: "agree a b m m' \<Longrightarrow> agree a b m' m'' \<Longrightarrow> agree a b m m''"
  by (auto simp: agree_def)

lemma agree_at:
  assumes "agree p (p + 16) m m'" "k < 16"
  shows "m' (of_nat p + of_nat k) = m (of_nat p + of_nat k)"
  using assms(1) [unfolded agree_def, rule_format, of "p + k"] assms(2) by simp

lemma rd32_agree:
  assumes "agree p (p + 16) m m'"
  shows "rd32 m' (of_nat p + 4) = rd32 m (of_nat p + 4)" "rd32 m' (of_nat p + 8) = rd32 m (of_nat p + 8)"
proof -
  note at = agree_at [OF assms]
  show "rd32 m' (of_nat p + 4) = rd32 m (of_nat p + 4)"
    using at [of 4] at [of 5] at [of 6] at [of 7] by (simp add: rd32_def add.assoc)
  show "rd32 m' (of_nat p + 8) = rd32 m (of_nat p + 8)"
    using at [of 8] at [of 9] at [of 10] at [of 11] by (simp add: rd32_def add.assoc)
qed

lemma block_at_agree: "agree p (p + 16) m m' \<Longrightarrow> block_at m' prev p u n e = block_at m prev p u n e"
  using agree_at [of p m m' 0] by (simp add: block_at_def rd32_agree)

lemma blocks_agree:
  "agree p (p + extent bs) m m' \<Longrightarrow> blocks m' fin prev p bs = blocks m fin prev p bs"
proof (induction bs arbitrary: prev p)
  case (Cons b bs)
  obtain u n where b: "b = (u, n)" by (cases b)
  have "agree p (p + 16) m m'" "agree (p + 16 + n) (p + 16 + n + extent bs) m m'"
    by (rule agree_mono [OF Cons.prems]; simp add: b)+
  with Cons.IH show ?case by (simp add: b block_at_agree)
qed simp

text \<open>Writes to the three fields of a header at \<open>q\<close> keep what lies elsewhere.\<close>

lemma of_nat_neq: "i < 4294967296 \<Longrightarrow> j < 4294967296 \<Longrightarrow> i \<noteq> j \<Longrightarrow> (of_nat i :: addr) \<noteq> of_nat j"
  by (metis unat_of_nat32)

lemma agree_status:
  assumes "b \<le> q \<or> q < a" "q < 4294967296" "b \<le> 4294967296"
  shows "agree a b m (m(of_nat q := v))"
  using assms of_nat_neq [of _ q] by (auto simp: agree_def)

lemma agree_wr32:
  assumes "b \<le> q + k \<or> q + k + 4 \<le> a" "q + k + 4 \<le> 4294967296" "b \<le> 4294967296"
  shows "agree a b m (wr32 m (of_nat q + of_nat k) v)"
proof -
  have "wr32 m (of_nat (q + k)) v (of_nat i) = m (of_nat i)" if "a \<le> i" "i < b" for i
  proof -
    have "(of_nat i :: addr) \<noteq> of_nat (q + k + j)" if "j < 4" for j
      by (rule of_nat_neq) (use assms that \<open>a \<le> i\<close> \<open>i < b\<close> in auto)
    from this [of 0] this [of 1] this [of 2] this [of 3] show ?thesis by (simp add: wr32_def ac_simps)
  qed
  then show ?thesis by (simp add: agree_def)
qed


lemma hdr_view_agree: "agree p (p + 16) m m' \<Longrightarrow> hdr_view m' (of_nat p) = hdr_view m (of_nat p)"
  using agree_at [of p m m' 0] by (simp add: hdr_view_def rd32_agree)

lemma hdr_view_other:
  assumes "p + 16 \<le> q \<or> q + 16 \<le> p" "p + 16 \<le> 4294967296" "q + 16 \<le> 4294967296"
  shows "hdr_view (m(of_nat q := v)) (of_nat p) = hdr_view m (of_nat p)"
    "hdr_view (wr32 m (of_nat q + 4) w) (of_nat p) = hdr_view m (of_nat p)"
    "hdr_view (wr32 m (of_nat q + 8) w) (of_nat p) = hdr_view m (of_nat p)"
  using agree_status [of "p + 16" q p m v] agree_wr32 [of "p + 16" q 4 p m w] agree_wr32 [of "p + 16" q 8 p m w] assms
  by (auto intro: hdr_view_agree)


section \<open>The heap as a list of blocks\<close>

abbreviation (input) heap_start :: nat where "heap_start \<equiv> 3489660928"
abbreviation (input) heap_limit :: nat where "heap_limit \<equiv> 4026527744"

text \<open>
  \<open>heap_is s bs\<close>: the heap of \<open>s\<close> holds the blocks \<open>bs\<close>, in mapped memory inside the heap area; sizes are
  multiples of 16.
\<close>

definition heap_mapped :: "'a paging_scheme \<Rightarrow> nat \<Rightarrow> bool" where
  "heap_mapped s e \<longleftrightarrow> (\<forall>i. heap_start \<le> i \<and> i < e \<longrightarrow> virt_mapped (of_nat i) s)"

definition heap_is :: "'a heap_scheme \<Rightarrow> block list \<Rightarrow> bool" where
  "heap_is s bs \<longleftrightarrow> first_hdr s = (if bs = [] then NULL else of_nat heap_start)
     \<and> blocks (ram s) True 0 heap_start bs \<and> (\<forall>(u, n) \<in> set bs. 16 dvd n)
     \<and> heap_start + extent bs \<le> heap_limit \<and> heap_mapped s (heap_start + extent bs)"

text \<open>The specification of \<open>malloc\<close> for a rounded size: first fit, growth by whole pages, splitting.\<close>

fun first_fit :: "nat \<Rightarrow> block list \<Rightarrow> (block list \<times> nat \<times> block list) option" where
  "first_fit sz [] = None"
| "first_fit sz ((u, n) # bs) =
     (if \<not> u \<and> sz \<le> n then Some ([], n, bs)
      else map_option (\<lambda>(as, k, cs). ((u, n) # as, k, cs)) (first_fit sz bs))"

definition split_block :: "nat \<Rightarrow> nat \<Rightarrow> block list" where
  "split_block sz n = (if sz + 32 \<le> n then [(True, sz), (False, n - sz - 16)] else [(True, n)])"

definition grown :: "nat \<Rightarrow> nat" where
  "grown sz = ((sz + 16) div 4096 + 1) * 4096 - 16"

definition abs_malloc :: "nat \<Rightarrow> block list \<Rightarrow> nat \<times> block list" where
  "abs_malloc sz bs = (case first_fit sz bs of
     Some (as, n, cs) \<Rightarrow> (extent as, as @ split_block sz n @ cs)
   | None \<Rightarrow> (extent bs, bs @ split_block sz (grown sz)))"

definition round16 :: "nat \<Rightarrow> nat" where
  "round16 n = (n + 15) div 16 * 16"

lemma first_fit_Some:
  "first_fit sz bs = Some (as, n, cs) \<Longrightarrow>
     bs = as @ (False, n) # cs \<and> sz \<le> n \<and> (\<forall>(u, k) \<in> set as. u \<or> k < sz)"
  by (induction sz bs arbitrary: as rule: first_fit.induct) (auto split: if_splits)

lemma first_fit_None: "first_fit sz bs = None \<Longrightarrow> \<forall>(u, k) \<in> set bs. u \<or> k < sz"
  by (induction sz bs rule: first_fit.induct) (auto split: if_splits)

lemma split_block_extent: "extent (split_block sz n) = 16 + n"
  by (simp add: split_block_def)

lemma split_block_dvd: "16 dvd sz \<Longrightarrow> 16 dvd n \<Longrightarrow> (u, k) \<in> set (split_block sz n) \<Longrightarrow> 16 dvd k"
  by (auto simp: split_block_def split: if_splits intro: dvd_diff_nat)

section \<open>Searching\<close>

lemma status_bits:
  "((if u then 1 else 0) OR (if e then 2 else 0) :: u8) AND 1 \<noteq> 0 \<longleftrightarrow> u"
  "((if u then 1 else 0) OR (if e then 2 else 0) :: u8) AND 2 \<noteq> 0 \<longleftrightarrow> e"
  "((if u then 1 else 0) OR (if e then 2 else 0) :: u8) AND 2 = 0 \<longleftrightarrow> \<not> e"
  by simp_all

lemma hdr_in_heap:
  assumes "heap_mapped s e" "heap_start \<le> p" "p + 16 \<le> e"
  shows "hdr_mapped (of_nat p) s"
proof -
  have "virt_mapped (of_nat p) s" "virt_mapped (of_nat (p + 15)) s"
    using assms by (auto simp: heap_mapped_def simp del: of_nat_add)
  then show ?thesis by (simp add: hdr_mapped_def)
qed

lemma hdr_fields:
  assumes "hdr_mapped p s"
  shows "hdr_status p s = Some (fst (hdr_view (ram s) p))" "hdr_size p s = Some (fst (snd (hdr_view (ram s) p)))"
    "hdr_prev p s = Some (snd (snd (hdr_view (ram s) p)))"
  using assms by (simp_all add: hdr_status_def hdr_size_def hdr_prev_def hdr_view_def)

lemma hdr_puts:
  assumes "hdr_mapped p s"
  shows "put_status p v s = Some (s\<lparr>ram := (ram s)(p := v)\<rparr>)"
    "put_size p w s = Some (s\<lparr>ram := wr32 (ram s) (p + 4) w\<rparr>)"
    "put_prev p w s = Some (s\<lparr>ram := wr32 (ram s) (p + 8) w\<rparr>)"
  using assms by (simp_all add: put_status_def put_size_def put_prev_def)

lemma mapped_ram [simp]: "virt_mapped a (s\<lparr>ram := m\<rparr>) = virt_mapped a s"
  "hdr_mapped a (s\<lparr>ram := m\<rparr>) = hdr_mapped a s" "heap_mapped (s\<lparr>ram := m\<rparr>) e = heap_mapped s e"
  by (simp_all add: virt_mapped_def hdr_mapped_def heap_mapped_def table_present_def page_present_def)

lemma find_step:
  assumes "block_at (ram s) prev p u n e" "hdr_mapped (of_nat p) s" "0 < p" "p < 4294967296" "n < 4294967296"
  shows "malloc_find (of_nat p) sz s =
    (if (u \<or> n < unat sz) \<and> \<not> e then malloc_find (of_nat (p + 16 + n)) sz s else Some (of_nat p))"
proof -
  have "(of_nat p :: addr) \<noteq> 0" using of_nat_neq [of p 0] assms(3,4) by simp
  moreover have "(of_nat n :: u32) < sz \<longleftrightarrow> n < unat sz" using assms(5) by (simp add: word_less_nat_alt unat_of_nat32)
  ultimately show ?thesis
    using assms(1,2) by (subst malloc_find.simps) (simp add: hdr_fields block_at_view unfit_def status_bits)
qed

lemma find_fit:
  assumes "blocks (ram s) True prev p (as @ (False, n) # cs)" "heap_mapped s e" "heap_start \<le> p"
    and "p + extent (as @ (False, n) # cs) \<le> e" "e \<le> heap_limit"
    and "\<forall>(u, k) \<in> set as. u \<or> k < unat sz" "unat sz \<le> n"
  shows "malloc_find (of_nat p) sz s = Some (of_nat (p + extent as))"
  using assms
proof (induction as arbitrary: prev p)
  case Nil
  then have b: "block_at (ram s) prev p False n (cs = [])" by simp
  have "hdr_mapped (of_nat p) s" using hdr_in_heap [OF Nil.prems(2,3)] Nil.prems(4) by simp
  from find_step [OF b this, of sz] Nil.prems show ?case by simp
next
  case (Cons a as)
  obtain u k where a: "a = (u, k)" by (cases a)
  from Cons.prems(1) a have b: "block_at (ram s) prev p u k False" by simp
  have "hdr_mapped (of_nat p) s" using hdr_in_heap [OF Cons.prems(2,3)] Cons.prems(4) a by simp
  note st = find_step [OF b this, of sz]
  have "malloc_find (of_nat (p + 16 + k)) sz s = Some (of_nat (p + 16 + k + extent as))"
    using Cons.prems a by (intro Cons.IH [where prev = p]) auto
  then show ?case using st Cons.prems a by (simp add: add.assoc)
qed

lemma find_none:
  assumes "blocks (ram s) True prev p (as @ [(u, n)])" "heap_mapped s e" "heap_start \<le> p"
    and "p + extent (as @ [(u, n)]) \<le> e" "e \<le> heap_limit"
    and "\<forall>(u, k) \<in> set as. u \<or> k < unat sz"
  shows "malloc_find (of_nat p) sz s = Some (of_nat (p + extent as))"
  using assms
proof (induction as arbitrary: prev p)
  case Nil
  then have b: "block_at (ram s) prev p u n True" by simp
  have "hdr_mapped (of_nat p) s" using hdr_in_heap [OF Nil.prems(2,3)] Nil.prems(4) by simp
  from find_step [OF b this, of sz] Nil.prems show ?case by simp
next
  case (Cons a as)
  obtain v k where a: "a = (v, k)" by (cases a)
  from Cons.prems(1) a have b: "block_at (ram s) prev p v k False" by simp
  have "hdr_mapped (of_nat p) s" using hdr_in_heap [OF Cons.prems(2,3)] Cons.prems(4) a by simp
  note st = find_step [OF b this, of sz]
  have "malloc_find (of_nat (p + 16 + k)) sz s = Some (of_nat (p + 16 + k + extent as))"
    using Cons.prems a by (intro Cons.IH [where prev = p]) auto
  then show ?case using st Cons.prems a by (simp add: add.assoc)
qed


section \<open>Splitting\<close>

lemma blocks_middle:
  "blocks m True prev p (as @ (u, n) # cs) \<longleftrightarrow>
     blocks m False prev p as \<and> block_at m (last_hdr prev p as) (p + extent as) u n (cs = [])
     \<and> blocks m True (p + extent as) (p + extent as + 16 + n) cs"
  using blocks_append [of "(u, n) # cs" m True prev p as] by simp

text \<open>Changing the predecessor that the first header of a list names.\<close>

lemma blocks_new_prev:
  assumes "blocks m fin prev p ((u, k) # cs)" "p + 16 + k + extent cs \<le> 4294967296"
  shows "blocks (wr32 m (of_nat p + 8) (of_nat r)) fin r p ((u, k) # cs)"
proof -
  let ?m = "wr32 m (of_nat p + 8) (of_nat r)"
  have "hdr_view ?m (of_nat p) = ((if u then 1 else 0) OR (if fin \<and> cs = [] then 2 else 0), of_nat k, of_nat r)"
    using assms(1) by (simp add: block_at_view)
  moreover have "agree (p + 16 + k) (p + 16 + k + extent cs) m ?m"
    using agree_wr32 [of "p + 16 + k + extent cs" p 8 "p + 16 + k" m "of_nat r"] assms(2) by simp
  ultimately show ?thesis using assms(1) by (simp add: block_at_view blocks_agree)
qed

text \<open>The block at \<open>q\<close> has changed, and at most the first header behind it besides.\<close>

definition only_block :: "nat \<Rightarrow> nat \<Rightarrow> mem \<Rightarrow> mem \<Rightarrow> bool" where
  "only_block q n m m' \<longleftrightarrow> agree 0 q m m' \<and> agree (q + 32 + n) 4294967296 m m'"

lemma only_block_refl [simp]: "only_block q n m m"
  by (simp add: only_block_def agree_def)

text \<open>Nothing outside the heap's area changes.\<close>

definition outside_kept :: "mem \<Rightarrow> mem \<Rightarrow> bool" where
  "outside_kept m m' \<longleftrightarrow> agree 0 heap_start m m' \<and> agree 4026531840 4294967296 m m'"

lemma outside_kept_trans: "outside_kept m m' \<Longrightarrow> outside_kept m' m'' \<Longrightarrow> outside_kept m m''"
  by (auto simp: outside_kept_def agree_def)

lemma only_block_outside: "only_block q n m m' \<Longrightarrow> heap_start \<le> q \<Longrightarrow> q + n \<le> heap_limit \<Longrightarrow> outside_kept m m'"
  by (auto simp: only_block_def outside_kept_def agree_def)

lemma only_block_trans: "only_block q n m m' \<Longrightarrow> only_block q n m' m'' \<Longrightarrow> only_block q n m m''"
  by (auto simp: only_block_def intro: agree_trans)

lemma only_block_writes:
  assumes "q \<le> r" "r \<le> q + 16 + n" "q + 32 + n \<le> 4294967296"
  shows "only_block q n m (m(of_nat r := v))" "only_block q n m (wr32 m (of_nat r + 4) w)"
    "only_block q n m (wr32 m (of_nat r + 8) w)"
  using agree_status [of q r 0 m v] agree_wr32 [of q r 4 0 m w] agree_wr32 [of q r 8 0 m w]
    agree_status [of 4294967296 r "q + 32 + n" m v] agree_wr32 [of 4294967296 r 4 "q + 32 + n" m w]
    agree_wr32 [of 4294967296 r 8 "q + 32 + n" m w] assms
  by (auto simp: only_block_def)

text \<open>Splitting a block of size \<open>n\<close> before a following header, and at the end of the heap.\<close>

lemma split_writes:
  assumes q: "0 < q" "q + 32 + n \<le> 4294967296" "sz + 32 \<le> n"
    and b: "hdr_view m (of_nat q) = (st, of_nat n, pv)"
    and m4: "m4 = wr32 (wr32 ((wr32 m (of_nat q + 4) (of_nat sz))(of_nat (q + 16 + sz) := 0))
      (of_nat (q + 16 + sz) + 8) (of_nat q)) (of_nat (q + 16 + sz) + 4) (of_nat (n - sz - 16))"
  shows "hdr_view m4 (of_nat q) = (st, of_nat sz, pv)"
    "hdr_view m4 (of_nat (q + 16 + sz)) = (0, of_nat (n - sz - 16), of_nat q)"
    "only_block q n m m4" "agree (q + 16 + n) 4294967296 m m4"
proof -
  let ?r = "q + 16 + sz"
  have qr: "q + 16 \<le> ?r \<or> ?r + 16 \<le> q" "q + 16 \<le> 4294967296" "?r + 16 \<le> 4294967296" using q by auto
  note other = hdr_view_other [OF qr] hdr_view_other [of ?r q, OF _ qr(3,2)]
  show "hdr_view m4 (of_nat q) = (st, of_nat sz, pv)"
    unfolding m4 by (simp only: other b hdr_view_same fst_conv snd_conv)
  show "hdr_view m4 (of_nat ?r) = (0, of_nat (n - sz - 16), of_nat q)"
    unfolding m4 by (simp only: hdr_view_same fst_conv snd_conv)
  have r: "q \<le> ?r" "?r \<le> q + 16 + n" using q by auto
  have "only_block q n m (wr32 m (of_nat q + 4) (of_nat sz))"
    by (rule only_block_writes) (use q in simp_all)
  then show "only_block q n m m4"
    unfolding m4 using only_block_writes [OF r q(2)] by (meson only_block_trans)
  have "agree (q + 16 + n) 4294967296 m (wr32 m (of_nat q + 4) (of_nat sz))"
    using agree_wr32 [of 4294967296 q 4 "q + 16 + n" m] q by simp
  moreover have "agree (q + 16 + n) 4294967296 m' (m'(of_nat ?r := v))"
    "agree (q + 16 + n) 4294967296 m' (wr32 m' (of_nat ?r + 8) w)"
    "agree (q + 16 + n) 4294967296 m' (wr32 m' (of_nat ?r + 4) w)" for m' :: mem and v w
    using agree_status [of 4294967296 ?r "q + 16 + n" m' v] agree_wr32 [of 4294967296 ?r 8 "q + 16 + n" m' w]
      agree_wr32 [of 4294967296 ?r 4 "q + 16 + n" m' w] q by auto
  ultimately show "agree (q + 16 + n) 4294967296 m m4" unfolding m4 by (meson agree_trans)
qed

lemma split_blocks:
  assumes bl: "blocks (ram s) True 0 heap_start (as @ (True, n) # cs)" and mp: "heap_mapped s e"
    and e: "heap_start + extent (as @ (True, n) # cs) \<le> e" "e \<le> heap_limit"
    and q: "q = heap_start + extent as" and sz: "sz \<le> n"
  shows "\<exists>m. malloc_split (of_nat q) (of_nat sz) s = Some (s\<lparr>ram := m\<rparr>)
    \<and> blocks m True 0 heap_start (as @ split_block sz n @ cs) \<and> only_block q n (ram s) m"
proof (cases "sz + 32 \<le> n")
  case False
  have b: "block_at (ram s) (last_hdr 0 heap_start as) q True n (cs = [])" using bl by (simp add: blocks_middle q)
  have "hdr_mapped (of_nat q) s" by (rule hdr_in_heap [OF mp]) (use e q in simp_all)
  moreover have "\<not> of_nat n \<ge> (of_nat sz + 2 * 16 :: u32)"
  proof -
    have "(of_nat sz + 2 * 16 :: u32) = of_nat (sz + 32)" by simp
    then show ?thesis using False e sz by (simp only: word_le_nat_alt) (simp add: unat_of_nat32 del: of_nat_add)
  qed
  ultimately have "malloc_split (of_nat q) (of_nat sz) s = Some (s\<lparr>ram := ram s\<rparr>)"
    using b by (simp add: malloc_split_def hdr_fields block_at_view)
  then show ?thesis using bl False by (intro exI [of _ "ram s"]) (simp add: split_block_def)
next
  case True
  let ?r = "q + 16 + sz"
  define m where "m = ram s"
  define m4 where "m4 = wr32 (wr32 ((wr32 m (of_nat q + 4) (of_nat sz))(of_nat ?r := 0))
      (of_nat ?r + 8) (of_nat q)) (of_nat ?r + 4) (of_nat (n - sz - 16))"
  let ?pv = "last_hdr 0 heap_start as"
  have parts: "blocks m False 0 heap_start as" "block_at m ?pv q True n (cs = [])" "blocks m True q (q + 16 + n) cs"
    using bl by (simp_all add: blocks_middle q m_def)
  have lim: "0 < q" "q + 32 + n \<le> 4294967296" "heap_start \<le> q" "q + 16 + n + extent cs \<le> e" using e q by simp_all
  note w = split_writes [OF lim(1,2) True _ m4_def]
  have bq: "hdr_view m (of_nat q) = (1 OR (if cs = [] then 2 else 0), of_nat n, of_nat ?pv)"
    using parts(2) by (simp add: block_at_view)
  note w = w [OF bq]
  have as4: "blocks m4 False 0 heap_start as"
    using parts(1) blocks_agree [of heap_start as m m4] w(3) agree_mono [of 0 q m m4] q by (simp add: only_block_def)
  have hm: "hdr_mapped (of_nat q) s" "hdr_mapped (of_nat ?r) s"
    using hdr_in_heap [OF mp, of q] hdr_in_heap [OF mp, of ?r] lim True by auto
  have words: "of_nat n \<ge> (of_nat sz + 2 * 16 :: u32)" "of_nat n - (of_nat sz + 16) = (of_nat (n - sz - 16) :: u32)"
    "of_nat q + 16 + of_nat sz = (of_nat ?r :: addr)" "of_nat ?r + 16 + of_nat (n - sz - 16) = (of_nat (q + 16 + n) :: addr)"
  proof -
    have "(of_nat sz + 2 * 16 :: u32) = of_nat (sz + 32)" by simp
    then show "of_nat n \<ge> (of_nat sz + 2 * 16 :: u32)"
      using True lim by (simp only: word_le_nat_alt) (simp add: unat_of_nat32 del: of_nat_add)
  qed (use True in \<open>simp_all add: of_nat_diff\<close>)
  have steps: "malloc_split (of_nat q) (of_nat sz) s = do {
      st \<leftarrow> hdr_status (of_nat q) (s\<lparr>ram := m4\<rparr>);
      if st AND END_OF_MEMORY \<noteq> 0 then do {
        s \<leftarrow> put_status (of_nat q) (st AND NOT END_OF_MEMORY) (s\<lparr>ram := m4\<rparr>);
        st' \<leftarrow> hdr_status (of_nat ?r) s;
        put_status (of_nat ?r) (st' OR END_OF_MEMORY) s
      }
      else do {
        next_next \<leftarrow> find_next_hdr (of_nat ?r) (s\<lparr>ram := m4\<rparr>);
        put_prev next_next (of_nat ?r) (s\<lparr>ram := m4\<rparr>)
      } }"
    using hm words bq unfolding malloc_split_def m4_def m_def
    by (simp add: hdr_fields hdr_puts find_next_hdr_def Let_def hdr_view_same del: of_nat_add)
  show ?thesis
  proof (cases cs)
    case Nil
    define m6 where "m6 = m4(of_nat q := 1, of_nat ?r := 2)"
    have qr: "q + 16 \<le> ?r \<or> ?r + 16 \<le> q" "q + 16 \<le> 4294967296" "?r + 16 \<le> 4294967296" using lim True by auto
    note other = hdr_view_other(1) [OF qr] hdr_view_other(1) [of ?r q, OF _ qr(3,2)]
    have "malloc_split (of_nat q) (of_nat sz) s = Some (s\<lparr>ram := m6\<rparr>)"
      using hm w(1,2) Nil other unfolding steps m6_def by (simp add: hdr_fields hdr_puts del: of_nat_add)
    moreover have "block_at m6 ?pv q True sz False" "block_at m6 q ?r False (n - sz - 16) True"
      using other w(1,2) by (simp_all add: block_at_view m6_def del: of_nat_add)
    moreover have ob: "only_block q n m4 m6"
      unfolding m6_def
      by (rule only_block_trans; rule only_block_writes) (use lim True in simp_all)
    moreover have "blocks m6 False 0 heap_start as"
      using as4 blocks_agree [of heap_start as m4 m6] ob agree_mono [of 0 q m4 m6] q by (simp add: only_block_def)
    ultimately show ?thesis using True Nil w(3) q
      by (intro exI [of _ m6]) (auto simp: split_block_def blocks_middle m_def intro: only_block_trans)
  next
    case (Cons c cs')
    obtain v k where c: "c = (v, k)" by (cases c)
    let ?z = "q + 16 + n"
    define m5 where "m5 = wr32 m4 (of_nat ?z + 8) (of_nat ?r)"
    have mz: "hdr_mapped (of_nat ?z) s" using hdr_in_heap [OF mp, of ?z] lim Cons c by simp
    have "malloc_split (of_nat q) (of_nat sz) s = Some (s\<lparr>ram := m5\<rparr>)"
      using hm mz w(1,2) Cons words(4) unfolding steps m5_def
      by (simp add: hdr_fields hdr_puts find_next_hdr_def del: of_nat_add)
    moreover have "hdr_view m5 (of_nat q) = hdr_view m4 (of_nat q)" "hdr_view m5 (of_nat ?r) = hdr_view m4 (of_nat ?r)"
      unfolding m5_def using lim True by (intro hdr_view_other(3); simp)+
    then have "block_at m5 ?pv q True sz False" "block_at m5 q ?r False (n - sz - 16) False"
      using w(1,2) Cons by (simp_all add: block_at_view del: of_nat_add)
    moreover have ob: "only_block q n m4 m5"
      unfolding m5_def by (rule only_block_writes) (use lim in simp_all)
    moreover have "blocks m5 False 0 heap_start as"
      using as4 blocks_agree [of heap_start as m4 m5] ob agree_mono [of 0 q m4 m5] q by (simp add: only_block_def)
    moreover have "blocks m5 True ?r ?z ((v, k) # cs')"
      unfolding m5_def
    proof (rule blocks_new_prev)
      have "blocks m4 True q ?z cs = blocks m True q ?z cs"
        by (rule blocks_agree) (rule agree_mono [OF w(4)], use lim e in simp_all)
      then show "blocks m4 True q ?z ((v, k) # cs')" using parts(3) Cons c by simp
    qed (use lim e Cons c in simp)
    ultimately show ?thesis using True w(3) q Cons c
      by (intro exI [of _ m5]) (auto simp: split_block_def blocks_middle m_def ac_simps intro: only_block_trans)
  qed
qed

section \<open>Allocating\<close>

lemma set_status_blocks:
  assumes bl: "blocks m True 0 heap_start (as @ (u, n) # cs)" and q: "q = heap_start + extent as"
    and lim: "q + 32 + n + extent cs \<le> 4294967296"
    and v: "v = (if u' then 1 else 0) OR (if cs = [] then 2 else 0)"
  shows "blocks (m(of_nat q := v)) True 0 heap_start (as @ (u', n) # cs)" "only_block q n m (m(of_nat q := v))"
proof -
  let ?m = "m(of_nat q := v)"
  show ob: "only_block q n m ?m" by (rule only_block_writes) (use lim in simp_all)
  have "agree heap_start (heap_start + extent as) m ?m" using ob q by (auto simp: only_block_def intro: agree_mono)
  moreover have "agree (q + 16 + n) (q + 16 + n + extent cs) m ?m"
    by (rule agree_status) (use lim in simp_all)
  moreover have "hdr_view ?m (of_nat q) = (v, of_nat n, of_nat (last_hdr 0 heap_start as))"
    using bl by (simp add: blocks_middle q block_at_view)
  ultimately show "blocks ?m True 0 heap_start (as @ (u', n) # cs)"
    using bl by (simp add: blocks_middle q block_at_view v blocks_agree)
qed

text \<open>The last block is no longer the end of the heap.\<close>

lemma blocks_continue:
  assumes bl: "blocks m True 0 heap_start (as @ [(u, k)])" and q: "q = heap_start + extent as"
    and lim: "q + 32 + k \<le> 4294967296"
  shows "blocks (m(of_nat q := (if u then 1 else 0))) False 0 heap_start (as @ [(u, k)])"
    "agree 0 q m (m(of_nat q := (if u then 1 else 0)))" "agree (q + 1) 4294967296 m (m(of_nat q := (if u then 1 else 0)))"
proof -
  let ?m = "m(of_nat q := (if u then 1 else 0))"
  show ag: "agree 0 q m ?m" by (rule agree_status) (use lim in simp_all)
  show "agree (q + 1) 4294967296 m ?m" by (rule agree_status) (use lim in simp_all)
  have "agree heap_start (heap_start + extent as) m ?m" using ag q by (auto intro: agree_mono)
  moreover have "hdr_view ?m (of_nat q) = (if u then 1 else 0, of_nat k, of_nat (last_hdr 0 heap_start as))"
    using bl by (simp add: blocks_middle q block_at_view)
  ultimately show "blocks ?m False 0 heap_start (as @ [(u, k)])"
    using bl by (simp add: blocks_append blocks_middle q block_at_view blocks_agree)
qed

text \<open>
  What \<open>malloc\<close> needs of the page allocator to grow the heap by \<open>n\<close> pages from \<open>e\<close> on: the region is
  mapped and returned, and nothing else that the heap rests on changes.
\<close>

definition can_grow :: "'a heap_scheme \<Rightarrow> nat \<Rightarrow> nat \<Rightarrow> 'a heap_scheme \<Rightarrow> bool" where
  "can_grow s e n t \<longleftrightarrow> e + 4096 * n \<le> heap_limit
     \<and> mem_alloc (of_nat e) K_MEM_HEAP_END (of_nat n) DEFAULT_PAGE_FLAGS s = Some (of_nat e, t)
     \<and> ram t = ram s \<and> first_hdr t = first_hdr s \<and> heap_mapped t (e + 4096 * n)
     \<and> (\<exists>p b. t = s\<lparr>ptes := p, phys_page_bitmap := b\<rparr>)"

text \<open>What \<open>malloc\<close> may change of the machine: memory, the heap's start, and through the page allocator the tables.\<close>

definition heap_frame :: "'a heap_scheme \<Rightarrow> 'a heap_scheme \<Rightarrow> bool" where
  "heap_frame s t \<longleftrightarrow> (\<exists>m p b h. t = s\<lparr>ram := m, ptes := p, phys_page_bitmap := b, first_hdr := h\<rparr>)"

lemma heap_frame_ram: "heap_frame s (s\<lparr>ram := m\<rparr>)"
proof -
  have "s\<lparr>ram := m\<rparr> = s\<lparr>ram := m, ptes := ptes s, phys_page_bitmap := phys_page_bitmap s, first_hdr := first_hdr s\<rparr>" by simp
  then show ?thesis unfolding heap_frame_def by blast
qed

lemma heap_frame_grown: "can_grow s e n t \<Longrightarrow> heap_frame s (t\<lparr>ram := m, first_hdr := h\<rparr>)"
proof -
  assume "can_grow s e n t"
  then obtain p b where t: "t = s\<lparr>ptes := p, phys_page_bitmap := b\<rparr>" unfolding can_grow_def by blast
  have "t\<lparr>ram := m, first_hdr := h\<rparr> = s\<lparr>ram := m, ptes := p, phys_page_bitmap := b, first_hdr := h\<rparr>" unfolding t by simp
  then show ?thesis unfolding heap_frame_def by blast
qed

lemma pages_cover: "(x :: nat) + 16 < 4096 * ((x + 16) div 4096 + 1)"
  using dividend_less_div_times [of 4096 "x + 16"] by simp

lemma grown_simps:
  assumes "sz < 4026527744"
  shows "grown sz + 16 = 4096 * ((sz + 16) div 4096 + 1)" "sz \<le> grown sz"
    "(of_nat sz + 16) div PAGE_SIZE + 1 = (of_nat ((sz + 16) div 4096 + 1) :: u32)"
    "of_nat ((sz + 16) div 4096 + 1) * PAGE_SIZE - 16 = (of_nat (grown sz) :: u32)"
proof -
  define k where "k = (sz + 16) div 4096"
  have k: "4096 * k \<le> sz + 16" "sz + 16 < 4096 * k + 4096"
    using div_mult_mod_eq [of "sz + 16" 4096] mod_less_divisor [of 4096 "sz + 16"] unfolding k_def by linarith+
  then show "grown sz + 16 = 4096 * ((sz + 16) div 4096 + 1)" "sz \<le> grown sz"
    by (simp_all add: grown_def flip: k_def)
  have "(of_nat sz + 16) div PAGE_SIZE = (of_nat k :: u32)"
  proof -
    have "unat ((of_nat (sz + 16) :: u32) div PAGE_SIZE) = k"
      using assms by (simp only: unat_div_distrib unat_of_nat32 k_def) simp
    then show ?thesis using assms by (simp add: word_unat_eq_iff unat_of_nat32 k_def)
  qed
  then show "(of_nat sz + 16) div PAGE_SIZE + 1 = (of_nat ((sz + 16) div 4096 + 1) :: u32)"
    by (simp add: k_def)
  show "of_nat ((sz + 16) div 4096 + 1) * PAGE_SIZE - 16 = (of_nat (grown sz) :: u32)"
    by (simp add: grown_def of_nat_diff)
qed

lemma extent_pos: "bs \<noteq> [] \<Longrightarrow> 16 \<le> extent bs"
  by (cases bs) auto

lemma last_hdr_snoc: "last_hdr prev p (as @ [(u, k)]) = p + extent as"
  by (induction as arbitrary: prev p) auto

lemma grow_blocks:
  assumes hp: "heap_is s bs" and sz: "sz < 4026527744" and e: "e = heap_start + extent bs"
    and hdr: "hdr = (if bs = [] then NULL else of_nat (last_hdr 0 heap_start bs))"
    and g: "can_grow s e ((sz + 16) div 4096 + 1) t"
  shows "\<exists>m. malloc_grow hdr (of_nat sz) s = Some (of_nat e, t\<lparr>ram := m, first_hdr := of_nat heap_start\<rparr>)
    \<and> blocks m True 0 heap_start (bs @ [(False, grown sz)]) \<and> outside_kept (ram s) m
    \<and> (\<forall>as n cs. bs = as @ (True, n) # cs \<longrightarrow>
         agree (heap_start + extent as + 16) (heap_start + extent as + 16 + n) (ram s) m)"
proof -
  define m0 where "m0 = ram t"
  have t: "ram s = m0" "first_hdr t = first_hdr s" "heap_mapped t (e + 4096 * ((sz + 16) div 4096 + 1))"
    and lim: "e + 16 + grown sz \<le> heap_limit" "e + 16 \<le> 4294967296"
    and al: "mem_alloc (of_nat e) K_MEM_HEAP_END (of_nat ((sz + 16) div 4096 + 1)) DEFAULT_PAGE_FLAGS s = Some (of_nat e, t)"
    using g grown_simps(1) [OF sz] by (simp_all add: can_grow_def m0_def)
  have ne: "(of_nat e :: addr) \<noteq> 0" using of_nat_neq [of e 0] lim e by simp
  have me: "hdr_mapped (of_nat e) t"
    by (rule hdr_in_heap [OF t(3)]) (use e grown_simps(1) [OF sz] in simp_all)
  define m1 where "m1 = wr32 (wr32 (m0(of_nat e := 2)) (of_nat e + 4) (of_nat (grown sz))) (of_nat e + 8) hdr"
  have v1: "hdr_view m1 (of_nat e) = (2, of_nat (grown sz), hdr)" by (simp add: m1_def)
  have ag: "agree 0 e m0 m1"
    unfolding m1_def using agree_status [of e e 0] agree_wr32 [of e e 4 0] agree_wr32 [of e e 8 0] lim
    by (simp, meson agree_trans)
  have hi: "agree 4026531840 4294967296 m0 m1"
    unfolding m1_def using agree_status [of 4294967296 e 4026531840] agree_wr32 [of 4294967296 e 4 4026531840]
      agree_wr32 [of 4294967296 e 8 4026531840] lim
    by (simp, meson agree_trans)
  have ok1: "outside_kept m0 m1" using hi agree_mono [OF ag] e by (simp add: outside_kept_def)
  show ?thesis
  proof (cases "bs = []")
    case True
    have "malloc_grow hdr (of_nat sz) s = Some (of_nat e, t\<lparr>ram := m1, first_hdr := of_nat heap_start\<rparr>)"
      using al me True e hdr t(1) m0_def grown_simps(3,4) [OF sz]
      by (simp add: malloc_grow_def Let_def hdr_puts m1_def del: of_nat_add of_nat_Suc)
    moreover have "blocks m1 True 0 heap_start (bs @ [(False, grown sz)])"
      using v1 True hdr e by (simp add: block_at_view)
    ultimately show ?thesis using True ok1 t(1) by auto
  next
    case False
    then obtain as u k where bs: "bs = as @ [(u, k)]" by (metis prod.exhaust rev_exhaust)
    define q where "q = heap_start + extent as"
    have hq: "hdr = of_nat q" "e = q + 16 + k" "0 < q" "heap_start \<le> q"
      using hdr bs e by (simp_all add: q_def last_hdr_snoc)
    have blk: "blocks m0 True 0 heap_start (as @ [(u, k)])" "heap_mapped s (heap_start + extent bs)"
      "first_hdr s = of_nat heap_start" using hp False bs t(1) by (simp_all add: heap_is_def)
    have hm: "hdr_mapped (of_nat q) s" "hdr_mapped (of_nat q) t"
      using hdr_in_heap [OF blk(2) hq(4)] hdr_in_heap [OF t(3) hq(4)] e hq(2) by simp_all
    have v0: "hdr_view m0 (of_nat q) = ((if u then 1 else 0) OR 2, of_nat k, of_nat (last_hdr 0 heap_start as))"
      using blk(1) by (simp add: blocks_middle q_def block_at_view)
    have "agree q (q + 16) m0 m1" using ag hq(2) by (auto intro: agree_mono)
    then have vq: "hdr_view m1 (of_nat q) = hdr_view m0 (of_nat q)" by (rule hdr_view_agree)
    define m2 where "m2 = m1(of_nat q := (if u then 1 else 0))"
    have st: "((if u then 1 else 0) OR 2) AND NOT 2 = (if u then 1 else 0 :: u8)" by simp
    have nz: "hdr \<noteq> 0" using hq of_nat_neq [of q 0] lim by simp
    have next_hdr: "find_next_hdr hdr s = Some (of_nat e)"
      using hm(1) v0 t(1) hq(1,2) by (simp add: find_next_hdr_def hdr_fields)
    have "malloc_grow hdr (of_nat sz) s = Some (of_nat e, t\<lparr>ram := m2\<rparr>)"
      unfolding malloc_grow_def Let_def grown_simps(3,4) [OF sz]
      using al me hm(2) nz next_hdr v0 vq st hq(1)
      by (simp add: hdr_puts hdr_fields m1_def [symmetric, unfolded hq(1)] m0_def [symmetric] m2_def del: of_nat_add of_nat_Suc)
    moreover have "t\<lparr>ram := m2\<rparr> = t\<lparr>ram := m2, first_hdr := of_nat heap_start\<rparr>"
      using t(2) blk(3) by (intro heap.equality) simp_all
    moreover have "blocks m1 True 0 heap_start (as @ [(u, k)])"
    proof -
      have "agree heap_start (heap_start + extent (as @ [(u, k)])) m0 m1"
        using ag hq(2) q_def by (auto intro: agree_mono)
      then show ?thesis using blk(1) by (simp only: blocks_agree)
    qed
    note cont = blocks_continue [OF this q_def, folded m2_def]
    have l: "q + 32 + k \<le> 4294967296" using lim hq(2) by simp
    have "hdr_view m2 (of_nat e) = hdr_view m1 (of_nat e)"
      unfolding m2_def by (rule hdr_view_other) (use hq(2) lim in simp_all)
    then have "blocks m2 True 0 heap_start ((as @ [(u, k)]) @ [(False, grown sz)])"
      using cont(1) [OF l] v1 hq bs e
      by (simp add: blocks_append [of "[(False, grown sz)]"] block_at_view last_hdr_snoc q_def add.assoc del: append_assoc)
    moreover have "outside_kept m1 m2"
      using cont(2,3) [OF l] hq(2,4) lim by (auto simp: outside_kept_def intro: agree_mono)
    then have "outside_kept m0 m2" by (rule outside_kept_trans [OF ok1])
    moreover have "agree (heap_start + extent as' + 16) (heap_start + extent as' + 16 + n) m0 m2"
      if "bs = as' @ (True, n) # cs" for as' n cs
    proof -
      have inside: "heap_start + extent as' + 16 + n \<le> e" using that e by simp
      have "heap_start + extent as' + 16 + n \<le> q \<or> q + 1 \<le> heap_start + extent as' + 16"
      proof (cases cs rule: rev_cases)
        case Nil
        then show ?thesis using that bs by (simp add: q_def)
      next
        case (snoc ds d)
        then have "as = as' @ (True, n) # ds" using that bs by simp
        then show ?thesis by (simp add: q_def)
      qed
      then have "agree (heap_start + extent as' + 16) (heap_start + extent as' + 16 + n) m1 m2"
        using cont(2,3) [OF l] inside lim by (auto intro: agree_mono)
      moreover have "agree (heap_start + extent as' + 16) (heap_start + extent as' + 16 + n) m0 m1"
        using ag inside by (auto intro: agree_mono)
      ultimately show ?thesis by (blast intro: agree_trans)
    qed
    ultimately show ?thesis using bs t(1) by auto
  qed
qed

lemma align_down:
  fixes x :: u32
  shows "x AND NOT 15 = of_nat (unat x div 16 * 16)"
proof -
  have "(15 :: u32) = mask 4" by (simp add: mask_eq_exp_minus_1)
  then show ?thesis using align_down_mask [of 4 x] by simp
qed

lemma round16_word:
  assumes "unat k + 15 < 4294967296"
  shows "(k + 15) AND NOT 15 = (of_nat (round16 (unat k)) :: u32)"
  using unat_add_small [of k 15] assms unfolding align_down round16_def by simp

lemma round16_bounds: "n \<le> round16 n" "16 dvd round16 n" "round16 n \<le> n + 15"
proof -
  have "(n + 15) mod 16 < 16" by simp
  then show "n \<le> round16 n" "round16 n \<le> n + 15"
    using div_mult_mod_eq [of "n + 15" 16] by (simp_all add: round16_def)
qed (simp add: round16_def)

text \<open>The payloads of the used blocks.\<close>

definition payloads_kept :: "block list \<Rightarrow> mem \<Rightarrow> mem \<Rightarrow> bool" where
  "payloads_kept bs m m' \<longleftrightarrow> (\<forall>as n cs. bs = as @ (True, n) # cs \<longrightarrow>
     agree (heap_start + extent as + 16) (heap_start + extent as + 16 + n) m m')"

lemma only_block_payloads:
  assumes "only_block (heap_start + extent as) n m m'" "heap_start + extent (as @ (False, n) # cs) \<le> 4294967296"
  shows "payloads_kept (as @ (False, n) # cs) m m'"
  unfolding payloads_kept_def
proof (intro allI impI)
  fix bs k ds
  assume eq: "as @ (False, n) # cs = bs @ (True, k) # ds"
  then have "heap_start + extent bs + 16 + k \<le> heap_start + extent as
      \<or> heap_start + extent as + 16 + n \<le> heap_start + extent bs"
    by (auto simp: append_eq_append_conv2 Cons_eq_append_conv append_eq_Cons_conv)
  moreover have "heap_start + extent bs + 16 + k \<le> 4294967296" using assms(2) by (simp add: eq)
  ultimately show "agree (heap_start + extent bs + 16) (heap_start + extent bs + 16 + k) m m'"
    using assms(1) by (auto simp: only_block_def intro: agree_mono)
qed

text \<open>The part of \<open>malloc\<close> after the search: the block at \<open>q\<close> is taken and split.\<close>

lemma take_block:
  assumes bl: "blocks (ram s) True 0 heap_start (as @ (False, n) # cs)" and mp: "heap_mapped s e"
    and e: "heap_start + extent (as @ (False, n) # cs) \<le> e" "e \<le> heap_limit"
    and q: "q = heap_start + extent as" and sz: "sz \<le> n"
  shows "\<exists>m. do {
       st \<leftarrow> hdr_status (of_nat q) s;
       s \<leftarrow> put_status (of_nat q) (st OR USED) s;
       malloc_split (of_nat q) (of_nat sz) s
     } = Some (s\<lparr>ram := m\<rparr>)
    \<and> blocks m True 0 heap_start (as @ split_block sz n @ cs) \<and> only_block q n (ram s) m"
proof -
  have hm: "hdr_mapped (of_nat q) s" by (rule hdr_in_heap [OF mp]) (use e q in simp_all)
  let ?v = "(if True then 1 else 0) OR (if cs = [] then 2 else 0) :: u8"
  let ?m = "(ram s)(of_nat q := ?v)"
  have v: "fst (hdr_view (ram s) (of_nat q)) OR 1 = ?v" using bl by (simp add: blocks_middle q block_at_view)
  have lim: "q + 32 + n + extent cs \<le> 4294967296" using e q by simp
  note set = set_status_blocks [OF bl q lim refl, where u' = True]
  from split_blocks [of "s\<lparr>ram := ?m\<rparr>" as n cs e q sz] set(1) mp e q sz
  obtain m where m: "malloc_split (of_nat q) (of_nat sz) (s\<lparr>ram := ?m\<rparr>) = Some (s\<lparr>ram := m\<rparr>)"
    "blocks m True 0 heap_start (as @ split_block sz n @ cs)" "only_block q n ?m m" by auto
  have "only_block q n (ram s) m" using set(2) m(3) by (rule only_block_trans)
  then show ?thesis using m(1,2) v hm by (intro exI [of _ m]) (simp add: hdr_fields hdr_puts)
qed

lemma malloc_fit:
  assumes hp: "heap_is s bs" and sz: "unat k + 15 < 4294967296" and fit: "first_fit (round16 (unat k)) bs = Some (as, n, cs)"
  shows "\<exists>m. malloc k s = Some (of_nat (heap_start + extent as + 16), s\<lparr>ram := m\<rparr>)
    \<and> blocks m True 0 heap_start (as @ split_block (round16 (unat k)) n @ cs) \<and> payloads_kept bs (ram s) m
    \<and> only_block (heap_start + extent as) n (ram s) m"
proof -
  let ?sz = "round16 (unat k)"
  let ?q = "heap_start + extent as"
  from first_fit_Some [OF fit] have bs: "bs = as @ (False, n) # cs" "?sz \<le> n" and un: "\<forall>(u, k) \<in> set as. u \<or> k < ?sz"
    by auto
  from hp bs have bl: "blocks (ram s) True 0 heap_start (as @ (False, n) # cs)"
    and hd: "first_hdr s = of_nat heap_start" and e: "heap_start + extent bs \<le> heap_limit"
    and mp: "heap_mapped s (heap_start + extent bs)" by (simp_all add: heap_is_def)
  have usz: "unat (of_nat ?sz :: u32) = ?sz" using bs e by (intro unat_of_nat32) simp
  have find: "malloc_find (of_nat heap_start) (of_nat ?sz) s = Some (of_nat ?q)"
    by (rule find_fit [OF bl mp]) (use e bs un usz in simp_all)
  have hm: "hdr_mapped (of_nat ?q) s" using hdr_in_heap [OF mp, of ?q] bs by simp
  have "\<not> (of_nat n :: u32) < of_nat ?sz" using bs e usz by (simp add: word_less_nat_alt unat_of_nat32)
  then have grow: "malloc_must_grow (of_nat ?q) (of_nat ?sz) s = Some False"
    using hm bl of_nat_neq [of ?q 0] e bs
    by (simp add: malloc_must_grow_def hdr_fields blocks_middle block_at_view unfit_def del: of_nat_add)
  from take_block [OF bl mp _ e refl bs(2)] bs(1) obtain m where m: "do {
       st \<leftarrow> hdr_status (of_nat ?q) s;
       s \<leftarrow> put_status (of_nat ?q) (st OR USED) s;
       malloc_split (of_nat ?q) (of_nat ?sz) s
     } = Some (s\<lparr>ram := m\<rparr>)"
    "blocks m True 0 heap_start (as @ split_block ?sz n @ cs)" "only_block ?q n (ram s) m" by auto
  have "malloc k s = Some (of_nat (?q + 16), s\<lparr>ram := m\<rparr>)"
    using m(1) unfolding malloc_def round16_word [OF sz] Let_def hd find
    by (auto simp: Option.bind_eq_Some_conv grow simp del: of_nat_add) (simp add: ac_simps)
  moreover have "payloads_kept bs (ram s) m"
    using only_block_payloads [OF m(3), of cs] e bs by simp
  ultimately show ?thesis using m(2,3) by blast
qed

text \<open>A search without success ends at the last header.\<close>

lemma search_fails:
  assumes hp: "heap_is s bs" and nofit: "first_fit sz bs = None" and sz: "sz < 4294967296"
    and hdr: "hdr = (if bs = [] then NULL else of_nat (last_hdr 0 heap_start bs))"
  shows "malloc_find (first_hdr s) (of_nat sz) s = Some hdr \<and> malloc_must_grow hdr (of_nat sz) s = Some True"
proof -
  have un: "\<forall>(u, k) \<in> set bs. u \<or> k < sz" using first_fit_None [OF nofit] .
  have usz: "unat (of_nat sz :: u32) = sz" using sz by (intro unat_of_nat32) simp
  show ?thesis
  proof (cases bs rule: rev_cases)
    case Nil
    then show ?thesis using hp by (simp add: hdr heap_is_def malloc_must_grow_def) (simp add: malloc_find.simps)
  next
    case (snoc as b)
    obtain u n where b: "b = (u, n)" by (cases b)
    let ?q = "heap_start + extent as"
    from hp snoc b have bl: "blocks (ram s) True 0 heap_start (as @ [(u, n)])"
      and hd: "first_hdr s = of_nat heap_start" and el: "heap_start + extent bs \<le> heap_limit"
      and mp: "heap_mapped s (heap_start + extent bs)" by (simp_all add: heap_is_def)
    have hq: "hdr = of_nat ?q" using hdr snoc b by (simp add: last_hdr_snoc)
    have find: "malloc_find (of_nat heap_start) (of_nat sz) s = Some (of_nat ?q)"
      by (rule find_none [OF bl mp]) (use el snoc b un usz in auto)
    have hm: "hdr_mapped (of_nat ?q) s" using hdr_in_heap [OF mp, of ?q] snoc b by simp
    have "u \<or> (of_nat n :: u32) < of_nat sz" using un snoc b usz sz by (auto simp: word_less_nat_alt unat_of_nat32)
    then have "malloc_must_grow (of_nat ?q) (of_nat sz) s = Some True"
      using hm bl of_nat_neq [of ?q 0] el snoc b
      by (auto simp: malloc_must_grow_def hdr_fields blocks_middle block_at_view unfit_def simp del: of_nat_add)
    with find show ?thesis unfolding hq hd by blast
  qed
qed

lemma malloc_grows:
  assumes hp: "heap_is s bs" and sz: "unat k + 15 < 4294967296" and nofit: "first_fit (round16 (unat k)) bs = None"
    and e: "e = heap_start + extent bs" and g: "can_grow s e ((round16 (unat k) + 16) div 4096 + 1) t"
  shows "\<exists>m. malloc k s = Some (of_nat (e + 16), t\<lparr>ram := m, first_hdr := of_nat heap_start\<rparr>)
    \<and> blocks m True 0 heap_start (bs @ split_block (round16 (unat k)) (grown (round16 (unat k))))
    \<and> payloads_kept bs (ram s) m \<and> outside_kept (ram s) m"
proof -
  let ?sz = "round16 (unat k)"
  let ?n = "(?sz + 16) div 4096 + 1"
  have lim: "e + 4096 * ?n \<le> heap_limit" using g by (simp add: can_grow_def)
  from less_le_trans [OF pages_cover [of ?sz] le_trans [OF le_add2 lim]]
  have szl: "?sz < 4026527744" by simp
  note gr = grown_simps [OF szl]
  let ?hdr = "if bs = [] then NULL else of_nat (last_hdr 0 heap_start bs) :: addr"
  have find: "malloc_find (first_hdr s) (of_nat ?sz) s = Some ?hdr
      \<and> malloc_must_grow ?hdr (of_nat ?sz) s = Some True"
    by (rule search_fails [OF hp nofit _ refl]) (use szl in simp)
  from grow_blocks [OF hp szl e refl g] obtain m0 where
    grow: "malloc_grow ?hdr (of_nat ?sz) s = Some (of_nat e, t\<lparr>ram := m0, first_hdr := of_nat heap_start\<rparr>)"
    and bl: "blocks m0 True 0 heap_start (bs @ [(False, grown ?sz)])"
    and kept: "payloads_kept bs (ram s) m0" "outside_kept (ram s) m0"
    by (auto simp: payloads_kept_def)
  let ?t = "t\<lparr>ram := m0, first_hdr := of_nat heap_start\<rparr>"
  have mp: "heap_mapped ?t (e + 4096 * ?n)"
    using g by (simp add: can_grow_def heap_mapped_def virt_mapped_def table_present_def page_present_def)
  have ext: "heap_start + extent (bs @ [(False, grown ?sz)]) \<le> e + 4096 * ?n" using gr(1) e by simp
  from take_block [of ?t bs "grown ?sz" "[]" "e + 4096 * ?n" e ?sz] bl mp ext lim e gr(2) obtain m where m: "do {
       st \<leftarrow> hdr_status (of_nat e) ?t;
       s \<leftarrow> put_status (of_nat e) (st OR USED) ?t;
       malloc_split (of_nat e) (of_nat ?sz) s
     } = Some (?t\<lparr>ram := m\<rparr>)"
    "blocks m True 0 heap_start (bs @ split_block ?sz (grown ?sz))" "only_block e (grown ?sz) m0 m" by auto
  have "?t\<lparr>ram := m\<rparr> = t\<lparr>ram := m, first_hdr := of_nat heap_start\<rparr>" by simp
  then have "malloc k s = Some (of_nat (e + 16), t\<lparr>ram := m, first_hdr := of_nat heap_start\<rparr>)"
    using find grow m(1) unfolding malloc_def round16_word [OF sz] Let_def
    by (auto simp: Option.bind_eq_Some_conv)
  moreover have "payloads_kept bs m0 m"
    unfolding payloads_kept_def
  proof (intro allI impI)
    fix as n cs
    assume "bs = as @ (True, n) # cs"
    then have "heap_start + extent as + 16 + n \<le> e" using e by simp
    then show "agree (heap_start + extent as + 16) (heap_start + extent as + 16 + n) m0 m"
      using m(3) by (auto simp: only_block_def intro: agree_mono)
  qed
  then have "payloads_kept bs (ram s) m" using kept(1) unfolding payloads_kept_def by (blast intro: agree_trans)
  moreover have "outside_kept m0 m" by (rule only_block_outside [OF m(3)]) (use gr(1) e lim in simp_all)
  then have "outside_kept (ram s) m" by (rule outside_kept_trans [OF kept(2)])
  ultimately show ?thesis using m(2) by blast
qed

text \<open>The page allocator grants a region whose tables are there when it is free and there are frames.\<close>

lemma table_present_kept:
  assumes "t < 1024" "q + n \<le> 1047552"
  shows "table_present (set_entries q n v u) t = table_present u t"
proof -
  have "unat (PD_INDEX + of_nat t :: u32) = 1047552 + t"
    using unat_of_nat32 [of "1047552 + t"] assms(1) by simp
  then show ?thesis using assms(2) by (simp add: table_present_def set_entries_def)
qed


lemma alloc_many_keeps:
  assumes "alloc_many phys_frame n s = Some (fs, u)" "bounds_ok s"
  shows "\<exists>b. u = s\<lparr>phys_page_bitmap := b\<rparr>"
  using assms
proof (induction n arbitrary: s fs)
  case (Suc n)
  then obtain f t gs where f: "phys_frame s = Some (f, t)" "alloc_many phys_frame n t = Some (gs, u)"
    by (auto split: option.splits)
  have "bounds_ok t" using frames.alloc_ok [OF Suc.prems(2) f(1)] .
  from Suc.IH [OF f(2) this] phys_frame_alloc(2) [OF Suc.prems(2) f(1)]
  show ?case by (auto simp: set_phys_used_def Let_def)
next
  case 0
  then have "u = s" by simp
  then show ?case by (intro exI [of _ "phys_page_bitmap s"]) simp
qed

lemma default_flags_present: "(x OR DEFAULT_PAGE_FLAGS) AND PG_PRES \<noteq> (0 :: u32)"
proof -
  have "bit ((x OR DEFAULT_PAGE_FLAGS) AND PG_PRES) 0"
    by (simp only: bit_and_iff bit_or_iff) (simp add: bit_0)
  then show ?thesis by (metis bit_0_eq bot_apply bot_bool_def)
qed

lemma can_grow_paging:
  assumes ok: "bounds_ok s" "tables_ok s p (p + n)" "region_free s p n" "alloc_many phys_frame n s = Some (fs, u)"
    and e: "e = 4096 * p" "p + n \<le> 983039" "heap_start \<le> e" and mp: "heap_mapped s e"
  shows "\<exists>t. can_grow s e n t"
proof -
  let ?v = "\<lambda>i. of_nat (4096 * fs ! i) OR DEFAULT_PAGE_FLAGS :: u32"
  let ?t = "set_entries p n ?v u"
  obtain b where u: "u = s\<lparr>phys_page_bitmap := b\<rparr>" using alloc_many_keeps [OF ok(4,1)] by blast
  then have keeps: "ram u = ram s" "ptes u = ptes s" "first_hdr u = first_hdr s" by simp_all
  have n: "unat (of_nat n :: u32) = n" by (rule unat_of_nat32) (use e in simp)
  have ue: "unat (of_nat e :: u32) = e" by (rule unat_of_nat32) (use e in simp)
  have "mem_alloc (of_nat e) K_MEM_HEAP_END (of_nat n) DEFAULT_PAGE_FLAGS s
      = map_option (\<lambda>t. (of_nat e, t)) (alloc_pages n (of_nat p) DEFAULT_PAGE_FLAGS s)"
    using mem_alloc_region [of p "of_nat e" "of_nat n" K_MEM_HEAP_END s DEFAULT_PAGE_FLAGS] e ok(2,3) n ue by simp
  then have "mem_alloc (of_nat e) K_MEM_HEAP_END (of_nat n) DEFAULT_PAGE_FLAGS s = Some (of_nat e, ?t)"
    using alloc_pages_spec [OF ok(1,2) _ ok(3,4), of DEFAULT_PAGE_FLAGS] e(2) by simp
  moreover have "heap_mapped ?t (e + 4096 * n)"
    unfolding heap_mapped_def
  proof (intro allI impI)
    fix i assume i: "heap_start \<le> i \<and> i < e + 4096 * n"
    define pg where "pg = i div 4096"
    have ui: "unat (of_nat i :: addr) = i" using i e by (intro unat_of_nat32) simp
    have pg: "pg < p + n" "pg div 1024 < 1024" "pg < p \<longleftrightarrow> i < e" "unat (of_nat pg :: u32) = pg"
      using i e unat_of_nat32 [of pg] unfolding pg_def by (auto simp: div_less_iff_less_mult mult.commute)
    have tp: "table_present ?t (pg div 1024) = table_present s (pg div 1024)"
      using table_present_kept [OF pg(2), of p n ?v u] e(2) keeps by (simp add: table_present_def)
    show "virt_mapped (of_nat i) ?t"
    proof (cases "i < e")
      case True
      then have "virt_mapped (of_nat i) s" using mp i by (simp add: heap_mapped_def)
      then have "table_present s (pg div 1024)" "page_present s pg" by (simp_all add: virt_mapped_def ui pg_def)
      moreover have "page_present ?t pg = page_present s pg"
        using pg True keeps by (simp add: page_present_def set_entries_def)
      ultimately show ?thesis using tp by (simp add: virt_mapped_def ui flip: pg_def)
    next
      case False
      then have "table_present s (pg div 1024)" using ok(2) pg by (simp add: tables_ok_def)
      moreover have "page_present ?t pg"
        using False pg default_flags_present by (simp add: page_present_def set_entries_def)
      ultimately show ?thesis using tp by (simp add: virt_mapped_def ui flip: pg_def)
    qed
  qed
  ultimately have g: "mem_alloc (of_nat e) K_MEM_HEAP_END (of_nat n) DEFAULT_PAGE_FLAGS s = Some (of_nat e, ?t)" "heap_mapped ?t (e + 4096 * n)"
    by blast+
  show ?thesis
  proof -
    have "?t = s\<lparr>ptes := ptes ?t, phys_page_bitmap := b\<rparr>" by (simp add: u set_entries_def)
    then have "\<exists>q b. ?t = s\<lparr>ptes := q, phys_page_bitmap := b\<rparr>" by blast
    then show ?thesis using g keeps e by (intro exI [of _ ?t]) (simp add: can_grow_def set_entries_def)
  qed
qed

text \<open>Room for \<open>n\<close> pages from \<open>e\<close> on: on a page boundary, with the tables there, the pages free, and frames for them.\<close>

lemma can_grow_new_table:
  assumes ok: "bounds_ok s" "table_present s 1023" "\<not> table_present s (p div 1024)" "alloc_many phys_frame 2 s = Some (fs, u)"
    and e: "e = 4096 * p" "p + 1 \<le> 983039" "p mod 1024 = 0" "heap_start \<le> e" and mp: "heap_mapped s e"
  shows "\<exists>t. can_grow s e 1 t"
proof -
  obtain f g s1 where f: "phys_frame s = Some (f, s1)" "phys_frame s1 = Some (g, u)"
    using ok(4) by (auto simp: numeral_2_eq_2 split: option.splits)
  have ok1: "bounds_ok s1" using frames.alloc_ok [OF ok(1) f(1)] .
  note a1 = phys_frame_alloc [OF ok(1) f(1)] and a2 = phys_frame_alloc [OF ok1 f(2)]
  have same: "ptes s1 = ptes s" using alloc_phys_tables(1) [OF ok(1) a1(1)] .
  have tp: "table_present s1 i = table_present s i" for i by (simp add: table_present_def same)
  let ?P = "\<lambda>j. if unat j = p then of_nat (4096 * f) OR DEFAULT_PAGE_FLAGS
      else if unat j div 1024 = p div 1024 then 0
      else if unat j = 1047552 + p div 1024 then of_nat (4096 * g) OR PAGE_DIRECTORY_FLAGS else ptes s1 j"
  let ?t = "u\<lparr>ptes := ?P\<rparr>"
  have pl: "p < 1048576" "p < 1047552" using e(2) by simp_all
  have mm: "mem_map (of_nat (4096 * p)) 1 (of_nat (4096 * f)) DEFAULT_PAGE_FLAGS s1 = Some (of_nat (4096 * p), ?t)"
    by (rule mem_map_table_first [OF frame_aligned pl(2) e(3) ok1 _ _ a2(1)]) (use ok(2,3) tp in simp_all)
  have ap: "alloc_pages 1 (of_nat p) DEFAULT_PAGE_FLAGS s = Some ?t"
    using a1(1) mm by (simp add: mult.commute)
  have pg: "(of_nat e :: u32) div PAGE_SIZE = of_nat p" unfolding e(1) by (rule page_of_address [OF pl(1)])
  have up: "unat (of_nat p + 1 :: u32) = p + 1" using unat_of_nat32 [of "p + 1"] e(2) by (simp add: add.commute)
  have fits: "(of_nat p + 1 > K_MEM_HEAP_END div PAGE_SIZE) = False"
    using e(2) by (simp add: word_less_nat_alt up unat_div_distrib)
  have free: "is_virt_region_used (of_nat p) 1 s = Some (False, of_nat p)"
    using region_test_absent [OF pl(1) _ ok(2,3), of 1] e(2) by simp
  have "mem_alloc (of_nat e) K_MEM_HEAP_END 1 DEFAULT_PAGE_FLAGS s = Some (of_nat e, ?t)"
    using ap unfolding mem_alloc_def Let_def pg fits by (simp add: free)
  moreover obtain b where u: "u = s\<lparr>phys_page_bitmap := b\<rparr>" using alloc_many_keeps [OF ok(4,1)] by blast
  have "?t = s\<lparr>ptes := ?P, phys_page_bitmap := b\<rparr>" by (simp add: u)
  then have "\<exists>q b. ?t = s\<lparr>ptes := q, phys_page_bitmap := b\<rparr>" by blast
  moreover have "heap_mapped ?t (e + 4096 * 1)"
    unfolding heap_mapped_def
  proof (intro allI impI)
    fix i assume i: "heap_start \<le> i \<and> i < e + 4096 * 1"
    define k where "k = i div 4096"
    have ui: "unat (of_nat i :: addr) = i" using i e by (intro unat_of_nat32) simp
    have k: "k \<le> p" "k < 1048576" "i < e \<longleftrightarrow> k < p" "unat (of_nat k :: u32) = k"
      using i e unat_of_nat32 [of k] unfolding k_def by (auto simp: div_less_iff_less_mult mult.commute)
    have pd: "unat (PD_INDEX + of_nat (k div 1024) :: u32) = 1047552 + k div 1024" by (rule unat_pd_index) (use k in linarith)
    have hi: "(1047552 + k div 1024) div 1024 \<noteq> p div 1024" "1047552 + k div 1024 \<noteq> p" using e(2) by linarith+
    show "virt_mapped (of_nat i) ?t"
    proof (cases "k div 1024 = p div 1024")
      case True
      have kp: "k = p"
      proof (rule ccontr)
        assume "k \<noteq> p"
        then have "virt_mapped (of_nat i) s" using mp i k by (simp add: heap_mapped_def)
        then show False using ok(3) True by (simp add: virt_mapped_def ui flip: k_def)
      qed
      have "(of_nat (4096 * g) OR PAGE_DIRECTORY_FLAGS) AND PG_PRES \<noteq> (0 :: u32)"
        by (simp add: and_one_eq mod_2_eq_odd even_or_iff)
      then show ?thesis using default_flags_present [of "of_nat (4096 * f)"] pd hi kp k(4)
        by (simp add: virt_mapped_def ui table_present_def page_present_def flip: k_def)
    next
      case False
      then have "k < p" using k(1) by (cases "k = p") simp_all
      then have "virt_mapped (of_nat i) s" using mp i k by (simp add: heap_mapped_def)
      then have v: "ptes s (PD_INDEX + of_nat (k div 1024)) AND PG_PRES \<noteq> 0" "ptes s (of_nat k) AND PG_PRES \<noteq> 0"
        by (simp_all add: virt_mapped_def ui table_present_def page_present_def flip: k_def)
      have ne: "1047552 + k div 1024 \<noteq> 1047552 + p div 1024" "k \<noteq> p" "k \<noteq> 1047552 + p div 1024"
        using False k(1) e(2) by auto
      have "?P (of_nat k) = ptes s (of_nat k)" "?P (PD_INDEX + of_nat (k div 1024)) = ptes s (PD_INDEX + of_nat (k div 1024))"
        unfolding pd k(4) same using ne hi False by simp_all
      then show ?thesis using v by (simp add: virt_mapped_def ui table_present_def page_present_def flip: k_def)
    qed
  qed
  ultimately show ?thesis using e unfolding can_grow_def by (intro exI [of _ ?t]) (simp add: u)
qed

text \<open>
  Room for \<open>n\<close> pages at \<open>e\<close>: their tables are there and they are free, or there is one page that begins a missing table;
  and there are frames, in the second case also one for the table.
\<close>

definition room :: "'a heap_scheme \<Rightarrow> nat \<Rightarrow> nat \<Rightarrow> bool" where
  "room s e n \<longleftrightarrow> e mod 4096 = 0 \<and> e + 4096 * n \<le> heap_limit \<and> bounds_ok s
     \<and> (tables_ok s (e div 4096) (e div 4096 + n) \<and> region_free s (e div 4096) n \<and> alloc_many phys_frame n s \<noteq> None
       \<or> n = 1 \<and> e div 4096 mod 1024 = 0 \<and> table_present s 1023 \<and> \<not> table_present s (e div 4096 div 1024)
         \<and> alloc_many phys_frame 2 s \<noteq> None)"

lemma room_can_grow:
  assumes "room s e n" "heap_start \<le> e" "heap_mapped s e"
  shows "\<exists>t. can_grow s e n t"
proof -
  define p where "p = e div 4096"
  have e: "e = 4096 * p" using assms(1) unfolding p_def room_def by (metis mult_div_mod_eq add_0_right)
  have pl: "p + n \<le> 983039" "bounds_ok s" using assms(1) e by (simp_all add: room_def)
  from assms(1) consider fs u where "tables_ok s p (p + n)" "region_free s p n" "alloc_many phys_frame n s = Some (fs, u)"
    | fs u where "n = 1" "p mod 1024 = 0" "table_present s 1023" "\<not> table_present s (p div 1024)" "alloc_many phys_frame 2 s = Some (fs, u)"
    unfolding room_def p_def [symmetric] by auto
  then show ?thesis
  proof cases
    case 1
    then show ?thesis using can_grow_paging [OF pl(2) _ _ _ e pl(1) assms(2,3)] by blast
  next
    case 2
    have "\<exists>t. can_grow s e 1 t" by (rule can_grow_new_table [OF pl(2) 2(3-5) e _ 2(2) assms(2,3)]) (use pl(1) 2(1) in simp)
    then show ?thesis using 2(1) by simp
  qed
qed

section \<open>Properties of malloc\<close>

abbreviation (input) pages_for :: "u32 \<Rightarrow> nat" where
  "pages_for k \<equiv> (round16 (unat k) + 16) div 4096 + 1"

lemma heap_is_update:
  assumes "blocks m True 0 heap_start bs" "bs \<noteq> []" "\<forall>(u, n) \<in> set bs. 16 dvd n"
    and "heap_start + extent bs \<le> heap_limit" "heap_mapped s (heap_start + extent bs)"
  shows "heap_is (s\<lparr>ram := m, first_hdr := of_nat heap_start\<rparr>) bs"
  using assms by (simp add: heap_is_def heap_mapped_def virt_mapped_def table_present_def page_present_def)

lemma heap_is_dvd: "heap_is s bs \<Longrightarrow> (u, n) \<in> set bs \<Longrightarrow> 16 dvd n"
  by (auto simp: heap_is_def)

lemma grown_dvd: "16 dvd grown sz"
proof -
  have "(16 :: nat) dvd 4096 * ((sz + 16) div 4096)" by (rule dvd_trans [of _ 4096]) simp_all
  then have "(16 :: nat) dvd 4096 * ((sz + 16) div 4096) + 4080" by (rule dvd_add) simp
  moreover have "grown sz = 4096 * ((sz + 16) div 4096) + 4080" by (simp add: grown_def)
  ultimately show ?thesis by simp
qed

lemma malloc_spec:
  assumes hp: "heap_is s bs" and k: "unat k + 15 < 4294967296"
    and res: "abs_malloc (round16 (unat k)) bs = (pos, bs')"
    and rm: "first_fit (round16 (unat k)) bs = None \<Longrightarrow> room s (heap_start + extent bs) (pages_for k)"
  shows "\<exists>t. malloc k s = Some (of_nat (heap_start + pos + 16), t) \<and> heap_is t bs'
    \<and> payloads_kept bs (ram s) (ram t) \<and> outside_kept (ram s) (ram t) \<and> heap_frame s t"
proof (cases "first_fit (round16 (unat k)) bs")
  case (Some r)
  obtain as n cs where r: "r = (as, n, cs)" by (cases r)
  note fit = Some [unfolded r]
  from first_fit_Some [OF fit] have bs: "bs = as @ (False, n) # cs" by simp
  from res fit have pos: "pos = extent as" and bs': "bs' = as @ split_block (round16 (unat k)) n @ cs"
    by (simp_all add: abs_malloc_def)
  from malloc_fit [OF hp k fit] obtain m where
    m: "malloc k s = Some (of_nat (heap_start + extent as + 16), s\<lparr>ram := m\<rparr>)"
    "blocks m True 0 heap_start bs'" "payloads_kept bs (ram s) m" "only_block (heap_start + extent as) n (ram s) m" by (auto simp: bs')
  have "outside_kept (ram s) m"
    by (rule only_block_outside [OF m(4)]) (use hp in \<open>auto simp: heap_is_def bs\<close>)
  moreover have "\<forall>(u, j) \<in> set bs'. 16 dvd j"
    using heap_is_dvd [OF hp] split_block_dvd [OF round16_bounds(2) heap_is_dvd [OF hp, of False n]]
    by (auto simp: bs bs')
  then have "heap_is (s\<lparr>ram := m\<rparr>) bs'"
    using hp m(2) by (simp add: heap_is_def bs bs' split_block_extent ac_simps)
      (simp add: split_block_def)
  ultimately show ?thesis using m pos heap_frame_ram by auto
next
  case None
  let ?sz = "round16 (unat k)"
  let ?e = "heap_start + extent bs"
  have mp: "heap_mapped s ?e" using hp by (simp add: heap_is_def)
  from room_can_grow [OF rm [OF None] _ mp] obtain t where g: "can_grow s ?e (pages_for k) t" by auto
  from res None have pos: "pos = extent bs" and bs': "bs' = bs @ split_block ?sz (grown ?sz)"
    by (simp_all add: abs_malloc_def)
  from malloc_grows [OF hp k None refl g] obtain m where
    m: "malloc k s = Some (of_nat (?e + 16), t\<lparr>ram := m, first_hdr := of_nat heap_start\<rparr>)"
    "blocks m True 0 heap_start bs'" "payloads_kept bs (ram s) m" "outside_kept (ram s) m" by (auto simp: bs')
  have lim: "?e + 4096 * pages_for k \<le> heap_limit" "heap_mapped t (?e + 4096 * pages_for k)"
    using g by (simp_all add: can_grow_def)
  have "?sz + 16 < 4096 * pages_for k" by (rule pages_cover)
  then have szl: "?sz < 4026527744" using lim(1) by linarith
  have ext: "extent bs' = extent bs + 4096 * pages_for k"
    using grown_simps(1) [OF szl] by (simp add: bs' split_block_extent)
  have "heap_is (t\<lparr>ram := m, first_hdr := of_nat heap_start\<rparr>) bs'"
  proof (rule heap_is_update [OF m(2)])
    show "bs' \<noteq> []" by (simp add: bs' split_block_def)
    show "\<forall>(u, n) \<in> set bs'. 16 dvd n"
      using heap_is_dvd [OF hp] split_block_dvd [OF round16_bounds(2) grown_dvd] by (auto simp: bs')
  qed (use lim ext in \<open>simp_all add: add.assoc\<close>)
  then show ?thesis using m pos heap_frame_grown [OF g] by auto
qed

text \<open>
  C39. \<open>malloc\<close> refines first fit. On a heap that holds the blocks \<open>bs\<close>, a request whose size does not
  overflow when rounded up returns the pointer behind the header of the block that first fit takes,
  and the heap then holds the blocks of the specification: the block taken, split when 32 bytes
  or more are left over, or new pages appended when no free block is large enough and there is
  room for them. The payload of no block in use is written, nothing outside the heap's area is, and of the
  machine only memory, the heap's start and the page allocator's tables change.
\<close>

theorem malloc_refines:
  assumes hp: "heap_is s bs" and k: "unat k + 15 < 4294967296"
    and res: "abs_malloc (round16 (unat k)) bs = (pos, bs')"
    and rm: "first_fit (round16 (unat k)) bs = None \<Longrightarrow> room s (heap_start + extent bs) (pages_for k)"
  shows "\<exists>t. malloc k s = Some (of_nat (heap_start + pos + 16), t) \<and> heap_is t bs'
    \<and> payloads_kept bs (ram s) (ram t) \<and> outside_kept (ram s) (ram t) \<and> heap_frame s t"
  using malloc_spec [OF assms] .

text \<open>The payloads in use, as pairs of address and size.\<close>

fun live :: "nat \<Rightarrow> block list \<Rightarrow> (nat \<times> nat) set" where
  "live p [] = {}"
| "live p ((u, n) # bs) = (if u then {(p + 16, n)} else {}) \<union> live (p + 16 + n) bs"

lemma live_append: "live p (as @ bs) = live p as \<union> live (p + extent as) bs"
  by (induction as arbitrary: p) (auto simp: add.assoc)

lemma live_split: "live p (split_block sz n) = {(p + 16, if sz + 32 \<le> n then sz else n)}"
  by (simp add: split_block_def)

lemma live_bounds: "(b, j) \<in> live p bs \<Longrightarrow> p + 16 \<le> b \<and> b + j \<le> p + extent bs"
  by (induction p bs rule: live.induct) (fastforce split: if_splits)+

lemma extent_dvd: "(\<And>u n. (u, n) \<in> set bs \<Longrightarrow> 16 dvd n) \<Longrightarrow> 16 dvd extent bs"
  by (induction bs) (fastforce intro: dvd_add)+

lemma live_block:
  "(b, j) \<in> live p bs \<Longrightarrow> \<exists>as cs. bs = as @ (True, j) # cs \<and> b = p + extent as + 16"
proof (induction p bs rule: live.induct)
  case (2 p u n bs)
  show ?case
  proof (cases "u \<and> b = p + 16 \<and> j = n")
    case True
    then show ?thesis by (intro exI [of _ "[]"] exI [of _ bs]) simp
  next
    case False
    then have "(b, j) \<in> live (p + 16 + n) bs" using 2(2) by (auto split: if_splits)
    from 2(1) [OF this] obtain as cs where "bs = as @ (True, j) # cs" "b = p + 16 + n + extent as + 16" by blast
    then show ?thesis by (intro exI [of _ "(u, n) # as"] exI [of _ cs]) simp
  qed
qed simp

lemma abs_malloc_block:
  assumes "abs_malloc sz bs = (pos, bs')"
  shows "\<exists>as n ds. bs' = as @ (True, n) # ds \<and> pos = extent as \<and> sz \<le> n
    \<and> (\<forall>p. live p bs = live p as \<union> live (p + pos + 16 + n) ds)"
proof (cases "first_fit sz bs")
  case None
  have "sz \<le> grown sz" using pages_cover [of sz] by (simp add: grown_def)
  moreover obtain k ds where "split_block sz (grown sz) = (True, k) # ds" "sz \<le> grown sz \<Longrightarrow> sz \<le> k" "live p ds = {}" for p
    by (cases "sz + 32 \<le> grown sz") (simp_all add: split_block_def)
  ultimately show ?thesis using None assms
    by (intro exI [of _ bs] exI [of _ k] exI [of _ ds]) (simp add: abs_malloc_def)
next
  case (Some r)
  obtain as n cs where r: "r = (as, n, cs)" by (cases r)
  from first_fit_Some [OF Some [unfolded r]] have bs: "bs = as @ (False, n) # cs" "sz \<le> n" by simp_all
  define k where "k = (if sz + 32 \<le> n then sz else n)"
  define ds where "ds = (if sz + 32 \<le> n then (False, n - sz - 16) # cs else cs)"
  have "live (p + extent as + 16 + k) ds = live (p + extent as + 16 + n) cs" for p
    by (simp add: ds_def k_def ac_simps)
  moreover have "bs' = as @ (True, k) # ds" "pos = extent as" "sz \<le> k"
    using assms Some r bs(2) by (auto simp: abs_malloc_def split_block_def k_def ds_def)
  ultimately show ?thesis using bs
    by (intro exI [of _ as] exI [of _ k] exI [of _ ds]) (simp add: live_append)
qed

text \<open>Programs may write into the payload of a block.\<close>

lemma payload_writes:
  assumes hp: "heap_is s (as @ (u, n) # cs)" and a: "a = heap_start + extent as + 16"
    and out: "\<And>i. i < 4294967296 \<Longrightarrow> i < a \<or> a + n \<le> i \<Longrightarrow> m (of_nat i) = ram s (of_nat i)"
  shows "heap_is (s\<lparr>ram := m\<rparr>) (as @ (u, n) # cs)"
proof -
  let ?q = "heap_start + extent as"
  have lim: "?q + 16 + n + extent cs \<le> heap_limit" using hp by (simp add: heap_is_def)
  have ag: "agree x y (ram s) m" if "y \<le> a \<or> a + n \<le> x" "y \<le> 4294967296" for x y
    unfolding agree_def
  proof (intro allI impI)
    fix i assume "x \<le> i \<and> i < y"
    then show "m (of_nat i) = ram s (of_nat i)" using out [of i] that by auto
  qed
  have "agree heap_start (heap_start + extent as) (ram s) m" "agree ?q (?q + 16) (ram s) m"
    "agree (?q + 16 + n) (?q + 16 + n + extent cs) (ram s) m"
    by (rule ag; use lim a in simp)+
  then have "blocks m True 0 heap_start (as @ (u, n) # cs)"
    using hp by (simp add: heap_is_def blocks_middle blocks_agree block_at_agree)
  then show ?thesis using hp by (simp add: heap_is_def)
qed

text \<open>
  C40. What \<open>malloc\<close> gives its caller: a pointer aligned to 16 bytes and a region of at least the size
  asked for, inside the heap and apart from every region handed out before, at least one header
  away from each; those regions stay in use with their contents. Whatever the caller writes into its
  region, the heap remains intact.
\<close>

theorem malloc_fresh:
  assumes hp: "heap_is s bs" and k: "unat k + 15 < 4294967296"
    and rm: "first_fit (round16 (unat k)) bs = None \<Longrightarrow> room s (heap_start + extent bs) (pages_for k)"
  shows "\<exists>a n t bs'. malloc k s = Some (of_nat a, t) \<and> heap_is t bs' \<and> live heap_start bs' = insert (a, n) (live heap_start bs)
    \<and> a mod 16 = 0 \<and> unat k \<le> n \<and> heap_start + 16 \<le> a \<and> a + n \<le> heap_limit
    \<and> (\<forall>(b, j) \<in> live heap_start bs. (b + j + 16 \<le> a \<or> a + n + 16 \<le> b) \<and> agree b (b + j) (ram s) (ram t))
    \<and> (\<forall>m. (\<forall>i < 4294967296. i < a \<or> a + n \<le> i \<longrightarrow> m (of_nat i) = ram t (of_nat i)) \<longrightarrow> heap_is (t\<lparr>ram := m\<rparr>) bs')"
proof -
  let ?sz = "round16 (unat k)"
  obtain pos bs' where res: "abs_malloc ?sz bs = (pos, bs')" by (cases "abs_malloc ?sz bs")
  from malloc_spec [OF hp k res rm] obtain t where t: "malloc k s = Some (of_nat (heap_start + pos + 16), t)"
    "heap_is t bs'" "payloads_kept bs (ram s) (ram t)" by auto
  from abs_malloc_block [OF res] obtain as n ds where ds: "bs' = as @ (True, n) # ds" "pos = extent as" "?sz \<le> n"
    "live heap_start bs = live heap_start as \<union> live (heap_start + pos + 16 + n) ds" by blast
  let ?a = "heap_start + pos + 16"
  have "16 dvd extent as" by (rule extent_dvd) (use heap_is_dvd [OF t(2)] ds(1) in auto)
  then have "?a mod 16 = 0" using ds(2) by (simp add: mod_eq_0_iff_dvd dvd_add)
  moreover have "live heap_start bs' = insert (?a, n) (live heap_start bs)"
    using ds(2,4) by (simp add: ds(1) live_append)
  moreover have "unat k \<le> n" using round16_bounds(1) [of "unat k"] ds(3) by linarith
  moreover have "?a + n \<le> heap_limit" using t(2) ds(1,2) by (simp add: heap_is_def)
  moreover have "(b + j + 16 \<le> ?a \<or> ?a + n + 16 \<le> b) \<and> agree b (b + j) (ram s) (ram t)"
    if "(b, j) \<in> live heap_start bs" for b j
    using that ds(2,4) live_bounds [of b j heap_start as] live_bounds [of b j "heap_start + pos + 16 + n" ds]
      t(3) live_block [OF that] by (auto simp: payloads_kept_def)
  moreover have "heap_is (t\<lparr>ram := m\<rparr>) bs'"
    if "\<forall>i < 4294967296. i < ?a \<or> ?a + n \<le> i \<longrightarrow> m (of_nat i) = ram t (of_nat i)" for m
    using payload_writes [OF t(2) [unfolded ds(1)], of ?a m] that ds(1,2) by simp
  ultimately show ?thesis using t(1,2)
    by (intro exI [of _ ?a] exI [of _ n] exI [of _ t] exI [of _ bs']) auto
qed

text \<open>The 15 largest sizes round to 0: the request succeeds with an empty payload.\<close>

theorem malloc_size_wraps:
  assumes "0xfffffff1 \<le> k"
  shows "malloc k s = malloc 0 s"
proof -
  define d where "d = unat k - 4294967281"
  have "unat k \<ge> 4294967281" using assms by (simp add: word_le_nat_alt)
  moreover have "unat k < 4294967296" using unsigned_less [where 'a = nat and w = k] by simp
  ultimately have d: "unat k + 15 = d + 4294967296" "d < 15" unfolding d_def by linarith+
  have "unat (k + 15) = (unat k + 15) mod 4294967296" by (simp add: unat_word_ariths)
  also have "\<dots> = d" unfolding d(1) mod_add_self2 by (rule mod_less) (use d(2) in simp)
  finally have "unat (k + 15) < 16" using d(2) by simp
  then have "(k + 15) AND NOT 15 = 0" unfolding align_down by simp
  moreover have "(0 + 15) AND NOT 15 = (0 :: u32)" by simp
  ultimately show ?thesis unfolding malloc_def by simp
qed

section \<open>Freeing\<close>

lemma heap_is_block:
  assumes "heap_is s (as @ (u, n) # cs)" "q = heap_start + extent as"
  shows "hdr_mapped (of_nat q) s"
    "hdr_view (ram s) (of_nat q)
      = ((if u then 1 else 0) OR (if cs = [] then 2 else 0), of_nat n, of_nat (last_hdr 0 heap_start as))"
    "q + 16 + n + extent cs \<le> heap_limit" "of_nat q \<noteq> (NULL :: addr)"
  using assms hdr_in_heap [of s "heap_start + extent (as @ (u, n) # cs)" q] of_nat_neq [of q 0]
  by (simp_all add: heap_is_def blocks_middle block_at_view)

lemma merge_prev_used:
  assumes hp: "heap_is s (as @ (u, n) # cs)" and q: "q = heap_start + extent as" and p: "as \<noteq> [] \<Longrightarrow> fst (last as)"
  shows "free_merge_prev (of_nat q) s = Some (of_nat q, s)"
proof (cases as rule: rev_cases)
  case Nil
  then show ?thesis using heap_is_block(1,2) [OF hp q] by (simp add: free_merge_prev_def hdr_fields)
next
  case (snoc bs b)
  then obtain k where b: "b = (True, k)" using p by (cases b) auto
  have hb: "heap_is s (bs @ (True, k) # (u, n) # cs)" using hp snoc b by simp
  note pb = heap_is_block [OF hb refl]
  show ?thesis using heap_is_block(1,2) [OF hp q] pb(1,2,4)
    by (simp add: free_merge_prev_def hdr_fields snoc b last_hdr_snoc)
qed

lemma payload_header: "of_nat (q + 16) - 16 = (of_nat q :: addr)"
  by simp

lemma next_header: "heap_is s (as @ (u, n) # cs) \<Longrightarrow> q = heap_start + extent as \<Longrightarrow>
    find_next_hdr (of_nat q) s = Some (of_nat (q + 16 + n))"
  using heap_is_block(1,2) [of s as u n cs q] by (simp add: find_next_hdr_def hdr_fields)

text \<open>
  \<open>free\<close> of a block between blocks in use marks it free, writes one byte and returns; the heap
  keeps its blocks, and the other payloads their contents.
\<close>

theorem free_used_neighbours:
  assumes hp: "heap_is s (as @ (True, n) # (True, k) # cs)" and p: "as \<noteq> [] \<Longrightarrow> fst (last as)"
    and q: "q = heap_start + extent as"
  shows "free (of_nat (q + 16)) s = Some (s\<lparr>ram := (ram s)(of_nat q := 0)\<rparr>)
    \<and> heap_is (s\<lparr>ram := (ram s)(of_nat q := 0)\<rparr>) (as @ (False, n) # (True, k) # cs)
    \<and> payloads_kept (as @ (False, n) # (True, k) # cs) (ram s) ((ram s)(of_nat q := 0))"
proof -
  note b = heap_is_block [OF hp q]
  have hn: "heap_is s ((as @ [(True, n)]) @ (True, k) # cs)" using hp by simp
  have qn: "q + 16 + n = heap_start + extent (as @ [(True, n)])" using q by simp
  note nb = heap_is_block [OF hn qn]
  have "free_merge_next (of_nat q) s = Some s"
    using b(1,2) nb(1,2) next_header [OF hp q] by (simp add: free_merge_next_def hdr_fields)
  then have fr: "free (of_nat (q + 16)) s = Some (s\<lparr>ram := (ram s)(of_nat q := 0)\<rparr>)"
    using merge_prev_used [OF hp q p] b(1,2) by (simp add: free_def payload_header hdr_fields hdr_puts)
  have bl: "blocks (ram s) True 0 heap_start (as @ (True, n) # (True, k) # cs)" using hp by (simp add: heap_is_def)
  note st = set_status_blocks [OF bl q, of 0 False]
  have lim: "q + 32 + n + extent ((True, k) # cs) \<le> 4294967296" using b(3) by simp
  have "heap_is (s\<lparr>ram := (ram s)(of_nat q := 0)\<rparr>) (as @ (False, n) # (True, k) # cs)"
    using hp st(1) [OF lim] by (simp add: heap_is_def)
  moreover have "payloads_kept (as @ (False, n) # (True, k) # cs) (ram s) ((ram s)(of_nat q := 0))"
    by (rule only_block_payloads) (use st(2) [OF lim] q lim in simp_all)
  ultimately show ?thesis using fr by blast
qed

text \<open>
  \<open>free\<close> of the last block of the heap reads a header behind the heap. The block has the status
  3, \<open>USED\<close> and \<open>END_OF_MEMORY\<close>, and the guard compares with 2: with nothing mapped behind the
  heap the read is a page fault.
\<close>

theorem free_last_block_faults:
  assumes hp: "heap_is s (as @ [(True, n)])" and p: "as \<noteq> [] \<Longrightarrow> fst (last as)"
    and q: "q = heap_start + extent as" and behind: "\<not> virt_mapped (of_nat (q + 16 + n)) s"
  shows "free (of_nat (q + 16)) s = None"
proof -
  note b = heap_is_block [OF hp q]
  have "\<not> hdr_mapped (of_nat (q + 16 + n)) s" using behind by (simp add: hdr_mapped_def)
  then have "free_merge_next (of_nat q) s = None"
    using b(1,2) next_header [OF hp q]
    by (simp add: free_merge_next_def hdr_fields hdr_status_def [of "of_nat (q + 16 + n)"] del: of_nat_add)
  then show ?thesis using merge_prev_used [OF hp q p] by (simp add: free_def payload_header)
qed


text \<open>
  \<open>free\<close> before a free block merges the two but adds the sizes only, not the header between
  them. The merged block then ends 16 bytes before the header that follows it, or before the end of
  the heap; where a header follows, the next step along the chain reads the last 16 bytes of the
  merged block's payload as a header.
\<close>

theorem free_merge_loses_header:
  assumes hp: "heap_is s (as @ (True, n) # (False, k) # cs)" and p: "as \<noteq> [] \<Longrightarrow> fst (last as)"
    and q: "q = heap_start + extent as"
  shows "\<exists>t. free (of_nat (q + 16)) s = Some t \<and> hdr_size (of_nat q) t = Some (of_nat (n + k))
    \<and> find_next_hdr (of_nat q) t = Some (of_nat (q + 16 + n + k))
    \<and> blocks (ram t) True q (q + 32 + n + k) cs
    \<and> (cs = [] \<longrightarrow> heap_is t (as @ [(False, n + k)]))"
proof -
  note b = heap_is_block [OF hp q]
  have hn: "heap_is s ((as @ [(True, n)]) @ (False, k) # cs)" using hp by simp
  let ?r = "q + 16 + n"
  have qn: "?r = heap_start + extent (as @ [(True, n)])" using q by simp
  note nb = heap_is_block [OF hn qn]
  let ?v = "(if cs = [] then 3 else 1) :: u8"
  let ?w = "(if cs = [] then 2 else 0) :: u8"
  let ?m = "(wr32 (ram s) (of_nat q + 4) (of_nat (n + k)))(of_nat q := ?v)"
  let ?z = "q + 32 + n + k"
  let ?m' = "if cs = [] then ?m else wr32 ?m (of_nat ?z + 8) (of_nat q)"
  have vm: "hdr_view ?m (of_nat q) = (?v, of_nat (n + k), of_nat (last_hdr 0 heap_start as))"
    using b(2) by simp
  have lim: "?z + extent cs \<le> heap_limit" using b(3) by simp
  have "hdr_view ?m (of_nat ?r) = hdr_view (ram s) (of_nat ?r)"
    using hdr_view_other [of ?r q] lim by simp
  then have vr: "hdr_view ?m (of_nat ?r) = (?w, of_nat k, of_nat q)"
    using nb(2) q by (simp add: last_hdr_snoc)
  have zr: "of_nat ?r + 16 + of_nat k = (of_nat ?z :: addr)" "of_nat n + of_nat k = (of_nat (n + k) :: u32)" by simp_all
  have hz: "cs \<noteq> [] \<Longrightarrow> hdr_mapped (of_nat ?z) s"
    using hp q extent_pos [of cs] hdr_in_heap [of s "heap_start + extent (as @ (True, n) # (False, k) # cs)" ?z]
    by (simp add: heap_is_def)
  have "free_merge_next (of_nat q) s = Some (s\<lparr>ram := ?m'\<rparr>)"
    using b(1,2) nb(1,2) next_header [OF hp q] vr zr hz
    by (cases "cs = []") (simp_all add: free_merge_next_def hdr_fields hdr_puts find_next_hdr_def del: of_nat_add)
  moreover have vm': "hdr_view ?m' (of_nat q) = hdr_view ?m (of_nat q)"
    using hdr_view_other(3) [of q ?z] lim extent_pos [of cs] by simp
  moreover have "?v AND NOT 1 = ?w" by simp
  moreover define t where "t = s\<lparr>ram := ?m'(of_nat q := ?w)\<rparr>"
  ultimately have fr: "free (of_nat (q + 16)) s = Some t"
    using merge_prev_used [OF hp q p] b(1) vm
    by (simp add: free_def payload_header hdr_fields hdr_puts del: of_nat_add split del: if_split)
  have vt: "hdr_view (ram t) (of_nat q) = (?w, of_nat (n + k), of_nat (last_hdr 0 heap_start as))"
    using vm vm' by (simp add: t_def)
  have mt: "hdr_mapped (of_nat q) t" using b(1) by (simp add: t_def)
  have bl: "blocks (ram s) True 0 heap_start (as @ (True, n) # (False, k) # cs)" using hp by (simp add: heap_is_def)
  have keep: "agree a c m (m(of_nat q := v))" "agree a c m (wr32 m (of_nat q + 4) w)"
    if "c \<le> q \<or> q + 16 \<le> a" "c \<le> 4294967296" for a c v w and m :: mem
    using agree_status [of c q a m v] agree_wr32 [of c q 4 a m w] that lim by auto
  have rest: "blocks (ram t) True q ?z cs"
  proof (cases cs)
    case (Cons c cs')
    obtain v j where c: "c = (v, j)" by (cases c)
    have "agree ?z (?z + extent cs) (ram s) ?m"
      by (rule agree_trans [OF keep(2) keep(1)]) (use lim in simp_all)
    moreover have "blocks (ram s) True ?r ?z cs" using bl by (simp add: blocks_middle q add.assoc)
    ultimately have "blocks ?m True ?r ?z ((v, j) # cs')" by (simp only: blocks_agree Cons c)
    then have "blocks ?m' True q ?z cs"
      using blocks_new_prev [of ?m True ?r ?z v j cs' q] lim Cons c by simp
    moreover have "agree ?z (?z + extent cs) ?m' (ram t)"
      using keep(1) [of "?z + extent cs" ?z ?m' ?w] lim by (simp only: t_def paging.simps kbd.simps) auto
    ultimately show ?thesis by (simp only: blocks_agree)
  qed simp
  have "heap_is t (as @ [(False, n + k)])" if "cs = []"
  proof -
    have "ram t = ?m(of_nat q := ?w)" using that by (simp add: t_def)
    moreover have "agree heap_start (heap_start + extent as) (ram s) (?m(of_nat q := ?w))"
      by (rule agree_trans [OF agree_trans [OF keep(2) keep(1)] keep(1)]) (use q lim in simp_all)
    ultimately have "agree heap_start (heap_start + extent as) (ram s) (ram t)" by simp
    then have "blocks (ram t) True 0 heap_start (as @ [(False, n + k)])"
      using bl vt that by (simp add: blocks_middle blocks_agree block_at_view flip: q)
    moreover have "16 dvd n + k" using heap_is_dvd [OF hp] by (intro dvd_add) auto
    moreover have "heap_mapped t (heap_start + extent (as @ [(False, n + k)]))" "first_hdr t = of_nat heap_start"
      using hp that by (simp_all add: t_def heap_is_def heap_mapped_def)
    ultimately show ?thesis using heap_is_dvd [OF hp] lim q by (auto simp: heap_is_def)
  qed
  then show ?thesis using fr rest mt vt
    by (intro exI [of _ t]) (simp add: hdr_fields find_next_hdr_def)
qed


text \<open>
  Where the block before is free, \<open>free\<close> takes the last 16 bytes of the payload that is being freed for
  the header of the next block.
\<close>

theorem free_merge_prev_reads_payload:
  assumes hp: "heap_is s (as @ (False, k) # (True, n) # cs)" and q: "q = heap_start + extent as" "r = q + 16 + k"
  shows "\<exists>t. free_merge_prev (of_nat r) s = Some (of_nat q, t) \<and> find_next_hdr (of_nat q) t = Some (of_nat (r + n))
    \<and> (16 \<le> n \<longrightarrow> agree (r + n) (r + n + 16) (ram s) (ram t))"
proof -
  note b = heap_is_block [OF hp q(1)]
  have hn: "heap_is s ((as @ [(False, k)]) @ (True, n) # cs)" using hp by simp
  have rq: "r = heap_start + extent (as @ [(False, k)])" using q by simp
  note rb = heap_is_block [OF hn rq]
  have lim: "r + 16 + n \<le> heap_limit" using rb(3) by simp
  let ?v = "(if cs = [] then 2 else 0) :: u8"
  let ?m = "(wr32 (ram s) (of_nat q + 4) (of_nat k + of_nat n))(of_nat q := ?v)"
  have vr: "hdr_view (wr32 (ram s) (of_nat q + 4) (of_nat k + of_nat n)) (of_nat r) = hdr_view (ram s) (of_nat r)"
    by (rule hdr_view_other) (use q lim in simp_all)
  have "free_merge_prev (of_nat r) s = Some (of_nat q, s\<lparr>ram := ?m\<rparr>)"
    using b(1,2,4) rb(1,2) vr q(1)
    by (cases "cs = []") (simp_all add: free_merge_prev_def hdr_fields hdr_puts last_hdr_snoc del: of_nat_add)
  moreover have "agree (r + n) (r + n + 16) (ram s) ?m" if "16 \<le> n"
    by (rule agree_trans [OF _ agree_status])
       (use agree_wr32 [of "r + n + 16" q 4 "r + n"] q that lim in simp_all)
  moreover have "hdr_view ?m (of_nat q) = (?v, of_nat k + of_nat n, of_nat (last_hdr 0 heap_start as))"
    using b(2) by simp
  ultimately show ?thesis using b(1) q(2)
    by (intro exI [of _ "s\<lparr>ram := ?m\<rparr>"]) (simp add: find_next_hdr_def hdr_fields)
qed

text \<open>The page allocator refuses a region whose first page is mapped.\<close>

lemma mem_alloc_first_page_used:
  assumes e: "e < 4294967296" and vm: "virt_mapped (of_nat e) s" and n: "1 \<le> unat n" "unat n \<le> 1048576"
  shows "mem_alloc (of_nat e) lim n flags s = None \<or> mem_alloc (of_nat e) lim n flags s = Some (NULL, s)"
proof -
  define p where "p = e div 4096"
  have ue: "unat (of_nat e :: u32) = e" using e by (rule unat_of_nat32)
  have p: "p < 1048576" using e by (simp add: p_def)
  have up: "unat (of_nat p :: u32) = p" using p by (intro unat_of_nat32) simp
  have pg: "(of_nat e :: u32) div PAGE_SIZE = of_nat p"
    by (simp only: word_unat_eq_iff unat_div_distrib ue up) (simp add: p_def)
  have pr: "table_present s (p div 1024)" "page_present s p" using vm by (simp_all add: virt_mapped_def ue p_def)
  have sum: "unat (of_nat p + n) = p + unat n" using unat_add_small [of "of_nat p" n] up p n by simp
  then have lt: "(of_nat p :: u32) < of_nat p + n" using n by (simp only: word_less_nat_alt up)
  then have nlt: "\<not> of_nat p + n < (of_nat p :: u32)" by simp
  have "is_virt_region_used (of_nat p) n s = None \<or> (\<exists>st. is_virt_region_used (of_nat p) n s = Some (True, st))"
  proof (cases "table_present s 1023")
    case True
    from read_page [OF p True] pr lt nlt show ?thesis
      by (simp add: is_virt_region_used_def Let_def virt_used_loop.simps [of _ _ "of_nat p + n"]
          table_present_def page_present_def)
  next
    case False
    have "unat (of_nat (p div 1024) :: u32) < 1024"
      using page_word(2,3) [OF p] by (simp add: word_less_nat_alt)
    with lt nlt False page_word(2,3) [OF p] show ?thesis
      by (simp add: is_virt_region_used_def Let_def virt_used_loop.simps [of _ _ "of_nat p + n"] read_entry_pde)
  qed
  then show ?thesis by (auto simp: mem_alloc_def Let_def pg)
qed

text \<open>
  Once the end of the heap is not on a page boundary, which merging with the last free block brings
  about, the heap cannot grow any more: the page of its end is in use, \<open>mem_alloc\<close> refuses it
  with \<open>NULL\<close>, and \<open>malloc\<close> writes a header there, a page fault when page 0 is not mapped.
\<close>

theorem malloc_unaligned_end_faults:
  assumes hp: "heap_is s bs" and k: "unat k + 15 < 4294967296"
    and nofit: "first_fit (round16 (unat k)) bs = None"
    and e: "e = heap_start + extent bs" "e mod 4096 \<noteq> 0" and null: "\<not> virt_mapped NULL s"
  shows "malloc k s = None"
proof -
  let ?sz = "round16 (unat k)"
  let ?n = "(of_nat ?sz + 16) div PAGE_SIZE + 1 :: u32"
  have ne: "bs \<noteq> []" using e by auto
  then obtain as u j where bs: "bs = as @ [(u, j)]" by (metis prod.exhaust rev_exhaust)
  note b = heap_is_block [OF hp [unfolded bs] refl]
  have "?sz < 4294967296" using round16_bounds(3) [of "unat k"] k by linarith
  note find = search_fails [OF hp nofit this refl]
  have hdr: "(if bs = [] then NULL else of_nat (last_hdr 0 heap_start bs)) = (of_nat (heap_start + extent as) :: addr)"
    using bs by (simp add: last_hdr_snoc)
  have el: "e = heap_start + extent as + 16 + j" "e \<le> heap_limit"
    using e(1) bs hp by (simp_all add: heap_is_def)
  have "virt_mapped (of_nat (e - 1)) s"
  proof -
    have "heap_mapped s e" using hp e(1) by (simp add: heap_is_def)
    then have "heap_start \<le> e - 1 \<and> e - 1 < e \<longrightarrow> virt_mapped (of_nat (e - 1)) s"
      unfolding heap_mapped_def by blast
    then show ?thesis using el(1) by linarith
  qed
  moreover have "unat (of_nat (e - 1) :: u32) = e - 1" "unat (of_nat e :: u32) = e"
    using el by (intro unat_of_nat32; simp)+
  moreover have "(e - 1) div 4096 = e div 4096" using e(2) by (cases e) (auto simp: div_Suc split: if_splits)
  ultimately have vm: "virt_mapped (of_nat e) s" by (simp add: virt_mapped_def)
  define w where "w = (of_nat ?sz + 16 :: u32)"
  have "unat w < 4294967296" using unsigned_less [where 'a = nat and w = w] by simp
  then have "unat w div 4096 < 1048576" by (intro less_mult_imp_div_less) simp
  moreover from this have "unat (w div PAGE_SIZE + 1) = unat w div 4096 + 1"
    by (subst unat_succ) (simp_all add: unat_div_distrib)
  ultimately have n: "1 \<le> unat ?n" "unat ?n \<le> 1048576" unfolding w_def by linarith+
  have "e < 4294967296" using el by simp
  from mem_alloc_first_page_used [OF this vm n, where lim = K_MEM_HEAP_END and flags = DEFAULT_PAGE_FLAGS] null
  have "malloc_grow (of_nat (heap_start + extent as)) (of_nat ?sz) s = None"
    using next_header [OF hp [unfolded bs] refl] b(4) el(1)
    by (auto simp: malloc_grow_def Let_def put_status_def hdr_mapped_def simp del: of_nat_add)
  then show ?thesis using find unfolding malloc_def round16_word [OF k] Let_def hdr by simp
qed


section \<open>Concrete heaps\<close>

definition heap_init :: heap where
  "heap_init = ps2.extend (ps2_start 0 []) (heap.fields NULL)"

lemma heap_init_simps [simp]:
  "ptes heap_init = ptes paging_start" "phys_page_bitmap heap_init = phys_page_bitmap paging_start"
  "lower_bound heap_init = lower_bound paging_start" "upper_bound heap_init = upper_bound paging_start"
  "first_hdr heap_init = NULL"
  by (simp_all add: heap_init_def ps2.extend_def heap.fields_def ps2_start_def interrupts.extend_def ps2.fields_def
      interrupts_start_def paging.extend_def)

lemma heap_init_room: "room heap_init heap_start 1"
proof -
  have ok: "bounds_ok heap_init" by (simp add: bounds_ok_def)
  have "tables_ok paging_start 851968 851969" "region_free paging_start 851968 1"
    by (simp_all add: paging_start_heap paging_start_pages)
  then have "tables_ok heap_init 851968 851969" "region_free heap_init 851968 1"
    by (simp_all add: tables_ok_def region_free_def table_present_def page_present_def)
  moreover have "find (\<lambda>f. \<not> frame_used heap_init f) (frame_range heap_init) = Some 256"
    by (simp add: frame_range_def frame_used_def find_first)
  ultimately show ?thesis using ok by (simp add: room_def phys_frame_spec)
qed

lemma heap_init_is: "heap_is heap_init []"
  by (auto simp: heap_is_def heap_mapped_def)

theorem malloc_refines_witness:
  "\<exists>t. malloc 100 heap_init = Some (0xd0000010, t) \<and> heap_is t [(True, 112), (False, 3952)]
    \<and> payloads_kept [] (ram heap_init) (ram t) \<and> outside_kept (ram heap_init) (ram t) \<and> heap_frame heap_init t"
proof -
  have "abs_malloc (round16 (unat (100 :: u32))) [] = (0, [(True, 112), (False, 3952)])"
    by (simp add: abs_malloc_def round16_def split_block_def grown_def)
  from malloc_refines [OF heap_init_is _ this] heap_init_room show ?thesis by (simp add: round16_def)
qed

theorem malloc_fresh_witness:
  "\<exists>a n t bs. malloc 100 heap_init = Some (of_nat a, t) \<and> live heap_start bs = {(a, n)} \<and> heap_is t bs \<and> 100 \<le> n"
  using malloc_fresh [OF heap_init_is, of 100] heap_init_room by (simp add: round16_def) metis

text \<open>A heap of one page.\<close>

definition one_page :: "mem \<Rightarrow> heap" where
  "one_page m = heap_init\<lparr>ram := m, ptes := (ptes heap_init)(0xd0000 := 0x100003), first_hdr := 0xd0000000\<rparr>"

definition write_hdr :: "addr \<Rightarrow> u8 \<Rightarrow> u32 \<Rightarrow> addr \<Rightarrow> mem \<Rightarrow> mem" where
  "write_hdr p st n prev m = wr32 (wr32 (m(p := st)) (p + 4) n) (p + 8) prev"

lemma hdr_view_write: "hdr_view (write_hdr p st n prev m) p = (st, n, prev)"
  unfolding write_hdr_def by simp

lemma one_page_simps [simp]: "ram (one_page m) = m" "first_hdr (one_page m) = 0xd0000000"
  "ptes (one_page m) = (ptes heap_init)(0xd0000 := 0x100003)"
  by (simp_all add: one_page_def)

lemma one_page_mapped: "heap_start \<le> i \<Longrightarrow> i < 3489665024 \<Longrightarrow> virt_mapped (of_nat i) (one_page m)"
proof -
  assume i: "heap_start \<le> i" "i < 3489665024"
  have "unat (of_nat i :: addr) = i" by (rule unat_of_nat32) (use i in simp)
  moreover have "i div 4096 = 851968" using i by linarith
  ultimately show ?thesis by (simp add: virt_mapped_def table_present_def page_present_def)
qed

lemma one_page_unmapped: "\<not> virt_mapped 0xd0001000 (one_page m)" "\<not> virt_mapped NULL (one_page m)"
  by (simp_all add: virt_mapped_def table_present_def page_present_def)

lemma one_page_is:
  assumes "bs \<noteq> []" "extent bs \<le> 4096" "\<forall>(u, n) \<in> set bs. 16 dvd n" "blocks m True 0 heap_start bs"
  shows "heap_is (one_page m) bs"
  using assms one_page_mapped [of _ m] by (auto simp: heap_is_def heap_mapped_def)

lemma one_block:
  "16 dvd n \<Longrightarrow> n \<le> 4080 \<Longrightarrow> heap_is (one_page (write_hdr 0xd0000000 (if u then 3 else 2) (of_nat n) NULL m)) [(u, n)]"
  by (rule one_page_is) (auto simp: block_at_view hdr_view_write [of "0xd0000000", simplified])

lemma two_blocks:
  "heap_is (one_page (write_hdr 0xd0000000 1 1600 NULL (write_hdr 0xd0000650 (if u then 3 else 2) 2464 0xd0000000 m)))
    [(True, 1600), (u, 2464)]"
  by (rule one_page_is) (auto simp: block_at_def write_hdr_def wr32_def rd32_def)

theorem free_used_neighbours_witness:
  "\<exists>t. free 0xd0000010 (one_page (write_hdr 0xd0000000 1 1600 NULL (write_hdr 0xd0000650 3 2464 0xd0000000 (\<lambda>_. 0)))) = Some t
    \<and> heap_is t [(False, 1600), (True, 2464)]"
  using free_used_neighbours [where as = "[]" and q = heap_start and cs = "[]", simplified, OF two_blocks [of True "\<lambda>_. 0", simplified]]
  by auto

theorem free_last_block_faults_witness:
  "free 0xd0000010 (one_page (write_hdr 0xd0000000 3 4080 NULL (\<lambda>_. 0))) = None"
  using free_last_block_faults [where as = "[]" and q = heap_start, simplified, OF one_block [of 4080 True "\<lambda>_. 0", simplified]]
  by (simp add: one_page_unmapped)

theorem free_merge_loses_header_witness:
  "\<exists>t. free 0xd0000010 (one_page (write_hdr 0xd0000000 1 1600 NULL (write_hdr 0xd0000650 2 2464 0xd0000000 (\<lambda>_. 0)))) = Some t
    \<and> heap_is t [(False, 4064)] \<and> find_next_hdr 0xd0000000 t = Some 0xd0000ff0"
  using free_merge_loses_header [where as = "[]" and q = heap_start and cs = "[]", simplified, OF two_blocks [of False "\<lambda>_. 0", simplified]]
  by auto

theorem malloc_unaligned_end_faults_witness:
  "malloc 5000 (one_page (write_hdr 0xd0000000 2 4064 NULL (\<lambda>_. 0))) = None"
  by (rule malloc_unaligned_end_faults [where bs = "[(False, 4064)]" and e = 3489665008])
     (use one_block [of 4064 False "\<lambda>_. 0"] in \<open>simp_all add: one_page_unmapped round16_def\<close>)

end
