(* ===== verification/Heap_Objects.thy ===== *)
theory Heap_Objects
  imports Malloc
begin

text \<open>
  Objects on the heap: access to the fields of a C structure through a pointer, a page fault (\<open>None\<close>)
  when its page is not mapped; the regions \<open>malloc\<close> hands out as owned memory that stays intact while
  other objects are allocated and written.
\<close>

section \<open>Fields\<close>

text \<open>Accesses to the fields of C structures; fields are aligned, so each lies in one page.\<close>

definition get16 :: "addr \<Rightarrow> 'a paging_scheme \<Rightarrow> u16 option" where
  "get16 a s = (if virt_mapped a s then Some (rd16 (ram s) a) else None)"

definition get32 :: "addr \<Rightarrow> 'a paging_scheme \<Rightarrow> u32 option" where
  "get32 a s = (if virt_mapped a s then Some (rd32 (ram s) a) else None)"

definition get64 :: "addr \<Rightarrow> 'a paging_scheme \<Rightarrow> u64 option" where
  "get64 a s = (if virt_mapped a s \<and> virt_mapped (a + 4) s then Some (rd64 (ram s) a) else None)"

definition put16 :: "addr \<Rightarrow> u16 \<Rightarrow> 'a paging_scheme \<Rightarrow> 'a paging_scheme option" where
  "put16 a v s = (if virt_mapped a s then Some (s\<lparr>ram := wr16 (ram s) a v\<rparr>) else None)"

definition put32 :: "addr \<Rightarrow> u32 \<Rightarrow> 'a paging_scheme \<Rightarrow> 'a paging_scheme option" where
  "put32 a v s = (if virt_mapped a s then Some (s\<lparr>ram := wr32 (ram s) a v\<rparr>) else None)"

definition put64 :: "addr \<Rightarrow> u64 \<Rightarrow> 'a paging_scheme \<Rightarrow> 'a paging_scheme option" where
  "put64 a v s = do { s \<leftarrow> put32 a (ucast v) s; put32 (a + 4) (ucast (drop_bit 32 v)) s }"

text \<open>Accesses to different fields of one object.\<close>

lemma byte_apart:
  fixes a b :: addr
  assumes "j \<le> unat (a - b)" "k \<le> unat (b - a)" "i < k" "l < j" "j \<le> 4" "k \<le> 4"
  shows "a + of_nat i \<noteq> b + of_nat l"
proof
  assume eq: "a + of_nat i = b + of_nat l"
  show False
  proof (cases "i \<le> l")
    case True
    then have "a - b = of_nat (l - i)" using eq by (simp add: of_nat_diff algebra_simps)
    then have "unat (a - b) = l - i" using assms(4,5) by (simp add: unat_of_nat32)
    then show False using assms(1,4) by simp
  next
    case False
    then have "b - a = of_nat (i - l)" using eq by (simp add: of_nat_diff algebra_simps)
    then have "unat (b - a) = i - l" using assms(3,6) by (simp add: unat_of_nat32)
    then show False using assms(2,3) by simp
  qed
qed

lemma wr32_at_other: "4 \<le> unat (a - b) \<Longrightarrow> k \<le> unat (b - a) \<Longrightarrow> i < k \<Longrightarrow> k \<le> 4 \<Longrightarrow>
    wr32 m b v (a + of_nat i) = m (a + of_nat i)"
  using byte_apart [of 4 a b k i 0] byte_apart [of 4 a b k i 1] byte_apart [of 4 a b k i 2] byte_apart [of 4 a b k i 3]
  by (simp add: wr32_def)

lemma wr16_at_other: "2 \<le> unat (a - b) \<Longrightarrow> k \<le> unat (b - a) \<Longrightarrow> i < k \<Longrightarrow> k \<le> 4 \<Longrightarrow>
    wr16 m b v (a + of_nat i) = m (a + of_nat i)"
  using byte_apart [of 2 a b k i 0] byte_apart [of 2 a b k i 1] by (simp add: wr16_def)

lemma other_field [simp]:
  "4 \<le> unat (a - b) \<Longrightarrow> 4 \<le> unat (b - a) \<Longrightarrow> rd32 (wr32 m b v) a = rd32 m a"
  "4 \<le> unat (a - b) \<Longrightarrow> 2 \<le> unat (b - a) \<Longrightarrow> rd16 (wr32 m b v) a = rd16 m a"
  "2 \<le> unat (a - b) \<Longrightarrow> 4 \<le> unat (b - a) \<Longrightarrow> rd32 (wr16 m b w) a = rd32 m a"
  "2 \<le> unat (a - b) \<Longrightarrow> 2 \<le> unat (b - a) \<Longrightarrow> rd16 (wr16 m b w) a = rd16 m a"
  using wr32_at_other [of a b 4 0 m v] wr32_at_other [of a b 4 1 m v] wr32_at_other [of a b 4 2 m v]
    wr32_at_other [of a b 4 3 m v] wr32_at_other [of a b 2 0 m v] wr32_at_other [of a b 2 1 m v]
    wr16_at_other [of a b 4 0 m w] wr16_at_other [of a b 4 1 m w] wr16_at_other [of a b 4 2 m w]
    wr16_at_other [of a b 4 3 m w] wr16_at_other [of a b 2 0 m w] wr16_at_other [of a b 2 1 m w]
  by (simp_all add: rd32_def rd16_def)

text \<open>Reads of memories that agree.\<close>

lemma read_agree:
  assumes "agree b c m m'" "b \<le> a"
  shows "a + 4 \<le> c \<Longrightarrow> rd32 m' (of_nat a) = rd32 m (of_nat a)" "a + 2 \<le> c \<Longrightarrow> rd16 m' (of_nat a) = rd16 m (of_nat a)"
    "a < c \<Longrightarrow> m' (of_nat a) = m (of_nat a)"
proof -
  have at: "m' (of_nat a + of_nat i) = m (of_nat a + of_nat i)" if "a + i < c" for i
    using assms(1) [unfolded agree_def, rule_format, of "a + i"] assms(2) that by simp
  show "a + 4 \<le> c \<Longrightarrow> rd32 m' (of_nat a) = rd32 m (of_nat a)"
    using at [of 0] at [of 1] at [of 2] at [of 3] by (simp add: rd32_def)
  show "a + 2 \<le> c \<Longrightarrow> rd16 m' (of_nat a) = rd16 m (of_nat a)" using at [of 0] at [of 1] by (simp add: rd16_def)
  show "a < c \<Longrightarrow> m' (of_nat a) = m (of_nat a)" using at [of 0] by simp
qed

section \<open>Regions\<close>

lemma live_disjoint:
  "(a, n) \<in> live p bs \<Longrightarrow> (b, j) \<in> live p bs \<Longrightarrow> (a, n) = (b, j) \<or> a + n + 16 \<le> b \<or> b + j + 16 \<le> a"
proof (induction p bs rule: live.induct)
  case (2 p u k bs)
  then show ?case
    using live_bounds [of a n "p + 16 + k" bs] live_bounds [of b j "p + 16 + k" bs] by (auto split: if_splits)
qed simp

lemma live_in_heap:
  assumes hp: "heap_is s bs" and r: "(a, n) \<in> live heap_start bs"
  shows "heap_start + 16 \<le> a" "a + n \<le> heap_limit" "a mod 16 = 0" "a \<le> i \<Longrightarrow> i < a + n \<Longrightarrow> virt_mapped (of_nat i) s"
proof -
  from live_block [OF r] obtain as cs where bs: "bs = as @ (True, n) # cs" and a: "a = heap_start + extent as + 16"
    by blast
  have "16 dvd extent as" by (rule extent_dvd) (use heap_is_dvd [OF hp] bs in auto)
  then show "a mod 16 = 0" using a by (simp add: mod_eq_0_iff_dvd dvd_add)
  show "heap_start + 16 \<le> a" "a + n \<le> heap_limit" "a \<le> i \<Longrightarrow> i < a + n \<Longrightarrow> virt_mapped (of_nat i) s"
    using hp bs a by (auto simp: heap_is_def heap_mapped_def)
qed

text \<open>
  \<open>keeps L X m m'\<close>: from \<open>m\<close> to \<open>m'\<close> nothing has changed outside the heap area and in the regions \<open>L\<close>, the
  addresses in \<open>X\<close> excepted.
\<close>

definition covered :: "(nat \<times> nat) set \<Rightarrow> nat \<Rightarrow> bool" where
  "covered L x \<longleftrightarrow> x < heap_start \<or> 4026531840 \<le> x \<or> (\<exists>(a, n) \<in> L. a \<le> x \<and> x < a + n)"

definition keeps :: "(nat \<times> nat) set \<Rightarrow> nat set \<Rightarrow> mem \<Rightarrow> mem \<Rightarrow> bool" where
  "keeps L X m m' \<longleftrightarrow> (\<forall>x < 4294967296. covered L x \<and> x \<notin> X \<longrightarrow> m' (of_nat x) = m (of_nat x))"

lemma keeps_refl [simp]: "keeps L X m m"
  by (simp add: keeps_def)

lemma covered_mono: "covered L x \<Longrightarrow> L \<subseteq> L' \<Longrightarrow> covered L' x"
  unfolding covered_def by blast

lemma keeps_trans:
  assumes "keeps L X m m'" "keeps L' Y m' m''" "L \<subseteq> L'"
  shows "keeps L (X \<union> Y) m m''"
  unfolding keeps_def
proof (intro allI impI)
  fix x assume "x < 4294967296" "covered L x \<and> x \<notin> X \<union> Y"
  then show "m'' (of_nat x) = m (of_nat x)"
    using assms covered_mono [of L x L'] by (simp add: keeps_def)
qed

lemma keeps_mono: "keeps L X m m' \<Longrightarrow> L' \<subseteq> L \<Longrightarrow> X \<subseteq> Y \<Longrightarrow> keeps L' Y m m'"
  unfolding keeps_def using covered_mono by blast

lemma keeps_agree:
  assumes "keeps L X m m'" "\<And>x. b \<le> x \<Longrightarrow> x < c \<Longrightarrow> covered L x \<and> x \<notin> X" "c \<le> 4294967296"
  shows "agree b c m m'"
  using assms by (simp add: keeps_def agree_def)

lemma keeps_writes: "(\<And>x. x < 4294967296 \<Longrightarrow> x \<notin> X \<Longrightarrow> m' (of_nat x) = m (of_nat x)) \<Longrightarrow> keeps L X m m'"
  by (simp add: keeps_def)

text \<open>A write into a region leaves the heap intact.\<close>

lemma live_write:
  assumes hp: "heap_is s bs" and r: "(a, n) \<in> live heap_start bs"
    and out: "\<And>x. x < 4294967296 \<Longrightarrow> x < a \<or> a + n \<le> x \<Longrightarrow> m (of_nat x) = ram s (of_nat x)"
  shows "heap_is (s\<lparr>ram := m\<rparr>) bs"
proof -
  from live_block [OF r] obtain as cs where bs: "bs = as @ (True, n) # cs" and a: "a = heap_start + extent as + 16"
    by blast
  show ?thesis using payload_writes [OF hp [unfolded bs] a out] by (simp add: bs)
qed

text \<open>Enough free space in one block.\<close>

definition plenty :: "nat \<Rightarrow> block list \<Rightarrow> bool" where
  "plenty k bs \<longleftrightarrow> (\<exists>n. (False, n) \<in> set bs \<and> k \<le> n)"

lemma plenty_mono: "plenty k bs \<Longrightarrow> j \<le> k \<Longrightarrow> plenty j bs"
  by (auto simp: plenty_def intro: order_trans)

lemma plenty_fit:
  assumes "plenty (sz + 16 + k) bs" "16 \<le> k"
  shows "\<exists>as n cs. first_fit sz bs = Some (as, n, cs) \<and> plenty k (as @ split_block sz n @ cs)"
proof (cases "first_fit sz bs")
  case None
  then show ?thesis using first_fit_None [OF None] assms by (fastforce simp: plenty_def)
next
  case (Some r)
  obtain as n cs where r: "r = (as, n, cs)" by (cases r)
  from first_fit_Some [OF Some [unfolded r]] have bs: "bs = as @ (False, n) # cs" "sz \<le> n" by simp_all
  from assms(1) obtain l where l: "(False, l) \<in> set bs" "sz + 16 + k \<le> l" by (auto simp: plenty_def)
  have "plenty k (as @ split_block sz n @ cs)"
  proof (cases "l = n")
    case True
    then have "(False, n - sz - 16) \<in> set (split_block sz n)" "k \<le> n - sz - 16"
      using l(2) assms(2) by (simp_all add: split_block_def)
    then show ?thesis by (auto simp: plenty_def)
  next
    case False
    then have "(False, l) \<in> set as \<union> set cs" using l(1) bs(1) by auto
    then show ?thesis using l(2) by (auto simp: plenty_def intro: exI [of _ l])
  qed
  then show ?thesis using Some r by auto
qed

lemma malloc_plenty:
  assumes hp: "heap_is s bs" and k: "unat k + 15 < 4294967296" and pl: "plenty (round16 (unat k) + 16 + N) bs" "16 \<le> N"
  obtains a n m bs' where "malloc k s = Some (of_nat a, s\<lparr>ram := m\<rparr>)" "heap_is (s\<lparr>ram := m\<rparr>) bs'"
    "live heap_start bs' = insert (a, n) (live heap_start bs)" "round16 (unat k) \<le> n" "plenty N bs'"
    "keeps (live heap_start bs) {} (ram s) m"
    "\<And>b j. (b, j) \<in> live heap_start bs \<Longrightarrow> b + j + 16 \<le> a \<or> a + n + 16 \<le> b"
proof -
  let ?sz = "round16 (unat k)"
  from plenty_fit [OF pl] obtain as l cs where fit: "first_fit ?sz bs = Some (as, l, cs)"
    and pl': "plenty N (as @ split_block ?sz l @ cs)" by blast
  from first_fit_Some [OF fit] have bs: "bs = as @ (False, l) # cs" by simp
  have res: "abs_malloc ?sz bs = (extent as, as @ split_block ?sz l @ cs)" using fit by (simp add: abs_malloc_def)
  from malloc_fit [OF hp k fit] obtain m where m: "malloc k s = Some (of_nat (heap_start + extent as + 16), s\<lparr>ram := m\<rparr>)"
    "payloads_kept bs (ram s) m" "only_block (heap_start + extent as) l (ram s) m" by blast
  from malloc_spec [OF hp k res] fit m(1) have hp': "heap_is (s\<lparr>ram := m\<rparr>) (as @ split_block ?sz l @ cs)" by auto
  from abs_malloc_block [OF res] obtain ds n es where ds: "as @ split_block ?sz l @ cs = ds @ (True, n) # es"
    "extent as = extent ds" "?sz \<le> n" "live heap_start bs = live heap_start ds \<union> live (heap_start + extent as + 16 + n) es" by blast
  let ?a = "heap_start + extent as + 16"
  have lim: "heap_start + extent as + 16 + l \<le> heap_limit" using hp bs by (simp add: heap_is_def)
  have "live heap_start (as @ split_block ?sz l @ cs) = insert (?a, n) (live heap_start bs)"
    using ds(2,4) by (simp only: ds(1) live_append) simp
  moreover have "b + j + 16 \<le> ?a \<or> ?a + n + 16 \<le> b" if "(b, j) \<in> live heap_start bs" for b j
    using that ds(2,4) live_bounds [of b j heap_start ds] live_bounds [of b j "heap_start + extent as + 16 + n" es] by auto
  moreover have "keeps (live heap_start bs) {} (ram s) m"
    unfolding keeps_def covered_def
  proof (intro allI impI, elim conjE disjE)
    fix x :: nat assume "x < 4294967296" "x < heap_start"
    then show "m (of_nat x) = ram s (of_nat x)" using m(3) by (simp add: only_block_def agree_def)
  next
    fix x :: nat assume "x < 4294967296" "4026531840 \<le> x"
    then show "m (of_nat x) = ram s (of_nat x)" using m(3) lim by (simp add: only_block_def agree_def)
  next
    fix x :: nat assume "\<exists>(a, n) \<in> live heap_start bs. a \<le> x \<and> x < a + n"
    then show "m (of_nat x) = ram s (of_nat x)"
      using m(2) live_block [of _ _ heap_start bs] by (fastforce simp: payloads_kept_def agree_def)
  qed
  ultimately show ?thesis using that [of ?a m] m(1) hp' ds(3) pl' by blast
qed

text \<open>Writes to fields, strings and arrays.\<close>

lemma wr32_keeps:
  assumes "a + 4 \<le> 4294967296"
  shows "keeps L {a ..< a + 4} m (wr32 m (of_nat a) v)"
proof (rule keeps_writes)
  fix x assume "x < 4294967296" "x \<notin> {a ..< a + 4}"
  then have "(of_nat x :: addr) \<noteq> of_nat a + of_nat i" if "i < 4" for i
    using assms that of_nat_neq [of x "a + i"] by auto
  from this [of 0] this [of 1] this [of 2] this [of 3] show "wr32 m (of_nat a) v (of_nat x) = m (of_nat x)"
    by (simp add: wr32_def)
qed

lemma wr16_keeps:
  assumes "a + 2 \<le> 4294967296"
  shows "keeps L {a ..< a + 2} m (wr16 m (of_nat a) v)"
proof (rule keeps_writes)
  fix x assume "x < 4294967296" "x \<notin> {a ..< a + 2}"
  then have "(of_nat x :: addr) \<noteq> of_nat a + of_nat i" if "i < 2" for i
    using assms that of_nat_neq [of x "a + i"] by auto
  from this [of 0] this [of 1] show "wr16 m (of_nat a) v (of_nat x) = m (of_nat x)"
    by (simp add: wr16_def)
qed

lemma in_region_nat:
  assumes "a + n \<le> 4294967296" "x < 4294967296"
  shows "in_region (of_nat a) n (of_nat x) \<longleftrightarrow> a \<le> x \<and> x < a + n"
  using in_region_offsets [OF assms, of 0] by simp

lemma write_bytes_keeps:
  assumes "a + length xs \<le> 4294967296"
  shows "keeps L {a ..< a + length xs} m (write_bytes m (of_nat a) xs)"
proof (rule keeps_writes)
  fix x assume "x < 4294967296" "x \<notin> {a ..< a + length xs}"
  then show "write_bytes m (of_nat a) xs (of_nat x) = m (of_nat x)"
    using assms by (intro write_bytes_outside) (auto simp: in_region_nat)
qed

lemma memset_keeps:
  assumes "a + unat n \<le> 4294967296"
  shows "keeps L {a ..< a + unat n} m (memset m (of_nat a) c n)"
proof (rule keeps_writes)
  fix x assume "x < 4294967296" "x \<notin> {a ..< a + unat n}"
  then show "memset m (of_nat a) c n (of_nat x) = m (of_nat x)"
    using assms by (auto simp: memset_apply in_region_nat)
qed

text \<open>A write of fields into a region of the heap, as \<open>keeps\<close> sees it.\<close>

lemma live_writes:
  assumes hp: "heap_is s bs" and r: "(a, n) \<in> live heap_start bs"
    and w: "keeps UNIV X (ram s) m" "X \<subseteq> {a ..< a + n}"
  shows "heap_is (s\<lparr>ram := m\<rparr>) bs" "keeps L X (ram s) m"
proof -
  have m: "m (of_nat x) = ram s (of_nat x)" if "x < 4294967296" "x \<notin> X" for x
  proof -
    have "covered UNIV x" unfolding covered_def by (intro disjI2 bexI [of _ "(x, 1)"]) simp_all
    then show ?thesis using w(1) that by (simp add: keeps_def)
  qed
  show "heap_is (s\<lparr>ram := m\<rparr>) bs"
  proof (rule live_write [OF hp r])
    fix x assume "x < 4294967296" "x < a \<or> a + n \<le> x"
    moreover from this have "x \<notin> X" using w(2) by auto
    ultimately show "m (of_nat x) = ram s (of_nat x)" by (intro m)
  qed
  show "keeps L X (ram s) m" by (rule keeps_writes) (rule m)
qed


text \<open>Writes to a region that is not among those kept do not touch them.\<close>

lemma fresh_writes:
  assumes w: "keeps UNIV X m m'" "X \<subseteq> {a ..< a + n}" and a: "heap_start \<le> a" "a + n \<le> heap_limit"
    and fr: "\<And>b j. (b, j) \<in> L \<Longrightarrow> b + j \<le> a \<or> a + n \<le> b"
  shows "keeps L {} m m'"
  unfolding keeps_def
proof (intro allI impI)
  fix x :: nat
  assume x: "x < 4294967296" "covered L x \<and> x \<notin> {}"
  have "x \<notin> X"
  proof
    assume "x \<in> X"
    then have xa: "a \<le> x" "x < a + n" using w(2) by auto
    then obtain b j where "(b, j) \<in> L" "b \<le> x" "x < b + j" using x(2) a by (auto simp: covered_def)
    then show False using fr [of b j] xa by auto
  qed
  moreover have "covered UNIV x" using x(2) covered_mono [of L x UNIV] by simp
  ultimately show "m' (of_nat x) = m (of_nat x)" using w(1) x(1) by (simp add: keeps_def)
qed

lemma keeps_region:
  assumes "keeps L X m m'" "(a, n) \<in> L" "k \<le> n" "X \<inter> {a ..< a + k} = {}" "a + k \<le> 4294967296"
  shows "agree a (a + k) m m'"
  using assms by (intro keeps_agree [OF assms(1)]) (fastforce simp: covered_def)+

lemma region_mapped: "heap_is s bs \<Longrightarrow> (a, n) \<in> live heap_start bs \<Longrightarrow> k < n \<Longrightarrow> virt_mapped (of_nat a + of_nat k) s"
  using live_in_heap(4) [of s bs a n "a + k"] by simp

lemma put_mapped:
  "virt_mapped a s \<Longrightarrow> put32 a v s = Some (s\<lparr>ram := wr32 (ram s) a v\<rparr>)"
  "virt_mapped a s \<Longrightarrow> put16 a w s = Some (s\<lparr>ram := wr16 (ram s) a w\<rparr>)"
  "virt_mapped a s \<Longrightarrow> get32 a s = Some (rd32 (ram s) a)"
  "virt_mapped a s \<Longrightarrow> get16 a s = Some (rd16 (ram s) a)"
  "virt_mapped a s \<Longrightarrow> virt_mapped (a + 4) s \<Longrightarrow> get64 a s = Some (rd64 (ram s) a)"
  by (simp_all add: put32_def put16_def get32_def get16_def get64_def)

end
