(* ===== verification/Tmpfs.thy ===== *)
theory Tmpfs
  imports Heap_Objects
begin

text \<open>
  kernel/fs/tmpfs.c with fs.h: the file system in memory. Its structures are malloc'ed objects that are
  read and written field by field at the offsets the i386 ABI gives them; an access to a page that is not
  mapped is a page fault, \<open>None\<close>. The routines of libc act on the flat memory.
\<close>

section \<open>Structures\<close>

abbreviation (input) I_PERMS :: u16 where "I_PERMS \<equiv> 0x1ff"
abbreviation (input) IT_REG :: u16 where "IT_REG \<equiv> 0x200"
abbreviation (input) IT_DIR :: u16 where "IT_DIR \<equiv> 0x400"
abbreviation (input) IT_BLK :: u16 where "IT_BLK \<equiv> 0x600"
abbreviation (input) IT_CHR :: u16 where "IT_CHR \<equiv> 0x800"
abbreviation (input) IT_TYPE :: u16 where "IT_TYPE \<equiv> 0xe00"
abbreviation (input) TMPFS_BLK_SIZE :: "'a :: len word" where "TMPFS_BLK_SIZE \<equiv> 4096"

text \<open>
  \<open>struct inode\<close> has \<open>nlink\<close> at 0, \<open>mode\<close> at 2, \<open>uid\<close> and \<open>gid\<close> at 12 and 16, the union of \<open>firstblk\<close> (20)
  with \<open>size\<close> (28) and \<open>dev_type\<close> (20), and \<open>fs_on\<close> at 36; the type-specific part starts at 40. A directory
  entry has its name, inode and successor at 0, 4 and 8; a block its data at 0 and its successor at 4096.
\<close>

definition inode_type :: "addr \<Rightarrow> 'a paging_scheme \<Rightarrow> u16 option" where
  "inode_type i s = map_option (\<lambda>m. m AND IT_TYPE) (get16 (i + 2) s)"

definition init_inode :: "addr \<Rightarrow> addr \<Rightarrow> u16 \<Rightarrow> 'a paging_scheme \<Rightarrow> 'a paging_scheme option" where
  "init_inode i fs mode s =
     do {
       s \<leftarrow> put16 i 0 s;
       s \<leftarrow> put32 (i + 36) fs s;
       s \<leftarrow> put16 (i + 2) mode s;
       s \<leftarrow> put32 (i + 12) 0 s;
       s \<leftarrow> put32 (i + 16) 0 s;
       s \<leftarrow> put64 (i + 20) 0 s;
       put64 (i + 28) 0 s
     }"

section \<open>Directories\<close>

text \<open>The last entry of a list, and the search by name; they do not return on a cyclic list.\<close>

partial_function (option) last_dentry :: "addr \<Rightarrow> 'a paging_scheme \<Rightarrow> addr option" where
  "last_dentry de s =
     do {
       nx \<leftarrow> get32 (de + 8) s;
       if nx \<noteq> NULL then last_dentry nx s else Some de
     }"

definition add_to_dir :: "addr \<Rightarrow> addr \<Rightarrow> addr \<Rightarrow> 'a heap_scheme \<Rightarrow> 'a heap_scheme option" where
  "add_to_dir dir name ino s =
     do {
       n \<leftarrow> strlen (ram s) name;
       (name_buf, s) \<leftarrow> malloc n s;
       (m, _) \<leftarrow> strcpy (ram s) name_buf name;
       let s = s\<lparr>ram := m\<rparr>;
       (de, s) \<leftarrow> malloc 12 s;
       s \<leftarrow> put32 de name_buf s;
       s \<leftarrow> put32 (de + 4) ino s;
       s \<leftarrow> put32 (de + 8) NULL s;
       nlink \<leftarrow> get16 ino s;
       s \<leftarrow> put16 ino (nlink + 1) s;
       fst_de \<leftarrow> get32 (dir + 40) s;
       if fst_de = NULL then put32 (dir + 40) de s
       else do {
         l \<leftarrow> last_dentry fst_de s;
         put32 (l + 8) de s
       }
     }"

partial_function (option) lookup_loop :: "addr \<Rightarrow> addr \<Rightarrow> 'a paging_scheme \<Rightarrow> addr option" where
  "lookup_loop de name s =
     (if de \<noteq> NULL then do {
        nm \<leftarrow> get32 de s;
        c \<leftarrow> strcmp (ram s) nm name;
        if c = 0 then Some de
        else do {
          nx \<leftarrow> get32 (de + 8) s;
          lookup_loop nx name s
        }
      }
      else Some NULL)"

definition tmpfs_lookup :: "addr \<Rightarrow> addr \<Rightarrow> 'a paging_scheme \<Rightarrow> addr option" where
  "tmpfs_lookup idir name s = do { de \<leftarrow> get32 (idir + 40) s; lookup_loop de name s }"

text \<open>The addresses of the string literals \<open>"."\<close> and \<open>".."\<close> are parameters.\<close>

definition tmpfs_create ::
    "addr \<Rightarrow> addr \<Rightarrow> addr \<Rightarrow> addr \<Rightarrow> u16 \<Rightarrow> 'a heap_scheme \<Rightarrow> (int \<times> 'a heap_scheme) option" where
  "tmpfs_create dot dotdot idir name mode s =
     do {
       old \<leftarrow> tmpfs_lookup idir name s;
       if old \<noteq> NULL then Some (- EEXIST, s)
       else if mode AND IT_TYPE = IT_REG then do {
         (f, s) \<leftarrow> malloc 4140 s;
         fs \<leftarrow> get32 (idir + 36) s;
         s \<leftarrow> init_inode f fs mode s;
         let s = s\<lparr>ram := memset (ram s) (f + 40) 0 TMPFS_BLK_SIZE\<rparr>;
         s \<leftarrow> put32 (f + 4136) NULL s;
         s \<leftarrow> add_to_dir idir name f s;
         Some (0, s)
       }
       else if mode AND IT_TYPE = IT_DIR then do {
         (d, s) \<leftarrow> malloc 44 s;
         fs \<leftarrow> get32 (idir + 36) s;
         s \<leftarrow> init_inode d fs mode s;
         s \<leftarrow> put32 (d + 40) NULL s;
         s \<leftarrow> add_to_dir d dot d s;
         s \<leftarrow> add_to_dir d dotdot idir s;
         s \<leftarrow> add_to_dir idir name d s;
         Some (0, s)
       }
       else if mode AND IT_TYPE = IT_CHR \<or> mode AND IT_TYPE = IT_BLK then do {
         (nod, s) \<leftarrow> malloc 40 s;
         s \<leftarrow> put16 nod 0 s;
         fs \<leftarrow> get32 (idir + 36) s;
         s \<leftarrow> put32 (nod + 36) fs s;
         s \<leftarrow> put16 (nod + 2) mode s;
         s \<leftarrow> put32 (nod + 12) 0 s;
         s \<leftarrow> put32 (nod + 16) 0 s;
         s \<leftarrow> put32 (nod + 20) 0 s;
         s \<leftarrow> add_to_dir idir name nod s;
         Some (0, s)
       }
       else Some (- EPERM, s)
     }"

partial_function (option) readdir_loop ::
    "addr \<Rightarrow> addr \<Rightarrow> u32 \<Rightarrow> u32 \<Rightarrow> 'a paging_scheme \<Rightarrow> (u32 \<times> 'a paging_scheme) option" where
  "readdir_loop de names count n s =
     (if de \<noteq> NULL \<and> \<not> count \<ge> n then do {
        nm \<leftarrow> get32 de s;
        s \<leftarrow> put32 names nm s;
        nx \<leftarrow> get32 (de + 8) s;
        readdir_loop nx (names + 4) (count + 1) n s
      }
      else Some (count, s))"

definition tmpfs_readdir ::
    "addr \<Rightarrow> addr \<Rightarrow> u32 \<Rightarrow> 'a paging_scheme \<Rightarrow> (int \<times> 'a paging_scheme) option" where
  "tmpfs_readdir idir names n s =
     do {
       de \<leftarrow> get32 (idir + 40) s;
       (count, s) \<leftarrow> readdir_loop de names 0 n s;
       Some (to_int count, s)
     }"

section \<open>Mounting\<close>

text \<open>
  The address of \<open>tmpfs_driver\<close> is a parameter; the arguments \<open>file\<close> and \<open>args\<close> are not used. The
  directory's own part starts at 40.
\<close>

definition tmpfs_mount :: "addr \<Rightarrow> u32 \<Rightarrow> 'a heap_scheme \<Rightarrow> (addr \<times> 'a heap_scheme) option" where
  "tmpfs_mount driver flags s =
     do {
       (fs, s) \<leftarrow> malloc 8 s;
       s \<leftarrow> put32 fs driver s;
       (root, s) \<leftarrow> malloc 44 s;
       s \<leftarrow> init_inode root fs (ucast flags AND I_PERMS) s;
       s \<leftarrow> put32 (root + 40) NULL s;
       s \<leftarrow> put32 (fs + 4) root s;
       Some (fs, s)
     }"

definition tmpfs_destroy :: "addr \<Rightarrow> 'a paging_scheme \<Rightarrow> 'a paging_scheme option" where
  "tmpfs_destroy fs s = do { root \<leftarrow> get32 (fs + 4) s; s \<leftarrow> free root s; free fs s }"

section \<open>Files\<close>

partial_function (option) find_blk_loop :: "addr \<Rightarrow> off_t \<Rightarrow> off_t \<Rightarrow> 'a paging_scheme \<Rightarrow> addr option" where
  "find_blk_loop ret lim pos s =
     (if lim \<le> pos then do {
        nx \<leftarrow> get32 (ret + 4096) s;
        if nx = NULL then Some NULL else find_blk_loop nx (lim + TMPFS_BLK_SIZE) pos s
      }
      else Some ret)"

definition find_blk :: "addr \<Rightarrow> off_t \<Rightarrow> 'a paging_scheme \<Rightarrow> addr option" where
  "find_blk file pos s = find_blk_loop (file + 40) TMPFS_BLK_SIZE pos s"

definition first_slice :: "off_t \<Rightarrow> u32 \<Rightarrow> u32" where
  "first_slice pos n = (let k = TMPFS_BLK_SIZE - ucast (pos mod TMPFS_BLK_SIZE) in if n < k then n else k)"

text \<open>The blocks after the first one; \<open>n\<close> is the length of the whole transfer throughout.\<close>

partial_function (option) write_blocks ::
    "addr \<Rightarrow> off_t \<Rightarrow> u32 \<Rightarrow> addr \<Rightarrow> u32 \<Rightarrow> 'a heap_scheme \<Rightarrow> 'a heap_scheme option" where
  "write_blocks blk pos end_pos buf n s =
     (if pos < ucast end_pos then do {
        nx \<leftarrow> get32 (blk + 4096) s;
        s \<leftarrow> (if nx = NULL then do { (b, s) \<leftarrow> malloc 4100 s; put32 (blk + 4096) b s } else Some s);
        blk \<leftarrow> get32 (blk + 4096) s;
        let s = s\<lparr>ram := memcpy (ram s) blk buf (if n < TMPFS_BLK_SIZE then n else TMPFS_BLK_SIZE)\<rparr>;
        write_blocks blk (pos + TMPFS_BLK_SIZE) end_pos (buf + TMPFS_BLK_SIZE) n s
      }
      else Some s)"

definition write_reg ::
    "addr \<Rightarrow> off_t \<Rightarrow> addr \<Rightarrow> u32 \<Rightarrow> 'a heap_scheme \<Rightarrow> (int \<times> 'a heap_scheme) option" where
  "write_reg f pos buf n s =
     (if n = 0 then Some (0, s)
      else do {
        blk \<leftarrow> find_blk f pos s;
        (blk, s) \<leftarrow> (if blk = NULL then do {
            l \<leftarrow> find_blk f (pos - 1) s;
            (b, s) \<leftarrow> malloc 4100 s;
            s \<leftarrow> put32 (l + 4096) b s;
            blk \<leftarrow> get32 (l + 4096) s;
            let s = s\<lparr>ram := memset (ram s) blk 0 TMPFS_BLK_SIZE\<rparr>;
            s \<leftarrow> put32 (blk + 4096) NULL s;
            Some (blk, s)
          }
          else Some (blk, s));
        let end_pos = ucast pos + n;
        let k = first_slice pos n;
        let s = s\<lparr>ram := memcpy (ram s) (blk + ucast (pos mod TMPFS_BLK_SIZE)) buf k\<rparr>;
        s \<leftarrow> write_blocks blk (pos + ucast k) end_pos (buf + k) n s;
        size \<leftarrow> get64 (f + 28) s;
        s \<leftarrow> put64 (f + 28) (if ucast end_pos < size then size else ucast end_pos) s;
        Some (to_int n, s)
      })"

definition tmpfs_write ::
    "(addr \<Rightarrow> 'a heap_scheme char_driver) \<Rightarrow> (addr \<Rightarrow> 'a heap_scheme block_driver)
      \<Rightarrow> addr \<Rightarrow> off_t \<Rightarrow> addr \<Rightarrow> u32 \<Rightarrow> 'a heap_scheme \<Rightarrow> (int \<times> 'a heap_scheme) option" where
  "tmpfs_write cdrv bdrv ifile pos buf n s =
     do {
       t \<leftarrow> inode_type ifile s;
       if t = IT_DIR then Some (- EISDIR, s)
       else if t = IT_CHR then do { dev \<leftarrow> get32 (ifile + 20) s; Some (write_char cdrv dev pos buf n s) }
       else if t = IT_BLK then do { dev \<leftarrow> get32 (ifile + 20) s; write_block bdrv dev (ucast pos) buf s }
       else if t \<noteq> IT_REG then Some (- EPERM, s)
       else write_reg ifile pos buf n s
     }"

partial_function (option) read_blocks ::
    "addr \<Rightarrow> off_t \<Rightarrow> u32 \<Rightarrow> addr \<Rightarrow> u32 \<Rightarrow> 'a paging_scheme \<Rightarrow> 'a paging_scheme option" where
  "read_blocks blk pos end_pos buf n s =
     (if pos < ucast end_pos then do {
        blk \<leftarrow> get32 (blk + 4096) s;
        let s = s\<lparr>ram := memcpy (ram s) buf blk (if n < TMPFS_BLK_SIZE then n else TMPFS_BLK_SIZE)\<rparr>;
        read_blocks blk (pos + TMPFS_BLK_SIZE) end_pos (buf + TMPFS_BLK_SIZE) n s
      }
      else Some s)"

definition read_reg ::
    "addr \<Rightarrow> off_t \<Rightarrow> addr \<Rightarrow> u32 \<Rightarrow> 'a paging_scheme \<Rightarrow> (int \<times> 'a paging_scheme) option" where
  "read_reg f pos buf n s =
     do {
       size \<leftarrow> get64 (f + 28) s;
       let n = (if pos + ucast n \<ge> size then ucast (size - pos) else n);
       if pos \<ge> size \<or> n = 0 then Some (0, s)
       else do {
         blk \<leftarrow> find_blk f pos s;
         if blk = NULL then Some (0, s)
         else do {
           let end_pos = ucast pos + n;
           let k = first_slice pos n;
           let s = s\<lparr>ram := memcpy (ram s) buf (blk + ucast (pos mod TMPFS_BLK_SIZE)) k\<rparr>;
           s \<leftarrow> read_blocks blk (pos + ucast k) end_pos (buf + k) n s;
           Some (to_int n, s)
         }
       }
     }"

definition tmpfs_read ::
    "(addr \<Rightarrow> 'a heap_scheme char_driver) \<Rightarrow> (addr \<Rightarrow> 'a heap_scheme block_driver)
      \<Rightarrow> addr \<Rightarrow> off_t \<Rightarrow> addr \<Rightarrow> u32 \<Rightarrow> 'a heap_scheme \<Rightarrow> (int \<times> 'a heap_scheme) option" where
  "tmpfs_read cdrv bdrv ifile pos buf n s =
     do {
       t \<leftarrow> inode_type ifile s;
       if t = IT_DIR then Some (- EISDIR, s)
       else if t = IT_CHR then do { dev \<leftarrow> get32 (ifile + 20) s; Some (read_char cdrv dev pos buf n s) }
       else if t = IT_BLK then do { dev \<leftarrow> get32 (ifile + 20) s; read_block bdrv dev (ucast pos) buf s }
       else if t \<noteq> IT_REG then Some (- EPERM, s)
       else read_reg ifile pos buf n s
     }"

section \<open>Directories as lists\<close>

text \<open>
  A directory is a list of entries: the address of the entry, the address of its name, the name and the
  inode. \<open>dents m nxt es\<close>: the memory links the entries \<open>es\<close>, the last one to \<open>nxt\<close>.
\<close>

type_synonym dent = "nat \<times> nat \<times> u8 list \<times> addr"

definition list_start :: "dent list \<Rightarrow> addr \<Rightarrow> addr" where
  "list_start es nxt = (case es of [] \<Rightarrow> nxt | (a, _) # _ \<Rightarrow> of_nat a)"

definition dentry :: "mem \<Rightarrow> nat \<Rightarrow> nat \<Rightarrow> addr \<Rightarrow> addr \<Rightarrow> bool" where
  "dentry m a b i nxt \<longleftrightarrow> rd32 m (of_nat a) = of_nat b \<and> rd32 m (of_nat a + 4) = i \<and> rd32 m (of_nat a + 8) = nxt"

fun dents :: "mem \<Rightarrow> addr \<Rightarrow> dent list \<Rightarrow> bool" where
  "dents m nxt [] = True"
| "dents m nxt ((a, b, nm, i) # es) \<longleftrightarrow>
     dentry m a b i (list_start es nxt) \<and> cstr m (of_nat b) nm \<and> dents m nxt es"

text \<open>The regions a list of entries needs, by their start.\<close>

definition starts :: "dent list \<Rightarrow> nat list" where
  "starts es = concat (map (\<lambda>(a, b, _). [a, b]) es)"

definition owned :: "(nat \<times> nat) set \<Rightarrow> dent list \<Rightarrow> bool" where
  "owned L es \<longleftrightarrow> (\<forall>(a, b, nm, i) \<in> set es. (\<exists>n. (a, n) \<in> L \<and> 12 \<le> n) \<and> (\<exists>n. (b, n) \<in> L \<and> length nm < n))"

definition dir_at :: "(nat \<times> nat) set \<Rightarrow> mem \<Rightarrow> nat \<Rightarrow> dent list \<Rightarrow> bool" where
  "dir_at L m d es \<longleftrightarrow> (\<exists>n. (d, n) \<in> L \<and> 44 \<le> n) \<and> owned L es \<and> distinct (d # starts es)
     \<and> rd32 m (of_nat d + 40) = list_start es NULL \<and> dents m NULL es"

lemma list_start_simps [simp]: "list_start [] nxt = nxt" "list_start ((a, b, nm, i) # es) nxt = of_nat a"
  by (simp_all add: list_start_def)

lemma list_start_append [simp]: "list_start (es @ fs) nxt = list_start es (list_start fs nxt)"
  by (cases es) (auto simp: list_start_def)

lemma starts_simps [simp]: "starts [] = []" "starts ((a, b, nm, i) # es) = a # b # starts es"
  "starts (es @ fs) = starts es @ starts fs"
  by (simp_all add: starts_def)

lemma owned_simps [simp]: "owned L []"
  "owned L ((a, b, nm, i) # es) \<longleftrightarrow> (\<exists>n. (a, n) \<in> L \<and> 12 \<le> n) \<and> (\<exists>n. (b, n) \<in> L \<and> length nm < n) \<and> owned L es"
  "owned L (es @ fs) \<longleftrightarrow> owned L es \<and> owned L fs"
  unfolding owned_def by (simp_all add: ball_Un)

lemma owned_mono: "owned L es \<Longrightarrow> L \<subseteq> L' \<Longrightarrow> owned L' es"
  by (induction es) fastforce+

lemma owned_starts: "owned L es \<Longrightarrow> x \<in> set (starts es) \<Longrightarrow> \<exists>n. (x, n) \<in> L"
  by (induction es) auto

lemma dents_append: "dents m nxt (es @ fs) \<longleftrightarrow> dents m (list_start fs nxt) es \<and> dents m nxt fs"
  by (induction es) auto

text \<open>What an entry rests on.\<close>

lemma cstr_agree:
  assumes "agree b (b + Suc (length nm)) m m'"
  shows "cstr m (of_nat b) nm \<Longrightarrow> cstr m' (of_nat b) nm"
proof (erule cstr_cong)
  fix i assume "i \<le> length nm"
  then show "m' (of_nat b + of_nat i) = m (of_nat b + of_nat i)"
    using assms [unfolded agree_def, rule_format, of "b + i"] by simp
qed

lemma dentry_agree:
  assumes "agree a (a + 12) m m'"
  shows "dentry m' a b i nxt = dentry m a b i nxt"
  using read_agree(1) [OF assms, of a] read_agree(1) [OF assms, of "a + 4"] read_agree(1) [OF assms, of "a + 8"]
  by (simp add: dentry_def)

lemma dents_agree:
  assumes "dents m nxt es"
    and "\<And>a b nm i. (a, b, nm, i) \<in> set es \<Longrightarrow> agree a (a + 12) m m' \<and> agree b (b + Suc (length nm)) m m'"
  shows "dents m' nxt es"
  using assms
proof (induction es)
  case (Cons e es)
  obtain a b nm i where e: "e = (a, b, nm, i)" by (cases e)
  have "agree a (a + 12) m m' \<and> agree b (b + Suc (length nm)) m m'" using Cons.prems(2) [of a b nm i] e by simp
  moreover have "dents m' nxt es"
  proof (rule Cons.IH)
    show "dents m nxt es" using Cons.prems(1) e by simp
    show "agree a (a + 12) m m' \<and> agree b (b + Suc (length nm)) m m'" if "(a, b, nm, i) \<in> set es" for a b nm i
      using Cons.prems(2) [of a b nm i] that by simp
  qed
  ultimately show ?case
    using Cons.prems(1) dentry_agree [of a m m' b i] cstr_agree [of b nm m m'] by (simp add: e)
qed simp

text \<open>Entries survive changes that spare their regions.\<close>

lemma dents_keeps:
  assumes "dents m nxt es" "owned L es" "keeps L X m m'"
    and "\<And>a n. a \<in> set (starts es) \<Longrightarrow> (a, n) \<in> L \<Longrightarrow> X \<inter> {a ..< a + n} = {}"
    and "\<And>a n. (a, n) \<in> L \<Longrightarrow> a + n \<le> heap_limit"
  shows "dents m' nxt es"
proof (rule dents_agree [OF assms(1)])
  fix a b nm i assume e: "(a, b, nm, i) \<in> set es"
  then have st: "a \<in> set (starts es)" "b \<in> set (starts es)" by (force simp: starts_def)+
  from e assms(2) obtain n k where n: "(a, n) \<in> L" "12 \<le> n" "(b, k) \<in> L" "length nm < k" by (fastforce simp: owned_def)
  have "X \<inter> {a ..< a + 12} = {}" using assms(4) [OF st(1) n(1)] n(2) by fastforce
  moreover have "X \<inter> {b ..< b + Suc (length nm)} = {}" using assms(4) [OF st(2) n(3)] n(4) by fastforce
  ultimately show "agree a (a + 12) m m' \<and> agree b (b + Suc (length nm)) m m'"
    using keeps_region [OF assms(3) n(1,2)] keeps_region [OF assms(3) n(3), of "Suc (length nm)"] n assms(5) [OF n(1)]
      assms(5) [OF n(3)] by simp
qed

text \<open>Traversing a list.\<close>

lemma last_dentry_spec:
  assumes "dents (ram s) NULL es" "es \<noteq> []" "\<And>a b nm i. (a, b, nm, i) \<in> set es \<Longrightarrow> virt_mapped (of_nat a + 8) s \<and> (of_nat a :: addr) \<noteq> NULL"
  shows "last_dentry (list_start es NULL) s = Some (of_nat (fst (last es)))"
  using assms
proof (induction es)
  case (Cons e es)
  obtain a b nm i where e: "e = (a, b, nm, i)" by (cases e)
  have mp: "virt_mapped (of_nat a + 8) s" using Cons.prems(3) [of a b nm i] e by simp
  have nx: "rd32 (ram s) (of_nat a + 8) = list_start es NULL" using Cons.prems(1) by (simp add: e dentry_def)
  show ?case
  proof (cases es)
    case Nil
    then show ?thesis using mp nx by (subst last_dentry.simps) (simp add: e put_mapped)
  next
    case (Cons f fs)
    obtain a' b' nm' i' where f: "f = (a', b', nm', i')" by (cases f)
    have "list_start es NULL \<noteq> NULL" using Cons.prems(3) [of a' b' nm' i'] f Cons by simp
    moreover have "last_dentry (list_start es NULL) s = Some (of_nat (fst (last es)))"
      by (rule Cons.IH) (use Cons.prems Cons e in auto)
    ultimately show ?thesis using mp nx Cons by (subst last_dentry.simps) (simp add: e put_mapped)
  qed
qed simp

lemma lookup_loop_spec:
  assumes "dents (ram s) NULL es" "cstr (ram s) name nm"
    and "\<And>a b nm i. (a, b, nm, i) \<in> set es \<Longrightarrow> virt_mapped (of_nat a) s \<and> virt_mapped (of_nat a + 8) s \<and> (of_nat a :: addr) \<noteq> NULL"
  shows "lookup_loop (list_start es NULL) name s
    = Some (case find (\<lambda>(a, b, k, i). k = nm) es of None \<Rightarrow> NULL | Some (a, _) \<Rightarrow> of_nat a)"
  using assms
proof (induction es)
  case Nil
  then show ?case by (subst lookup_loop.simps) simp
next
  case (Cons e es)
  obtain a b k i where e: "e = (a, b, k, i)" by (cases e)
  have mp: "virt_mapped (of_nat a) s" "virt_mapped (of_nat a + 8) s" "(of_nat a :: addr) \<noteq> NULL"
    using Cons.prems(3) [of a b k i] e by simp_all
  have fields: "rd32 (ram s) (of_nat a) = of_nat b" "rd32 (ram s) (of_nat a + 8) = list_start es NULL"
    "cstr (ram s) (of_nat b) k" using Cons.prems(1) by (simp_all add: e dentry_def)
  from strcmp_cstr [OF fields(3) Cons.prems(2)] obtain c where c: "strcmp (ram s) (of_nat b) name = Some c" by simp
  then have eq: "c = 0 \<longleftrightarrow> k = nm" using strcmp_zero_iff [OF fields(3) Cons.prems(2)] by simp
  have "lookup_loop (list_start es NULL) name s
      = Some (case find (\<lambda>(a, b, k, i). k = nm) es of None \<Rightarrow> NULL | Some (a, _) \<Rightarrow> of_nat a)"
    by (rule Cons.IH) (use Cons.prems e in auto)
  then show ?case using mp fields c eq by (subst lookup_loop.simps) (simp add: e put_mapped)
qed

section \<open>Adding an entry\<close>

lemma round16_strict: "\<not> 16 dvd n \<Longrightarrow> n < round16 n"
  using round16_bounds(1,2) [of n] by (metis le_neq_implies_less)

text \<open>The copy of the name.\<close>

lemma copy_name:
  assumes hp: "heap_is s bs" and pl: "plenty (round16 (length nm) + 16 + N) bs" "16 \<le> N"
    and nm: "cstr (ram s) name nm" "unat name + length nm < heap_start" "\<not> 16 dvd length nm"
  obtains b n m1 m2 p bs' where "strlen (ram s) name = Some (of_nat (length nm))"
    "malloc (of_nat (length nm)) s = Some (of_nat b, s\<lparr>ram := m1\<rparr>)" "strcpy m1 (of_nat b) name = Some (m2, p)"
    "heap_is (s\<lparr>ram := m2\<rparr>) bs'" "plenty N bs'" "live heap_start bs' = insert (b, n) (live heap_start bs)"
    "length nm < n" "b \<notin> fst ` live heap_start bs" "cstr m2 (of_nat b) nm" "keeps (live heap_start bs) {} (ram s) m2"
proof -
  have ul: "unat (of_nat (length nm) :: u32) = length nm" by (rule unat_of_nat32) (use nm(2) in simp)
  obtain b n m1 bs' where m: "malloc (of_nat (length nm)) s = Some (of_nat b, s\<lparr>ram := m1\<rparr>)" "heap_is (s\<lparr>ram := m1\<rparr>) bs'"
    "live heap_start bs' = insert (b, n) (live heap_start bs)" "round16 (length nm) \<le> n" "plenty N bs'"
    "keeps (live heap_start bs) {} (ram s) m1"
    "\<And>c j. (c, j) \<in> live heap_start bs \<Longrightarrow> c + j + 16 \<le> b \<or> b + n + 16 \<le> c"
    by (rule malloc_plenty [OF hp, of "of_nat (length nm)" N]) (use pl nm(2) ul in simp_all)
  note b = live_in_heap(1,2) [OF m(2), of b n, unfolded m(3), OF insertI1]
  have ln: "length nm < n" using round16_strict [OF nm(3)] m(4) by simp
  have "agree (unat name) (unat name + Suc (length nm)) (ram s) m1"
    by (rule keeps_agree [OF m(6)]) (use nm(2) in \<open>auto simp: covered_def\<close>)
  then have c1: "cstr m1 name nm" using cstr_agree [of "unat name" nm "ram s" m1] nm(1) by simp
  have "disjoint (0 + of_nat (unat name)) (Suc (length nm)) (0 + of_nat b) (Suc (length nm))"
    by (rule disjoint_offsets) (use nm(2) b ln in simp_all)
  then have "disjoint (of_nat b) (Suc (length nm)) name (Suc (length nm))" by (simp add: disjoint_sym)
  note cp = strcpy_cstr [OF c1 this]
  let ?m2 = "write_bytes m1 (of_nat b) (nm @ [0])"
  have w: "keeps UNIV {b ..< b + Suc (length nm)} m1 ?m2"
    using write_bytes_keeps [of b "nm @ [0]"] b ln by simp
  have "heap_is (s\<lparr>ram := m1\<rparr>\<lparr>ram := ?m2\<rparr>) bs'"
    by (rule live_writes [OF m(2), of b n]) (use w m(3) ln in auto)
  moreover have "keeps (live heap_start bs) {} m1 ?m2"
    by (rule fresh_writes [OF w, where a = b and n = n]) (use b ln m(7) in fastforce)+
  then have "keeps (live heap_start bs) {} (ram s) ?m2" using keeps_trans [OF m(6)] by fastforce
  moreover have "cstr ?m2 (of_nat b) nm"
    by (rule cstr_write_bytes) (use cstr_zero_notin [OF nm(1)] nm(2) in simp_all)
  moreover have "b \<notin> fst ` live heap_start bs"
  proof
    assume "b \<in> fst ` live heap_start bs"
    then obtain j where "(b, j) \<in> live heap_start bs" by auto
    from m(7) [OF this] show False by auto
  qed
  ultimately show ?thesis
    using that [OF strlen_cstr [OF nm(1)] m(1) cp _ m(5,3) ln] by simp
qed

text \<open>A new object and the writes that initialise it.\<close>

lemma new_object:
  assumes hp: "heap_is (s\<lparr>ram := m0\<rparr>) bs" and k: "unat k = l" "l + 15 < 4294967296"
    and pl: "plenty (round16 l + 16 + N) bs" "16 \<le> N"
  obtains a n m1 bs' where "malloc k (s\<lparr>ram := m0\<rparr>) = Some (of_nat a, s\<lparr>ram := m1\<rparr>)" "plenty N bs'"
    "live heap_start bs' = insert (a, n) (live heap_start bs)" "l \<le> n" "a \<notin> fst ` live heap_start bs"
    "a + n \<le> heap_limit" "\<And>j. j < n \<Longrightarrow> virt_mapped (of_nat a + of_nat j) s"
    "\<And>m2. keeps UNIV {a ..< a + l} m1 m2 \<Longrightarrow>
      heap_is (s\<lparr>ram := m2\<rparr>) bs' \<and> keeps (live heap_start bs) {} m0 m2"
proof -
  obtain a n m1 bs' where m: "malloc k (s\<lparr>ram := m0\<rparr>) = Some (of_nat a, s\<lparr>ram := m1\<rparr>)" "heap_is (s\<lparr>ram := m1\<rparr>) bs'"
    "live heap_start bs' = insert (a, n) (live heap_start bs)" "round16 l \<le> n" "plenty N bs'"
    "keeps (live heap_start bs) {} m0 m1"
    "\<And>c j. (c, j) \<in> live heap_start bs \<Longrightarrow> c + j + 16 \<le> a \<or> a + n + 16 \<le> c"
    by (rule malloc_plenty [OF hp, of k N, unfolded k(1), OF k(2) pl, simplified]) (erule that; assumption)
  have r: "(a, n) \<in> live heap_start bs'" by (simp add: m(3))
  note a = live_in_heap(1,2) [OF m(2) r]
  have n: "l \<le> n" using m(4) round16_bounds(1) [of l] by linarith
  have "a \<notin> fst ` live heap_start bs"
  proof
    assume "a \<in> fst ` live heap_start bs"
    then obtain j where "(a, j) \<in> live heap_start bs" by auto
    from m(7) [OF this] show False by auto
  qed
  moreover have "virt_mapped (of_nat a + of_nat j) s" if "j < n" for j using region_mapped [OF m(2) r that] by simp
  moreover have "heap_is (s\<lparr>ram := m2\<rparr>) bs' \<and> keeps (live heap_start bs) {} m0 m2"
    if w: "keeps UNIV {a ..< a + l} m1 m2" for m2
  proof
    have "heap_is (s\<lparr>ram := m1\<rparr>\<lparr>ram := m2\<rparr>) bs'" by (rule live_writes [OF m(2) r]) (use w n in auto)
    then show "heap_is (s\<lparr>ram := m2\<rparr>) bs'" by simp
    have "keeps (live heap_start bs) {} m1 m2"
      by (rule fresh_writes [OF w, where a = a and n = n]) (use a n m(7) in fastforce)+
    then show "keeps (live heap_start bs) {} m0 m2" using keeps_trans [OF m(6)] by fastforce
  qed
  ultimately show ?thesis using that [OF m(1,5,3) n] a(2) by blast
qed

lemma keeps_field:
  assumes "keeps UNIV X m m'"
  shows "{a ..< a + 4} \<subseteq> X \<Longrightarrow> a + 4 \<le> 4294967296 \<Longrightarrow> keeps UNIV X m (wr32 m' (of_nat a) v)"
    "{a ..< a + 2} \<subseteq> X \<Longrightarrow> a + 2 \<le> 4294967296 \<Longrightarrow> keeps UNIV X m (wr16 m' (of_nat a) w)"
    "{a + numeral k ..< a + numeral k + 4} \<subseteq> X \<Longrightarrow> a + numeral k + 4 \<le> 4294967296 \<Longrightarrow>
      keeps UNIV X m (wr32 m' (of_nat a + numeral k) v)"
    "{a + numeral k ..< a + numeral k + 2} \<subseteq> X \<Longrightarrow> a + numeral k + 2 \<le> 4294967296 \<Longrightarrow>
      keeps UNIV X m (wr16 m' (of_nat a + numeral k) w)"
proof -
  have tr: "keeps UNIV Y m' m'' \<Longrightarrow> Y \<subseteq> X \<Longrightarrow> keeps UNIV X m m''" for m'' Y
    using keeps_trans [OF assms, of UNIV Y m''] by (simp add: Un_absorb2)
  show "{a ..< a + 4} \<subseteq> X \<Longrightarrow> a + 4 \<le> 4294967296 \<Longrightarrow> keeps UNIV X m (wr32 m' (of_nat a) v)"
    by (rule tr [OF wr32_keeps])
  show "{a ..< a + 2} \<subseteq> X \<Longrightarrow> a + 2 \<le> 4294967296 \<Longrightarrow> keeps UNIV X m (wr16 m' (of_nat a) w)"
    by (rule tr [OF wr16_keeps])
  show "{a + numeral k ..< a + numeral k + 4} \<subseteq> X \<Longrightarrow> a + numeral k + 4 \<le> 4294967296 \<Longrightarrow>
      keeps UNIV X m (wr32 m' (of_nat a + numeral k) v)"
    using tr [OF wr32_keeps [of "a + numeral k" UNIV m' v]] by simp
  show "{a + numeral k ..< a + numeral k + 2} \<subseteq> X \<Longrightarrow> a + numeral k + 2 \<le> 4294967296 \<Longrightarrow>
      keeps UNIV X m (wr16 m' (of_nat a + numeral k) w)"
    using tr [OF wr16_keeps [of "a + numeral k" UNIV m' w]] by simp
qed

text \<open>The new entry, not linked yet.\<close>

lemma new_dentry:
  assumes hp: "heap_is (s\<lparr>ram := m0\<rparr>) bs" and pl: "plenty (32 + N) bs" "16 \<le> N"
  obtains a n m1 m2 bs' where "malloc 12 (s\<lparr>ram := m0\<rparr>) = Some (of_nat a, s\<lparr>ram := m1\<rparr>)"
    "do { s \<leftarrow> put32 (of_nat a) (of_nat b) (s\<lparr>ram := m1\<rparr>); s \<leftarrow> put32 (of_nat a + 4) i s; put32 (of_nat a + 8) NULL s }
      = Some (s\<lparr>ram := m2\<rparr>)"
    "heap_is (s\<lparr>ram := m2\<rparr>) bs'" "plenty N bs'" "live heap_start bs' = insert (a, n) (live heap_start bs)"
    "12 \<le> n" "a \<notin> fst ` live heap_start bs" "dentry m2 a b i NULL" "keeps (live heap_start bs) {} m0 m2"
proof -
  obtain a n m1 bs' where m: "malloc 12 (s\<lparr>ram := m0\<rparr>) = Some (of_nat a, s\<lparr>ram := m1\<rparr>)" "plenty N bs'"
    "live heap_start bs' = insert (a, n) (live heap_start bs)" "12 \<le> n" "a \<notin> fst ` live heap_start bs"
    "a + n \<le> heap_limit" "\<And>j. j < n \<Longrightarrow> virt_mapped (of_nat a + of_nat j) s"
    "\<And>m2. keeps UNIV {a ..< a + 12} m1 m2 \<Longrightarrow> heap_is (s\<lparr>ram := m2\<rparr>) bs' \<and> keeps (live heap_start bs) {} m0 m2"
    by (rule new_object [OF hp, of 12 12 N]) (use pl in \<open>simp_all add: round16_def\<close>)
  let ?m2 = "wr32 (wr32 (wr32 m1 (of_nat a) (of_nat b)) (of_nat a + 4) i) (of_nat a + 8) NULL"
  have st: "do { s \<leftarrow> put32 (of_nat a) (of_nat b) (s\<lparr>ram := m1\<rparr>); s \<leftarrow> put32 (of_nat a + 4) i s; put32 (of_nat a + 8) NULL s }
      = Some (s\<lparr>ram := ?m2\<rparr>)" using m(7) [of 0] m(7) [of 4] m(7) [of 8] m(4) by (simp add: put_mapped)
  have "keeps UNIV {a ..< a + 12} m1 ?m2" by (intro keeps_field keeps_refl) (use m(4,6) in auto)
  from m(8) [OF this] show ?thesis using that [OF m(1) st _ m(2-5)] by (simp add: dentry_def)
qed

text \<open>Linking it to the end of the list.\<close>

lemma regions_apart:
  assumes "(a, n) \<in> live p bs" "(b, j) \<in> live p bs" "a \<noteq> b" "x \<le> n" "y \<le> j"
  shows "{a ..< a + x} \<inter> {b ..< b + y} = {}"
  using live_disjoint [OF assms(1,2)] assms(3-5) by fastforce

lemma dents_relink:
  assumes hp: "heap_is s bs" and es: "dents m NULL es" "owned (live heap_start bs) es" "distinct (starts es)" "es \<noteq> []"
  shows "dents (wr32 m (of_nat (fst (last es)) + 8) v) v es"
proof -
  obtain fs a b nm i where fs: "es = fs @ [(a, b, nm, i)]"
    using es(4) by (metis prod_cases4 rev_exhaust)
  let ?m = "wr32 m (of_nat a + 8) v"
  let ?L = "live heap_start bs"
  have own: "owned ?L fs" "\<exists>n. (a, n) \<in> ?L \<and> 12 \<le> n" "\<exists>n. (b, n) \<in> ?L \<and> length nm < n" using es(2) fs by simp_all
  then obtain n k where n: "(a, n) \<in> ?L" "12 \<le> n" "(b, k) \<in> ?L" "length nm < k" by blast
  note lim = live_in_heap(1,2) [OF hp]
  have w: "keeps ?L {a + 8 ..< a + 8 + 4} m ?m" using wr32_keeps [of "a + 8" ?L m v] lim(2) [OF n(1)] n(2) by simp
  have ne: "a \<notin> set (starts fs)" "a \<noteq> b" using es(3) fs by auto
  have "dents m (of_nat a) fs" "dentry m a b i NULL" "cstr m (of_nat b) nm" using es(1) fs by (simp_all add: dents_append)
  then have "dents ?m (of_nat a) fs" "dentry ?m a b i v" "cstr ?m (of_nat b) nm"
  proof -
    assume d: "dents m (of_nat a) fs" "dentry m a b i NULL" "cstr m (of_nat b) nm"
    show "dents ?m (of_nat a) fs"
    proof (rule dents_keeps [OF d(1) own(1) w])
      fix x j assume "x \<in> set (starts fs)" "(x, j) \<in> ?L"
      then show "{a + 8 ..< a + 8 + 4} \<inter> {x ..< x + j} = {}"
        using regions_apart [OF n(1), of x j 12 j] n(2) ne(1) by fastforce
    qed (rule lim(2))
    show "dentry ?m a b i v" using d(2) by (simp add: dentry_def)
    have "agree b (b + Suc (length nm)) m ?m"
      by (rule keeps_region [OF w n(3)]) (use regions_apart [OF n(1,3), of 12 "Suc (length nm)"] n lim(2) [OF n(3)] ne(2) in auto)
    then show "cstr ?m (of_nat b) nm" using d(3) by (rule cstr_agree)
  qed
  then show ?thesis using fs by (simp add: dents_append)
qed

lemma link_dentry:
  assumes hp: "heap_is s bs" and dir: "dir_at (live heap_start bs) (ram s) d es"
    and i: "(i, ni) \<in> live heap_start bs" "40 \<le> ni" "i \<notin> set (starts es)"
    and l: "l = (if es = [] then d + 40 else fst (last es) + 8)"
  obtains m where "do {
       nlink \<leftarrow> get16 (of_nat i) s;
       s \<leftarrow> put16 (of_nat i) (nlink + 1) s;
       fst_de \<leftarrow> get32 (of_nat d + 40) s;
       if fst_de = NULL then put32 (of_nat d + 40) v s
       else do { l \<leftarrow> last_dentry fst_de s; put32 (l + 8) v s }
     } = Some (s\<lparr>ram := m\<rparr>)"
    "heap_is (s\<lparr>ram := m\<rparr>) bs" "keeps UNIV ({i ..< i + 2} \<union> {l ..< l + 4}) (ram s) m"
    "rd16 m (of_nat i) = rd16 (ram s) (of_nat i) + 1" "rd32 m (of_nat d + 40) = list_start es v" "dents m v es"
proof -
  let ?L = "live heap_start bs"
  note lim = live_in_heap(1,2) [OF hp]
  obtain nd where d: "(d, nd) \<in> ?L" "44 \<le> nd" using dir by (auto simp: dir_at_def)
  have es: "owned ?L es" "distinct (d # starts es)" "rd32 (ram s) (of_nat d + 40) = list_start es NULL" "dents (ram s) NULL es"
    using dir by (simp_all add: dir_at_def)
  let ?m = "wr16 (ram s) (of_nat i) (rd16 (ram s) (of_nat i) + 1)"
  have w: "keeps L {i ..< i + 2} (ram s) ?m" for L using wr16_keeps [of i] lim(2) [OF i(1)] i(2) by simp
  have hp5: "heap_is (s\<lparr>ram := ?m\<rparr>) bs" by (rule live_writes [OF hp i(1) w]) (use i(2) in auto)
  have d5: "dents ?m NULL es"
  proof (rule dents_keeps [OF es(4,1) w])
    fix x j assume "x \<in> set (starts es)" "(x, j) \<in> ?L"
    then show "{i ..< i + 2} \<inter> {x ..< x + j} = {}" using regions_apart [OF i(1), of x j 2 j] i(2,3) by fastforce
  qed (rule lim(2))
  have f5: "rd32 ?m (of_nat d + 40) = list_start es NULL"
  proof (cases "d = i")
    case True
    then show ?thesis using es(3) by simp
  next
    case False
    have "agree d (d + 44) (ram s) ?m"
      by (rule keeps_region [OF w d]) (use regions_apart [OF i(1) d(1), of 2 44] i(2) d(2) False lim(2) [OF d(1)] in auto)
    from read_agree(1) [OF this, of "d + 40"] es(3) show ?thesis by simp
  qed
  have entry: "virt_mapped (of_nat a + 8) s \<and> (of_nat a :: addr) \<noteq> NULL" if e: "(a, b, nm, k) \<in> set es" for a b nm k
  proof -
    from e es(1) obtain n where n: "(a, n) \<in> ?L" "12 \<le> n" by (fastforce simp: owned_def)
    then show ?thesis using region_mapped [OF hp n(1), of 8] lim [OF n(1)] of_nat_neq [of a 0] by simp
  qed
  have start_null: "list_start es NULL = NULL \<longleftrightarrow> es = []"
  proof (cases es)
    case (Cons e fs)
    obtain a b nm k where "e = (a, b, nm, k)" by (cases e)
    then show ?thesis using entry [of a b nm k] Cons by simp
  qed simp
  have mp: "virt_mapped (of_nat i) s" "virt_mapped (of_nat d + 40) s"
    using region_mapped [OF hp i(1), of 0] region_mapped [OF hp d(1), of 40] i(2) d(2) by simp_all
  show ?thesis
  proof (cases "es = []")
    case True
    let ?m' = "wr32 ?m (of_nat d + 40) v"
    have w': "keeps L {d + 40 ..< d + 40 + 4} ?m ?m'" for L
      using wr32_keeps [of "d + 40" L ?m v] lim(2) [OF d(1)] d(2) by simp
    have "heap_is (s\<lparr>ram := ?m\<rparr>\<lparr>ram := ?m'\<rparr>) bs" by (rule live_writes [OF hp5 d(1)]) (use w' d(2) in auto)
    moreover have "keeps UNIV ({i ..< i + 2} \<union> {l ..< l + 4}) (ram s) ?m'"
      using keeps_trans [OF w w', of UNIV UNIV] l True by simp
    moreover have "rd16 ?m' (of_nat i) = rd16 ?m (of_nat i)"
    proof (cases "d = i")
      case False
      have "agree i (i + 2) ?m ?m'"
        by (rule keeps_region [OF w' i(1)]) (use regions_apart [OF d(1) i(1), of 44 2] i(2) d(2) False lim(2) [OF i(1)] in auto)
      from read_agree(2) [OF this, of i] show ?thesis by simp
    qed simp
    ultimately show ?thesis using that [of ?m'] mp f5 True by (simp add: put_mapped)
  next
    case False
    let ?a = "fst (last es)"
    obtain fs b nm k where fs: "es = fs @ [(?a, b, nm, k)]" using False by (metis append_butlast_last_id prod.collapse)
    then have "owned ?L (fs @ [(?a, b, nm, k)])" "distinct (d # starts (fs @ [(?a, b, nm, k)]))"
      "i \<notin> set (starts (fs @ [(?a, b, nm, k)]))" using es(1,2) i(3) by simp_all
    then obtain n where n: "(?a, n) \<in> ?L" "12 \<le> n" "?a \<noteq> d" "?a \<noteq> i" by auto
    let ?m' = "wr32 ?m (of_nat ?a + 8) v"
    have w': "keeps L {?a + 8 ..< ?a + 8 + 4} ?m ?m'" for L
      using wr32_keeps [of "?a + 8" L ?m v] lim(2) [OF n(1)] n(2) by simp
    have "heap_is (s\<lparr>ram := ?m\<rparr>\<lparr>ram := ?m'\<rparr>) bs" by (rule live_writes [OF hp5 n(1)]) (use w' n(2) in auto)
    moreover have "keeps UNIV ({i ..< i + 2} \<union> {l ..< l + 4}) (ram s) ?m'"
      using keeps_trans [OF w w', of UNIV UNIV] l False by simp
    moreover have "rd16 ?m' (of_nat i) = rd16 ?m (of_nat i)" "rd32 ?m' (of_nat d + 40) = rd32 ?m (of_nat d + 40)"
    proof -
      have "agree i (i + 2) ?m ?m'"
        by (rule keeps_region [OF w' i(1)]) (use regions_apart [OF n(1) i(1), of 12 2] i(2) n lim(2) [OF i(1)] in auto)
      from read_agree(2) [OF this, of i] show "rd16 ?m' (of_nat i) = rd16 ?m (of_nat i)" by simp
      have "agree d (d + 44) ?m ?m'"
        by (rule keeps_region [OF w' d]) (use regions_apart [OF n(1) d(1), of 12 44] d(2) n lim(2) [OF d(1)] in auto)
      from read_agree(1) [OF this, of "d + 40"] show "rd32 ?m' (of_nat d + 40) = rd32 ?m (of_nat d + 40)" by simp
    qed
    moreover have "dents ?m' v es" by (rule dents_relink [OF hp d5 es(1) _ False]) (use es(2) in simp)
    moreover have "last_dentry (list_start es NULL) (s\<lparr>ram := ?m\<rparr>) = Some (of_nat ?a)"
      by (rule last_dentry_spec) (use d5 False entry in auto)
    moreover have "list_start es v = list_start es NULL" using False by (cases es) (auto simp: list_start_def)
    moreover have "virt_mapped (of_nat ?a + 8) s" using region_mapped [OF hp n(1), of 8] n(2) by simp
    ultimately show ?thesis using that [of ?m'] mp f5 False start_null by (simp add: put_mapped)
  qed
qed

lemmas link_dentry_ram = link_dentry [of "s\<lparr>ram := m\<rparr>" for s m, simplified]

text \<open>
  \<open>add_to_dir\<close> appends the entry and increments the link count; what it changes of existing regions is
  the link count and the link at the end of the list.
\<close>

definition link_at :: "nat \<Rightarrow> dent list \<Rightarrow> nat" where
  "link_at d es = (if es = [] then d + 40 else fst (last es) + 8)"

lemma dir_at_keeps:
  assumes hp: "heap_is s bs" and dir: "dir_at (live heap_start bs) m d es" and k: "keeps (live heap_start bs) {} m m'"
    and sub: "live heap_start bs \<subseteq> L'"
  shows "dir_at L' m' d es"
proof -
  let ?L = "live heap_start bs"
  obtain nd where d: "(d, nd) \<in> ?L" "44 \<le> nd" using dir by (auto simp: dir_at_def)
  have es: "owned ?L es" "distinct (d # starts es)" "rd32 m (of_nat d + 40) = list_start es NULL" "dents m NULL es"
    using dir by (simp_all add: dir_at_def)
  have "dents m' NULL es" by (rule dents_keeps [OF es(4,1) k _ live_in_heap(2) [OF hp]]) simp
  moreover have "agree d (d + 44) m m'" by (rule keeps_region [OF k d]) (use live_in_heap(2) [OF hp d(1)] d(2) in simp_all)
  from read_agree(1) [OF this, of "d + 40"] have "rd32 m' (of_nat d + 40) = list_start es NULL" using es(3) by simp
  ultimately show ?thesis using d es owned_mono [OF es(1) sub] sub unfolding dir_at_def by blast
qed

lemma writes_apart:
  assumes dir: "dir_at (live heap_start bs) m d es"
    and i: "(i, ni) \<in> live heap_start bs" "40 \<le> ni" "i \<notin> set (starts es)"
    and sub: "live heap_start bs \<subseteq> live heap_start bs'"
    and x: "(x, j) \<in> live heap_start bs'" "x \<notin> fst ` live heap_start bs" "y \<le> j"
  shows "({i ..< i + 2} \<union> {link_at d es ..< link_at d es + 4}) \<inter> {x ..< x + y} = {}"
proof -
  let ?L = "live heap_start bs"
  have ap: "{r ..< r + k} \<inter> {x ..< x + y} = {}" if "(r, n) \<in> ?L" "k \<le> n" for r n k
    by (rule regions_apart [of _ _ _ bs']) (use that sub x in force)+
  have "\<exists>r n. (r, n) \<in> ?L \<and> r \<le> link_at d es \<and> link_at d es + 4 \<le> r + n"
  proof (cases es rule: rev_cases)
    case Nil
    then show ?thesis using dir by (fastforce simp: dir_at_def link_at_def)
  next
    case (snoc fs e)
    then show ?thesis using dir by (cases e) (fastforce simp: dir_at_def link_at_def)
  qed
  then obtain r n where "(r, n) \<in> ?L" "r \<le> link_at d es" "link_at d es + 4 \<le> r + n" by blast
  with ap [of r n n] have "{link_at d es ..< link_at d es + 4} \<inter> {x ..< x + y} = {}" by fastforce
  moreover have "{i ..< i + 2} \<inter> {x ..< x + y} = {}" by (rule ap [OF i(1)]) (use i(2) in simp)
  ultimately show ?thesis by blast
qed

lemma add_to_dir_spec:
  assumes hp: "heap_is s bs" and pl: "plenty (round16 (length nm) + 48 + N) bs" "16 \<le> N"
    and nm: "cstr (ram s) name nm" "unat name + length nm < heap_start" "\<not> 16 dvd length nm"
    and dir: "dir_at (live heap_start bs) (ram s) d es"
    and i: "(i, ni) \<in> live heap_start bs" "40 \<le> ni" "i \<notin> set (starts es)"
  obtains a b m bs' where "add_to_dir (of_nat d) name (of_nat i) s = Some (s\<lparr>ram := m\<rparr>)"
    "heap_is (s\<lparr>ram := m\<rparr>) bs'" "plenty N bs'" "live heap_start bs \<subseteq> live heap_start bs'"
    "dir_at (live heap_start bs') m d (es @ [(a, b, nm, of_nat i)])"
    "a \<notin> fst ` live heap_start bs" "b \<notin> fst ` live heap_start bs"
    "keeps (live heap_start bs) ({i ..< i + 2} \<union> {link_at d es ..< link_at d es + 4}) (ram s) m"
    "rd16 m (of_nat i) = rd16 (ram s) (of_nat i) + 1"
proof -
  let ?L = "live heap_start bs"
  have pl1: "plenty (round16 (length nm) + 16 + (32 + N)) bs" "16 \<le> 32 + N" using pl by (simp_all add: ac_simps)
  obtain b nb m1 m2 p bs1 where A: "strlen (ram s) name = Some (of_nat (length nm))"
    "malloc (of_nat (length nm)) s = Some (of_nat b, s\<lparr>ram := m1\<rparr>)" "strcpy m1 (of_nat b) name = Some (m2, p)"
    "heap_is (s\<lparr>ram := m2\<rparr>) bs1" "plenty (32 + N) bs1" "live heap_start bs1 = insert (b, nb) ?L"
    "length nm < nb" "b \<notin> fst ` ?L" "cstr m2 (of_nat b) nm" "keeps ?L {} (ram s) m2"
    by (rule copy_name [OF hp pl1 nm])
  let ?L1 = "live heap_start bs1"
  obtain a na m3 m4 bs2 where B: "malloc 12 (s\<lparr>ram := m2\<rparr>) = Some (of_nat a, s\<lparr>ram := m3\<rparr>)"
    "do { s \<leftarrow> put32 (of_nat a) (of_nat b) (s\<lparr>ram := m3\<rparr>); s \<leftarrow> put32 (of_nat a + 4) (of_nat i) s; put32 (of_nat a + 8) NULL s }
      = Some (s\<lparr>ram := m4\<rparr>)"
    "heap_is (s\<lparr>ram := m4\<rparr>) bs2" "plenty N bs2" "live heap_start bs2 = insert (a, na) ?L1"
    "12 \<le> na" "a \<notin> fst ` ?L1" "dentry m4 a b (of_nat i) NULL" "keeps ?L1 {} m2 m4"
    by (rule new_dentry [OF A(4,5) pl(2), of b "of_nat i"])
  let ?L2 = "live heap_start bs2"
  have sub: "?L \<subseteq> ?L1" "?L1 \<subseteq> ?L2" "?L \<subseteq> ?L2" using A(6) B(5) by auto
  have k4: "keeps ?L {} (ram s) m4" using keeps_trans [OF A(10) B(9) sub(1)] by simp
  have dir4: "dir_at ?L2 m4 d es" by (rule dir_at_keeps [OF hp dir k4 sub(3)])
  have i2: "(i, ni) \<in> ?L2" using i(1) sub(3) by blast
  obtain m where C: "do {
       nlink \<leftarrow> get16 (of_nat i) (s\<lparr>ram := m4\<rparr>);
       s \<leftarrow> put16 (of_nat i) (nlink + 1) (s\<lparr>ram := m4\<rparr>);
       fst_de \<leftarrow> get32 (of_nat d + 40) s;
       if fst_de = NULL then put32 (of_nat d + 40) (of_nat a) s
       else do { l \<leftarrow> last_dentry fst_de s; put32 (l + 8) (of_nat a) s }
     } = Some (s\<lparr>ram := m\<rparr>)"
    "heap_is (s\<lparr>ram := m\<rparr>) bs2" "keeps UNIV ({i ..< i + 2} \<union> {link_at d es ..< link_at d es + 4}) m4 m"
    "rd16 m (of_nat i) = rd16 m4 (of_nat i) + 1" "rd32 m (of_nat d + 40) = list_start es (of_nat a)" "dents m (of_nat a) es"
    by (rule link_dentry_ram [OF B(3), of d es i ni "link_at d es" "of_nat a"])
       (use dir4 i2 i(2,3) in \<open>simp_all add: link_at_def\<close>)
  have kw: "keeps ?L2 ({i ..< i + 2} \<union> {link_at d es ..< link_at d es + 4}) m4 m" by (rule keeps_mono [OF C(3)]) simp_all
  have k: "keeps ?L ({i ..< i + 2} \<union> {link_at d es ..< link_at d es + 4}) (ram s) m"
    using keeps_trans [OF k4 keeps_mono [OF C(3), of ?L]] by simp
  have "agree i (i + 2) (ram s) m4"
    by (rule keeps_region [OF k4 i(1)]) (use i(2) live_in_heap(2) [OF hp i(1)] in simp_all)
  then have n4: "rd16 m4 (of_nat i) = rd16 (ram s) (of_nat i)" using read_agree(2) [of i "i + 2"] by simp
  have ag: "agree x (x + y) m4 m" if x: "(x, j) \<in> ?L2" "x \<notin> fst ` ?L" "y \<le> j" for x y j
  proof (rule keeps_region [OF kw x(1,3)])
    show "({i ..< i + 2} \<union> {link_at d es ..< link_at d es + 4}) \<inter> {x ..< x + y} = {}"
      by (rule writes_apart [OF dir i sub(3) x])
    show "x + y \<le> 4294967296" using live_in_heap(2) [OF B(3) x(1)] x(3) by simp
  qed
  have fresh: "a \<notin> fst ` ?L" "a \<noteq> b" using B(7) A(6) by force+
  have "agree a (a + 12) m4 m" by (rule ag) (use B(5,6) fresh in auto)
  then have da: "dentry m a b (of_nat i) NULL" using B(8) by (simp add: dentry_agree)
  have "agree b (b + Suc (length nm)) m2 m4" "agree b (b + Suc (length nm)) m4 m"
  proof -
    have b: "(b, nb) \<in> ?L1" "(b, nb) \<in> ?L2" using A(6) sub(2) by auto
    show "agree b (b + Suc (length nm)) m2 m4"
      by (rule keeps_region [OF B(9) b(1)]) (use A(7) live_in_heap(2) [OF A(4) b(1)] in simp_all)
    show "agree b (b + Suc (length nm)) m4 m" by (rule ag [OF b(2)]) (use A(7,8) in simp_all)
  qed
  then have "cstr m (of_nat b) nm" using A(9) cstr_agree by blast
  then have dm: "dents m NULL (es @ [(a, b, nm, of_nat i)])" using da C(6) by (simp add: dents_append)
  have es: "\<exists>nd. (d, nd) \<in> ?L \<and> 44 \<le> nd" "owned ?L es" "distinct (d # starts es)" using dir by (simp_all add: dir_at_def)
  have "set (d # starts es) \<subseteq> fst ` ?L" using es(1) owned_starts [OF es(2)] by force
  then have "distinct (d # starts (es @ [(a, b, nm, of_nat i)]))" using es(3) fresh A(8) by auto
  moreover have "owned ?L2 (es @ [(a, b, nm, of_nat i)])"
    using owned_mono [OF es(2) sub(3)] A(6,7) B(5,6) by auto
  moreover have "\<exists>nd. (d, nd) \<in> ?L2 \<and> 44 \<le> nd" using es(1) sub(3) by blast
  ultimately have dir': "dir_at ?L2 m d (es @ [(a, b, nm, of_nat i)])"
    using C(5) dm unfolding dir_at_def by simp
  have "add_to_dir (of_nat d) name (of_nat i) s = Some (s\<lparr>ram := m\<rparr>)"
    using A(1-3) B(1,2) C(1) unfolding add_to_dir_def Let_def
    by (auto simp: Option.bind_eq_Some_conv) (rule exI, auto simp: Option.bind_eq_Some_conv split: if_splits)
  from that [OF this C(2) B(4) sub(3) dir' fresh(1) A(8) k] C(4) n4 show ?thesis by simp
qed

section \<open>Creating\<close>

definition names :: "dent list \<Rightarrow> u8 list set" where
  "names es = (\<lambda>(a, b, nm, i). nm) ` set es"

definition inode_at :: "mem \<Rightarrow> nat \<Rightarrow> u16 \<Rightarrow> u16 \<Rightarrow> addr \<Rightarrow> bool" where
  "inode_at m i nlink mode fs \<longleftrightarrow>
     rd16 m (of_nat i) = nlink \<and> rd16 m (of_nat i + 2) = mode \<and> rd32 m (of_nat i + 36) = fs"

lemma lookup_spec:
  assumes hp: "heap_is s bs" and dir: "dir_at (live heap_start bs) (ram s) d es" and nm: "cstr (ram s) name nm"
  shows "tmpfs_lookup (of_nat d) name s
    = Some (case find (\<lambda>(a, b, k, i). k = nm) es of None \<Rightarrow> NULL | Some (a, _) \<Rightarrow> of_nat a)"
proof -
  let ?L = "live heap_start bs"
  obtain nd where d: "(d, nd) \<in> ?L" "44 \<le> nd" using dir by (auto simp: dir_at_def)
  have es: "owned ?L es" "rd32 (ram s) (of_nat d + 40) = list_start es NULL" "dents (ram s) NULL es"
    using dir by (simp_all add: dir_at_def)
  have "virt_mapped (of_nat d + 40) s" using region_mapped [OF hp d(1), of 40] d(2) by simp
  moreover have "lookup_loop (list_start es NULL) name s
      = Some (case find (\<lambda>(a, b, k, i). k = nm) es of None \<Rightarrow> NULL | Some (a, _) \<Rightarrow> of_nat a)"
  proof (rule lookup_loop_spec [OF es(3) nm])
    fix a b k i assume "(a, b, k, i) \<in> set es"
    with es(1) obtain n where n: "(a, n) \<in> ?L" "12 \<le> n" by (fastforce simp: owned_def)
    then show "virt_mapped (of_nat a) s \<and> virt_mapped (of_nat a + 8) s \<and> (of_nat a :: addr) \<noteq> NULL"
      using region_mapped [OF hp n(1), of 0] region_mapped [OF hp n(1), of 8] live_in_heap(1,2) [OF hp n(1)] of_nat_neq [of a 0]
      by simp
  qed
  ultimately show ?thesis using es(2) by (simp add: tmpfs_lookup_def put_mapped)
qed

lemma find_name_None: "find (\<lambda>(a, b, k, i). k = nm) es = None \<longleftrightarrow> nm \<notin> names es"
  by (force simp: find_None_iff names_def)

lemma covered_in: "(a, n) \<in> L \<Longrightarrow> a \<le> x \<Longrightarrow> x < a + n \<Longrightarrow> covered L x"
  unfolding covered_def by blast

lemma fresh_not_covered:
  assumes hp: "heap_is s bs" and r: "(a, n) \<in> live heap_start bs" "L \<subseteq> live heap_start bs" "a \<notin> fst ` L" and c: "covered L x"
  shows "x \<notin> {a ..< a + n}"
proof
  assume x: "x \<in> {a ..< a + n}"
  then obtain b j where b: "(b, j) \<in> L" "b \<le> x" "x < b + j"
    using c live_in_heap(1,2) [OF hp r(1)] by (auto simp: covered_def)
  then have "a \<noteq> b" using r(3) by force
  then have "{a ..< a + n} \<inter> {b ..< b + j} = {}" using regions_apart [OF r(1), of b j n j] r(2) b(1) by auto
  then show False using x b by auto
qed

text \<open>Entering a new inode, of size \<open>k\<close> and initialised from \<open>m1\<close> to \<open>m2\<close>, into a directory.\<close>

lemma enter_inode:
  assumes hp: "heap_is s bs" and dir: "dir_at (live heap_start bs) (ram s) d es"
    and nm: "cstr (ram s) name nm" "unat name + length nm < heap_start" "\<not> 16 dvd length nm"
    and i: "heap_is (s\<lparr>ram := m2\<rparr>) bs1" "live heap_start bs1 = insert (i, ni) (live heap_start bs)" "40 \<le> ni"
      "i \<notin> fst ` live heap_start bs" "keeps (live heap_start bs) {} (ram s) m2"
    and pl: "plenty (round16 (length nm) + 48 + N) bs1" "16 \<le> N"
  obtains a b m bs' where "add_to_dir (of_nat d) name (of_nat i) (s\<lparr>ram := m2\<rparr>) = Some (s\<lparr>ram := m\<rparr>)"
    "heap_is (s\<lparr>ram := m\<rparr>) bs'" "plenty N bs'" "insert (i, ni) (live heap_start bs) \<subseteq> live heap_start bs'"
    "dir_at (live heap_start bs') m d (es @ [(a, b, nm, of_nat i)])"
    "keeps (live heap_start bs) {link_at d es ..< link_at d es + 4} (ram s) m"
    "rd16 m (of_nat i) = rd16 m2 (of_nat i) + 1" "agree (i + 2) (i + ni) m2 m"
    "a \<notin> fst ` insert (i, ni) (live heap_start bs)" "b \<notin> fst ` insert (i, ni) (live heap_start bs)"
proof -
  let ?L = "live heap_start bs"
  have sub: "?L \<subseteq> live heap_start bs1" "(i, ni) \<in> live heap_start bs1" using i(2) by auto
  have own: "owned ?L es" using dir by (simp add: dir_at_def)
  have ist: "i \<notin> set (starts es)" using owned_starts [OF own] i(4) by force
  have "agree (unat name) (unat name + Suc (length nm)) (ram s) m2"
    by (rule keeps_agree [OF i(5)]) (use nm(2) in \<open>auto simp: covered_def\<close>)
  then have c: "cstr m2 name nm" using cstr_agree [of "unat name" nm "ram s" m2] nm(1) by simp
  have dir2: "dir_at (live heap_start bs1) m2 d es" by (rule dir_at_keeps [OF hp dir i(5) sub(1)])
  obtain a b m bs' where A: "add_to_dir (of_nat d) name (of_nat i) (s\<lparr>ram := m2\<rparr>) = Some (s\<lparr>ram := m\<rparr>)"
    "heap_is (s\<lparr>ram := m\<rparr>) bs'" "plenty N bs'" "live heap_start bs1 \<subseteq> live heap_start bs'"
    "dir_at (live heap_start bs') m d (es @ [(a, b, nm, of_nat i)])"
    "keeps (live heap_start bs1) ({i ..< i + 2} \<union> {link_at d es ..< link_at d es + 4}) m2 m"
    "rd16 m (of_nat i) = rd16 m2 (of_nat i) + 1" "a \<notin> fst ` live heap_start bs1" "b \<notin> fst ` live heap_start bs1"
    by (rule add_to_dir_spec [OF i(1) pl, of name d es i ni]) (use c nm(2,3) dir2 sub(2) i(3) ist in simp_all)
  obtain nd where d: "(d, nd) \<in> ?L" "40 \<le> nd" "d \<notin> set (starts es)" using dir by (fastforce simp: dir_at_def)
  have ap: "{link_at d es ..< link_at d es + 4} \<inter> {i ..< i + ni} = {}"
    using writes_apart [OF dir d sub(1,2) i(4) order_refl] by blast
  have "keeps ?L {link_at d es ..< link_at d es + 4} (ram s) m"
    unfolding keeps_def
  proof (intro allI impI)
    fix x :: nat
    assume x: "x < 4294967296" "covered ?L x \<and> x \<notin> {link_at d es ..< link_at d es + 4}"
    then have "x \<notin> {i ..< i + ni}" using fresh_not_covered [OF i(1) sub(2,1) i(4)] by blast
    then have "m (of_nat x) = m2 (of_nat x)"
      using A(6) x i(3) covered_mono [OF _ sub(1), of x] by (auto simp: keeps_def)
    then show "m (of_nat x) = ram s (of_nat x)" using i(5) x by (simp add: keeps_def)
  qed
  moreover have "agree (i + 2) (i + ni) m2 m"
    by (rule keeps_agree [OF A(6)])
       (use ap covered_in [OF sub(2)] live_in_heap(2) [OF i(1) sub(2)] in auto)
  ultimately show ?thesis using that [OF A(1-3) _ A(5) _ A(7)] A(4,8,9) i(2) by simp
qed


text \<open>The new inode of a device, and of a file with its first block.\<close>

lemma node_writes:
  assumes "\<And>j. j < 40 \<Longrightarrow> virt_mapped (of_nat i + of_nat j) s" "i + 40 \<le> heap_limit"
    and "virt_mapped (of_nat d + 36) s" "rd32 (wr16 m (of_nat i) 0) (of_nat d + 36) = fs"
  obtains m2 where "do {
       s \<leftarrow> put16 (of_nat i) 0 (s\<lparr>ram := m\<rparr>);
       fs \<leftarrow> get32 (of_nat d + 36) s;
       s \<leftarrow> put32 (of_nat i + 36) fs s;
       s \<leftarrow> put16 (of_nat i + 2) mode s;
       s \<leftarrow> put32 (of_nat i + 12) 0 s;
       s \<leftarrow> put32 (of_nat i + 16) 0 s;
       put32 (of_nat i + 20) 0 s } = Some (s\<lparr>ram := m2\<rparr>)"
    "keeps UNIV {i ..< i + 40} m m2" "inode_at m2 i 0 mode fs"
proof -
  let ?m2 = "wr32 (wr32 (wr32 (wr16 (wr32 (wr16 m (of_nat i) 0) (of_nat i + 36) fs) (of_nat i + 2) mode)
    (of_nat i + 12) 0) (of_nat i + 16) 0) (of_nat i + 20) 0"
  note mp = assms(1) [of 0] assms(1) [of 2] assms(1) [of 12] assms(1) [of 16] assms(1) [of 20] assms(1) [of 36]
  have "keeps UNIV {i ..< i + 40} m ?m2" by (intro keeps_field keeps_refl) (use assms(2) in auto)
  moreover have "inode_at ?m2 i 0 mode fs" by (simp add: inode_at_def)
  ultimately show ?thesis using that [of ?m2] mp assms(3,4) by (simp add: put_mapped)
qed

lemma put64_fields:
  "put64 (p + 20) v s = do { s \<leftarrow> put32 (p + 20) (ucast v) s; put32 (p + 24) (ucast (drop_bit 32 v)) s }"
  "put64 (p + 28) v s = do { s \<leftarrow> put32 (p + 28) (ucast v) s; put32 (p + 32) (ucast (drop_bit 32 v)) s }"
  by (simp_all add: put64_def add.commute)

lemma rd64_size: "rd64 m (p + 28) = ucast (rd32 m (p + 28)) OR push_bit 32 (ucast (rd32 m (p + 32)))"
  by (simp add: rd64_def add.commute)

lemma init_inode_writes:
  assumes "\<And>j. j < 40 \<Longrightarrow> virt_mapped (of_nat i + of_nat j) s" "i + 40 \<le> heap_limit"
  obtains m2 where "init_inode (of_nat i) fs mode (s\<lparr>ram := m\<rparr>) = Some (s\<lparr>ram := m2\<rparr>)"
    "keeps UNIV {i ..< i + 40} m m2" "inode_at m2 i 0 mode fs" "rd64 m2 (of_nat i + 28) = 0"
proof -
  let ?m1 = "wr32 (wr32 (wr16 (wr32 (wr16 m (of_nat i) 0) (of_nat i + 36) fs) (of_nat i + 2) mode)
    (of_nat i + 12) 0) (of_nat i + 16) 0"
  let ?m2 = "wr32 (wr32 (wr32 (wr32 ?m1 (of_nat i + 20) 0) (of_nat i + 24) 0) (of_nat i + 28) 0) (of_nat i + 32) 0"
  note mp = assms(1) [of 0] assms(1) [of 2] assms(1) [of 12] assms(1) [of 16] assms(1) [of 20] assms(1) [of 24]
    assms(1) [of 28] assms(1) [of 32] assms(1) [of 36]
  have "keeps UNIV {i ..< i + 40} m ?m2" by (intro keeps_field keeps_refl) (use assms(2) in auto)
  moreover have "inode_at ?m2 i 0 mode fs" "rd64 ?m2 (of_nat i + 28) = 0" by (simp_all add: inode_at_def rd64_size)
  ultimately show ?thesis using that [of ?m2] mp by (simp add: init_inode_def put64_fields put_mapped)
qed

text \<open>
  A file: its blocks in order, the first one in the object of the inode, and its size. The bytes of the
  blocks are its contents.
\<close>

fun chain :: "mem \<Rightarrow> nat list \<Rightarrow> bool" where
  "chain m [] = True"
| "chain m (b # bl) \<longleftrightarrow> rd32 m (of_nat b + 4096) = (case bl of [] \<Rightarrow> NULL | c # _ \<Rightarrow> of_nat c) \<and> chain m bl"

definition contents :: "mem \<Rightarrow> nat list \<Rightarrow> u8 list" where
  "contents m bl = concat (map (\<lambda>b. read_bytes m (of_nat b) 4096) bl)"

definition file_at :: "(nat \<times> nat) set \<Rightarrow> mem \<Rightarrow> nat \<Rightarrow> nat list \<Rightarrow> nat \<Rightarrow> bool" where
  "file_at L m f bl sz \<longleftrightarrow> (\<exists>n. (f, n) \<in> L \<and> 4140 \<le> n)
     \<and> (\<exists>tl. bl = (f + 40) # tl \<and> (\<forall>b \<in> set tl. \<exists>n. (b, n) \<in> L \<and> 4100 \<le> n) \<and> distinct (f # tl))
     \<and> chain m bl \<and> rd64 m (of_nat f + 28) = of_nat sz \<and> sz \<le> 4096 * length bl"

lemma fs_field_kept:
  assumes hp: "heap_is s bs" and d: "(d, nd) \<in> live heap_start bs" "44 \<le> nd" and k: "keeps (live heap_start bs) {} (ram s) m"
  shows "rd32 m (of_nat d + 36) = rd32 (ram s) (of_nat d + 36)"
proof -
  have "agree d (d + 44) (ram s) m" by (rule keeps_region [OF k d]) (use live_in_heap(2) [OF hp d(1)] d(2) in simp_all)
  from read_agree(1) [OF this, of "d + 36"] show ?thesis by simp
qed

lemma inode_at_agree:
  assumes "agree (i + 2) (i + n) m m'" "40 \<le> n" "inode_at m i 0 mode fs" "rd16 m' (of_nat i) = rd16 m (of_nat i) + 1"
  shows "inode_at m' i 1 mode fs"
  using read_agree(2) [OF assms(1), of "i + 2"] read_agree(1) [OF assms(1), of "i + 36"] assms(2-4)
  by (simp add: inode_at_def add.commute)

lemma create_node:
  assumes hp: "heap_is s bs" and dir: "dir_at (live heap_start bs) (ram s) d es"
    and nm: "cstr (ram s) name nm" "unat name + length nm < heap_start" "\<not> 16 dvd length nm"
    and new: "nm \<notin> names es" and ty: "mode AND IT_TYPE = IT_CHR \<or> mode AND IT_TYPE = IT_BLK"
    and pl: "plenty (round16 (length nm) + 112 + N) bs" "16 \<le> N"
  shows "\<exists>a b i m bs'. tmpfs_create dot dotdot (of_nat d) name mode s = Some (0, s\<lparr>ram := m\<rparr>)
    \<and> heap_is (s\<lparr>ram := m\<rparr>) bs' \<and> live heap_start bs \<subseteq> live heap_start bs' \<and> i \<notin> fst ` live heap_start bs
    \<and> dir_at (live heap_start bs') m d (es @ [(a, b, nm, of_nat i)]) \<and> inode_at m i 1 mode (rd32 (ram s) (of_nat d + 36))
    \<and> keeps (live heap_start bs) {link_at d es ..< link_at d es + 4} (ram s) m
    \<and> plenty N bs' \<and> (\<exists>n. (i, n) \<in> live heap_start bs' \<and> 40 \<le> n)
    \<and> a \<notin> insert i (fst ` live heap_start bs) \<and> b \<notin> insert i (fst ` live heap_start bs)"
proof -
  let ?L = "live heap_start bs"
  obtain nd where d: "(d, nd) \<in> ?L" "44 \<le> nd" using dir by (auto simp: dir_at_def)
  have md: "virt_mapped (of_nat d + 36) s" using region_mapped [OF hp d(1), of 36] d(2) by simp
  have hp0: "heap_is (s\<lparr>ram := ram s\<rparr>) bs" using hp by simp
  have pl0: "plenty (round16 40 + 16 + (round16 (length nm) + 48 + N)) bs"
    by (rule plenty_mono [OF pl(1)]) (simp add: round16_def)
  have side: "unat (40 :: u32) = 40" "(40::nat) + 15 < 4294967296" "16 \<le> round16 (length nm) + 48 + N" by simp_all
  obtain i ni m1 bs1 where o: "malloc 40 (s\<lparr>ram := ram s\<rparr>) = Some (of_nat i, s\<lparr>ram := m1\<rparr>)"
    "plenty (round16 (length nm) + 48 + N) bs1"
    "live heap_start bs1 = insert (i, ni) ?L" "40 \<le> ni" "i \<notin> fst ` ?L" "i + ni \<le> heap_limit"
    "\<And>j. j < ni \<Longrightarrow> virt_mapped (of_nat i + of_nat j) s"
    "\<And>m2. keeps UNIV {i ..< i + 40} m1 m2 \<Longrightarrow> heap_is (s\<lparr>ram := m2\<rparr>) bs1 \<and> keeps ?L {} (ram s) m2"
    by (rule new_object [OF hp0 side(1,2) pl0 side(3)]) (rule that)
  have "keeps UNIV {i ..< i + 40} m1 (wr16 m1 (of_nat i) 0)" by (intro keeps_field keeps_refl) (use o(4,6) in auto)
  then have fs: "rd32 (wr16 m1 (of_nat i) 0) (of_nat d + 36) = rd32 (ram s) (of_nat d + 36)"
    using fs_field_kept [OF hp d conjunct2 [OF o(8)]] by simp
  obtain m2 where w: "do {
       s \<leftarrow> put16 (of_nat i) 0 (s\<lparr>ram := m1\<rparr>);
       fs \<leftarrow> get32 (of_nat d + 36) s;
       s \<leftarrow> put32 (of_nat i + 36) fs s;
       s \<leftarrow> put16 (of_nat i + 2) mode s;
       s \<leftarrow> put32 (of_nat i + 12) 0 s;
       s \<leftarrow> put32 (of_nat i + 16) 0 s;
       put32 (of_nat i + 20) 0 s } = Some (s\<lparr>ram := m2\<rparr>)"
    "keeps UNIV {i ..< i + 40} m1 m2" "inode_at m2 i 0 mode (rd32 (ram s) (of_nat d + 36))"
    by (rule node_writes [OF _ _ md fs, of mode]) (use o(4,6,7) in simp_all)
  have hp2: "heap_is (s\<lparr>ram := m2\<rparr>) bs1" "keeps ?L {} (ram s) m2" using o(8) [OF w(2)] by simp_all
  obtain a b m bs' where e: "add_to_dir (of_nat d) name (of_nat i) (s\<lparr>ram := m2\<rparr>) = Some (s\<lparr>ram := m\<rparr>)"
    "heap_is (s\<lparr>ram := m\<rparr>) bs'" "plenty N bs'" "insert (i, ni) ?L \<subseteq> live heap_start bs'"
    "dir_at (live heap_start bs') m d (es @ [(a, b, nm, of_nat i)])"
    "keeps ?L {link_at d es ..< link_at d es + 4} (ram s) m"
    "rd16 m (of_nat i) = rd16 m2 (of_nat i) + 1" "agree (i + 2) (i + ni) m2 m"
    "a \<notin> fst ` insert (i, ni) ?L" "b \<notin> fst ` insert (i, ni) ?L"
    by (rule enter_inode [OF hp dir nm hp2(1) o(3,4,5) hp2(2) o(2) pl(2)])
  have "tmpfs_lookup (of_nat d) name s = Some NULL"
    using lookup_spec [OF hp dir nm(1)] find_name_None [of nm es] new by simp
  then have "tmpfs_create dot dotdot (of_nat d) name mode s = Some (0, s\<lparr>ram := m\<rparr>)"
    using o(1) w(1) e(1) ty unfolding tmpfs_create_def by (auto simp: Option.bind_eq_Some_conv)
  moreover have "(i, ni) \<in> live heap_start bs'" "?L \<subseteq> live heap_start bs'" using e(4) by auto
  moreover have "a \<notin> insert i (fst ` ?L)" "b \<notin> insert i (fst ` ?L)" using e(9,10) by auto
  moreover note inode_at_agree [OF e(8) o(4) w(3) e(7)]
  ultimately show ?thesis
    by (rule_tac exI [of _ a], rule_tac exI [of _ b], rule_tac exI [of _ i], rule_tac exI [of _ m], rule_tac exI [of _ bs'])
       (intro conjI exI [of _ ni] e(2,3,5,6) o(4,5))
qed

lemma read_bytes_agree: "agree a (a + n) m m' \<Longrightarrow> read_bytes m' (of_nat a) n = read_bytes m (of_nat a) n"
  by (rule nth_equalityI) (auto simp: agree_def simp flip: of_nat_add)

text \<open>The first block of a new file.\<close>

lemma memset_zeros: "read_bytes (memset m (of_nat a) 0 TMPFS_BLK_SIZE) (of_nat a) 4096 = replicate 4096 0"
proof (rule nth_equalityI)
  fix i assume "i < length (read_bytes (memset m (of_nat a) 0 TMPFS_BLK_SIZE) (of_nat a) 4096)"
  then have i: "i < 4096" by simp
  have "in_region (of_nat a) 4096 (of_nat a + of_nat i)" by (rule in_region_offset) (use i in simp_all)
  then show "read_bytes (memset m (of_nat a) 0 TMPFS_BLK_SIZE) (of_nat a) 4096 ! i = replicate 4096 0 ! i"
    using i by (simp add: memset_apply)
qed simp

lemma first_block:
  assumes m: "keeps UNIV {f ..< f + 40} m1 m2" "rd64 m2 (of_nat f + 28) = 0" and f: "f + 4140 \<le> heap_limit"
    and m3: "m3 = wr32 (memset m2 (of_nat f + 40) 0 TMPFS_BLK_SIZE) (of_nat f + 4136) NULL"
  shows "keeps UNIV {f ..< f + 4140} m1 m3" "rd64 m3 (of_nat f + 28) = 0" "chain m3 [f + 40]"
    "contents m3 [f + 40] = replicate 4096 0" "agree f (f + 40) m2 m3"
proof -
  let ?m = "memset m2 (of_nat f + 40) 0 TMPFS_BLK_SIZE"
  have k: "keeps UNIV {f + 40 ..< 4136 + f} m2 ?m" using memset_keeps [of "f + 40" 4096 UNIV m2 0] f by simp
  have k': "keeps UNIV {f + 4136 ..< f + 4136 + 4} ?m m3" using wr32_keeps [of "f + 4136" UNIV ?m 0] f m3 by simp
  note t = keeps_trans [OF k k' subset_refl] keeps_trans [OF m(1) keeps_trans [OF k k' subset_refl] subset_refl]
  then show "keeps UNIV {f ..< f + 4140} m1 m3" by (rule_tac keeps_mono [OF t(2)]) auto
  have u: "covered UNIV x" for x using covered_in [of x 1 UNIV x] by simp
  show ag: "agree f (f + 40) m2 m3" by (rule keeps_agree [OF t(1)]) (use u f in auto)
  from read_agree(1) [OF ag, of "f + 28"] read_agree(1) [OF ag, of "f + 32"] m(2)
  show "rd64 m3 (of_nat f + 28) = 0" by (simp add: rd64_size)
  show "chain m3 [f + 40]" by (simp add: m3 add.commute)
  have "agree (f + 40) (f + 40 + 4096) ?m m3" by (rule keeps_agree [OF k']) (use u f in auto)
  then have "read_bytes m3 (of_nat (f + 40)) 4096 = read_bytes ?m (of_nat (f + 40)) 4096" by (rule read_bytes_agree)
  also have "\<dots> = replicate 4096 0" using memset_zeros [of m2 "f + 40"] by simp
  finally show "contents m3 [f + 40] = replicate 4096 0" by (simp add: contents_def)
qed

lemma create_file:
  assumes hp: "heap_is s bs" and dir: "dir_at (live heap_start bs) (ram s) d es"
    and nm: "cstr (ram s) name nm" "unat name + length nm < heap_start" "\<not> 16 dvd length nm"
    and new: "nm \<notin> names es" and ty: "mode AND IT_TYPE = IT_REG"
    and pl: "plenty (round16 (length nm) + 4224) bs"
  shows "\<exists>a b i m bs'. tmpfs_create dot dotdot (of_nat d) name mode s = Some (0, s\<lparr>ram := m\<rparr>)
    \<and> heap_is (s\<lparr>ram := m\<rparr>) bs' \<and> live heap_start bs \<subseteq> live heap_start bs' \<and> i \<notin> fst ` live heap_start bs
    \<and> dir_at (live heap_start bs') m d (es @ [(a, b, nm, of_nat i)]) \<and> inode_at m i 1 mode (rd32 (ram s) (of_nat d + 36))
    \<and> keeps (live heap_start bs) {link_at d es ..< link_at d es + 4} (ram s) m
    \<and> file_at (live heap_start bs') m i [i + 40] 0 \<and> contents m [i + 40] = replicate 4096 0"
proof -
  let ?L = "live heap_start bs"
  obtain nd where d: "(d, nd) \<in> ?L" "44 \<le> nd" using dir by (auto simp: dir_at_def)
  have md: "virt_mapped (of_nat d + 36) s" using region_mapped [OF hp d(1), of 36] d(2) by simp
  have hp0: "heap_is (s\<lparr>ram := ram s\<rparr>) bs" using hp by simp
  have pl0: "plenty (round16 4140 + 16 + (round16 (length nm) + 48 + 16)) bs"
    using pl by (fastforce simp: plenty_def round16_def)
  have side: "unat (4140 :: u32) = 4140" "(4140::nat) + 15 < 4294967296" "16 \<le> round16 (length nm) + 48 + 16" by simp_all
  obtain i ni m1 bs1 where o: "malloc 4140 (s\<lparr>ram := ram s\<rparr>) = Some (of_nat i, s\<lparr>ram := m1\<rparr>)"
    "plenty (round16 (length nm) + 48 + 16) bs1"
    "live heap_start bs1 = insert (i, ni) ?L" "4140 \<le> ni" "i \<notin> fst ` ?L" "i + ni \<le> heap_limit"
    "\<And>j. j < ni \<Longrightarrow> virt_mapped (of_nat i + of_nat j) s"
    "\<And>m2. keeps UNIV {i ..< i + 4140} m1 m2 \<Longrightarrow> heap_is (s\<lparr>ram := m2\<rparr>) bs1 \<and> keeps ?L {} (ram s) m2"
    by (rule new_object [OF hp0 side(1,2) pl0 side(3)]) (rule that)
  have ni: "40 \<le> ni" using o(4) by simp
  have fs: "rd32 m1 (of_nat d + 36) = rd32 (ram s) (of_nat d + 36)"
    using fs_field_kept [OF hp d conjunct2 [OF o(8)]] by simp
  obtain m2 where w: "init_inode (of_nat i) (rd32 m1 (of_nat d + 36)) mode (s\<lparr>ram := m1\<rparr>) = Some (s\<lparr>ram := m2\<rparr>)"
    "keeps UNIV {i ..< i + 40} m1 m2" "inode_at m2 i 0 mode (rd32 m1 (of_nat d + 36))" "rd64 m2 (of_nat i + 28) = 0"
    by (rule init_inode_writes [where i = i and s = s and mode = mode and m = m1]) (use o(4,6,7) in simp_all)
  define m3 where "m3 = wr32 (memset m2 (of_nat i + 40) 0 TMPFS_BLK_SIZE) (of_nat i + 4136) NULL"
  have lim: "i + 4140 \<le> heap_limit" using o(4,6) by simp
  note fb = first_block [OF w(2,4) lim m3_def]
  have hp3: "heap_is (s\<lparr>ram := m3\<rparr>) bs1" "keeps ?L {} (ram s) m3" using o(8) [OF fb(1)] by simp_all
  obtain a b m bs' where e: "add_to_dir (of_nat d) name (of_nat i) (s\<lparr>ram := m3\<rparr>) = Some (s\<lparr>ram := m\<rparr>)"
    "heap_is (s\<lparr>ram := m\<rparr>) bs'" "plenty 16 bs'" "insert (i, ni) ?L \<subseteq> live heap_start bs'"
    "dir_at (live heap_start bs') m d (es @ [(a, b, nm, of_nat i)])"
    "keeps ?L {link_at d es ..< link_at d es + 4} (ram s) m"
    "rd16 m (of_nat i) = rd16 m3 (of_nat i) + 1" "agree (i + 2) (i + ni) m3 m"
    by (rule enter_inode [OF hp dir nm hp3(1) o(3) ni o(5) hp3(2) o(2)]) simp
  have "inode_at m3 i 0 mode (rd32 (ram s) (of_nat d + 36))"
    using w(3) fs read_agree(1,2) [OF fb(5), of i] read_agree(2) [OF fb(5), of "i + 2"] read_agree(1) [OF fb(5), of "i + 36"]
    by (simp add: inode_at_def add.commute)
  note ino = inode_at_agree [OF e(8) ni this e(7)]
  have "rd64 m (of_nat i + 28) = 0"
    using fb(2) read_agree(1) [OF e(8), of "i + 28"] read_agree(1) [OF e(8), of "i + 32"] o(4) by (simp add: rd64_size)
  moreover have "chain m [i + 40]" using fb(3) read_agree(1) [OF e(8), of "i + 4136"] o(4) by (simp add: add.commute)
  moreover have "agree (i + 40) (i + 40 + 4096) m3 m" by (rule agree_mono [OF e(8)]) (use o(4) in simp_all)
  then have "contents m [i + 40] = replicate 4096 0" using fb(4) read_bytes_agree [of "i + 40" 4096 m3 m] by (simp add: contents_def)
  moreover have "(i, ni) \<in> live heap_start bs'" using e(4) by simp
  ultimately have f: "file_at (live heap_start bs') m i [i + 40] 0" "contents m [i + 40] = replicate 4096 0"
    using o(4) by (auto simp: file_at_def)
  have "virt_mapped (of_nat i + 4136) s" using o(7) [of 4136] o(4) by simp
  moreover have "tmpfs_lookup (of_nat d) name s = Some NULL"
    using lookup_spec [OF hp dir nm(1)] find_name_None [of nm es] new by simp
  ultimately have "tmpfs_create dot dotdot (of_nat d) name mode s = Some (0, s\<lparr>ram := m\<rparr>)"
    using o(1) w(1) e(1) ty md unfolding tmpfs_create_def Let_def
    by (simp add: put_mapped m3_def)
  then show ?thesis using e o(5) ino f by blast
qed

section \<open>Properties of directories\<close>

text \<open>
  C11. \<open>tmpfs_lookup\<close> returns, for every directory and every name, the first entry of that name, and \<open>NULL\<close>
  when there is none.
\<close>

theorem tmpfs_lookup_correct:
  assumes "heap_is s bs" "dir_at (live heap_start bs) (ram s) d es" "cstr (ram s) name nm"
  shows "tmpfs_lookup (of_nat d) name s
    = Some (case find (\<lambda>(a, b, k, i). k = nm) es of None \<Rightarrow> NULL | Some (a, _) \<Rightarrow> of_nat a)"
  by (rule lookup_spec [OF assms])

lemma names_Cons: "names ((a, b, nm, i) # es) = insert nm (names es)"
  by (simp add: names_def)

lemma first_entry: "nm \<in> names es \<Longrightarrow> \<exists>a b i. find (\<lambda>(a, b, k, i). k = nm) es = Some (a, b, nm, i) \<and> (a, b, nm, i) \<in> set es"
proof (induction es)
  case (Cons e es)
  then show ?case by (cases e) (auto simp: names_Cons)
qed (simp add: names_def)

lemma entry_not_null:
  assumes "heap_is s bs" "owned (live heap_start bs) es" "(a, b, nm, i) \<in> set es"
  shows "(of_nat a :: addr) \<noteq> NULL"
proof -
  from assms(2,3) obtain n where "(a, n) \<in> live heap_start bs" by (fastforce simp: owned_def)
  then show ?thesis using live_in_heap(1,2) [OF assms(1)] of_nat_neq [of a 0] by fastforce
qed


text \<open>A directory with the entry \<open>a\<close>, on a heap of four pages.\<close>

definition four_pages :: "mem \<Rightarrow> heap" where
  "four_pages m = heap_init\<lparr>ram := m, ptes := (ptes heap_init)(0xd0000 := 0x100003, 0xd0001 := 0x101003,
     0xd0002 := 0x102003, 0xd0003 := 0x103003), first_hdr := 0xd0000000\<rparr>"

lemma four_pages_simps [simp]: "ram (four_pages m) = m" "first_hdr (four_pages m) = 0xd0000000"
  "ptes (four_pages m) = (ptes heap_init)(0xd0000 := 0x100003, 0xd0001 := 0x101003,
     0xd0002 := 0x102003, 0xd0003 := 0x103003)" "(four_pages m)\<lparr>ram := m'\<rparr> = four_pages m'"
  by (simp_all add: four_pages_def)

lemma four_pages_mapped: "heap_start \<le> i \<Longrightarrow> i < 3489677312 \<Longrightarrow> virt_mapped (of_nat i) (four_pages m)"
proof -
  assume i: "heap_start \<le> i" "i < 3489677312"
  have "unat (of_nat i :: addr) = i" by (rule unat_of_nat32) (use i in simp)
  moreover have "i div 4096 \<in> {851968, 851969, 851970, 851971}" using i by auto
  ultimately show ?thesis by (auto simp: virt_mapped_def table_present_def page_present_def)
qed

lemma four_pages_is:
  assumes "bs \<noteq> []" "extent bs \<le> 16384" "\<forall>(u, n) \<in> set bs. 16 dvd n" "blocks m True 0 heap_start bs"
  shows "heap_is (four_pages m) bs"
  using assms four_pages_mapped [of _ m] by (auto simp: heap_is_def heap_mapped_def)

definition dir_mem :: mem where
  "dir_mem = wr32 (wr32 (wr32 ((write_hdr 0xd0000000 1 48 NULL (write_hdr 0xd0000040 1 16 0xd0000000
     (write_hdr 0xd0000060 1 16 0xd0000040 (write_hdr 0xd0000080 2 16240 0xd0000060 (\<lambda>_. 0)))))
     (0xd0000070 := 97, 0x1000 := 97, 0x2000 := 98))
     0xd0000038 0xd0000050) 0xd0000050 0xd0000070) 0xd0000054 0x7777"

lemma dir_mem_heap: "heap_is (four_pages dir_mem) [(True, 48), (True, 16), (True, 16), (False, 16240)]"
  by (rule four_pages_is) (auto simp: block_at_def dir_mem_def write_hdr_def wr32_def rd32_def)

lemma dir_mem_dir:
  "dir_at (live heap_start [(True, 48), (True, 16), (True, 16), (False, 16240)]) dir_mem 0xd0000010
    [(0xd0000050, 0xd0000070, [97], 0x7777)]"
  by (auto simp: dir_at_def dentry_def dir_mem_def write_hdr_def wr32_def rd32_def)

lemma dir_mem_names: "cstr dir_mem 0x1000 [97]" "cstr dir_mem 0x2000 [98]"
  by (simp_all add: dir_mem_def write_hdr_def wr32_def)

theorem tmpfs_lookup_correct_witness:
  "tmpfs_lookup 0xd0000010 0x1000 (four_pages dir_mem) = Some 0xd0000050
    \<and> tmpfs_lookup 0xd0000010 0x2000 (four_pages dir_mem) = Some NULL"
  using tmpfs_lookup_correct [OF dir_mem_heap, where d = "0xd0000010" and name = "0x1000", simplified, OF dir_mem_dir [simplified] dir_mem_names(1)]
    tmpfs_lookup_correct [OF dir_mem_heap, where d = "0xd0000010" and name = "0x2000", simplified, OF dir_mem_dir [simplified] dir_mem_names(2)]
  by simp


end
