(* ===== verification/Tmpfs_File.thy ===== *)
theory Tmpfs_File
  imports Tmpfs
begin

text \<open>
  Reading and writing files of tmpfs: the bytes that are moved between a buffer and the contents of a
  file, for every position and length within its blocks. A transfer that goes on in a second block moves
  more than it was asked for: the loops copy up to the whole length per block instead of what is left.
\<close>

section \<open>How much is moved\<close>

lemma unat_of_nat64: "n < 18446744073709551616 \<Longrightarrow> unat (of_nat n :: u64) = n"
  by (simp add: unat_of_nat)

text \<open>The bytes moved after the first block, \<open>r\<close> being left of \<open>n\<close>; the bytes moved in all.\<close>

definition tail_bytes :: "nat \<Rightarrow> nat \<Rightarrow> nat" where
  "tail_bytes n r = (if r = 0 then 0 else (r - 1) div 4096 * 4096 + min n 4096)"

definition moved :: "nat \<Rightarrow> nat \<Rightarrow> nat" where
  "moved pos n = (let k = min n (4096 - pos mod 4096) in k + tail_bytes n (n - k))"

lemma tail_bytes_simps:
  "tail_bytes n 0 = 0" "0 < r \<Longrightarrow> r \<le> 4096 \<Longrightarrow> tail_bytes n r = min n 4096"
  "4096 < r \<Longrightarrow> tail_bytes n r = 4096 + tail_bytes n (r - 4096)"
proof -
  show "4096 < r \<Longrightarrow> tail_bytes n r = 4096 + tail_bytes n (r - 4096)"
  proof -
    assume r: "4096 < r"
    define q where "q = r - 4096 - 1"
    have "r = q + 1 + 4096" using r by (simp add: q_def)
    then show ?thesis using div_add_self1 [of 4096 q] by (simp add: tail_bytes_def)
  qed
qed (simp_all add: tail_bytes_def)

lemma tail_bytes_ge: "r \<le> n \<Longrightarrow> r \<le> tail_bytes n r"
proof (induction r rule: less_induct)
  case (less r)
  consider "r = 0" | "0 < r" "r \<le> 4096" | "4096 < r" by linarith
  then show ?case
  proof cases
    case 3
    then have "r - 4096 \<le> tail_bytes n (r - 4096)" using less.IH [of "r - 4096"] less.prems by simp
    then show ?thesis using tail_bytes_simps(3) [OF 3, of n] by linarith
  qed (use less.prems in \<open>simp_all add: tail_bytes_simps\<close>)
qed

lemma moved_ge: "n \<le> moved pos n"
  unfolding moved_def Let_def using tail_bytes_ge [of "n - min n (4096 - pos mod 4096)" n] by linarith

lemma moved_one_block: "pos mod 4096 + n \<le> 4096 \<Longrightarrow> moved pos n = n"
  by (simp add: moved_def tail_bytes_simps)

section \<open>Blocks of a file\<close>

text \<open>What the traversals need: the blocks are mapped, lie in the heap and apart from each other.\<close>

definition blocks_ok :: "'a paging_scheme \<Rightarrow> nat list \<Rightarrow> bool" where
  "blocks_ok s bl \<longleftrightarrow> (\<forall>b \<in> set bl. heap_start \<le> b \<and> b + 4100 \<le> heap_limit \<and> virt_mapped (of_nat b + 4096) s)
     \<and> distinct bl \<and> (\<forall>b \<in> set bl. \<forall>c \<in> set bl. b \<noteq> c \<longrightarrow> b + 4100 \<le> c \<or> c + 4100 \<le> b)"

lemma blocks_ok_Cons:
  "blocks_ok s (b # bl) \<Longrightarrow> blocks_ok s bl"
  "blocks_ok s (b # bl) \<Longrightarrow> heap_start \<le> b \<and> b + 4100 \<le> heap_limit \<and> virt_mapped (of_nat b + 4096) s"
  "blocks_ok s (b # bl) \<Longrightarrow> c \<in> set bl \<Longrightarrow> b + 4100 \<le> c \<or> c + 4100 \<le> b"
  by (auto simp: blocks_ok_def)

lemma blocks_ok_ram [simp]: "blocks_ok (s\<lparr>ram := m\<rparr>) bl = blocks_ok s bl"
  by (simp add: blocks_ok_def)

lemma block_not_null: "blocks_ok s bl \<Longrightarrow> b \<in> set bl \<Longrightarrow> (of_nat b :: addr) \<noteq> NULL"
  using of_nat_neq [of b 0] by (fastforce simp: blocks_ok_def)

lemma contents_simps [simp]: "contents m [] = []" "contents m (b # bl) = read_bytes m (of_nat b) 4096 @ contents m bl"
  by (simp_all add: contents_def)

lemma length_contents [simp]: "length (contents m bl) = 4096 * length bl"
  by (induction bl) simp_all

lemma file_blocks:
  assumes hp: "heap_is s bs" and f: "file_at (live heap_start bs) m f bl sz"
  shows "blocks_ok s bl"
proof -
  let ?L = "live heap_start bs"
  from f obtain n tl where n: "(f, n) \<in> ?L" "4140 \<le> n" and bl: "bl = (f + 40) # tl" "\<forall>b \<in> set tl. \<exists>n. (b, n) \<in> ?L \<and> 4100 \<le> n"
    "distinct (f # tl)" by (auto simp: file_at_def)
  have own: "\<exists>a k. (a, k) \<in> ?L \<and> a \<le> b \<and> b + 4100 \<le> a + k \<and> (b = f + 40 \<longrightarrow> a = f) \<and> (b \<in> set tl \<longrightarrow> a = b)"
    if b: "b \<in> set bl" for b
  proof (cases "b \<in> set tl")
    case True
    then obtain k where k: "(b, k) \<in> ?L" "4100 \<le> k" using bl(2) by blast
    have "b \<noteq> f + 40"
    proof
      assume "b = f + 40"
      moreover have "b \<noteq> f" using True bl(3) by auto
      ultimately show False using regions_apart [OF n(1) k(1), of 4140 4100] n(2) k(2) by auto
    qed
    then show ?thesis using k by (intro exI [of _ b] exI [of _ k]) simp
  next
    case False
    then have "b = f + 40" using b bl(1) by simp
    then show ?thesis using n False by (intro exI [of _ f] exI [of _ n]) simp
  qed
  have in_heap: "heap_start \<le> b \<and> b + 4100 \<le> heap_limit \<and> virt_mapped (of_nat b + 4096) s" if b: "b \<in> set bl" for b
  proof -
    from own [OF b] obtain a k where a: "(a, k) \<in> ?L" "a \<le> b" "b + 4100 \<le> a + k" by blast
    have "virt_mapped (of_nat (b + 4096)) s" by (rule live_in_heap(4) [OF hp a(1)]) (use a in simp_all)
    then show ?thesis using live_in_heap(1,2) [OF hp a(1)] a(2,3) by simp
  qed
  moreover have "b + 4100 \<le> c \<or> c + 4100 \<le> b" if bc: "b \<in> set bl" "c \<in> set bl" "b \<noteq> c" for b c
  proof -
    from own [OF bc(1)] obtain a k where a: "(a, k) \<in> ?L" "a \<le> b" "b + 4100 \<le> a + k" "b = f + 40 \<longrightarrow> a = f" "b \<in> set tl \<longrightarrow> a = b"
      by blast
    from own [OF bc(2)] obtain a' k' where a': "(a', k') \<in> ?L" "a' \<le> c" "c + 4100 \<le> a' + k'" "c = f + 40 \<longrightarrow> a' = f" "c \<in> set tl \<longrightarrow> a' = c"
      by blast
    have "a \<noteq> a'" using a(4,5) a'(4,5) bc bl(1,3) by auto
    then show ?thesis using live_disjoint [OF a(1) a'(1)] a(2,3) a'(2,3) by auto
  qed
  moreover have "f + 40 \<notin> set tl"
  proof
    assume "f + 40 \<in> set tl"
    then obtain k where "(f + 40, k) \<in> ?L" "4100 \<le> k" using bl(2) by blast
    then show False using regions_apart [OF n(1), of "f + 40" k 4140 4100] n(2) by auto
  qed
  ultimately show ?thesis unfolding blocks_ok_def using bl(1,3) by auto
qed

text \<open>Finding the block of a position.\<close>

lemma find_blk_loop_spec:
  assumes "chain (ram s) (b # bl)" "blocks_ok s (b # bl)" "k \<le> unat P div 4096" "4096 * (k + 2 + length bl) < 18446744073709551616"
  shows "find_blk_loop (of_nat b) (of_nat (4096 * (k + 1))) P s
    = Some (if unat P div 4096 \<le> k + length bl then of_nat ((b # bl) ! (unat P div 4096 - k)) else NULL)"
  using assms
proof (induction bl arbitrary: b k)
  case Nil
  have u: "unat (of_nat (4096 * (k + 1)) :: u64) = 4096 * (k + 1)" using Nil.prems(4) by (intro unat_of_nat64) simp
  have le: "of_nat (4096 * (k + 1)) \<le> P \<longleftrightarrow> k + 1 \<le> unat P div 4096"
    unfolding word_le_nat_alt u by auto
  then show ?case using Nil.prems by (subst find_blk_loop.simps) (auto simp: blocks_ok_def put_mapped simp del: of_nat_mult of_nat_add)
next
  case (Cons c bl)
  have u: "unat (of_nat (4096 * (k + 1)) :: u64) = 4096 * (k + 1)" using Cons.prems(4) by (intro unat_of_nat64) simp
  have le: "of_nat (4096 * (k + 1)) \<le> P \<longleftrightarrow> k + 1 \<le> unat P div 4096"
    unfolding word_le_nat_alt u by auto
  have nx: "get32 (of_nat b + 4096) s = Some (of_nat c)" "(of_nat c :: addr) \<noteq> NULL"
    using Cons.prems(1,2) block_not_null [OF Cons.prems(2), of c] by (simp_all add: blocks_ok_def put_mapped)
  show ?case
  proof (cases "k + 1 \<le> unat P div 4096")
    case False
    then have "unat P div 4096 = k" using Cons.prems(3) by simp
    then show ?thesis using False le by (subst find_blk_loop.simps) (simp del: of_nat_mult of_nat_add)
  next
    case True
    have "find_blk_loop (of_nat c) (of_nat (4096 * ((k + 1) + 1))) P s
        = Some (if unat P div 4096 \<le> (k + 1) + length bl then of_nat ((c # bl) ! (unat P div 4096 - (k + 1))) else NULL)"
      by (rule Cons.IH) (use Cons.prems blocks_ok_Cons(1) [OF Cons.prems(2)] True in simp_all)
    moreover have "of_nat (4096 * (k + 1)) + TMPFS_BLK_SIZE = (of_nat (4096 * ((k + 1) + 1)) :: u64)" by simp
    moreover have "(b # c # bl) ! (unat P div 4096 - k) = (c # bl) ! (unat P div 4096 - (k + 1))"
      using True by (simp add: nth_Cons')
    ultimately show ?thesis using True le nx by (subst find_blk_loop.simps) (simp del: of_nat_mult of_nat_add)
  qed
qed

section \<open>Reading\<close>

lemma write_bytes_append: "write_bytes m a (xs @ ys) = write_bytes (write_bytes m a xs) (a + of_nat (length xs)) ys"
  by (induction xs arbitrary: m a) (simp_all add: add.assoc)

lemma blocks_agree_heap:
  assumes "agree heap_start heap_limit m m'" "blocks_ok s bl"
  shows "chain m' bl = chain m bl \<and> contents m' bl = contents m bl"
  using assms(2)
proof (induction bl)
  case (Cons b bl)
  note b = blocks_ok_Cons(1,2) [OF Cons.prems]
  have "agree b (b + 4096) m m'" by (rule agree_mono [OF assms(1)]) (use b(2) in simp_all)
  then show ?case using Cons.IH [OF b(1)] read_agree(1) [OF assms(1), of "b + 4096"] b(2) by (simp add: read_bytes_agree)
qed simp

text \<open>A buffer below the heap.\<close>

lemma buffer_agree:
  assumes "unat buf + length xs \<le> heap_start"
  shows "agree heap_start heap_limit m (write_bytes m buf xs)"
proof -
  have "keeps UNIV {unat buf ..< unat buf + length xs} m (write_bytes m buf xs)"
    using write_bytes_keeps [of "unat buf" xs UNIV m] assms by simp
  then show ?thesis by (rule keeps_agree) (use assms covered_in [of _ 1 UNIV] in auto)
qed

lemma buffer_apart:
  assumes "unat buf + k \<le> heap_start" "heap_start \<le> c" "c + k \<le> heap_limit" "0 < k"
  shows "disjoint buf k (of_nat c) k" "disjoint (of_nat c) k buf k"
  using disjoint_offsets [of "unat buf" k c k 0] assms by (simp_all add: disjoint_sym)

lemma loop_done: "\<not> pos < ucast end_pos \<Longrightarrow> read_blocks blk pos end_pos buf n s = Some s"
  "\<not> pos < ucast end_pos \<Longrightarrow> write_blocks blk pos end_pos buf n t = Some t"
  by (simp_all add: read_blocks.simps write_blocks.simps)

lemma chunk: "unat (if n < TMPFS_BLK_SIZE then n else TMPFS_BLK_SIZE :: u32) = min (unat n) 4096"
  by (simp add: word_less_nat_alt min_def)

lemma before_end:
  assumes "p + r < 4294967296" "q < 18446744073709551616"
  shows "(of_nat q :: u64) < ucast (of_nat (p + r) :: u32) \<longleftrightarrow> q < p + r"
  using assms by (simp add: word_less_nat_alt unat_of_nat64 unat_of_nat32 unat_ucast del: of_nat_add)

lemma read_blocks_spec:
  assumes "chain m (b # bl)" "blocks_ok s (b # bl)" "r \<le> 4096 * length bl" "r \<le> 4096 \<or> 4096 \<le> unat n" "0 < unat n"
    and "p + r < 4294967296" "unat buf + tail_bytes (unat n) r \<le> heap_start"
  shows "read_blocks (of_nat b) (of_nat p) (of_nat (p + r)) buf n (s\<lparr>ram := m\<rparr>)
    = Some (s\<lparr>ram := write_bytes m buf (take (tail_bytes (unat n) r) (contents m bl))\<rparr>)"
  using assms
proof (induction bl arbitrary: b r p buf m)
  case Nil
  then have "r = 0" by simp
  then show ?case using before_end [of p 0 p] Nil.prems(6) by (simp add: loop_done tail_bytes_simps(1))
next
  case (Cons c bl)
  let ?w = "min (unat n) 4096"
  let ?xs = "read_bytes m (of_nat c) ?w"
  let ?m1 = "write_bytes m buf ?xs"
  show ?case
  proof (cases "r = 0")
    case True
    then show ?thesis using before_end [of p 0 p] Cons.prems(6) by (simp add: loop_done tail_bytes_simps(1))
  next
    case False
    note bc = blocks_ok_Cons(1,2) [OF Cons.prems(2)]
    note c = blocks_ok_Cons(2) [OF bc(1)]
    have wt: "?w \<le> tail_bytes (unat n) r" using False by (simp add: tail_bytes_def)
    have room: "unat buf + ?w \<le> heap_start" using wt Cons.prems(7) by linarith
    have "disjoint buf (unat (if n < TMPFS_BLK_SIZE then n else TMPFS_BLK_SIZE :: u32)) (of_nat c)
        (unat (if n < TMPFS_BLK_SIZE then n else TMPFS_BLK_SIZE :: u32))"
      unfolding chunk by (rule buffer_apart(1)) (use room c Cons.prems(5) in auto)
    then have cp: "memcpy m buf (of_nat c) (if n < TMPFS_BLK_SIZE then n else TMPFS_BLK_SIZE) = ?m1"
      by (simp only: memcpy_eq_write_bytes chunk)
    have nx: "get32 (of_nat b + 4096) (s\<lparr>ram := m\<rparr>) = Some (of_nat c)" using Cons.prems(1) bc(2) by (simp add: put_mapped)
    have step: "read_blocks (of_nat b) (of_nat p) (of_nat (p + r)) buf n (s\<lparr>ram := m\<rparr>)
        = read_blocks (of_nat c) (of_nat (p + 4096)) (of_nat (p + r)) (buf + 4096) n (s\<lparr>ram := ?m1\<rparr>)"
      using before_end [of p r p] False Cons.prems(6) nx cp
      by (subst read_blocks.simps) (simp add: add.commute)
    show ?thesis
    proof (cases "r \<le> 4096")
      case True
      have "\<not> (of_nat (p + 4096) :: u64) < ucast (of_nat (p + r) :: u32)"
        using before_end [of p r "p + 4096"] True Cons.prems(6) by simp
      note fin = loop_done(1) [OF this]
      have "take (tail_bytes (unat n) r) (contents m (c # bl)) = ?xs"
        using True False take_read_bytes [of ?w 4096 m "of_nat c"] by (simp add: tail_bytes_simps(2))
      then show ?thesis unfolding step fin by simp
    next
      case False
      then have w: "?w = 4096" "4096 < r" using Cons.prems(4) by auto
      note ts = tail_bytes_simps(3) [OF w(2), of "unat n"]
      have ag: "agree heap_start heap_limit m ?m1" by (rule buffer_agree) (use room in simp)
      have un: "unat (buf + 4096) = unat buf + 4096"
        using unat_add_small [of buf 4096] Cons.prems(7) ts by simp
      have "read_blocks (of_nat c) (of_nat (p + 4096)) (of_nat (p + 4096 + (r - 4096))) (buf + 4096) n (s\<lparr>ram := ?m1\<rparr>)
          = Some (s\<lparr>ram := write_bytes ?m1 (buf + 4096) (take (tail_bytes (unat n) (r - 4096)) (contents ?m1 bl))\<rparr>)"
      proof (rule Cons.IH)
        show "chain ?m1 (c # bl)" using Cons.prems(1) blocks_agree_heap [OF ag bc(1)] by simp
        show "unat (buf + 4096) + tail_bytes (unat n) (r - 4096) \<le> heap_start" using un ts Cons.prems(7) by simp
      qed (use Cons.prems bc(1) w in auto)
      moreover have "p + 4096 + (r - 4096) = p + r" using w(2) by simp
      moreover have "contents ?m1 bl = contents m bl" using blocks_agree_heap [OF ag blocks_ok_Cons(1) [OF bc(1)]] by simp
      moreover have "take (tail_bytes (unat n) r) (contents m (c # bl)) = ?xs @ take (tail_bytes (unat n) (r - 4096)) (contents m bl)"
        using ts w(1) by simp
      moreover have "length ?xs = 4096" using w(1) by simp
      ultimately show ?thesis unfolding step by (simp add: write_bytes_append)
    qed
  qed
qed

text \<open>The file from a position on.\<close>

lemma chain_drop: "chain m bl \<Longrightarrow> chain m (drop j bl)"
proof (induction bl arbitrary: j)
  case (Cons b bl)
  then show ?case by (cases j) auto
qed simp

lemma blocks_ok_drop: "blocks_ok s bl \<Longrightarrow> blocks_ok s (drop j bl)"
  by (auto simp: blocks_ok_def dest: in_set_dropD)

lemma contents_append: "contents m (as @ bs) = contents m as @ contents m bs"
  by (simp add: contents_def)

lemma drop_contents:
  assumes "j < length bl" "i < 4096"
  shows "drop (4096 * j + i) (contents m bl) = drop i (read_bytes m (of_nat (bl ! j)) 4096) @ contents m (drop (Suc j) bl)"
proof -
  have "bl = take j bl @ bl ! j # drop (Suc j) bl" using assms(1) by (rule id_take_nth_drop)
  then have "contents m bl = contents m (take j bl) @ read_bytes m (of_nat (bl ! j)) 4096 @ contents m (drop (Suc j) bl)"
    using contents_append [of m "take j bl"] by (metis contents_simps(2))
  then show ?thesis using assms by simp
qed

lemma first_slice_nat:
  "unat (first_slice pos n) = min (unat n) (4096 - unat pos mod 4096)"
proof -
  have m: "unat (pos mod 4096) = unat pos mod 4096" by (simp add: unat_mod_distrib)
  have l: "unat pos mod 4096 < 4096" by simp
  then have "unat (ucast (pos mod 4096) :: u32) = unat pos mod 4096"
    using m by (simp add: unat_ucast)
  then have "unat ((4096 :: u32) - ucast (pos mod 4096)) = 4096 - unat pos mod 4096"
    using l by (subst unat_sub) (simp_all add: word_le_nat_alt)
  then show ?thesis by (simp add: first_slice_def Let_def word_less_nat_alt)
qed

text \<open>Where a transfer starts, for words and numbers.\<close>

lemma slice_facts:
  assumes "unat n = k" "0 < k" "unat pos + k < 4294967296"
  defines "i \<equiv> unat pos mod 4096" and "w \<equiv> min k (4096 - unat pos mod 4096)"
  shows "i < 4096" "0 < w" "w \<le> k" "i + w \<le> 4096" "first_slice pos n = of_nat w" "unat (of_nat w :: u32) = w"
    "moved (unat pos) k = w + tail_bytes k (k - w)" "ucast (pos mod TMPFS_BLK_SIZE) = (of_nat i :: addr)"
    "pos + ucast (of_nat w :: u32) = of_nat (unat pos + w)" "ucast pos + n = (of_nat (unat pos + w + (k - w)) :: u32)"
    "k - w \<le> 4096 \<or> 4096 \<le> unat n" "w = k \<or> w = 4096 - i"
proof -
  show il: "i < 4096" by (simp add: i_def)
  show w: "0 < w" "w \<le> k" "i + w \<le> 4096" using assms(2) il by (auto simp: w_def i_def)
  have us: "unat (first_slice pos n) = w" by (simp only: first_slice_nat assms(1) w_def)
  show uw: "unat (of_nat w :: u32) = w" by (rule unat_of_nat32) (use w(3) in simp)
  then show "first_slice pos n = of_nat w" using us by (simp add: word_unat_eq_iff)
  show "moved (unat pos) k = w + tail_bytes k (k - w)" by (simp add: moved_def Let_def w_def)
  have "unat (pos mod 4096) = i" by (simp add: unat_mod_distrib i_def)
  then have "unat (ucast (pos mod 4096) :: u32) = i" using il by (simp add: unat_ucast)
  then show "ucast (pos mod TMPFS_BLK_SIZE) = (of_nat i :: addr)"
    using il by (simp add: word_unat_eq_iff [of _ "of_nat i"] unat_of_nat32)
  have "ucast (of_nat w :: u32) = (of_nat w :: u64)" using uw by (metis of_nat_unat)
  then show "pos + ucast (of_nat w :: u32) = of_nat (unat pos + w)" by simp
  have "(of_nat (unat pos) :: u32) = ucast pos" "(of_nat k :: u32) = n" using assms(1) by auto
  then have "ucast pos + n = (of_nat (unat pos + k) :: u32)" by simp
  moreover have "unat pos + w + (k - w) = unat pos + k" using w(2) by simp
  ultimately show "ucast pos + n = (of_nat (unat pos + w + (k - w)) :: u32)" by (simp only:)
  show "k - w \<le> 4096 \<or> 4096 \<le> unat n" using assms(1) by auto
  show "w = k \<or> w = 4096 - i" by (auto simp: w_def i_def min_def)
qed

text \<open>The sequence of transfers of a read from a block on.\<close>

lemma read_from_block:
  assumes ch: "chain m (b # bl)" "blocks_ok s (b # bl)" and p: "unat pos mod 4096 + k \<le> 4096 * Suc (length bl)"
    and k: "unat n = k" "0 < k" "unat pos + k < 4294967296" and buf: "unat buf + moved (unat pos) k \<le> heap_start"
    and i: "i = unat pos mod 4096"
  shows "read_blocks (of_nat b) (pos + ucast (first_slice pos n)) (ucast pos + n) (buf + first_slice pos n) n
      (s\<lparr>ram := memcpy m buf (of_nat b + ucast (pos mod TMPFS_BLK_SIZE)) (first_slice pos n)\<rparr>)
    = Some (s\<lparr>ram := write_bytes m buf
        (take (moved (unat pos) k) (drop i (read_bytes m (of_nat b) 4096) @ contents m bl))\<rparr>)"
proof -
  define w where "w = min k (4096 - unat pos mod 4096)"
  note sf = slice_facts [OF k, folded w_def, folded i]
  note b = blocks_ok_Cons(2) [OF ch(2)]
  let ?xs = "read_bytes m (of_nat (b + i)) w"
  let ?m1 = "write_bytes m buf ?xs"
  have "disjoint buf w (of_nat (b + i)) w" by (rule buffer_apart(1)) (use buf sf b in simp_all)
  then have cp: "memcpy m buf (of_nat (b + i)) (of_nat w) = ?m1"
    using memcpy_eq_write_bytes [of buf "of_nat w" "of_nat (b + i)" m] sf(6) by simp
  have ag: "agree heap_start heap_limit m ?m1" by (rule buffer_agree) (use buf sf(7) in simp)
  have eq: "chain ?m1 (b # bl)" "contents ?m1 bl = contents m bl"
    using blocks_agree_heap [OF ag ch(2)] blocks_agree_heap [OF ag blocks_ok_Cons(1) [OF ch(2)]] ch(1) by simp_all
  have ub: "unat (buf + of_nat w) = unat buf + w" using unat_add_small [of buf "of_nat w"] sf(6,7) buf by simp
  have run: "read_blocks (of_nat b) (of_nat (unat pos + w)) (of_nat (unat pos + w + (k - w))) (buf + of_nat w) n (s\<lparr>ram := ?m1\<rparr>)
      = Some (s\<lparr>ram := write_bytes ?m1 (buf + of_nat w) (take (tail_bytes (unat n) (k - w)) (contents ?m1 bl))\<rparr>)"
  proof (rule read_blocks_spec [OF eq(1) ch(2)])
    show "k - w \<le> 4096 * length bl" using sf(1,12) p i by auto
    show "unat pos + w + (k - w) < 4294967296" using k(3) sf(3) by simp
    show "unat (buf + of_nat w) + tail_bytes (unat n) (k - w) \<le> heap_start" using ub buf sf(7) k(1) by simp
  qed (use sf(11) k in auto)
  have rd: "take w (drop i (read_bytes m (of_nat b) 4096)) = ?xs" using sf(4) by (simp add: drop_read_bytes take_read_bytes)
  have bytes: "take (moved (unat pos) k) (drop i (read_bytes m (of_nat b) 4096) @ contents m bl)
      = ?xs @ take (tail_bytes k (k - w)) (contents m bl)"
    using sf(12) rd sf(4,7) by (auto simp: tail_bytes_simps(1))
  have off: "(of_nat b + of_nat i :: addr) = of_nat (b + i)" by simp
  show ?thesis unfolding sf(5) sf(8) sf(9) sf(10) off cp run
    by (simp only: bytes eq(2) k(1) write_bytes_append length_read_bytes)
qed

lemma file_fields:
  assumes hp: "heap_is s bs" and f: "file_at (live heap_start bs) m f bl sz"
  shows "virt_mapped (of_nat f + 2) s" "virt_mapped (of_nat f + 28) s" "virt_mapped (of_nat f + 32) s" "f + 4140 \<le> heap_limit"
    "heap_start \<le> f" "hd bl = f + 40" "bl \<noteq> []"
proof -
  from f obtain k where k: "(f, k) \<in> live heap_start bs" "4140 \<le> k" by (auto simp: file_at_def)
  then show "virt_mapped (of_nat f + 2) s" "virt_mapped (of_nat f + 28) s" "virt_mapped (of_nat f + 32) s"
    using region_mapped [OF hp k(1), of 2] region_mapped [OF hp k(1), of 28] region_mapped [OF hp k(1), of 32] by simp_all
  show "f + 4140 \<le> heap_limit" "heap_start \<le> f" using live_in_heap(1,2) [OF hp k(1)] k(2) by simp_all
  show "hd bl = f + 40" "bl \<noteq> []" using f by (auto simp: file_at_def)
qed

lemma find_blk_spec:
  assumes hp: "heap_is s bs" and f: "file_at (live heap_start bs) (ram s) f bl sz" and l: "4096 * length bl < 4294967296"
  shows "find_blk (of_nat f) P s = Some (if unat P div 4096 < length bl then of_nat (bl ! (unat P div 4096)) else NULL)"
proof -
  obtain tl where bl: "bl = (f + 40) # tl" using f by (auto simp: file_at_def)
  have "chain (ram s) ((f + 40) # tl)" using f bl by (simp add: file_at_def)
  from find_blk_loop_spec [OF this, of 0 P] file_blocks [OF hp f] bl l
  show ?thesis by (simp add: find_blk_def less_Suc_eq_le)
qed

text \<open>The length of a read, cut at the end of the file.\<close>

lemma read_length:
  fixes pos :: u64
  assumes "sz < 4294967296" "unat pos < sz"
  shows "unat (if pos + ucast n \<ge> of_nat sz then ucast (of_nat sz - pos) else n :: u32) = min (unat n) (sz - unat pos)"
proof -
  have us: "unat (of_nat sz :: u64) = sz" by (rule unat_of_nat64) (use assms(1) in simp)
  have n: "unat n < 4294967296" using unsigned_less [where 'a = nat and w = n] by simp
  have un: "unat (ucast n :: u64) = unat n" by transfer simp
  have "unat pos + unat n < 18446744073709551616" using assms n by linarith
  then have "unat (pos + ucast n) = unat pos + unat n" by (simp add: unat_word_ariths un)
  then have le: "pos + ucast n \<ge> of_nat sz \<longleftrightarrow> sz \<le> unat pos + unat n" by (simp only: word_le_nat_alt us)
  have "of_nat sz - pos = of_nat (sz - unat pos)" using assms(2) by (simp add: of_nat_diff)
  then have "unat (ucast (of_nat sz - pos) :: u32) = sz - unat pos"
    using assms(1) by (simp add: unat_ucast unat_of_nat64)
  then show ?thesis using le assms(2) by auto
qed

text \<open>A read of \<open>k\<close> bytes that the file has.\<close>

lemma read_within:
  assumes hp: "heap_is s bs" and f: "file_at (live heap_start bs) (ram s) f bl sz" and l: "4096 * length bl < 4294967296"
    and k: "unat n = k" "0 < k" "unat pos + k \<le> sz" and buf: "unat buf + moved (unat pos) k \<le> heap_start"
  shows "\<exists>blk. find_blk (of_nat f) pos s = Some blk \<and> blk \<noteq> NULL
    \<and> read_blocks blk (pos + ucast (first_slice pos n)) (ucast pos + n) (buf + first_slice pos n) n
        (s\<lparr>ram := memcpy (ram s) buf (blk + ucast (pos mod TMPFS_BLK_SIZE)) (first_slice pos n)\<rparr>)
      = Some (s\<lparr>ram := write_bytes (ram s) buf (take (moved (unat pos) k) (drop (unat pos) (contents (ram s) bl)))\<rparr>)"
proof -
  have sz: "sz \<le> 4096 * length bl" using f by (simp add: file_at_def)
  define j where "j = unat pos div 4096"
  define i where "i = unat pos mod 4096"
  have ji: "unat pos = 4096 * j + i" "i < 4096" by (simp_all add: i_def j_def)
  have j: "j < length bl" using k(2,3) sz ji by simp
  have ok: "blocks_ok s bl" by (rule file_blocks [OF hp f])
  have rest: "drop j bl = bl ! j # drop (Suc j) bl" using j by (simp add: Cons_nth_drop_Suc)
  have ch: "chain (ram s) (bl ! j # drop (Suc j) bl)" "blocks_ok s (bl ! j # drop (Suc j) bl)"
    using chain_drop [of "ram s" bl j] blocks_ok_drop [OF ok, of j] f unfolding rest by (simp_all add: file_at_def)
  have p: "unat pos mod 4096 + k \<le> 4096 * Suc (length (drop (Suc j) bl))"
    using k(3) sz ji j unfolding i_def [symmetric] by simp
  have lim: "unat pos + k < 4294967296" using k(3) sz l by simp
  have "drop (unat pos) (contents (ram s) bl)
      = drop (unat pos mod 4096) (read_bytes (ram s) (of_nat (bl ! j)) 4096) @ contents (ram s) (drop (Suc j) bl)"
    using drop_contents [OF j ji(2), of "ram s"] unfolding ji(1) [symmetric] by (simp only: i_def)
  moreover have "find_blk (of_nat f) pos s = Some (of_nat (bl ! j))"
    using find_blk_spec [OF hp f l, of pos] j by (simp add: j_def)
  moreover have "(of_nat (bl ! j) :: addr) \<noteq> NULL" by (rule block_not_null [OF ok]) (use j in simp)
  ultimately show ?thesis using read_from_block [OF ch p k(1,2) lim buf refl] by simp
qed

lemma read_file:
  assumes hp: "heap_is s bs" and f: "file_at (live heap_start bs) (ram s) f bl sz"
    and ty: "rd16 (ram s) (of_nat f + 2) AND IT_TYPE = IT_REG" and l: "4096 * length bl < 4294967296"
    and k: "k = min (unat n) (sz - unat pos)" and buf: "unat buf + moved (unat pos) k \<le> heap_start"
  shows "tmpfs_read cdrv bdrv (of_nat f) pos buf n s = Some (if k = 0 then (0, s)
    else (to_int (of_nat k),
      s\<lparr>ram := write_bytes (ram s) buf (take (moved (unat pos) k) (drop (unat pos) (contents (ram s) bl)))\<rparr>))"
proof -
  note ff = file_fields [OF hp f]
  have sz: "rd64 (ram s) (of_nat f + 28) = of_nat sz" "sz < 4294967296" using f l by (simp_all add: file_at_def)
  have us: "unat (of_nat sz :: u64) = sz" using sz(2) by (intro unat_of_nat64) simp
  have past: "of_nat sz \<le> pos \<longleftrightarrow> sz \<le> unat pos" by (simp add: word_le_nat_alt us)
  have get: "get64 (of_nat f + 28) s = Some (of_nat sz)" "inode_type (of_nat f) s = Some IT_REG"
    using ff sz(1) ty by (simp_all add: get64_def add.commute inode_type_def put_mapped)
  define n' where "n' = (if pos + ucast n \<ge> of_nat sz then ucast (of_nat sz - pos) else n)"
  have rd: "tmpfs_read cdrv bdrv (of_nat f) pos buf n s = (if pos \<ge> of_nat sz \<or> n' = 0 then Some (0, s)
      else do {
        blk \<leftarrow> find_blk (of_nat f) pos s;
        if blk = NULL then Some (0, s)
        else do {
          s \<leftarrow> read_blocks blk (pos + ucast (first_slice pos n')) (ucast pos + n') (buf + first_slice pos n') n'
            (s\<lparr>ram := memcpy (ram s) buf (blk + ucast (pos mod TMPFS_BLK_SIZE)) (first_slice pos n')\<rparr>);
          Some (to_int n', s)
        }
      })"
    unfolding tmpfs_read_def read_reg_def Let_def get n'_def by simp
  show ?thesis
  proof (cases "sz \<le> unat pos \<or> k = 0")
    case True
    have "n' = 0" if "unat pos < sz"
    proof -
      have "unat n' = k" using read_length [OF sz(2) that, of n] k by (simp only: n'_def)
      then have "unat n' = 0" using True that by simp
      then show ?thesis by (simp only: unat_eq_zero)
    qed
    then have "pos \<ge> of_nat sz \<or> n' = 0" using past by fastforce
    then show ?thesis using rd True k by auto
  next
    case False
    have nk: "unat n' = k" using read_length [OF sz(2), of pos n] False k by (simp add: n'_def)
    then have "n' \<noteq> 0" "n' = of_nat k" using False by (auto simp flip: nk)
    moreover have "unat pos + k \<le> sz" unfolding k using False by linarith
    ultimately show ?thesis using read_within [OF hp f l nk _ _ buf] False past rd by auto
  qed
qed

section \<open>Writing\<close>

text \<open>Writes into regions in use leave the headers alone.\<close>

lemma blocks_headers:
  assumes "blocks m fin prev p bs" "p + extent bs \<le> 4294967296"
    and "\<And>x. p \<le> x \<Longrightarrow> x < p + extent bs \<Longrightarrow> (\<forall>(a, n) \<in> live p bs. x < a \<or> a + n \<le> x) \<Longrightarrow> m' (of_nat x) = m (of_nat x)"
  shows "blocks m' fin prev p bs"
  using assms
proof (induction bs arbitrary: prev p)
  case (Cons b bs)
  obtain u n where b: "b = (u, n)" by (cases b)
  have keep: "m' (of_nat x) = m (of_nat x)"
    if x: "p \<le> x" "x < p + 16 + n + extent bs" "x < p + 16 \<or> p + 16 + n \<le> x"
      "\<forall>(a, j) \<in> live (p + 16 + n) bs. x < a \<or> a + j \<le> x" for x
    using Cons.prems(3) [of x] x b by auto
  have "agree p (p + 16) m m'"
    unfolding agree_def
  proof (intro allI impI)
    fix x assume x: "p \<le> x \<and> x < p + 16"
    have "\<forall>(a, j) \<in> live (p + 16 + n) bs. x < a \<or> a + j \<le> x" using x live_bounds [of _ _ "p + 16 + n" bs] by fastforce
    then show "m' (of_nat x) = m (of_nat x)" using keep [of x] x by auto
  qed
  moreover have "blocks m' fin p (p + 16 + n) bs"
  proof (rule Cons.IH)
    show "blocks m fin p (p + 16 + n) bs" "p + 16 + n + extent bs \<le> 4294967296" using Cons.prems(1,2) b by simp_all
    show "m' (of_nat x) = m (of_nat x)"
      if "p + 16 + n \<le> x" "x < p + 16 + n + extent bs" "\<forall>(a, j) \<in> live (p + 16 + n) bs. x < a \<or> a + j \<le> x" for x
      using keep [of x] that by auto
  qed
  ultimately show ?case using Cons.prems(1) b by (simp add: block_at_agree)
qed simp

lemma regions_write:
  assumes hp: "heap_is s bs" and w: "keeps UNIV X (ram s) m"
    and X: "\<And>x. x \<in> X \<Longrightarrow> \<exists>a n. (a, n) \<in> live heap_start bs \<and> a \<le> x \<and> x < a + n"
  shows "heap_is (s\<lparr>ram := m\<rparr>) bs"
proof -
  have u: "covered UNIV x" for x using covered_in [of x 1 UNIV x] by simp
  have "blocks m True 0 heap_start bs"
  proof (rule blocks_headers)
    show "blocks (ram s) True 0 heap_start bs" "heap_start + extent bs \<le> 4294967296" using hp by (simp_all add: heap_is_def)
    fix x assume x: "heap_start \<le> x" "x < heap_start + extent bs" "\<forall>(a, n) \<in> live heap_start bs. x < a \<or> a + n \<le> x"
    then have "x \<notin> X" using X [of x] by fastforce
    moreover have "x < 4294967296" using hp x by (simp add: heap_is_def)
    ultimately show "m (of_nat x) = ram s (of_nat x)" using w u by (simp add: keeps_def)
  qed
  then show ?thesis using hp by (simp add: heap_is_def)
qed

text \<open>Changes away from the links and from the data of blocks.\<close>

lemma UNIV_agree: "keeps UNIV X m m' \<Longrightarrow> X \<inter> {a ..< c} = {} \<Longrightarrow> c \<le> 4294967296 \<Longrightarrow> agree a c m m'"
  by (rule keeps_agree) (use covered_in [of _ 1 UNIV] in auto)

lemma chain_keeps:
  assumes "keeps UNIV X m m'" "blocks_ok s bl" "\<And>b. b \<in> set bl \<Longrightarrow> X \<inter> {b + 4096 ..< b + 4100} = {}"
  shows "chain m' bl = chain m bl"
  using assms(2,3)
proof (induction bl)
  case (Cons b bl)
  have "agree (b + 4096) (b + 4100) m m'"
    by (rule UNIV_agree [OF assms(1)]) (use Cons.prems(2) blocks_ok_Cons(2) [OF Cons.prems(1)] in auto)
  from read_agree(1) [OF this, of "b + 4096"] Cons.IH [OF blocks_ok_Cons(1) [OF Cons.prems(1)]] Cons.prems(2)
  show ?case by simp
qed simp

lemma contents_keeps:
  assumes "keeps UNIV X m m'" "blocks_ok s bl" "\<And>b. b \<in> set bl \<Longrightarrow> X \<inter> {b ..< b + 4096} = {}"
  shows "contents m' bl = contents m bl"
  using assms(2,3)
proof (induction bl)
  case (Cons b bl)
  have "agree b (b + 4096) m m'"
    by (rule UNIV_agree [OF assms(1)]) (use Cons.prems(2) blocks_ok_Cons(2) [OF Cons.prems(1)] in auto)
  then show ?case using Cons.IH [OF blocks_ok_Cons(1) [OF Cons.prems(1)]] Cons.prems(2) by (simp add: read_bytes_agree)
qed simp

definition data_of :: "nat list \<Rightarrow> nat set" where
  "data_of bl = (\<Union>b \<in> set bl. {b ..< b + 4096})"

lemma data_of_simps [simp]: "data_of [] = {}" "data_of (b # bl) = {b ..< b + 4096} \<union> data_of bl"
  by (simp_all add: data_of_def)

lemma data_links: "blocks_ok s bl \<Longrightarrow> b \<in> set bl \<Longrightarrow> data_of bl \<inter> {b + 4096 ..< b + 4100} = {}"
  unfolding blocks_ok_def data_of_def by fastforce

lemma data_other: "blocks_ok s (b # bl) \<Longrightarrow> data_of bl \<inter> {b ..< b + 4100} = {}"
  using blocks_ok_Cons(3) [of s b bl] unfolding data_of_def by fastforce

text \<open>Bytes copied into a block.\<close>

lemma write_in_block:
  assumes "i + length xs \<le> 4096" "b + 4100 \<le> heap_limit"
  shows "read_bytes (write_bytes m (of_nat (b + i)) xs) (of_nat b) 4096
    = take i (read_bytes m (of_nat b) 4096) @ xs @ drop (i + length xs) (read_bytes m (of_nat b) 4096)"
    "keeps L {b ..< b + 4096} m (write_bytes m (of_nat (b + i)) xs)"
proof -
  let ?m = "write_bytes m (of_nat (b + i)) xs"
  have w: "keeps UNIV {b + i ..< b + i + length xs} m ?m"
    using write_bytes_keeps [of "b + i" xs UNIV m] assms by simp
  show "keeps L {b ..< b + 4096} m ?m"
    using keeps_mono [OF w, of L "{b ..< b + 4096}"] assms(1) by auto
  have "agree b (b + i) m ?m" "agree (b + i + length xs) (b + 4096) m ?m"
    by (rule UNIV_agree [OF w]; use assms in auto)+
  then have pre: "read_bytes ?m (of_nat b) i = read_bytes m (of_nat b) i"
    and post: "read_bytes ?m (of_nat (b + i + length xs)) (4096 - (i + length xs))
      = read_bytes m (of_nat (b + i + length xs)) (4096 - (i + length xs))"
    using read_bytes_agree [of b i m ?m] read_bytes_agree [of "b + i + length xs" "4096 - (i + length xs)" m ?m] assms(1)
    by (simp_all add: add.assoc)
  have mid: "read_bytes ?m (of_nat (b + i)) (length xs) = xs" by (rule read_write_bytes) (use assms(1) in simp)
  have split: "read_bytes m' (of_nat b) 4096 = read_bytes m' (of_nat b) i @ read_bytes m' (of_nat (b + i)) (length xs)
      @ read_bytes m' (of_nat (b + i + length xs)) (4096 - (i + length xs))" for m'
    by (rule nth_equalityI) (use assms(1) in \<open>auto simp: nth_append of_nat_diff add.assoc\<close>)
  have "take i (read_bytes m (of_nat b) 4096) = read_bytes m (of_nat b) i" by (rule take_read_bytes) (use assms(1) in simp)
  moreover have "drop (i + length xs) (read_bytes m (of_nat b) 4096)
      = read_bytes m (of_nat (b + i + length xs)) (4096 - (i + length xs))"
    by (simp add: drop_read_bytes add.assoc)
  ultimately show "read_bytes ?m (of_nat b) 4096
      = take i (read_bytes m (of_nat b) 4096) @ xs @ drop (i + length xs) (read_bytes m (of_nat b) 4096)"
    unfolding split [of ?m] by (simp only: pre mid post)
qed

lemma read_bytes_add: "read_bytes m a (x + y) = read_bytes m a x @ read_bytes m (a + of_nat x) y"
  by (rule nth_equalityI) (auto simp: nth_append of_nat_diff add.assoc)

lemma buffer_kept:
  assumes "keeps UNIV X m m'" "unat buf + n \<le> heap_start" "\<And>x. x \<in> X \<Longrightarrow> heap_start \<le> x"
  shows "read_bytes m' buf n = read_bytes m buf n"
proof -
  have "agree (unat buf) (unat buf + n) m m'" by (rule UNIV_agree [OF assms(1)]) (use assms(2,3) in fastforce)+
  from read_bytes_agree [OF this] show ?thesis by simp
qed

lemma data_in_heap: "blocks_ok s bl \<Longrightarrow> x \<in> data_of bl \<Longrightarrow> heap_start \<le> x"
  unfolding blocks_ok_def data_of_def by fastforce

lemma write_blocks_spec:
  assumes "chain m (b # bl)" "blocks_ok s (b # bl)" "r \<le> 4096 * length bl" "r \<le> 4096 \<or> 4096 \<le> unat n" "0 < unat n"
    and "p + r < 4294967296" "unat buf + tail_bytes (unat n) r \<le> heap_start"
  shows "\<exists>m'. write_blocks (of_nat b) (of_nat p) (of_nat (p + r)) buf n (s\<lparr>ram := m\<rparr>) = Some (s\<lparr>ram := m'\<rparr>)
    \<and> contents m' bl = read_bytes m buf (tail_bytes (unat n) r) @ drop (tail_bytes (unat n) r) (contents m bl)
    \<and> keeps UNIV (data_of bl) m m'"
  using assms
proof (induction bl arbitrary: b r p buf m)
  case Nil
  then have "r = 0" by simp
  then show ?case using before_end [of p 0 p] Nil.prems(6)
    by (intro exI [of _ m]) (simp add: loop_done tail_bytes_simps(1))
next
  case (Cons c bl)
  let ?w = "min (unat n) 4096"
  let ?xs = "read_bytes m buf ?w"
  let ?m1 = "write_bytes m (of_nat c) ?xs"
  show ?case
  proof (cases "r = 0")
    case True
    then show ?thesis using before_end [of p 0 p] Cons.prems(6)
      by (intro exI [of _ m]) (simp add: loop_done tail_bytes_simps(1))
  next
    case False
    note bc = blocks_ok_Cons(1,2) [OF Cons.prems(2)]
    note c = blocks_ok_Cons(2) [OF bc(1)]
    have wt: "?w \<le> tail_bytes (unat n) r" using False by (simp add: tail_bytes_def)
    have room: "unat buf + ?w \<le> heap_start" using wt Cons.prems(7) by linarith
    have "disjoint (of_nat c) (unat (if n < TMPFS_BLK_SIZE then n else TMPFS_BLK_SIZE :: u32)) buf
        (unat (if n < TMPFS_BLK_SIZE then n else TMPFS_BLK_SIZE :: u32))"
      unfolding chunk by (rule buffer_apart(2)) (use room c Cons.prems(5) in auto)
    then have cp: "memcpy m (of_nat c) buf (if n < TMPFS_BLK_SIZE then n else TMPFS_BLK_SIZE) = ?m1"
      by (simp only: memcpy_eq_write_bytes chunk)
    have nx: "get32 (of_nat b + 4096) (s\<lparr>ram := m\<rparr>) = Some (of_nat c)" "(of_nat c :: addr) \<noteq> NULL"
      using Cons.prems(1) bc(2) block_not_null [OF bc(1), of c] by (simp_all add: put_mapped)
    have step: "write_blocks (of_nat b) (of_nat p) (of_nat (p + r)) buf n (s\<lparr>ram := m\<rparr>)
        = write_blocks (of_nat c) (of_nat (p + 4096)) (of_nat (p + r)) (buf + 4096) n (s\<lparr>ram := ?m1\<rparr>)"
      using before_end [of p r p] False Cons.prems(6) nx cp
      by (subst write_blocks.simps) (simp add: add.commute)
    have blk: "read_bytes ?m1 (of_nat c) 4096 = ?xs @ drop ?w (read_bytes m (of_nat c) 4096)"
      "keeps L {c ..< c + 4096} m ?m1" for L
      using write_in_block(1) [of 0 ?xs c m] write_in_block(2) [of 0 ?xs c L m] c by simp_all
    have rest: "contents ?m1 bl = contents m bl"
      by (rule contents_keeps [OF blk(2) blocks_ok_Cons(1) [OF bc(1)]]) (use blocks_ok_Cons(3) [OF bc(1)] in fastforce)
    show ?thesis
    proof (cases "r \<le> 4096")
      case True
      have "\<not> (of_nat (p + 4096) :: u64) < ucast (of_nat (p + r) :: u32)"
        using before_end [of p r "p + 4096"] True Cons.prems(6) by simp
      note fin = loop_done(2) [OF this]
      have t: "tail_bytes (unat n) r = ?w" using True False by (simp add: tail_bytes_simps(2))
      show ?thesis unfolding step fin t
        using blk rest keeps_mono [OF blk(2), of UNIV UNIV "data_of (c # bl)"] by (intro exI [of _ ?m1]) simp
    next
      case False
      then have w: "?w = 4096" "4096 < r" using Cons.prems(4) by auto
      note ts = tail_bytes_simps(3) [OF w(2), of "unat n"]
      have un: "unat (buf + 4096) = unat buf + 4096"
        using unat_add_small [of buf 4096] Cons.prems(7) ts by simp
      let ?T = "tail_bytes (unat n) (r - 4096)"
      have "\<exists>m'. write_blocks (of_nat c) (of_nat (p + 4096)) (of_nat (p + 4096 + (r - 4096))) (buf + 4096) n (s\<lparr>ram := ?m1\<rparr>)
          = Some (s\<lparr>ram := m'\<rparr>)
        \<and> contents m' bl = read_bytes ?m1 (buf + 4096) ?T @ drop ?T (contents ?m1 bl) \<and> keeps UNIV (data_of bl) ?m1 m'"
      proof (rule Cons.IH)
        have "chain ?m1 (c # bl) = chain m (c # bl)"
          by (rule chain_keeps [OF blk(2) bc(1)]) (use blocks_ok_Cons(3) [OF bc(1)] in fastforce)
        then show "chain ?m1 (c # bl)" using Cons.prems(1) by simp
        show "unat (buf + 4096) + ?T \<le> heap_start" using un ts Cons.prems(7) by simp
      qed (use Cons.prems bc(1) w in auto)
      then obtain m' where m': "write_blocks (of_nat c) (of_nat (p + 4096)) (of_nat (p + r)) (buf + 4096) n (s\<lparr>ram := ?m1\<rparr>)
          = Some (s\<lparr>ram := m'\<rparr>)" "contents m' bl = read_bytes ?m1 (buf + 4096) ?T @ drop ?T (contents ?m1 bl)"
        "keeps UNIV (data_of bl) ?m1 m'" using w(2) by auto
      have "read_bytes m' (of_nat c) 4096 = read_bytes ?m1 (of_nat c) 4096"
        by (rule read_bytes_agree, rule UNIV_agree [OF m'(3)]) (use data_other [OF bc(1)] c in fastforce)+
      moreover have "read_bytes ?m1 (buf + 4096) ?T = read_bytes m (buf + 4096) ?T"
        by (rule buffer_kept [OF blk(2)]) (use un ts Cons.prems(7) c in auto)
      ultimately have "contents m' (c # bl) = read_bytes m buf (4096 + ?T) @ drop (4096 + ?T) (contents m (c # bl))"
        using m'(2) blk(1) w(1) rest read_bytes_add [of m buf 4096 ?T] by simp
      moreover have "keeps UNIV (data_of (c # bl)) m m'"
        using keeps_trans [OF blk(2) m'(3), of UNIV] by simp
      ultimately show ?thesis unfolding step ts using m'(1) by blast
    qed
  qed
qed

lemma write_from_block:
  assumes ch: "chain m (b # bl)" "blocks_ok s (b # bl)" and p: "unat pos mod 4096 + k \<le> 4096 * Suc (length bl)"
    and k: "unat n = k" "0 < k" "unat pos + k < 4294967296" and buf: "unat buf + moved (unat pos) k \<le> heap_start"
    and i: "i = unat pos mod 4096" and M: "M = moved (unat pos) k" and D: "D = read_bytes m (of_nat b) 4096 @ contents m bl"
  shows "\<exists>m'. write_blocks (of_nat b) (pos + ucast (first_slice pos n)) (ucast pos + n) (buf + first_slice pos n) n
      (s\<lparr>ram := memcpy m (of_nat b + ucast (pos mod TMPFS_BLK_SIZE)) buf (first_slice pos n)\<rparr>) = Some (s\<lparr>ram := m'\<rparr>)
    \<and> contents m' (b # bl) = take i D @ read_bytes m buf M @ drop (i + M) D
    \<and> keeps UNIV (data_of (b # bl)) m m'"
proof -
  define w where "w = min k (4096 - unat pos mod 4096)"
  note sf = slice_facts [OF k, folded w_def, folded i]
  note b = blocks_ok_Cons(2) [OF ch(2)]
  let ?xs = "read_bytes m buf w"
  let ?m1 = "write_bytes m (of_nat (b + i)) ?xs"
  let ?T = "tail_bytes k (k - w)"
  have "disjoint (of_nat (b + i)) w buf w" by (rule buffer_apart(2)) (use buf sf b in simp_all)
  then have cp: "memcpy m (of_nat (b + i)) buf (of_nat w) = ?m1"
    using memcpy_eq_write_bytes [of "of_nat (b + i)" "of_nat w" buf m] sf(6) by simp
  have blk: "read_bytes ?m1 (of_nat b) 4096 = take i (read_bytes m (of_nat b) 4096) @ ?xs @ drop (i + w) (read_bytes m (of_nat b) 4096)"
    "keeps L {b ..< b + 4096} m ?m1" for L
    using write_in_block(1) [of i ?xs b m] write_in_block(2) [of i ?xs b L m] sf(4) b by simp_all
  have rest: "contents ?m1 bl = contents m bl"
    by (rule contents_keeps [OF blk(2) blocks_ok_Cons(1) [OF ch(2)]]) (use blocks_ok_Cons(3) [OF ch(2)] in fastforce)
  have ub: "unat (buf + of_nat w) = unat buf + w" using unat_add_small [of buf "of_nat w"] sf(6,7) buf by simp
  have "\<exists>m'. write_blocks (of_nat b) (of_nat (unat pos + w)) (of_nat (unat pos + w + (k - w))) (buf + of_nat w) n (s\<lparr>ram := ?m1\<rparr>)
      = Some (s\<lparr>ram := m'\<rparr>)
    \<and> contents m' bl = read_bytes ?m1 (buf + of_nat w) (tail_bytes (unat n) (k - w)) @ drop (tail_bytes (unat n) (k - w)) (contents ?m1 bl)
    \<and> keeps UNIV (data_of bl) ?m1 m'"
  proof (rule write_blocks_spec [OF _ ch(2)])
    have "chain ?m1 (b # bl) = chain m (b # bl)"
      by (rule chain_keeps [OF blk(2) ch(2)]) (use blocks_ok_Cons(3) [OF ch(2)] in fastforce)
    then show "chain ?m1 (b # bl)" using ch(1) by simp
    show "k - w \<le> 4096 * length bl" using sf(1,12) p i by auto
    show "unat pos + w + (k - w) < 4294967296" using k(3) sf(3) by simp
    show "unat (buf + of_nat w) + tail_bytes (unat n) (k - w) \<le> heap_start" using ub buf sf(7) k(1) by simp
  qed (use sf(11) k in auto)
  then obtain m' where m': "write_blocks (of_nat b) (of_nat (unat pos + w)) (of_nat (unat pos + w + (k - w))) (buf + of_nat w) n
      (s\<lparr>ram := ?m1\<rparr>) = Some (s\<lparr>ram := m'\<rparr>)"
    "contents m' bl = read_bytes ?m1 (buf + of_nat w) ?T @ drop ?T (contents m bl)" "keeps UNIV (data_of bl) ?m1 m'"
    using k(1) rest by auto
  have "read_bytes m' (of_nat b) 4096 = read_bytes ?m1 (of_nat b) 4096"
    by (rule read_bytes_agree, rule UNIV_agree [OF m'(3)]) (use data_other [OF ch(2)] b in fastforce)+
  moreover have "read_bytes ?m1 (buf + of_nat w) ?T = read_bytes m (buf + of_nat w) ?T"
    by (rule buffer_kept [OF blk(2)]) (use ub buf sf(7) b in auto)
  ultimately have "contents m' (b # bl) = take i (read_bytes m (of_nat b) 4096) @ ?xs @ drop (i + w) (read_bytes m (of_nat b) 4096)
      @ read_bytes m (buf + of_nat w) ?T @ drop ?T (contents m bl)"
    using m'(2) blk(1) by simp
  also have "\<dots> = take i D @ read_bytes m buf M @ drop (i + M) D"
  proof (cases "w = k")
    case True
    then show ?thesis using sf(1,4,7) M D by (simp add: tail_bytes_simps(1))
  next
    case False
    then have "i + w = 4096" using sf(1,12) by auto
    moreover have "i + M - 4096 = ?T" using \<open>i + w = 4096\<close> M sf(7) by simp
    ultimately show ?thesis using sf(1,7) M D read_bytes_add [of m buf w ?T] by simp
  qed
  finally have c: "contents m' (b # bl) = take i D @ read_bytes m buf M @ drop (i + M) D" .
  have "keeps UNIV (data_of (b # bl)) m m'" using keeps_trans [OF blk(2) m'(3), of UNIV] by simp
  moreover have eq: "(of_nat b + of_nat i :: addr) = of_nat (b + i)" by simp
  have "write_blocks (of_nat b) (pos + ucast (first_slice pos n)) (ucast pos + n) (buf + first_slice pos n) n
      (s\<lparr>ram := memcpy m (of_nat b + ucast (pos mod TMPFS_BLK_SIZE)) buf (first_slice pos n)\<rparr>) = Some (s\<lparr>ram := m'\<rparr>)"
    unfolding sf(5) sf(8) sf(9) sf(10) eq cp by (rule m'(1))
  ultimately show ?thesis using c by blast
qed

lemma header_apart:
  assumes "file_at (live heap_start bs) m f bl sz" "b \<in> set bl"
  shows "b + 4100 \<le> f \<or> f + 40 \<le> b"
proof -
  from assms(1) obtain n tl where n: "(f, n) \<in> live heap_start bs" "4140 \<le> n" and bl: "bl = (f + 40) # tl"
    "\<forall>b \<in> set tl. \<exists>n. (b, n) \<in> live heap_start bs \<and> 4100 \<le> n" "distinct (f # tl)" by (auto simp: file_at_def)
  show ?thesis
  proof (cases "b \<in> set tl")
    case True
    then obtain k where k: "(b, k) \<in> live heap_start bs" "4100 \<le> k" using bl(2) by blast
    have "b \<noteq> f" using True bl(3) by auto
    then show ?thesis using live_disjoint [OF n(1) k(1)] n(2) k(2) by auto
  qed (use assms(2) bl(1) in simp)
qed

lemma header_data: "file_at (live heap_start bs) m f bl sz \<Longrightarrow> data_of bl \<inter> {f ..< f + 40} = {}"
  using header_apart [of bs m f bl sz] unfolding data_of_def by fastforce

lemma block_region:
  assumes "file_at (live heap_start bs) m f bl sz" "b \<in> set bl"
  shows "\<exists>a n. (a, n) \<in> live heap_start bs \<and> a \<le> b \<and> b + 4100 \<le> a + n"
proof -
  from assms(1) obtain n tl where n: "(f, n) \<in> live heap_start bs" "4140 \<le> n" and bl: "bl = (f + 40) # tl"
    "\<forall>b \<in> set tl. \<exists>n. (b, n) \<in> live heap_start bs \<and> 4100 \<le> n" by (auto simp: file_at_def)
  show ?thesis
  proof (cases "b \<in> set tl")
    case True
    then obtain k where "(b, k) \<in> live heap_start bs" "4100 \<le> k" using bl(2) by blast
    then show ?thesis by (intro exI [of _ b] exI [of _ k]) simp
  next
    case False
    then show ?thesis using assms(2) bl(1) n by (intro exI [of _ f] exI [of _ n]) simp
  qed
qed

lemma file_region:
  assumes "file_at (live heap_start bs) m f bl sz"
  shows "x \<in> {f + 28 ..< f + 36} \<union> data_of bl \<Longrightarrow> \<exists>a n. (a, n) \<in> live heap_start bs \<and> a \<le> x \<and> x < a + n"
proof -
  assume x: "x \<in> {f + 28 ..< f + 36} \<union> data_of bl"
  show ?thesis
  proof (cases "x \<in> data_of bl")
    case True
    then obtain b where "b \<in> set bl" "b \<le> x" "x < b + 4096" by (auto simp: data_of_def)
    with block_region [OF assms this(1)] show ?thesis by fastforce
  next
    case False
    moreover obtain n where "(f, n) \<in> live heap_start bs" "4140 \<le> n" using assms by (auto simp: file_at_def)
    ultimately show ?thesis using x by (intro exI [of _ f] exI [of _ n]) simp
  qed
qed

text \<open>Writing the size.\<close>

lemma size_written:
  assumes "f + 40 \<le> heap_limit" "m' = wr32 (wr32 m (of_nat f + 28) (ucast v)) (of_nat f + 32) (ucast (drop_bit 32 v))"
  shows "rd64 m' (of_nat f + 28) = v" "keeps L {f + 28 ..< f + 36} m m'"
proof -
  have split: "ucast (ucast v :: u32) OR push_bit 32 (ucast (ucast (drop_bit 32 v) :: u32)) = (v :: u64)"
    by (rule bit_eqI) (auto simp: bit_simps)
  show "rd64 m' (of_nat f + 28) = v" unfolding assms(2) using split by (simp add: rd64_size)
  have "keeps L {f + 28 ..< f + 32} m (wr32 m (of_nat f + 28) (ucast v))"
    using wr32_keeps [of "f + 28" L m] assms(1) by (simp add: add.commute)
  moreover have "keeps L {f + 32 ..< f + 36} m1 (wr32 m1 (of_nat f + 32) (ucast (drop_bit 32 v)))" for m1
    using wr32_keeps [of "f + 32" L m1] assms(1) by (simp add: add.commute)
  ultimately show "keeps L {f + 28 ..< f + 36} m m'" unfolding assms(2)
    by (rule keeps_mono [OF keeps_trans [OF _ _ subset_refl]]) auto
qed

lemma file_resized:
  assumes hp: "heap_is s bs" and f: "file_at (live heap_start bs) m f bl sz" and n: "n \<le> 4096 * length bl"
    and m': "m' = wr32 (wr32 m (of_nat f + 28) (ucast (of_nat n :: u64))) (of_nat f + 32) (ucast (drop_bit 32 (of_nat n :: u64)))"
  shows "file_at (live heap_start bs) m' f bl n" "contents m' bl = contents m bl"
proof -
  have l: "f + 40 \<le> heap_limit" using file_fields(4) [OF hp f] by simp
  note w = size_written [OF l m']
  note ok = file_blocks [OF hp f]
  have "chain m' bl = chain m bl"
    by (rule chain_keeps [OF w(2) ok]) (use header_apart [OF f] in fastforce)
  then show "file_at (live heap_start bs) m' f bl n" using f w(1) n by (simp add: file_at_def)
  show "contents m' bl = contents m bl"
    by (rule contents_keeps [OF w(2) ok]) (use header_apart [OF f] in fastforce)
qed

text \<open>A write of \<open>k\<close> bytes into the blocks of the file.\<close>

lemma write_within:
  assumes hp: "heap_is s bs" and f: "file_at (live heap_start bs) (ram s) f bl sz" and l: "4096 * length bl < 4294967296"
    and k: "unat n = k" "0 < k" "unat pos + k \<le> 4096 * length bl" and buf: "unat buf + moved (unat pos) k \<le> heap_start"
    and C: "C = contents (ram s) bl" and M: "M = moved (unat pos) k"
  shows "\<exists>blk m. find_blk (of_nat f) pos s = Some blk \<and> blk \<noteq> NULL
    \<and> write_blocks blk (pos + ucast (first_slice pos n)) (ucast pos + n) (buf + first_slice pos n) n
        (s\<lparr>ram := memcpy (ram s) (blk + ucast (pos mod TMPFS_BLK_SIZE)) buf (first_slice pos n)\<rparr>) = Some (s\<lparr>ram := m\<rparr>)
    \<and> contents m bl = take (unat pos) C @ read_bytes (ram s) buf M @ drop (unat pos + M) C
    \<and> keeps UNIV (data_of bl) (ram s) m"
proof -
  define j where "j = unat pos div 4096"
  define i where "i = unat pos mod 4096"
  have ji: "unat pos = 4096 * j + i" "i < 4096" by (simp_all add: i_def j_def)
  have j: "j < length bl" using k(2,3) ji by simp
  let ?pre = "take j bl" and ?b = "bl ! j" and ?rest = "drop (Suc j) bl"
  have ok: "blocks_ok s bl" by (rule file_blocks [OF hp f])
  have rest: "drop j bl = ?b # ?rest" using j by (simp add: Cons_nth_drop_Suc)
  then have bl: "bl = ?pre @ ?b # ?rest" by (metis append_take_drop_id)
  have ch: "chain (ram s) (?b # ?rest)" "blocks_ok s (?b # ?rest)"
    using chain_drop [of "ram s" bl j] blocks_ok_drop [OF ok, of j] f unfolding rest by (simp_all add: file_at_def)
  have p: "unat pos mod 4096 + k \<le> 4096 * Suc (length ?rest)" using k(3) j ji unfolding i_def [symmetric] by simp
  have lim: "unat pos + k < 4294967296" using k(3) l by simp
  let ?D = "read_bytes (ram s) (of_nat ?b) 4096 @ contents (ram s) ?rest"
  from write_from_block [OF ch p k(1,2) lim buf i_def M refl] obtain m where
    m: "write_blocks (of_nat ?b) (pos + ucast (first_slice pos n)) (ucast pos + n) (buf + first_slice pos n) n
        (s\<lparr>ram := memcpy (ram s) (of_nat ?b + ucast (pos mod TMPFS_BLK_SIZE)) buf (first_slice pos n)\<rparr>) = Some (s\<lparr>ram := m\<rparr>)"
      "contents m (?b # ?rest) = take i ?D @ read_bytes (ram s) buf M @ drop (i + M) ?D" "keeps UNIV (data_of (?b # ?rest)) (ram s) m"
    by blast
  have pre: "contents m ?pre = contents (ram s) ?pre"
  proof (rule contents_keeps [OF m(3)])
    show "blocks_ok s ?pre" using ok by (auto simp: blocks_ok_def dest: in_set_takeD)
    show "data_of (?b # ?rest) \<inter> {c ..< c + 4096} = {}" if c: "c \<in> set ?pre" for c
    proof -
      have "c + 4100 \<le> b \<or> b + 4100 \<le> c" if b: "b \<in> set (?b # ?rest)" for b
      proof -
        have "distinct (?pre @ ?b # ?rest)" "set (?pre @ ?b # ?rest) = set bl" using ok bl by (simp_all add: blocks_ok_def)
        then have "c \<noteq> b" "c \<in> set bl" "b \<in> set bl" using b c by auto
        then show ?thesis using ok by (simp add: blocks_ok_def)
      qed
      then show ?thesis unfolding data_of_def by fastforce
    qed
  qed
  have split: "contents m' bl = contents m' ?pre @ contents m' (?b # ?rest)" for m'
    using contents_append [of m' ?pre "?b # ?rest"] bl by simp
  have len: "length (contents (ram s) ?pre) = 4096 * j" using j by simp
  have "C = contents (ram s) ?pre @ ?D" using split [of "ram s"] C by simp
  then have "take (unat pos) C = contents (ram s) ?pre @ take i ?D" "drop (unat pos + M) C = drop (i + M) ?D"
    using len ji by (simp_all del: length_contents)
  then have "contents m bl = take (unat pos) C @ read_bytes (ram s) buf M @ drop (unat pos + M) C"
    unfolding split [of m] pre m(2) by simp
  moreover have "data_of (?b # ?rest) \<subseteq> data_of bl"
    unfolding data_of_def using bl by (metis UN_mono in_set_conv_decomp set_append subset_refl sup_ge2)
  then have "keeps UNIV (data_of bl) (ram s) m" by (rule keeps_mono [OF m(3) subset_refl])
  moreover have "find_blk (of_nat f) pos s = Some (of_nat ?b)" using find_blk_spec [OF hp f l, of pos] j by (simp add: j_def)
  moreover have "(of_nat ?b :: addr) \<noteq> NULL" by (rule block_not_null [OF ok]) (use j in simp)
  ultimately show ?thesis using m(1) by blast
qed

text \<open>The size after a write that ends at \<open>e\<close>.\<close>

lemma new_size:
  fixes pos :: u64
  assumes "sz < 4294967296" "unat pos + unat n < 4294967296"
  shows "(if ucast (ucast pos + n :: u32) < (of_nat sz :: u64) then of_nat sz else ucast (ucast pos + n :: u32))
    = (of_nat (max sz (unat pos + unat n)) :: u64)"
proof -
  have "ucast pos + n = (of_nat (unat pos + unat n) :: u32)" by simp
  then have "unat (ucast pos + n :: u32) = unat pos + unat n" using assms(2) by (simp only: unat_of_nat32)
  then have e: "ucast (ucast pos + n :: u32) = (of_nat (unat pos + unat n) :: u64)" by (metis of_nat_unat)
  have u: "unat (of_nat (unat pos + unat n) :: u64) = unat pos + unat n" "unat (of_nat sz :: u64) = sz"
    by (rule unat_of_nat64; use assms in simp)+
  have "(of_nat (unat pos + unat n) :: u64) < of_nat sz \<longleftrightarrow> unat pos + unat n < sz" by (simp only: word_less_nat_alt u)
  then show ?thesis unfolding e by (auto simp: max_def)
qed

lemma write_file:
  assumes hp: "heap_is s bs" and f: "file_at (live heap_start bs) (ram s) f bl sz"
    and ty: "rd16 (ram s) (of_nat f + 2) AND IT_TYPE = IT_REG" and l: "4096 * length bl < 4294967296"
    and k: "unat pos + unat n \<le> 4096 * length bl" and M: "M = moved (unat pos) (unat n)"
    and buf: "unat buf + M \<le> heap_start" and C: "C = contents (ram s) bl"
    and n: "n \<noteq> 0"
  shows "\<exists>m. tmpfs_write cdrv bdrv (of_nat f) pos buf n s = Some (to_int n, s\<lparr>ram := m\<rparr>)
        \<and> heap_is (s\<lparr>ram := m\<rparr>) bs \<and> file_at (live heap_start bs) m f bl (max sz (unat pos + unat n))
        \<and> contents m bl = take (unat pos) C @ read_bytes (ram s) buf M @ drop (unat pos + M) C
        \<and> keeps UNIV ({f + 28 ..< f + 36} \<union> data_of bl) (ram s) m"
proof -
  note ff = file_fields [OF hp f]
  have ty': "inode_type (of_nat f) s = Some IT_REG" using ff ty by (simp add: inode_type_def put_mapped add.commute)
  from n have n0: "0 < unat n" by (simp add: unat_gt_0)
  from write_within [OF hp f l refl n0 k buf [unfolded M] C M] obtain blk m1 where
    w: "find_blk (of_nat f) pos s = Some blk" "blk \<noteq> NULL"
      "write_blocks blk (pos + ucast (first_slice pos n)) (ucast pos + n) (buf + first_slice pos n) n
        (s\<lparr>ram := memcpy (ram s) (blk + ucast (pos mod TMPFS_BLK_SIZE)) buf (first_slice pos n)\<rparr>) = Some (s\<lparr>ram := m1\<rparr>)"
      "contents m1 bl = take (unat pos) C @ read_bytes (ram s) buf M @ drop (unat pos + M) C"
      "keeps UNIV (data_of bl) (ram s) m1" by blast
  have sz: "sz \<le> 4096 * length bl" "sz < 4294967296" using f l by (simp_all add: file_at_def)
  have hdr: "agree f (f + 40) (ram s) m1" by (rule UNIV_agree [OF w(5) header_data [OF f]]) (use ff(4) in simp)
  have "rd64 m1 (of_nat f + 28) = of_nat sz"
    using f read_agree(1) [OF hdr, of "f + 28"] read_agree(1) [OF hdr, of "f + 32"] by (simp add: file_at_def rd64_size)
  then have get: "get64 (of_nat f + 28) (s\<lparr>ram := m1\<rparr>) = Some (of_nat sz)" using ff(2,3) by (simp add: put_mapped add.commute)
  note ok = file_blocks [OF hp f]
  have chn: "chain m1 bl = chain (ram s) bl" by (rule chain_keeps [OF w(5) ok]) (rule data_links [OF ok])
  have f1: "file_at (live heap_start bs) m1 f bl sz" using f chn \<open>rd64 m1 (of_nat f + 28) = of_nat sz\<close> by (simp add: file_at_def)
  let ?e = "max sz (unat pos + unat n)"
  define m where "m = wr32 (wr32 m1 (of_nat f + 28) (ucast (of_nat ?e :: u64))) (of_nat f + 32) (ucast (drop_bit 32 (of_nat ?e :: u64)))"
  have e: "?e \<le> 4096 * length bl" using sz(1) k by simp
  note res = file_resized [OF hp f1 e m_def]
  have "keeps UNIV (data_of bl \<union> {f + 28 ..< f + 36}) (ram s) m"
    by (rule keeps_trans [OF w(5) size_written(2) subset_refl]) (use ff(4) m_def in simp_all)
  then have kp: "keeps UNIV ({f + 28 ..< f + 36} \<union> data_of bl) (ram s) m" by (simp add: Un_commute)
  have hp': "heap_is (s\<lparr>ram := m\<rparr>) bs" by (rule regions_write [OF hp kp]) (use file_region [OF f] in blast)
  have ns: "(if ucast (ucast pos + n :: u32) < (of_nat sz :: u64) then of_nat sz else ucast (ucast pos + n :: u32)) = (of_nat ?e :: u64)"
    by (rule new_size) (use sz l k in simp_all)
  have put: "put64 (of_nat f + 28) (of_nat ?e) (s\<lparr>ram := m1\<rparr>) = Some (s\<lparr>ram := m\<rparr>)"
    using ff(2,3) by (simp add: put64_fields put_mapped m_def)
  have "tmpfs_write cdrv bdrv (of_nat f) pos buf n s = Some (to_int n, s\<lparr>ram := m\<rparr>)"
    using n w(1-3) unfolding tmpfs_write_def ty' write_reg_def Let_def
    by (simp add: get ns put)
  then show ?thesis using hp' res w(4) kp by auto
qed

lemma inode_kept:
  assumes hp: "heap_is s bs" and f: "file_at (live heap_start bs) (ram s) f bl sz"
    and k: "keeps UNIV ({f + 28 ..< f + 36} \<union> data_of bl) (ram s) m"
  shows "agree f (f + 28) (ram s) m"
  by (rule UNIV_agree [OF k]) (use header_data [OF f] file_fields(4) [OF hp f] in fastforce)+

section \<open>Properties of files\<close>



text \<open>
  C15. What is written can be read back: for a write within the blocks of a file, a read of the same
  position and length returns that length, and its buffer holds the bytes that were written.
\<close>

theorem tmpfs_write_read:
  assumes hp: "heap_is s bs" and f: "file_at (live heap_start bs) (ram s) f bl sz"
    and ty: "rd16 (ram s) (of_nat f + 2) AND IT_TYPE = IT_REG" and l: "4096 * length bl < 4294967296"
    and n: "n \<noteq> 0" and k: "unat pos + unat n \<le> 4096 * length bl"
    and buf: "unat buf + moved (unat pos) (unat n) \<le> heap_start"
    and buf2: "unat buf2 + moved (unat pos) (unat n) \<le> heap_start"
  shows "\<exists>s1 s2. tmpfs_write cdrv bdrv (of_nat f) pos buf n s = Some (to_int n, s1)
    \<and> tmpfs_read cdrv bdrv (of_nat f) pos buf2 n s1 = Some (to_int n, s2)
    \<and> read_bytes (ram s2) buf2 (unat n) = read_bytes (ram s) buf (unat n)"
proof -
  let ?M = "moved (unat pos) (unat n)"
  let ?C = "contents (ram s) bl"
  have n0: "0 < unat n" using n by (simp add: unat_gt_0)
  from write_file [OF hp f ty l k refl buf refl n] obtain m where
    m: "tmpfs_write cdrv bdrv (of_nat f) pos buf n s = Some (to_int n, s\<lparr>ram := m\<rparr>)" "heap_is (s\<lparr>ram := m\<rparr>) bs"
      "file_at (live heap_start bs) m f bl (max sz (unat pos + unat n))"
      "contents m bl = take (unat pos) ?C @ read_bytes (ram s) buf ?M @ drop (unat pos + ?M) ?C"
      "keeps UNIV ({f + 28 ..< f + 36} \<union> data_of bl) (ram s) m" by blast
  have "rd16 m (of_nat f + 2) = rd16 (ram s) (of_nat f + 2)"
    using read_agree(2) [OF inode_kept [OF hp f m(5)], of "f + 2"] by (simp add: add.commute)
  then have ty': "rd16 (ram (s\<lparr>ram := m\<rparr>)) (of_nat f + 2) AND IT_TYPE = IT_REG" using ty by simp
  have f': "file_at (live heap_start bs) (ram (s\<lparr>ram := m\<rparr>)) f bl (max sz (unat pos + unat n))" using m(3) by simp
  have k': "unat n = min (unat n) (max sz (unat pos + unat n) - unat pos)" by linarith
  have "take ?M (drop (unat pos) (contents m bl)) = read_bytes (ram s) buf ?M"
    using k by (simp add: m(4))
  then have "tmpfs_read cdrv bdrv (of_nat f) pos buf2 n (s\<lparr>ram := m\<rparr>)
      = Some (to_int n, s\<lparr>ram := write_bytes m buf2 (read_bytes (ram s) buf ?M)\<rparr>)"
    using read_file [OF m(2) f' ty' l k' buf2] n0 by simp
  moreover have "read_bytes (write_bytes m buf2 (read_bytes (ram s) buf ?M)) buf2 (unat n) = read_bytes (ram s) buf (unat n)"
  proof -
    have "read_bytes (write_bytes m buf2 (read_bytes (ram s) buf ?M)) buf2 (length (read_bytes (ram s) buf ?M)) = read_bytes (ram s) buf ?M"
      by (rule read_write_bytes) (use buf2 in simp)
    then have "take (unat n) (read_bytes (write_bytes m buf2 (read_bytes (ram s) buf ?M)) buf2 ?M)
        = take (unat n) (read_bytes (ram s) buf ?M)" by simp
    then show ?thesis using moved_ge [of "unat n" "unat pos"] by (simp add: take_read_bytes)
  qed
  ultimately show ?thesis using m(1) by auto
qed


section \<open>Growing\<close>

lemma chain_snoc:
  assumes "chain m bl" "bl \<noteq> []" "distinct bl" "\<And>b. b \<in> set bl \<Longrightarrow> b \<noteq> last bl \<Longrightarrow> rd32 m' (of_nat b + 4096) = rd32 m (of_nat b + 4096)"
    and "rd32 m' (of_nat (last bl) + 4096) = of_nat a" "rd32 m' (of_nat a + 4096) = NULL"
  shows "chain m' (bl @ [a])"
  using assms
proof (induction bl)
  case (Cons b bl)
  show ?case
  proof (cases "bl = []")
    case False
    then have "chain m' (bl @ [a])" using Cons by simp
    moreover have "b \<noteq> last bl" using Cons.prems(3) last_in_set [OF False] by auto
    ultimately show ?thesis using Cons.prems(1) Cons.prems(4) [of b] False by (cases bl) simp_all
  qed (use Cons.prems in simp)
qed simp

text \<open>The new block, zeroed and linked behind the last one.\<close>

lemma new_block:
  assumes m2: "m2 = wr32 m1 (of_nat e + 4096) (of_nat a)" and m4: "m4 = wr32 (memset m2 (of_nat a) 0 TMPFS_BLK_SIZE) (of_nat a + 4096) NULL"
    and lim: "e + 4100 \<le> heap_limit" "a + 4100 \<le> heap_limit" "e + 4100 \<le> a \<or> a + 4100 \<le> e + 4096"
  shows "keeps UNIV {e + 4096 ..< e + 4100} m1 m2" "keeps UNIV {a ..< a + 4100} m2 m4"
    "rd32 m4 (of_nat e + 4096) = of_nat a" "rd32 m4 (of_nat a + 4096) = NULL" "contents m4 [a] = replicate 4096 0"
proof -
  let ?m3 = "memset m2 (of_nat a) 0 TMPFS_BLK_SIZE"
  show "keeps UNIV {e + 4096 ..< e + 4100} m1 m2"
    unfolding m2 using wr32_keeps [of "e + 4096" UNIV m1 "of_nat a"] lim by (simp add: add.commute)
  have k3: "keeps UNIV {a ..< a + 4096} m2 ?m3" using memset_keeps [of a "4096 :: u32" UNIV m2 0] lim by simp
  have k4: "keeps UNIV {a + 4096 ..< a + 4100} ?m3 m4"
    unfolding m4 using wr32_keeps [of "a + 4096" UNIV ?m3 NULL] lim by (simp add: add.commute)
  show k: "keeps UNIV {a ..< a + 4100} m2 m4" by (rule keeps_mono [OF keeps_trans [OF k3 k4 subset_refl]]) auto
  have "agree (e + 4096) (e + 4100) m2 m4" by (rule UNIV_agree [OF k]) (use lim in auto)
  from read_agree(1) [OF this, of "e + 4096"] show "rd32 m4 (of_nat e + 4096) = of_nat a" by (simp add: m2)
  show "rd32 m4 (of_nat a + 4096) = NULL" by (simp add: m4)
  have "agree a (a + 4096) ?m3 m4" by (rule UNIV_agree [OF k4]) (use lim in auto)
  from read_bytes_agree [OF this] memset_zeros [of m2 a] show "contents m4 [a] = replicate 4096 0" by simp
qed

lemma contents_agree: "(\<And>b. b \<in> set bl \<Longrightarrow> agree b (b + 4096) m m') \<Longrightarrow> contents m' bl = contents m bl"
  by (induction bl) (simp_all add: read_bytes_agree)

text \<open>Allocating and linking touches no block but the link of the last one.\<close>

lemma blocks_kept:
  assumes hp: "heap_is s bs" and f: "file_at (live heap_start bs) (ram s) f bl sz"
    and kp: "keeps (live heap_start bs) {last bl + 4096 ..< last bl + 4100} (ram s) m"
  shows "b \<in> set bl \<Longrightarrow> agree b (b + 4096) (ram s) m" "b \<in> set bl \<Longrightarrow> b \<noteq> last bl \<Longrightarrow> agree b (b + 4100) (ram s) m"
    "agree f (f + 40) (ram s) m"
proof -
  let ?L = "live heap_start bs" and ?e = "last bl"
  note ok = file_blocks [OF hp f]
  have e: "?e \<in> set bl" using file_fields(7) [OF hp f] by simp
  from f obtain n where n: "(f, n) \<in> ?L" "4140 \<le> n" by (auto simp: file_at_def)
  show "agree f (f + 40) (ram s) m"
    by (rule keeps_region [OF kp n(1)]) (use n header_apart [OF f e] file_fields(4) [OF hp f] in auto)
  assume b: "b \<in> set bl"
  from block_region [OF f b] obtain r k where r: "(r, k) \<in> ?L" "r \<le> b" "b + 4100 \<le> r + k" by blast
  have cov: "covered ?L x" if "b \<le> x" "x < b + 4100" for x using r that by (fastforce simp: covered_def)
  have lim: "b + 4100 \<le> heap_limit" using ok b by (auto simp: blocks_ok_def)
  have d: "b \<noteq> ?e \<Longrightarrow> b + 4100 \<le> ?e \<or> ?e + 4100 \<le> b" using ok b e by (auto simp: blocks_ok_def)
  show "agree b (b + 4096) (ram s) m" by (rule keeps_agree [OF kp]) (use cov lim d in fastforce)+
  show "b \<noteq> ?e \<Longrightarrow> agree b (b + 4100) (ram s) m" by (rule keeps_agree [OF kp]) (use cov lim d in fastforce)+
qed

lemma append_block:
  assumes hp: "heap_is s bs" and f: "file_at (live heap_start bs) (ram s) f bl sz"
    and hp1: "heap_is (s\<lparr>ram := m1\<rparr>) bs1" "live heap_start bs1 = insert (a, na) (live heap_start bs)" "4112 \<le> na"
    and k: "keeps (live heap_start bs) {} (ram s) m1"
    and apart: "\<And>b j. (b, j) \<in> live heap_start bs \<Longrightarrow> b + j + 16 \<le> a \<or> a + na + 16 \<le> b"
    and m2: "m2 = wr32 m1 (of_nat (last bl) + 4096) (of_nat a)"
    and m: "m = wr32 (memset m2 (of_nat a) 0 TMPFS_BLK_SIZE) (of_nat a + 4096) NULL"
  shows "heap_is (s\<lparr>ram := m\<rparr>) bs1" "file_at (live heap_start bs1) m f (bl @ [a]) sz"
    "contents m (bl @ [a]) = contents (ram s) bl @ replicate 4096 0"
    "keeps (live heap_start bs) {last bl + 4096 ..< last bl + 4100} (ram s) m"
proof -
  let ?L = "live heap_start bs" and ?e = "last bl"
  note ok = file_blocks [OF hp f]
  have ne: "bl \<noteq> []" and e: "?e \<in> set bl" using file_fields(7) [OF hp f] by simp_all
  have al: "(a, na) \<in> live heap_start bs1" using hp1(2) by simp
  have lim: "?e + 4100 \<le> heap_limit" "heap_start \<le> a" "a + na \<le> heap_limit" "a + 4100 \<le> heap_limit"
    using ok e live_in_heap(1,2) [OF hp1(1) al] hp1(3) by (auto simp: blocks_ok_def)
  have ap: "b + 4100 \<le> a \<or> a + na \<le> b" if "b \<in> set bl" for b
    using block_region [OF f that] apart by fastforce
  then have "?e + 4100 \<le> a \<or> a + 4100 \<le> ?e + 4096" using ap [OF e] hp1(3) by auto
  note nb = new_block [OF m2 m lim(1,4) this]
  have "keeps ?L {} m2 m" by (rule fresh_writes [OF nb(2)]) (use lim hp1(3) apart in fastforce)+
  from keeps_trans [OF keeps_trans [OF k keeps_mono [OF nb(1), of ?L] subset_refl] this subset_refl]
  show kp: "keeps ?L {?e + 4096 ..< ?e + 4100} (ram s) m" by simp
  have "keeps UNIV ({?e + 4096 ..< ?e + 4100} \<union> {a ..< a + 4100}) (ram (s\<lparr>ram := m1\<rparr>)) m"
    using keeps_trans [OF nb(1,2) subset_refl] by simp
  from regions_write [OF hp1(1) this] show "heap_is (s\<lparr>ram := m\<rparr>) bs1"
    using block_region [OF f e] al hp1(2,3) by fastforce
  note bk = blocks_kept [OF hp f kp]
  have "contents m bl = contents (ram s) bl" using contents_agree [of bl "ram s" m] bk(1) by blast
  then show "contents m (bl @ [a]) = contents (ram s) bl @ replicate 4096 0" using nb(5) by (simp add: contents_append)
  have "rd64 m (of_nat f + 28) = of_nat sz"
    using f read_agree(1) [OF bk(3), of "f + 28"] read_agree(1) [OF bk(3), of "f + 32"] by (simp add: file_at_def rd64_size)
  moreover have "chain m (bl @ [a])"
  proof (rule chain_snoc)
    show "chain (ram s) bl" using f by (simp add: file_at_def)
    show "distinct bl" using ok by (simp add: blocks_ok_def)
    show "rd32 m (of_nat b + 4096) = rd32 (ram s) (of_nat b + 4096)" if "b \<in> set bl" "b \<noteq> last bl" for b
      using read_agree(1) [OF bk(2) [OF that], of "b + 4096"] by simp
  qed (use ne nb(3,4) in simp_all)
  moreover have "a \<notin> set (f # tl)" if "bl = (f + 40) # tl" for tl
  proof -
    from f obtain n where "(f, n) \<in> ?L" "4140 \<le> n" by (auto simp: file_at_def)
    then have "a \<noteq> f" using apart [of f n] by auto
    moreover have "a \<notin> set tl" using ap [of a] that hp1(3) by auto
    ultimately show ?thesis by simp
  qed
  ultimately show "file_at (live heap_start bs1) m f (bl @ [a]) sz"
    using f hp1(2,3) unfolding file_at_def by fastforce
qed

lemma grow:
  assumes hp: "heap_is s bs" and f: "file_at (live heap_start bs) (ram s) f bl sz"
    and ty: "rd16 (ram s) (of_nat f + 2) AND IT_TYPE = IT_REG" and l: "4096 * Suc (length bl) < 4294967296"
    and n: "n \<noteq> 0" and pos: "unat pos = 4096 * length bl" and pl: "plenty 4144 bs"
  shows "\<exists>b m bs'. tmpfs_write cdrv bdrv (of_nat f) pos buf n s = tmpfs_write cdrv bdrv (of_nat f) pos buf n (s\<lparr>ram := m\<rparr>)
    \<and> heap_is (s\<lparr>ram := m\<rparr>) bs' \<and> live heap_start bs \<subseteq> live heap_start bs'
    \<and> file_at (live heap_start bs') m f (bl @ [b]) sz \<and> rd16 m (of_nat f + 2) AND IT_TYPE = IT_REG
    \<and> contents m (bl @ [b]) = contents (ram s) bl @ replicate 4096 0
    \<and> keeps (live heap_start bs) {last bl + 4096 ..< last bl + 4100} (ram s) m"
proof -
  let ?L = "live heap_start bs" and ?e = "last bl"
  note ff = file_fields [OF hp f]
  have e: "virt_mapped (of_nat ?e + 4096) s" using file_blocks [OF hp f] ff(7) by (auto simp: blocks_ok_def)
  have pl': "plenty (round16 (unat (4100 :: u32)) + 16 + 16) bs" using pl by (simp add: round16_def)
  have sd: "unat (4100 :: u32) + 15 < 4294967296" "(16::nat) \<le> 16" by simp_all
  obtain a na m1 bs1 where o: "malloc 4100 s = Some (of_nat a, s\<lparr>ram := m1\<rparr>)" "heap_is (s\<lparr>ram := m1\<rparr>) bs1"
    "live heap_start bs1 = insert (a, na) ?L" "round16 (unat (4100 :: u32)) \<le> na" "plenty 16 bs1" "keeps ?L {} (ram s) m1"
    "\<And>b j. (b, j) \<in> ?L \<Longrightarrow> b + j + 16 \<le> a \<or> a + na + 16 \<le> b"
    by (rule malloc_plenty [OF hp sd(1) pl' sd(2)]) (rule that)
  have na: "4112 \<le> na" using o(4) by (simp add: round16_def)
  define m2 where "m2 = wr32 m1 (of_nat ?e + 4096) (of_nat a)"
  define m where "m = wr32 (memset m2 (of_nat a) 0 TMPFS_BLK_SIZE) (of_nat a + 4096) NULL"
  note ab = append_block [OF hp f o(2,3) na o(6,7) m2_def m_def]
  have al: "(a, na) \<in> live heap_start bs1" using o(3) by simp
  have aa: "heap_start \<le> a" "a + na \<le> heap_limit" "virt_mapped (of_nat a + 4096) s"
    using live_in_heap(1,2) [OF o(2) al] region_mapped [OF o(2) al, of 4096] na by simp_all
  have ty': "rd16 m (of_nat f + 2) AND IT_TYPE = IT_REG"
    using ty read_agree(2) [OF blocks_kept(3) [OF hp f ab(4)], of "f + 2"] by (simp add: add.commute)
  have types: "inode_type (of_nat f) s = Some IT_REG" "inode_type (of_nat f) (s\<lparr>ram := m\<rparr>) = Some IT_REG"
    using ff(1) ty ty' by (simp_all add: inode_type_def put_mapped add.commute)
  have p1: "pos \<noteq> 0" using pos ff(7) by (intro notI) simp
  have dv: "unat pos div 4096 = length bl" "unat (pos - 1) div 4096 = length bl - 1"
    using pos unat_minus_one [OF p1] ff(7) by (auto simp: neq_Nil_conv)
  have "4096 * length bl < 4294967296" "4096 * length (bl @ [a]) < 4294967296" using l by simp_all
  then have fb: "find_blk (of_nat f) pos s = Some NULL" "find_blk (of_nat f) (pos - 1) s = Some (of_nat ?e)"
    "find_blk (of_nat f) pos (s\<lparr>ram := m\<rparr>) = Some (of_nat a)"
    using find_blk_spec [OF hp f] find_blk_spec [OF ab(1), of f "bl @ [a]" sz pos] ab(2) dv ff(7)
    by (simp_all add: last_conv_nth)
  have put: "put32 (of_nat ?e + 4096) (of_nat a) (s\<lparr>ram := m1\<rparr>) = Some (s\<lparr>ram := m2\<rparr>)"
    "get32 (of_nat ?e + 4096) (s\<lparr>ram := m2\<rparr>) = Some (of_nat a)"
    "put32 (of_nat a + 4096) NULL (s\<lparr>ram := memset m2 (of_nat a) 0 TMPFS_BLK_SIZE\<rparr>) = Some (s\<lparr>ram := m\<rparr>)"
    using e aa(3) by (simp_all add: put_mapped m_def m2_def)
  have "(of_nat a :: addr) \<noteq> NULL" using aa of_nat_neq [of a 0] by simp
  then have "tmpfs_write cdrv bdrv (of_nat f) pos buf n s = tmpfs_write cdrv bdrv (of_nat f) pos buf n (s\<lparr>ram := m\<rparr>)"
    using n by (simp add: tmpfs_write_def types write_reg_def fb o(1) put)
  then show ?thesis using ab ty' o(3) by blast
qed

text \<open>
  A write that starts where the last block of a file ends appends a block: for at most a block of
  bytes and with enough free memory, the write returns the length, the contents grow by a block that
  holds the bytes written and zeros after them, and the size becomes the end of the write.
\<close>

theorem tmpfs_write_extends:
  assumes hp: "heap_is s bs" and f: "file_at (live heap_start bs) (ram s) f bl sz"
    and ty: "rd16 (ram s) (of_nat f + 2) AND IT_TYPE = IT_REG" and l: "4096 * Suc (length bl) < 4294967296"
    and n: "n \<noteq> 0" "unat n \<le> 4096" and pos: "unat pos = 4096 * length bl" and pl: "plenty 4144 bs"
    and buf: "unat buf + unat n \<le> heap_start"
  shows "\<exists>b m bs'. tmpfs_write cdrv bdrv (of_nat f) pos buf n s = Some (to_int n, s\<lparr>ram := m\<rparr>)
    \<and> heap_is (s\<lparr>ram := m\<rparr>) bs' \<and> live heap_start bs \<subseteq> live heap_start bs'
    \<and> file_at (live heap_start bs') m f (bl @ [b]) (unat pos + unat n)
    \<and> contents m (bl @ [b]) = contents (ram s) bl @ read_bytes (ram s) buf (unat n) @ replicate (4096 - unat n) 0"
proof -
  from grow [OF hp f ty l n(1) pos pl] obtain b m1 bs' where
    g: "tmpfs_write cdrv bdrv (of_nat f) pos buf n s = tmpfs_write cdrv bdrv (of_nat f) pos buf n (s\<lparr>ram := m1\<rparr>)"
      "heap_is (s\<lparr>ram := m1\<rparr>) bs'" "live heap_start bs \<subseteq> live heap_start bs'"
      "file_at (live heap_start bs') m1 f (bl @ [b]) sz" "rd16 m1 (of_nat f + 2) AND IT_TYPE = IT_REG"
      "contents m1 (bl @ [b]) = contents (ram s) bl @ replicate 4096 0"
      "keeps (live heap_start bs) {last bl + 4096 ..< last bl + 4100} (ram s) m1" by blast
  have mv: "moved (unat pos) (unat n) = unat n" by (rule moved_one_block) (use pos n(2) in simp)
  have ends: "4096 * length (bl @ [b]) < 4294967296" "unat pos + unat n \<le> 4096 * length (bl @ [b])"
    using l pos n(2) by simp_all
  have g4: "file_at (live heap_start bs') (ram (s\<lparr>ram := m1\<rparr>)) f (bl @ [b]) sz"
    "rd16 (ram (s\<lparr>ram := m1\<rparr>)) (of_nat f + 2) AND IT_TYPE = IT_REG" using g(4,5) by simp_all
  have C: "contents (ram s) bl @ replicate 4096 0 = contents (ram (s\<lparr>ram := m1\<rparr>)) (bl @ [b])" using g(6) by simp
  from write_file [OF g(2) g4 ends mv [symmetric] buf C n(1)]
  obtain m where w: "tmpfs_write cdrv bdrv (of_nat f) pos buf n (s\<lparr>ram := m1\<rparr>) = Some (to_int n, s\<lparr>ram := m\<rparr>)"
    "heap_is (s\<lparr>ram := m\<rparr>) bs'" "file_at (live heap_start bs') m f (bl @ [b]) (max sz (unat pos + unat n))"
    "contents m (bl @ [b]) = take (unat pos) (contents (ram s) bl @ replicate 4096 0) @ read_bytes m1 buf (unat n)
      @ drop (unat pos + unat n) (contents (ram s) bl @ replicate 4096 0)" by auto
  have "last bl \<in> set bl" using file_fields(7) [OF hp f] by simp
  then have "heap_start \<le> last bl" using file_blocks [OF hp f] by (simp add: blocks_ok_def)
  then have "agree (unat buf) (unat buf + unat n) (ram s) m1"
    by (intro keeps_agree [OF g(7)]) (use buf in \<open>auto simp: covered_def\<close>)
  from read_bytes_agree [OF this] have "read_bytes m1 buf (unat n) = read_bytes (ram s) buf (unat n)" by simp
  moreover have "sz \<le> unat pos" using f pos by (simp add: file_at_def)
  then have "max sz (unat pos + unat n) = unat pos + unat n" by simp
  ultimately show ?thesis using g(1-3) w pos by auto
qed

section \<open>Instances\<close>

text \<open>A file of three bytes on a heap of four pages; bytes to be written at \<open>0x1000\<close>.\<close>

definition file_mem :: mem where
  "file_mem = wr32 (wr16 ((write_hdr 0xd0000000 1 4144 NULL (write_hdr 0xd0001040 2 12208 0xd0000000 (\<lambda>_. 0)))
     (0xd0000038 := 104, 0xd0000039 := 105, 0xd000003a := 33, 0x1000 := 72, 0x1001 := 105))
     0xd0000012 0x3ff) 0xd000002c 3"

abbreviation (input) file_heap :: "block list" where "file_heap \<equiv> [(True, 4144), (False, 12208)]"

lemma file_mem_heap: "heap_is (four_pages file_mem) file_heap"
  by (rule four_pages_is) (auto simp: block_at_def file_mem_def write_hdr_def wr32_def wr16_def rd32_def)

lemma file_mem_file: "file_at (live heap_start file_heap) (ram (four_pages file_mem)) 0xd0000010 [0xd0000038] 3"
  by (simp add: file_at_def rd64_def file_mem_def write_hdr_def wr32_def wr16_def rd32_def)

lemma file_mem_type: "rd16 (ram (four_pages file_mem)) (of_nat 0xd0000010 + 2) AND IT_TYPE = IT_REG"
  by (simp add: file_mem_def write_hdr_def wr32_def wr16_def rd16_def)

lemma read_bytes_2: "read_bytes m a 2 = [m a, m (a + 1)]"
  using read_bytes_Suc [of m a 1] read_bytes_Suc [of m "a + 1" 0] by (simp add: numeral_2_eq_2)

lemma file_mem_bytes: "take 2 (contents file_mem [0xd0000038]) = [104, 105]" "read_bytes file_mem 0x1000 2 = [72, 105]"
proof -
  have "take 2 (contents file_mem [0xd0000038]) = read_bytes file_mem 0xd0000038 2" by (simp add: take_read_bytes)
  then show "take 2 (contents file_mem [0xd0000038]) = [104, 105]"
    by (simp add: read_bytes_2 file_mem_def write_hdr_def wr32_def wr16_def)
  show "read_bytes file_mem 0x1000 2 = [72, 105]"
    by (simp add: read_bytes_2 file_mem_def write_hdr_def wr32_def wr16_def)
qed

text \<open>The two driver tables that the instances pass on.\<close>

definition tty_drivers :: "addr \<Rightarrow> heap char_driver" where "tty_drivers = (\<lambda>_. tty_driver)"

definition ramdisk_drivers :: "addr \<Rightarrow> heap block_driver" where "ramdisk_drivers = (\<lambda>_. ramdisk_driver)"


lemma small_numbers: "moved 0 2 = 2" "moved 5 2 = 2" "to_int (2 :: u32) = 2"
  by (simp_all add: moved_def tail_bytes_simps to_int_def)


theorem tmpfs_write_read_witness:
  "\<exists>s1 s2. tmpfs_write tty_drivers ramdisk_drivers 0xd0000010 5 0x1000 2 (four_pages file_mem) = Some (2, s1)
    \<and> tmpfs_read tty_drivers ramdisk_drivers 0xd0000010 5 0x2000 2 s1 = Some (2, s2) \<and> read_bytes (ram s2) 0x2000 2 = [72, 105]"
  using tmpfs_write_read [OF file_mem_heap file_mem_file file_mem_type, where pos = 5 and n = 2 and buf = "0x1000"
      and ?buf2.0 = "0x2000" and cdrv = tty_drivers and bdrv = ramdisk_drivers]
  by (simp add: small_numbers file_mem_bytes)

lemma four_pages_unmapped: "\<not> virt_mapped 4096 (four_pages m)"
  by (simp add: virt_mapped_def table_present_def page_present_def)


theorem tmpfs_write_extends_witness:
  "\<exists>b m. tmpfs_write tty_drivers ramdisk_drivers 0xd0000010 4096 0x1000 2 (four_pages file_mem) = Some (2, four_pages m)
    \<and> contents m [0xd0000038, b] = contents file_mem [0xd0000038] @ [72, 105] @ replicate 4094 0"
proof -
  have "plenty 4144 file_heap" by (simp add: plenty_def)
  note res = tmpfs_write_extends [OF file_mem_heap file_mem_file file_mem_type, where pos = 4096 and n = 2 and buf = "0x1000"
      and cdrv = tty_drivers and bdrv = ramdisk_drivers, OF _ _ _ _ this]
  have "\<exists>b m. tmpfs_write tty_drivers ramdisk_drivers (of_nat 0xd0000010) 4096 0x1000 2 (four_pages file_mem)
        = Some (to_int (2 :: u32), (four_pages file_mem)\<lparr>ram := m\<rparr>)
      \<and> contents m ([0xd0000038] @ [b]) = contents file_mem [0xd0000038] @ read_bytes file_mem 0x1000 2 @ replicate 4094 0"
    using res by (simp del: contents_simps) blast
  then show ?thesis by (simp add: small_numbers file_mem_bytes del: contents_simps)
qed

end
