(* ===== verification/Boot_Info.thy ===== *)
theory Boot_Info
  imports Tmpfs_File
begin

text \<open>
  The first half of kernel/arch/i686/boot/boot1.c: reading the information GRUB passes on, a sequence of
  tags in memory (vendor/grub/multiboot2.h gives their layout), into the bitmap of frames and the range
  of the initial RAM disk. The tags are read where the boot loader left them: a page fault, \<open>None\<close>, when a
  page is not mapped. A tag of size 0 that is not the end tag would be read forever.
\<close>

section \<open>Scanning the tags\<close>

text \<open>The local variables of \<open>hlinit\<close> that the scan sets.\<close>

record boot_vars =
  got_rd :: bool
  got_meminfo :: bool
  got_mmap :: bool
  rd_start :: u32
  rd_end :: u32

definition boot_vars_init :: boot_vars where
  "boot_vars_init = \<lparr>got_rd = False, got_meminfo = False, got_mmap = False, rd_start = 0, rd_end = 0\<rparr>"

abbreviation (input) TAG_TYPE_END :: u32 where "TAG_TYPE_END \<equiv> 0"
abbreviation (input) TAG_TYPE_MODULE :: u32 where "TAG_TYPE_MODULE \<equiv> 3"
abbreviation (input) TAG_TYPE_BASIC_MEMINFO :: u32 where "TAG_TYPE_BASIC_MEMINFO \<equiv> 4"
abbreviation (input) TAG_TYPE_MMAP :: u32 where "TAG_TYPE_MMAP \<equiv> 6"
abbreviation (input) MEMORY_AVAILABLE :: u32 where "MEMORY_AVAILABLE \<equiv> 1"

partial_function (option) mmap_loop :: "addr \<Rightarrow> addr \<Rightarrow> 'a paging_scheme \<Rightarrow> 'a paging_scheme option" where
  "mmap_loop tag mmap s =
     do {
       sz \<leftarrow> get32 (tag + 4) s;
       if mmap < tag + sz then do {
         ty \<leftarrow> get32 (mmap + 16) s;
         s \<leftarrow> (if ty \<noteq> MEMORY_AVAILABLE then do {
             a \<leftarrow> get64 mmap s;
             l \<leftarrow> get64 (mmap + 8) s;
             mem_set_used a l s
           }
           else Some s);
         es \<leftarrow> get32 (tag + 8) s;
         mmap_loop tag (mmap + es) s
       }
       else Some s
     }"

definition scan_tag :: "addr \<Rightarrow> boot_vars \<Rightarrow> 'a paging_scheme \<Rightarrow> (boot_vars \<times> 'a paging_scheme) option" where
  "scan_tag tag v s =
     do {
       ty \<leftarrow> get32 tag s;
       if ty = TAG_TYPE_BASIC_MEMINFO then do {
         lower \<leftarrow> get32 (tag + 8) s;
         upper \<leftarrow> get32 (tag + 12) s;
         s \<leftarrow> mem_init_regions (lower * 1024) (upper * 1024) s;
         Some (v\<lparr>got_meminfo := True\<rparr>, s)
       }
       else if ty = TAG_TYPE_MMAP then do {
         s \<leftarrow> mmap_loop tag (tag + 16) s;
         Some (v\<lparr>got_mmap := True\<rparr>, s)
       }
       else if ty = TAG_TYPE_MODULE then do {
         start \<leftarrow> get32 (tag + 8) s;
         stop \<leftarrow> get32 (tag + 12) s;
         Some (v\<lparr>rd_start := start, rd_end := stop, got_rd := True\<rparr>, s)
       }
       else Some (v, s)
     }"

partial_function (option) scan_tags ::
    "addr \<Rightarrow> boot_vars \<Rightarrow> 'a paging_scheme \<Rightarrow> (boot_vars \<times> 'a paging_scheme) option" where
  "scan_tags tag v s =
     do {
       ty \<leftarrow> get32 tag s;
       if ty = TAG_TYPE_END then Some (v, s)
       else do {
         (v, s) \<leftarrow> scan_tag tag v s;
         sz \<leftarrow> get32 (tag + 4) s;
         scan_tags (tag + ((sz + 7) AND NOT 7)) v s
       }
     }"

section \<open>Tags\<close>

text \<open>
  What the boot loader writes: tags with their fields, each at a multiple of 8 after the one before it. A
  memory map has entries of a size it states itself; a module and the tags that are not read have some
  size.
\<close>

type_synonym map_entry = "u64 \<times> u64 \<times> u32"

datatype boot_tag = Meminfo u32 u32 | Mmap nat "map_entry list" | Module u32 u32 nat | Other_Tag u32 nat

fun tag_type :: "boot_tag \<Rightarrow> u32" where
  "tag_type (Meminfo lower upper) = TAG_TYPE_BASIC_MEMINFO"
| "tag_type (Mmap es entries) = TAG_TYPE_MMAP"
| "tag_type (Module start stop n) = TAG_TYPE_MODULE"
| "tag_type (Other_Tag ty n) = ty"

fun tag_size :: "boot_tag \<Rightarrow> nat" where
  "tag_size (Meminfo lower upper) = 16"
| "tag_size (Mmap es entries) = 16 + es * length entries"
| "tag_size (Module start stop n) = 16 + n"
| "tag_size (Other_Tag ty n) = 8 + n"

text \<open>Sizes and types that make sense, and regions that end below 2^64.\<close>

fun tag_ok :: "boot_tag \<Rightarrow> bool" where
  "tag_ok (Meminfo lower upper) = True"
| "tag_ok (Mmap es entries) \<longleftrightarrow> 24 \<le> es \<and> (\<forall>(a, l, ty) \<in> set entries. unat a + unat l < 18446744073709551616)"
| "tag_ok (Module start stop n) = True"
| "tag_ok (Other_Tag ty n) \<longleftrightarrow> ty \<notin> {TAG_TYPE_END, TAG_TYPE_MODULE, TAG_TYPE_BASIC_MEMINFO, TAG_TYPE_MMAP}"

fun entries_at :: "mem \<Rightarrow> nat \<Rightarrow> nat \<Rightarrow> map_entry list \<Rightarrow> bool" where
  "entries_at m p es [] = True"
| "entries_at m p es ((a, l, ty) # xs) \<longleftrightarrow>
     rd64 m (of_nat p) = a \<and> rd64 m (of_nat p + 8) = l \<and> rd32 m (of_nat p + 16) = ty \<and> entries_at m (p + es) es xs"

fun fields_at :: "mem \<Rightarrow> nat \<Rightarrow> boot_tag \<Rightarrow> bool" where
  "fields_at m p (Meminfo lower upper) \<longleftrightarrow> rd32 m (of_nat p + 8) = lower \<and> rd32 m (of_nat p + 12) = upper"
| "fields_at m p (Mmap es entries) \<longleftrightarrow> rd32 m (of_nat p + 8) = of_nat es \<and> entries_at m (p + 16) es entries"
| "fields_at m p (Module start stop n) \<longleftrightarrow> rd32 m (of_nat p + 8) = start \<and> rd32 m (of_nat p + 12) = stop"
| "fields_at m p (Other_Tag ty n) = True"

definition tag_span :: "boot_tag \<Rightarrow> nat" where
  "tag_span t = (tag_size t + 7) div 8 * 8"

fun tags_at :: "mem \<Rightarrow> nat \<Rightarrow> boot_tag list \<Rightarrow> bool" where
  "tags_at m p [] \<longleftrightarrow> rd32 m (of_nat p) = TAG_TYPE_END"
| "tags_at m p (t # ts) \<longleftrightarrow> tag_ok t \<and> rd32 m (of_nat p) = tag_type t \<and> rd32 m (of_nat p + 4) = of_nat (tag_size t)
     \<and> fields_at m p t \<and> tags_at m (p + tag_span t) ts"

definition tags_span :: "boot_tag list \<Rightarrow> nat" where
  "tags_span ts = sum_list (map tag_span ts)"

lemma tags_span_simps [simp]: "tags_span [] = 0" "tags_span (t # ts) = tag_span t + tags_span ts"
  by (simp_all add: tags_span_def)

text \<open>
  What the tags mean: which frames are in use, where the allocator searches, and the values of the
  variables.
\<close>

record boot_view =
  frames :: "nat set"
  search :: "u32 \<times> u32"
  vars :: boot_vars

definition touched :: "map_entry \<Rightarrow> nat set" where
  "touched e = (case e of (a, l, ty) \<Rightarrow> if ty = MEMORY_AVAILABLE \<or> 4294967296 \<le> unat a then {}
     else {f. f = unat a div 4096 \<or> unat a div 4096 \<le> f \<and> 4096 * f < min (unat a + unat l) 4294967295})"

fun tag_effect :: "boot_tag \<Rightarrow> boot_view \<Rightarrow> boot_view" where
  "tag_effect (Meminfo lower upper) w = w\<lparr>frames := frames w \<union> {unat (lower * 1024) div 4096 ..< 256},
     search := (0, 0x100000 + upper * 1024), vars := (vars w)\<lparr>got_meminfo := True\<rparr>\<rparr>"
| "tag_effect (Mmap es entries) w = w\<lparr>frames := frames w \<union> \<Union> (touched ` set entries), vars := (vars w)\<lparr>got_mmap := True\<rparr>\<rparr>"
| "tag_effect (Module start stop n) w = w\<lparr>vars := (vars w)\<lparr>rd_start := start, rd_end := stop, got_rd := True\<rparr>\<rparr>"
| "tag_effect (Other_Tag ty n) w = w"

definition view_of :: "boot_vars \<Rightarrow> 'a paging_scheme \<Rightarrow> boot_view" where
  "view_of v s = \<lparr>frames = {f. frame_used s f}, search = (lower_bound s, upper_bound s), vars = v\<rparr>"

section \<open>The scan computes the meaning\<close>

lemma frames_kept [simp]:
  "virt_mapped a (s\<lparr>phys_page_bitmap := bm\<rparr>) = virt_mapped a s" "virt_mapped a (s\<lparr>upper_bound := up\<rparr>) = virt_mapped a s"
  "virt_mapped a (s\<lparr>lower_bound := lo\<rparr>) = virt_mapped a s"
  by (simp_all add: virt_mapped_def table_present_def page_present_def)

lemma reads_kept [simp]:
  "get32 a (s\<lparr>upper_bound := up\<rparr>) = get32 a s" "get32 a (s\<lparr>lower_bound := lo\<rparr>) = get32 a s"
  "get32 a (s\<lparr>phys_page_bitmap := bm\<rparr>) = get32 a s" "get64 a (s\<lparr>phys_page_bitmap := bm\<rparr>) = get64 a s"
  by (simp_all add: get32_def get64_def)

text \<open>The tags' memory is mapped.\<close>

definition mapped_range :: "nat \<Rightarrow> nat \<Rightarrow> 'a paging_scheme \<Rightarrow> bool" where
  "mapped_range p e s \<longleftrightarrow> (\<forall>x. p \<le> x \<and> x < e \<longrightarrow> virt_mapped (of_nat x) s)"

lemma mapped_range_get:
  assumes "mapped_range p e s" "p \<le> q" "q + k < e"
  shows "get32 (of_nat q + of_nat k) s = Some (rd32 (ram s) (of_nat q + of_nat k))"
    "q + k + 4 < e \<Longrightarrow> get64 (of_nat q + of_nat k) s = Some (rd64 (ram s) (of_nat q + of_nat k))"
proof -
  have m: "virt_mapped (of_nat q + of_nat j) s" if "q + j < e" for j
    using assms(1,2) that unfolding mapped_range_def by (metis add.commute le_add2 le_trans of_nat_add)
  show "get32 (of_nat q + of_nat k) s = Some (rd32 (ram s) (of_nat q + of_nat k))"
    by (rule put_mapped(3) [OF m [OF assms(3)]])
  assume "q + k + 4 < e"
  then have "virt_mapped (of_nat q + of_nat (k + 4)) s" by (intro m) simp
  then have "virt_mapped (of_nat q + of_nat k + 4) s" by (simp add: add.assoc)
  then show "get64 (of_nat q + of_nat k) s = Some (rd64 (ram s) (of_nat q + of_nat k))"
    by (rule put_mapped(5) [OF m [OF assms(3)]])
qed

lemma mem_set_used_frames:
  assumes "unat a + unat l < 18446744073709551616" "ty \<noteq> MEMORY_AVAILABLE"
  obtains bm where "mem_set_used a l s = Some (s\<lparr>phys_page_bitmap := bm\<rparr>)"
    "{f. frame_used (s\<lparr>phys_page_bitmap := bm\<rparr>) f} = {f. frame_used s f} \<union> touched (a, l, ty)"
proof -
  from mem_set_used_spec [OF assms(1), of s] obtain bm where
    bm: "mem_set_used a l s = Some (s\<lparr>phys_page_bitmap := bm\<rparr>)"
      "\<And>f. frame_used (s\<lparr>phys_page_bitmap := bm\<rparr>) f \<longleftrightarrow> frame_used s f \<or> unat a < 4294967296 \<and> (f = unat a div 4096
        \<or> unat a div 4096 \<le> f \<and> 4096 * f < min (unat a + unat l) 4294967295)" by blast
  have "{f. frame_used (s\<lparr>phys_page_bitmap := bm\<rparr>) f} = {f. frame_used s f} \<union> touched (a, l, ty)"
    using assms(2) by (intro set_eqI) (simp add: bm(2) touched_def not_le del: div_le_mono)
  then show ?thesis using that bm(1) by blast
qed

lemma map_entry_frames:
  assumes "unat a + unat l < 18446744073709551616"
  obtains bm where "(if ty \<noteq> MEMORY_AVAILABLE then mem_set_used a l s else Some s) = Some (s\<lparr>phys_page_bitmap := bm\<rparr>)"
    "{f. frame_used (s\<lparr>phys_page_bitmap := bm\<rparr>) f} = {f. frame_used s f} \<union> touched (a, l, ty)"
proof (cases "ty = MEMORY_AVAILABLE")
  case True
  have "s\<lparr>phys_page_bitmap := phys_page_bitmap s\<rparr> = s" by simp
  then show ?thesis using that [of "phys_page_bitmap s"] True by (simp add: touched_def)
next
  case False
  from mem_set_used_frames [OF assms False, of s] that False show ?thesis by auto
qed

lemma mmap_loop_spec:
  assumes "entries_at (ram s) q es xs" "\<forall>(a, l, ty) \<in> set xs. unat a + unat l < 18446744073709551616"
    and "24 \<le> es" "p + 16 \<le> q" "q + es * length xs = p + sz" "p + sz < 4294967296" "mapped_range p (p + sz) s"
    and "rd32 (ram s) (of_nat p + 4) = of_nat sz" "rd32 (ram s) (of_nat p + 8) = of_nat es"
  shows "\<exists>bm. mmap_loop (of_nat p) (of_nat q) s = Some (s\<lparr>phys_page_bitmap := bm\<rparr>)
    \<and> {f. frame_used (s\<lparr>phys_page_bitmap := bm\<rparr>) f} = {f. frame_used s f} \<union> \<Union> (touched ` set xs)"
  using assms
proof (induction xs arbitrary: q s)
  case Nil
  have sz: "16 \<le> sz" using Nil.prems(4,5) by simp
  have g: "get32 (of_nat p + 4) s = Some (of_nat sz)"
    using mapped_range_get(1) [OF Nil.prems(7), of p 4] sz Nil.prems(8) by simp
  have "q = p + sz" using Nil.prems(5) by simp
  then have "(of_nat q :: addr) = of_nat p + of_nat sz" by simp
  then show ?case using g by (intro exI [of _ "phys_page_bitmap s"]) (subst mmap_loop.simps, simp)
next
  case (Cons x xs)
  obtain a l ty where x: "x = (a, l, ty)" by (cases x)
  have room: "q + 24 \<le> p + sz" using Cons.prems(3,5) by simp
  have g: "get32 (of_nat p + 4) s = Some (of_nat sz)" "get32 (of_nat p + 8) s = Some (of_nat es)"
    using mapped_range_get(1) [OF Cons.prems(7), of p 4] mapped_range_get(1) [OF Cons.prems(7), of p 8]
      room Cons.prems(4,8,9) by simp_all
  have e: "get32 (of_nat q + 16) s = Some ty" "get64 (of_nat q) s = Some a" "get64 (of_nat q + 8) s = Some l"
    using mapped_range_get(1) [OF Cons.prems(7), of q 16] mapped_range_get(2) [OF Cons.prems(7), of q 0]
      mapped_range_get(2) [OF Cons.prems(7), of q 8] room Cons.prems(1,4) x by simp_all
  have lt: "(of_nat q :: addr) < of_nat p + of_nat sz"
    using Cons.prems(6) room by (simp add: word_less_nat_alt unat_of_nat32 flip: of_nat_add)
  have "unat a + unat l < 18446744073709551616" using Cons.prems(2) x by simp
  then obtain bm1 where b1: "(if ty \<noteq> MEMORY_AVAILABLE then mem_set_used a l s else Some s) = Some (s\<lparr>phys_page_bitmap := bm1\<rparr>)"
    "{f. frame_used (s\<lparr>phys_page_bitmap := bm1\<rparr>) f} = {f. frame_used s f} \<union> touched x"
    unfolding x by (rule map_entry_frames [where ty = ty and s = s])
  let ?s1 = "s\<lparr>phys_page_bitmap := bm1\<rparr>"
  have "\<exists>bm. mmap_loop (of_nat p) (of_nat (q + es)) ?s1 = Some (?s1\<lparr>phys_page_bitmap := bm\<rparr>)
    \<and> {f. frame_used (?s1\<lparr>phys_page_bitmap := bm\<rparr>) f} = {f. frame_used ?s1 f} \<union> \<Union> (touched ` set xs)"
    by (rule Cons.IH) (use Cons.prems x in \<open>auto simp: mapped_range_def\<close>)
  then obtain bm where bm: "mmap_loop (of_nat p) (of_nat q + of_nat es) ?s1 = Some (s\<lparr>phys_page_bitmap := bm\<rparr>)"
    "{f. frame_used (s\<lparr>phys_page_bitmap := bm\<rparr>) f} = {f. frame_used ?s1 f} \<union> \<Union> (touched ` set xs)" by auto
  have "mmap_loop (of_nat p) (of_nat q) s = Some (s\<lparr>phys_page_bitmap := bm\<rparr>)"
    using b1(1) g e lt bm(1) by (subst mmap_loop.simps) (simp split: if_splits)
  then show ?case using bm(2) b1(2) by (intro exI [of _ bm]) auto
qed


lemma round8:
  assumes "n + 7 < 4294967296"
  shows "((of_nat n :: u32) + 7) AND NOT 7 = of_nat ((n + 7) div 8 * 8)"
proof -
  have "unat ((of_nat n :: u32) + 7) = n + 7" using assms by (simp add: unat_of_nat32 unat_word_ariths)
  moreover have "(7 :: u32) = mask 3" by (simp add: mask_eq_exp_minus_1)
  ultimately show ?thesis using align_down_mask [of 3 "of_nat n + 7"] by simp
qed

text \<open>The state with another bitmap and other bounds, which is all the scan changes.\<close>

abbreviation (input) reframed ::
    "(nat \<Rightarrow> u8) \<Rightarrow> u32 \<Rightarrow> u32 \<Rightarrow> 'a paging_scheme \<Rightarrow> 'a paging_scheme" where
  "reframed bm up lo s \<equiv> s\<lparr>phys_page_bitmap := bm, upper_bound := up, lower_bound := lo\<rparr>"

lemma view_reframed: "view_of v (reframed bm up lo s)
    = \<lparr>frames = {f. frame_used (s\<lparr>phys_page_bitmap := bm\<rparr>) f}, search = (lo, up), vars = v\<rparr>"
  by (simp add: view_of_def frame_used_def)

lemma reframed_frames: "reframed bm (upper_bound s) (lower_bound s) s = s\<lparr>phys_page_bitmap := bm\<rparr>"
  by simp

lemma scan_tag_spec:
  assumes t: "tag_ok t" "rd32 (ram s) (of_nat p) = tag_type t" "rd32 (ram s) (of_nat p + 4) = of_nat (tag_size t)"
      "fields_at (ram s) p t"
    and p: "p + tag_size t < 4294967296" "mapped_range p (p + tag_size t) s"
  shows "\<exists>v' bm up lo. scan_tag (of_nat p) v s = Some (v', reframed bm up lo s)
    \<and> view_of v' (reframed bm up lo s) = tag_effect t (view_of v s)"
proof -
  have size: "8 \<le> tag_size t" by (cases t) simp_all
  have ty: "get32 (of_nat p) s = Some (tag_type t)"
    using mapped_range_get(1) [OF p(2), of p 0] size t(2) by simp
  have two: "get32 (of_nat p + 8) s = Some (rd32 (ram s) (of_nat p + 8))" "get32 (of_nat p + 12) s = Some (rd32 (ram s) (of_nat p + 12))"
    if "16 \<le> tag_size t"
    using mapped_range_get(1) [OF p(2), of p 8] mapped_range_get(1) [OF p(2), of p 12] that by simp_all
  have keeps_bounds: ?thesis
    if "scan_tag (of_nat p) v s = Some (v', s\<lparr>phys_page_bitmap := bm\<rparr>)"
      "tag_effect t (view_of v s) = \<lparr>frames = {f. frame_used (s\<lparr>phys_page_bitmap := bm\<rparr>) f},
        search = (lower_bound s, upper_bound s), vars = v'\<rparr>" for v' bm
    by (rule exI [of _ v'], rule exI [of _ bm], rule exI [of _ "upper_bound s"], rule exI [of _ "lower_bound s"])
       (simp only: reframed_frames that simp_thms, simp add: view_of_def)
  have unchanged: "s\<lparr>phys_page_bitmap := phys_page_bitmap s\<rparr> = s" by simp
  show ?thesis
  proof (cases t)
    case (Meminfo lower upper)
    from mem_init_regions_spec [of "lower * 1024" "upper * 1024" s] obtain bm where
      bm: "mem_init_regions (lower * 1024) (upper * 1024) s = Some (reframed bm (0x100000 + upper * 1024) 0 s)"
        "\<And>f. frame_used (s\<lparr>phys_page_bitmap := bm\<rparr>) f \<longleftrightarrow> frame_used s f \<or> unat (lower * 1024) div 4096 \<le> f \<and> f < 256" by blast
    have "scan_tag (of_nat p) v s = Some (v\<lparr>got_meminfo := True\<rparr>, reframed bm (0x100000 + upper * 1024) 0 s)"
      using ty two t(4) Meminfo bm(1) by (simp add: scan_tag_def)
    moreover have "view_of (v\<lparr>got_meminfo := True\<rparr>) (reframed bm (0x100000 + upper * 1024) 0 s) = tag_effect t (view_of v s)"
      using Meminfo by (simp only: view_reframed bm(2)) (auto simp: view_of_def)
    ultimately show ?thesis by blast
  next
    case (Mmap es entries)
    have "\<exists>bm. mmap_loop (of_nat p) (of_nat (p + 16)) s = Some (s\<lparr>phys_page_bitmap := bm\<rparr>)
      \<and> {f. frame_used (s\<lparr>phys_page_bitmap := bm\<rparr>) f} = {f. frame_used s f} \<union> \<Union> (touched ` set entries)"
      by (rule mmap_loop_spec [where sz = "tag_size t" and es = es]) (use Mmap t p in simp_all)
    then obtain bm where bm: "mmap_loop (of_nat p) (of_nat p + 16) s = Some (s\<lparr>phys_page_bitmap := bm\<rparr>)"
      "{f. frame_used (s\<lparr>phys_page_bitmap := bm\<rparr>) f} = {f. frame_used s f} \<union> \<Union> (touched ` set entries)" by auto
    then show ?thesis using ty Mmap
      by (intro keeps_bounds [of "v\<lparr>got_mmap := True\<rparr>" bm]) (simp_all add: scan_tag_def view_of_def)
  next
    case (Module start stop n)
    then show ?thesis using ty two t(4)
      by (intro keeps_bounds [of "v\<lparr>rd_start := start, rd_end := stop, got_rd := True\<rparr>" "phys_page_bitmap s"])
         (simp_all add: scan_tag_def view_of_def)
  next
    case (Other_Tag x n)
    then show ?thesis using ty t(1)
      by (intro keeps_bounds [of v "phys_page_bitmap s"]) (simp_all add: scan_tag_def view_of_def)
  qed
qed

lemma tag_span_ge: "tag_size t \<le> tag_span t" "8 \<le> tag_span t" "tag_span t \<le> tag_size t + 7"
proof -
  show "tag_size t \<le> tag_span t" "tag_span t \<le> tag_size t + 7" unfolding tag_span_def by linarith+
  have "8 \<le> tag_size t" by (cases t) simp_all
  then show "8 \<le> tag_span t" unfolding tag_span_def by linarith
qed

lemma scan_tags_spec:
  assumes "tags_at (ram s) p ts" "p + tags_span ts + 8 \<le> 4294967296" "mapped_range p (p + tags_span ts + 8) s"
  shows "\<exists>v' bm up lo. scan_tags (of_nat p) v s = Some (v', s\<lparr>phys_page_bitmap := bm, upper_bound := up, lower_bound := lo\<rparr>)
    \<and> view_of v' (s\<lparr>phys_page_bitmap := bm, upper_bound := up, lower_bound := lo\<rparr>) = fold tag_effect ts (view_of v s)"
  using assms
proof (induction ts arbitrary: p v s)
  case Nil
  have g: "get32 (of_nat p) s = Some TAG_TYPE_END"
    using mapped_range_get(1) [OF Nil.prems(3), of p 0] Nil.prems(1) by simp
  show ?case
    by (rule exI [of _ v], rule exI [of _ "phys_page_bitmap s"], rule exI [of _ "upper_bound s"], rule exI [of _ "lower_bound s"])
       (subst scan_tags.simps, simp add: g)
next
  case (Cons t ts)
  note sp = tag_span_ge [of t]
  have size: "8 \<le> tag_size t" by (cases t) simp_all
  have mr: "mapped_range p (p + tag_size t) s" using Cons.prems(3) sp by (auto simp: mapped_range_def)
  have t: "tag_ok t" "rd32 (ram s) (of_nat p) = tag_type t" "rd32 (ram s) (of_nat p + 4) = of_nat (tag_size t)"
    "fields_at (ram s) p t" "tags_at (ram s) (p + tag_span t) ts" using Cons.prems(1) by simp_all
  have "p + tag_size t < 4294967296" using Cons.prems(2) sp(1) by simp
  from scan_tag_spec [OF t(1-4) this mr, of v] obtain v1 bm1 up1 lo1 where
    r: "scan_tag (of_nat p) v s = Some (v1, s\<lparr>phys_page_bitmap := bm1, upper_bound := up1, lower_bound := lo1\<rparr>)"
       "view_of v1 (s\<lparr>phys_page_bitmap := bm1, upper_bound := up1, lower_bound := lo1\<rparr>) = tag_effect t (view_of v s)" by blast
  let ?s1 = "s\<lparr>phys_page_bitmap := bm1, upper_bound := up1, lower_bound := lo1\<rparr>"
  have "\<exists>v' bm up lo. scan_tags (of_nat (p + tag_span t)) v1 ?s1 = Some (v', ?s1\<lparr>phys_page_bitmap := bm, upper_bound := up, lower_bound := lo\<rparr>)
    \<and> view_of v' (?s1\<lparr>phys_page_bitmap := bm, upper_bound := up, lower_bound := lo\<rparr>) = fold tag_effect ts (view_of v1 ?s1)"
    by (rule Cons.IH) (use Cons.prems t(5) in \<open>auto simp: mapped_range_def\<close>)
  then obtain v' bm up lo where
    i: "scan_tags (of_nat (p + tag_span t)) v1 ?s1 = Some (v', s\<lparr>phys_page_bitmap := bm, upper_bound := up, lower_bound := lo\<rparr>)"
       "view_of v' (s\<lparr>phys_page_bitmap := bm, upper_bound := up, lower_bound := lo\<rparr>) = fold tag_effect ts (view_of v1 ?s1)" by auto
  have "tag_type t \<noteq> TAG_TYPE_END" using t(1) by (cases t) auto
  moreover have "get32 (of_nat p) s = Some (tag_type t)" "get32 (of_nat p + 4) ?s1 = Some (of_nat (tag_size t))"
    using mapped_range_get(1) [OF mr, of p 0] mapped_range_get(1) [OF mr, of p 4] size t(2,3) by simp_all
  moreover have "(of_nat p :: addr) + ((of_nat (tag_size t) + 7) AND NOT 7) = of_nat (p + tag_span t)"
    using round8 [of "tag_size t"] Cons.prems(2) sp by (simp add: tag_span_def)
  ultimately have "scan_tags (of_nat p) v s = Some (v', s\<lparr>phys_page_bitmap := bm, upper_bound := up, lower_bound := lo\<rparr>)"
    using r(1) i(1) by (subst scan_tags.simps) simp
  then show ?case using i(2) r(2) by (intro exI [of _ v'] exI [of _ bm] exI [of _ up] exI [of _ lo]) simp
qed


text \<open>
  The page tables boot0.s starts the kernel with: the first 4 MiB at 0 and at \<open>0xc0000000\<close>, and the
  directory itself as its last entry. So page 0 is mapped.
\<close>

definition boot_ptes :: "u32 \<Rightarrow> u32 \<Rightarrow> u32 \<Rightarrow> u32" where
  "boot_ptes initpd initpt i =
     (if i < 1024 then i * 4096 OR 3
      else if 0xc0000 \<le> i \<and> i < 0xc0400 then (i - 0xc0000) * 4096 OR 3
      else if i = PD_INDEX \<or> i = PD_INDEX + 0x300 then initpt OR 3
      else if i = PD_INDEX + 0x3ff then initpd OR 3
      else 0)"

lemma boot_ptes_mapped:
  assumes "x < 4194304" "ptes s = boot_ptes initpd initpt"
  shows "virt_mapped (of_nat x) s"
proof -
  have "unat (of_nat x :: addr) = x" by (rule unat_of_nat32) (use assms(1) in simp)
  moreover have d: "x div 4096 div 1024 = 0" "x div 4096 < 1024" using assms(1) by auto
  moreover have "(y OR 3 :: u32) AND 1 \<noteq> 0" for y by (simp add: and_one_eq mod_2_eq_odd even_or_iff)
  moreover have "(of_nat (x div 4096) :: u32) < 1024" using d(2) by (simp add: word_less_nat_alt unat_of_nat32)
  ultimately show ?thesis using assms(2) by (simp add: virt_mapped_def table_present_def page_present_def boot_ptes_def)
qed

text \<open>Boot information at \<open>0x10008\<close>: the sizes of memory, a map with one reserved region, and a module.\<close>

definition info_mem :: mem where
  "info_mem = fold (\<lambda>(a, v) m. wr32 m a v)
     [(0x10008, 4), (0x1000c, 16), (0x10010, 640), (0x10014, 14336),
      (0x10018, 6), (0x1001c, 40), (0x10020, 24), (0x10028, 0xf0000), (0x10030, 0x10000), (0x10038, 2),
      (0x10040, 3), (0x10044, 20), (0x10048, 0x200000), (0x1004c, 0x201000)] (\<lambda>_. 0)"

definition info_tags :: "boot_tag list" where
  "info_tags = [Meminfo 640 14336, Mmap 24 [(0xf0000, 0x10000, 2)], Module 0x200000 0x201000 4]"

lemma info_mem_tags: "tags_at info_mem 0x10008 info_tags"
proof -
  have "rd32 (\<lambda>_. 0) a = 0" for a by (simp add: rd32_def)
  then show ?thesis by (simp add: info_tags_def info_mem_def tag_span_def rd64_def)
qed

definition boot_start :: paging where
  "boot_start = paging_start\<lparr>ram := info_mem, ptes := boot_ptes 0x108000 0x109000\<rparr>"

lemma boot_start_simps [simp]: "ram boot_start = info_mem" "ptes boot_start = boot_ptes 0x108000 0x109000"
  "frame_used boot_start f = frame_used paging_start f"
  by (simp_all add: boot_start_def frame_used_def)


end
