(* ===== verification/Tmpfs_Mount.thy ===== *)
theory Tmpfs_Mount
  imports Tmpfs_File
begin

text \<open>
  Mounting tmpfs, and listing a directory: the empty file system that \<open>tmpfs_mount\<close> builds, and the names
  \<open>tmpfs_readdir\<close> delivers.
\<close>

section \<open>Mounting\<close>

text \<open>A \<open>struct fs_instance\<close>: the driver at 0 and the root inode at 4.\<close>

definition fs_at :: "(nat \<times> nat) set \<Rightarrow> mem \<Rightarrow> nat \<Rightarrow> addr \<Rightarrow> nat \<Rightarrow> bool" where
  "fs_at L m fs drv root \<longleftrightarrow> (\<exists>n. (fs, n) \<in> L \<and> 8 \<le> n) \<and> rd32 m (of_nat fs) = drv \<and> rd32 m (of_nat fs + 4) = of_nat root"

lemma fs_at_agree:
  assumes "agree fs (fs + 8) m m'" "fs_at L m fs drv root" "L \<subseteq> L'"
  shows "fs_at L' m' fs drv root"
  using read_agree(1) [OF assms(1), of fs] read_agree(1) [OF assms(1), of "fs + 4"] assms(2,3)
  by (auto simp: fs_at_def add.commute)

lemma live_apart:
  assumes "heap_is s bs" "(a, n) \<in> live heap_start bs" "(b, k) \<in> live heap_start bs" "a \<noteq> b"
  shows "{a ..< a + n} \<inter> {b ..< b + k} = {}"
  using live_disjoint [OF assms(2,3)] assms(4) by auto

lemma keeps_outside:
  assumes k: "keeps L X m m'" and X: "X \<subseteq> {heap_start ..< 4026531840}"
  shows "outside_kept m m'"
proof -
  have "agree 0 heap_start m m'" by (rule keeps_agree [OF k]) (use X in \<open>auto simp: covered_def\<close>)
  moreover have "agree 4026531840 4294967296 m m'" by (rule keeps_agree [OF k]) (use X in \<open>auto simp: covered_def\<close>)
  ultimately show ?thesis by (simp add: outside_kept_def)
qed

lemma mount_rest:
  assumes first: "malloc 8 s = Some (of_nat fs, t)" and hp: "heap_is t bs" and f: "(fs, nf) \<in> live heap_start bs" "8 \<le> nf"
    and pl: "plenty (64 + N) bs" "16 \<le> N"
  shows "\<exists>root m bs'. tmpfs_mount drv flags s = Some (of_nat fs, t\<lparr>ram := m\<rparr>)
    \<and> heap_is (t\<lparr>ram := m\<rparr>) bs' \<and> plenty N bs' \<and> live heap_start bs \<subseteq> live heap_start bs' \<and> root \<notin> fst ` live heap_start bs
    \<and> dir_at (live heap_start bs') m root [] \<and> inode_at m root 0 (ucast flags AND I_PERMS) (of_nat fs)
    \<and> fs_at (live heap_start bs') m fs drv root \<and> outside_kept (ram t) m"
proof -
  let ?L = "live heap_start bs"
  have fl: "fs + nf \<le> heap_limit" by (rule live_in_heap(2) [OF hp f(1)])
  have mf: "virt_mapped (of_nat fs) t" "virt_mapped (of_nat fs + 4) t"
    using region_mapped [OF hp f(1), of 0] region_mapped [OF hp f(1), of 4] f(2) by simp_all
  define m1 where "m1 = wr32 (ram t) (of_nat fs) drv"
  have k1: "keeps UNIV {fs ..< fs + 4} (ram t) m1" unfolding m1_def by (rule wr32_keeps) (use fl f(2) in simp)
  then have hp1: "heap_is (t\<lparr>ram := m1\<rparr>) bs" by (rule live_writes(1) [OF hp f(1)]) (use f(2) in auto)
  have pl1: "plenty (round16 44 + 16 + N) bs" using pl(1) by (simp add: round16_def)
  have side: "unat (44 :: u32) = 44" "(44::nat) + 15 < 4294967296" by simp_all
  obtain root n m2 bs' where o: "malloc 44 (t\<lparr>ram := m1\<rparr>) = Some (of_nat root, t\<lparr>ram := m2\<rparr>)" "plenty N bs'"
    "live heap_start bs' = insert (root, n) ?L" "44 \<le> n" "root \<notin> fst ` ?L" "root + n \<le> heap_limit"
    "\<And>j. j < n \<Longrightarrow> virt_mapped (of_nat root + of_nat j) t"
    "\<And>m3. keeps UNIV {root ..< root + 44} m2 m3 \<Longrightarrow> heap_is (t\<lparr>ram := m3\<rparr>) bs' \<and> keeps ?L {} m1 m3"
    by (rule new_object [OF hp1 side pl1 pl(2)]) (rule that)
  obtain m3 where w: "init_inode (of_nat root) (of_nat fs) (ucast flags AND I_PERMS) (t\<lparr>ram := m2\<rparr>) = Some (t\<lparr>ram := m3\<rparr>)"
    "keeps UNIV {root ..< root + 40} m2 m3" "inode_at m3 root 0 (ucast flags AND I_PERMS) (of_nat fs)" "rd64 m3 (of_nat root + 28) = 0"
    by (rule init_inode_writes [where i = root and s = t and mode = "ucast flags AND I_PERMS" and m = m2 and fs = "of_nat fs"])
       (use o(4,6,7) in simp_all)
  define m4 where "m4 = wr32 m3 (of_nat root + 40) NULL"
  have "keeps UNIV {root ..< root + 44} m2 m3" by (rule keeps_mono [OF w(2)]) auto
  then have "keeps UNIV {root ..< root + 44} m2 m4" unfolding m4_def by (rule keeps_field(3)) (use o(4,6) in auto)
  then have m4: "heap_is (t\<lparr>ram := m4\<rparr>) bs'" "keeps ?L {} m1 m4" using o(8) by simp_all
  define m where "m = wr32 m4 (of_nat fs + 4) (of_nat root)"
  have f': "(fs, nf) \<in> live heap_start bs'" and r': "(root, n) \<in> live heap_start bs'" using f(1) o(3) by simp_all
  have k: "keeps UNIV {fs + 4 ..< fs + 8} m4 m"
    unfolding m_def using wr32_keeps [of "fs + 4" UNIV m4 "of_nat root"] fl f(2) by (simp add: add.commute)
  have hp': "heap_is (t\<lparr>ram := m\<rparr>) bs'"
    using live_writes(1) [OF m4(1) f', of "{fs + 4 ..< fs + 8}" m] k f(2) by simp
  have "root \<noteq> fs" using f(1) o(5) by force
  then have "{root ..< root + n} \<inter> {fs ..< fs + nf} = {}" by (rule live_apart [OF m4(1) r' f'])
  moreover have "{fs + 4 ..< fs + 8} \<subseteq> {fs ..< fs + nf}" "{root ..< root + 44} \<subseteq> {root ..< root + n}" using o(4) f(2) by auto
  ultimately have dj: "{fs + 4 ..< fs + 8} \<inter> {root ..< root + 44} = {}" by blast
  have ag: "agree root (root + 44) m4 m"
    by (rule keeps_region [OF keeps_mono [OF k subset_UNIV subset_refl] r' o(4) dj]) (use o(4,6) in simp)
  have "inode_at m4 root 0 (ucast flags AND I_PERMS) (of_nat fs)" using w(3) by (simp add: inode_at_def m4_def)
  then have ino: "inode_at m root 0 (ucast flags AND I_PERMS) (of_nat fs)"
    using read_agree(2) [OF ag, of root] read_agree(2) [OF ag, of "root + 2"] read_agree(1) [OF ag, of "root + 36"]
    by (simp add: inode_at_def add.commute)
  have "rd32 m (of_nat root + 40) = NULL" using read_agree(1) [OF ag, of "root + 40"] by (simp add: m4_def add.commute)
  then have dir: "dir_at (live heap_start bs') m root []" using r' o(4) by (auto simp: dir_at_def)
  have "agree fs (fs + 8) m1 m4" by (rule keeps_region [OF m4(2) f]) (use fl f(2) in simp_all)
  then have "rd32 m4 (of_nat fs) = drv" using read_agree(1) [of fs "fs + 8" m1 m4 fs] by (simp add: m1_def)
  then have fsa: "fs_at (live heap_start bs') m fs drv root" using f' f(2) by (auto simp: fs_at_def m_def)
  have "virt_mapped (of_nat root + 40) t" using o(7) [of 40] o(4) by simp
  then have "tmpfs_mount drv flags s = Some (of_nat fs, t\<lparr>ram := m\<rparr>)"
    using first o(1) w(1) mf by (simp add: tmpfs_mount_def put_mapped m1_def m4_def m_def)
  moreover have "outside_kept (ram t) m"
  proof -
    have fb: "heap_start \<le> fs" using live_in_heap(1) [OF hp f(1)] by simp
    have "outside_kept (ram t) m1" by (rule keeps_outside [OF k1]) (use fb fl f(2) in auto)
    moreover have "outside_kept m1 m4" by (rule keeps_outside [OF m4(2)]) simp
    moreover have "outside_kept m4 m" by (rule keeps_outside [OF k]) (use fb fl f(2) in auto)
    ultimately show ?thesis by (blast intro: outside_kept_trans)
  qed
  moreover have "?L \<subseteq> live heap_start bs'" using o(3) by auto
  ultimately show ?thesis using hp' o(2,5) ino dir fsa by blast
qed

lemma mount_spec:
  assumes hp: "heap_is s bs" and N: "16 \<le> N"
    and space: "plenty (96 + N) bs \<or> bs = [] \<and> room s heap_start 1 \<and> N \<le> 3984"
  shows "\<exists>fs root t bs'. tmpfs_mount drv flags s = Some (of_nat fs, t) \<and> heap_is t bs' \<and> plenty N bs'
    \<and> live heap_start bs \<subseteq> live heap_start bs' \<and> fs \<notin> fst ` live heap_start bs \<and> root \<notin> fst ` live heap_start bs \<and> fs \<noteq> root
    \<and> fs_at (live heap_start bs') (ram t) fs drv root \<and> dir_at (live heap_start bs') (ram t) root []
    \<and> inode_at (ram t) root 0 (ucast flags AND I_PERMS) (of_nat fs) \<and> outside_kept (ram s) (ram t) \<and> heap_frame s t"
proof -
  have "\<exists>fs nf t bs1. malloc 8 s = Some (of_nat fs, t) \<and> heap_is t bs1 \<and> live heap_start bs1 = insert (fs, nf) (live heap_start bs)
      \<and> fs \<notin> fst ` live heap_start bs \<and> 8 \<le> nf \<and> plenty (64 + N) bs1
      \<and> outside_kept (ram s) (ram t) \<and> heap_frame s t"
  proof (cases "plenty (96 + N) bs")
    case True
    have side: "unat (8 :: u32) + 15 < 4294967296" "plenty (round16 (unat (8 :: u32)) + 16 + (64 + N)) bs" "16 \<le> 64 + N"
      using True by (simp_all add: round16_def)
    obtain fs nf m bs1 where o: "malloc 8 s = Some (of_nat fs, s\<lparr>ram := m\<rparr>)" "heap_is (s\<lparr>ram := m\<rparr>) bs1"
      "live heap_start bs1 = insert (fs, nf) (live heap_start bs)" "round16 (unat (8 :: u32)) \<le> nf" "plenty (64 + N) bs1"
      "\<And>b j. (b, j) \<in> live heap_start bs \<Longrightarrow> b + j + 16 \<le> fs \<or> fs + nf + 16 \<le> b"
      "keeps (live heap_start bs) {} (ram s) m"
      by (rule malloc_plenty [OF hp side]) (rule that)
    have "fs \<notin> fst ` live heap_start bs"
    proof
      assume "fs \<in> fst ` live heap_start bs"
      then obtain j where "(fs, j) \<in> live heap_start bs" by auto
      from o(6) [OF this] show False by simp
    qed
    moreover have "8 \<le> nf" using o(4) by (simp add: round16_def)
    moreover have "outside_kept (ram s) m" by (rule keeps_outside [OF o(7)]) simp
    ultimately show ?thesis using o(1-3,5) heap_frame_ram
      by (intro exI [of _ fs] exI [of _ nf] exI [of _ "s\<lparr>ram := m\<rparr>"] exI [of _ bs1]) simp
  next
    case False
    then have b: "bs = []" "room s heap_start 1" "N \<le> 3984" using space by simp_all
    have "abs_malloc (round16 (unat (8 :: u32))) bs = (0, [(True, 16), (False, 4048)])"
      by (simp add: abs_malloc_def b(1) round16_def split_block_def grown_def)
    from malloc_spec [OF hp _ this] b(1,2) obtain t where
      "malloc 8 s = Some (of_nat (heap_start + 16), t)" "heap_is t [(True, 16), (False, 4048)]"
      "outside_kept (ram s) (ram t)" "heap_frame s t"
      by (auto simp: round16_def)
    then show ?thesis using b
      by (intro exI [of _ "heap_start + 16"] exI [of _ 16] exI [of _ t] exI [of _ "[(True, 16), (False, 4048)]"]) (auto simp: plenty_def)
  qed
  then obtain fs nf t bs1 where f: "malloc 8 s = Some (of_nat fs, t)" "heap_is t bs1"
    "live heap_start bs1 = insert (fs, nf) (live heap_start bs)" "fs \<notin> fst ` live heap_start bs" "8 \<le> nf" "plenty (64 + N) bs1"
    "outside_kept (ram s) (ram t)" "heap_frame s t"
    by blast
  then have "(fs, nf) \<in> live heap_start bs1" by simp
  from mount_rest [OF f(1,2) this f(5,6) N, of drv flags] obtain root m bs' where
    r: "tmpfs_mount drv flags s = Some (of_nat fs, t\<lparr>ram := m\<rparr>)" "heap_is (t\<lparr>ram := m\<rparr>) bs'" "plenty N bs'"
      "live heap_start bs1 \<subseteq> live heap_start bs'" "root \<notin> fst ` live heap_start bs1"
      "dir_at (live heap_start bs') m root []" "inode_at m root 0 (ucast flags AND I_PERMS) (of_nat fs)"
      "fs_at (live heap_start bs') m fs drv root" "outside_kept (ram t) m"
    by blast
  have "live heap_start bs \<subseteq> live heap_start bs'" "root \<notin> fst ` live heap_start bs" "fs \<noteq> root" using r(4,5) f(3) by auto
  moreover have "outside_kept (ram s) m" by (rule outside_kept_trans [OF f(7) r(9)])
  moreover obtain m' p b h where "t = s\<lparr>ram := m', ptes := p, phys_page_bitmap := b, first_hdr := h\<rparr>"
    using f(8) unfolding heap_frame_def by blast
  then have "heap_frame s (t\<lparr>ram := m\<rparr>)" unfolding heap_frame_def by (intro exI [of _ m] exI [of _ p] exI [of _ b] exI [of _ h]) simp
  ultimately show ?thesis using r(1-3,6-8) f(4)
    by (intro exI [of _ fs] exI [of _ root] exI [of _ "t\<lparr>ram := m\<rparr>"] exI [of _ bs']) simp
qed

text \<open>
  C17. \<open>tmpfs_mount\<close> on a heap with room in one block, or on the empty heap that can grow by its first page, returns a file system
  instance with its driver and an empty root directory: the inode has no references, the permissions asked for and, as the code never
  sets it, no type bit of a directory. Both objects are new, the heap stays intact, the objects in use stay in use, and no memory
  outside the heap's area and nothing else of the machine but its page tables changes.
\<close>

theorem tmpfs_mount_correct:
  assumes hp: "heap_is s bs" and N: "16 \<le> N"
    and space: "plenty (96 + N) bs \<or> bs = [] \<and> room s heap_start 1 \<and> N \<le> 3984"
  shows "\<exists>fs root t bs'. tmpfs_mount drv flags s = Some (of_nat fs, t) \<and> heap_is t bs' \<and> plenty N bs'
    \<and> live heap_start bs \<subseteq> live heap_start bs' \<and> fs \<notin> fst ` live heap_start bs \<and> root \<notin> fst ` live heap_start bs \<and> fs \<noteq> root
    \<and> fs_at (live heap_start bs') (ram t) fs drv root \<and> dir_at (live heap_start bs') (ram t) root []
    \<and> inode_at (ram t) root 0 (ucast flags AND I_PERMS) (of_nat fs) \<and> (ucast flags AND I_PERMS) AND IT_TYPE = (0 :: u16)
    \<and> outside_kept (ram s) (ram t) \<and> heap_frame s t"
proof -
  have "(w AND I_PERMS) AND IT_TYPE = (0 :: u16)" for w by (simp add: and.assoc)
  then show ?thesis using mount_spec [OF assms, of drv flags] by simp
qed

theorem tmpfs_mount_correct_witness:
  "\<exists>fs root t bs. tmpfs_mount 0x5000 0 heap_init = Some (of_nat fs, t) \<and> heap_is t bs
    \<and> fs_at (live heap_start bs) (ram t) fs 0x5000 root \<and> dir_at (live heap_start bs) (ram t) root []"
  using tmpfs_mount_correct [OF heap_init_is, of 16 "0x5000" 0] heap_init_room by simp blast

section \<open>Listing\<close>

lemma dents_agree_heap:
  assumes "dents m nxt es" "owned (live heap_start bs) es" "heap_is s bs" "agree heap_start heap_limit m m'"
  shows "dents m' nxt es"
proof (rule dents_agree [OF assms(1)])
  fix a b nm i assume e: "(a, b, nm, i) \<in> set es"
  with assms(2) obtain n k where n: "(a, n) \<in> live heap_start bs" "12 \<le> n" "(b, k) \<in> live heap_start bs" "length nm < k"
    by (fastforce simp: owned_def)
  note l = live_in_heap(1,2) [OF assms(3) n(1)] live_in_heap(1,2) [OF assms(3) n(3)]
  show "agree a (a + 12) m m' \<and> agree b (b + Suc (length nm)) m m'"
    using agree_mono [OF assms(4), of a "a + 12"] agree_mono [OF assms(4), of b "b + Suc (length nm)"] l n(2,4) by simp
qed

lemma readdir_loop_spec:
  assumes hp: "heap_is s bs" and es: "owned (live heap_start bs) es" "dents m NULL es"
    and p: "p + 4 * length es \<le> heap_start" "\<And>x. p \<le> x \<Longrightarrow> x < p + 4 * length es \<Longrightarrow> virt_mapped (of_nat x) s"
    and c: "unat c \<le> unat n" and k: "k = min (unat n - unat c) (length es)"
  shows "\<exists>m'. readdir_loop (list_start es NULL) (of_nat p) c n (s\<lparr>ram := m\<rparr>) = Some (c + of_nat k, s\<lparr>ram := m'\<rparr>)
    \<and> (\<forall>j < k. rd32 m' (of_nat (p + 4 * j)) = of_nat (fst (snd (es ! j))))
    \<and> keeps UNIV {p ..< p + 4 * k} m m'"
  using es p c k
proof (induction es arbitrary: p c m k)
  case Nil
  then show ?case by (intro exI [of _ m]) (subst readdir_loop.simps, simp)
next
  case (Cons e es)
  obtain a b nm i where e: "e = (a, b, nm, i)" by (cases e)
  from Cons.prems(1) e obtain na where na: "(a, na) \<in> live heap_start bs" "12 \<le> na" by auto
  note al = live_in_heap(1,2) [OF hp na(1)]
  have nn: "(of_nat a :: addr) \<noteq> NULL" using al na(2) of_nat_neq [of a 0] by simp
  show ?case
  proof (cases "unat c = unat n")
    case True
    then have "c \<ge> n" "k = 0" using Cons.prems(6) by (simp_all add: word_le_nat_alt)
    then show ?thesis by (intro exI [of _ m]) (subst readdir_loop.simps, simp add: e)
  next
    case False
    then have lt: "unat c < unat n" "\<not> c \<ge> n" using Cons.prems(5) by (simp_all add: word_le_nat_alt)
    let ?m1 = "wr32 m (of_nat p) (of_nat b)"
    have rd: "get32 (of_nat a) (s\<lparr>ram := m\<rparr>) = Some (of_nat b)"
      using region_mapped [OF hp na(1), of 0] na(2) Cons.prems(2) by (simp add: e put_mapped dentry_def)
    have put: "put32 (of_nat p) (of_nat b) (s\<lparr>ram := m\<rparr>) = Some (s\<lparr>ram := ?m1\<rparr>)"
      using Cons.prems(4) [of p] by (simp add: put_mapped)
    have k1: "keeps UNIV {p ..< p + 4} m ?m1" by (rule wr32_keeps) (use Cons.prems(3) in simp)
    have ag: "agree heap_start heap_limit m ?m1"
      by (rule UNIV_agree [OF k1]) (use Cons.prems(3) in auto)
    have "agree a (a + 12) m ?m1" by (rule agree_mono [OF ag]) (use al na(2) in simp_all)
    from read_agree(1) [OF this, of "a + 8"] have nx: "get32 (of_nat a + 8) (s\<lparr>ram := ?m1\<rparr>) = Some (list_start es NULL)"
      using region_mapped [OF hp na(1), of 8] na(2) Cons.prems(2) by (simp add: e put_mapped dentry_def add.commute)
    have c1: "unat (c + 1) = unat c + 1" using lt(1) unat_lt_2p32 [of n] by (intro unat_succ) linarith
    have kk: "k = Suc (min (unat n - unat (c + 1)) (length es))" using Cons.prems(6) lt(1) c1 by auto
    let ?k = "min (unat n - unat (c + 1)) (length es)"
    have "\<exists>m'. readdir_loop (list_start es NULL) (of_nat (p + 4)) (c + 1) n (s\<lparr>ram := ?m1\<rparr>) = Some (c + 1 + of_nat ?k, s\<lparr>ram := m'\<rparr>)
        \<and> (\<forall>j < ?k. rd32 m' (of_nat (p + 4 + 4 * j)) = of_nat (fst (snd (es ! j)))) \<and> keeps UNIV {p + 4 ..< p + 4 + 4 * ?k} ?m1 m'"
    proof (rule Cons.IH)
      have d: "dents m NULL es" "owned (live heap_start bs) es" using Cons.prems(1,2) by (simp_all add: e)
      show "owned (live heap_start bs) es" by (rule d(2))
      show "dents ?m1 NULL es" by (rule dents_agree_heap [OF d hp ag])
      show "unat (c + 1) \<le> unat n" using c1 lt(1) by simp
    qed (use Cons.prems(3,4) in auto)
    then obtain m' where r: "readdir_loop (list_start es NULL) (of_nat p + 4) (c + 1) n (s\<lparr>ram := ?m1\<rparr>) = Some (c + of_nat k, s\<lparr>ram := m'\<rparr>)"
      "\<forall>j < ?k. rd32 m' (of_nat (p + 4 + 4 * j)) = of_nat (fst (snd (es ! j)))" "keeps UNIV {p + 4 ..< p + 4 + 4 * ?k} ?m1 m'"
      using kk by (auto simp: add.assoc add.commute)
    have "readdir_loop (list_start (e # es) NULL) (of_nat p) c n (s\<lparr>ram := m\<rparr>) = Some (c + of_nat k, s\<lparr>ram := m'\<rparr>)"
      using rd put nx r(1) nn lt(2) by (subst readdir_loop.simps) (simp add: e)
    moreover have "rd32 m' (of_nat (p + 4 * j)) = of_nat (fst (snd ((e # es) ! j)))" if "j < k" for j
    proof (cases j)
      case 0
      have "agree p (p + 4) ?m1 m'" by (rule UNIV_agree [OF r(3)]) (use Cons.prems(3) in auto)
      from read_agree(1) [OF this, of p] show ?thesis using 0 by (simp add: e)
    next
      case (Suc i)
      then show ?thesis using r(2) that kk by (simp add: add.assoc)
    qed
    moreover have "keeps UNIV {p ..< p + 4 * k} m m'"
      by (rule keeps_mono [OF keeps_trans [OF k1 r(3) subset_refl] subset_refl]) (use kk in auto)
    ultimately show ?thesis by blast
  qed
qed

text \<open>
  C18. \<open>tmpfs_readdir\<close> with an array below the heap returns the number of entries, at most the size given, and
  fills the array with pointers to the names of the first entries in order; nothing else changes.
\<close>

theorem tmpfs_readdir_correct:
  assumes hp: "heap_is s bs" and dir: "dir_at (live heap_start bs) (ram s) d es"
    and p: "unat arr + 4 * length es \<le> heap_start" "\<And>x. unat arr \<le> x \<Longrightarrow> x < unat arr + 4 * length es \<Longrightarrow> virt_mapped (of_nat x) s"
    and n: "unat n < 2147483648" and k: "k = min (unat n) (length es)"
  shows "\<exists>m. tmpfs_readdir (of_nat d) arr n s = Some (int k, s\<lparr>ram := m\<rparr>)
    \<and> (\<forall>j < k. cstr m (rd32 m (arr + of_nat (4 * j))) (fst (snd (snd (es ! j)))))
    \<and> keeps UNIV {unat arr ..< unat arr + 4 * k} (ram s) m"
proof -
  let ?L = "live heap_start bs"
  obtain nd where d: "(d, nd) \<in> ?L" "44 \<le> nd" using dir by (auto simp: dir_at_def)
  have es: "owned ?L es" "rd32 (ram s) (of_nat d + 40) = list_start es NULL" "dents (ram s) NULL es"
    using dir by (simp_all add: dir_at_def)
  have "virt_mapped (of_nat d + 40) s" using region_mapped [OF hp d(1), of 40] d(2) by simp
  then have fst_de: "get32 (of_nat d + 40) s = Some (list_start es NULL)" using es(2) by (simp add: put_mapped)
  from readdir_loop_spec [OF hp es(1,3) p, of 0 n k] k obtain m where
    m: "readdir_loop (list_start es NULL) arr 0 n s = Some (of_nat k, s\<lparr>ram := m\<rparr>)"
      "\<forall>j < k. rd32 m (of_nat (unat arr + 4 * j)) = of_nat (fst (snd (es ! j)))" "keeps UNIV {unat arr ..< unat arr + 4 * k} (ram s) m"
    by auto
  have "unat (of_nat k :: u32) = k" by (rule unat_of_nat32) (use k n in simp)
  then have "to_int (of_nat k :: u32) = int k" using to_int_small [of "of_nat k :: u32"] k n by simp
  then have "tmpfs_readdir (of_nat d) arr n s = Some (int k, s\<lparr>ram := m\<rparr>)" by (simp add: tmpfs_readdir_def fst_de m(1))
  moreover have "agree heap_start heap_limit (ram s) m" by (rule UNIV_agree [OF m(3)]) (use p(1) k in auto)
  then have "dents m NULL es" by (rule dents_agree_heap [OF es(3,1) hp])
  then have "cstr m (of_nat (fst (snd (es ! j)))) (fst (snd (snd (es ! j))))" if "j < length es" for j
    using that by (induction es arbitrary: j) (auto simp: nth_Cons split: nat.splits)
  then have "cstr m (rd32 m (arr + of_nat (4 * j))) (fst (snd (snd (es ! j))))" if "j < k" for j
    using m(2) that k by simp
  ultimately show ?thesis using m(3) by blast
qed

text \<open>The directory of the instance of lookup, with a page for the array.\<close>

definition listing_state :: heap where
  "listing_state = (four_pages dir_mem)\<lparr>ptes := (ptes (four_pages dir_mem))(3 := 0x104003, 0xffc00 := 0x105003)\<rparr>"

lemma virt_mapped_upd: "virt_mapped a s \<Longrightarrow> v AND 1 \<noteq> 0 \<Longrightarrow> virt_mapped a (s\<lparr>ptes := (ptes s)(i := v)\<rparr>)"
  by (simp add: virt_mapped_def table_present_def page_present_def)

lemma listing_state_heap: "heap_is listing_state [(True, 48), (True, 16), (True, 16), (False, 16240)]"
proof -
  let ?s = "four_pages dir_mem"
  have "virt_mapped a ?s \<Longrightarrow> virt_mapped a (?s\<lparr>ptes := (ptes ?s)(3 := 0x104003)\<rparr>)" for a
    by (rule virt_mapped_upd) simp_all
  then have "virt_mapped a ?s \<Longrightarrow> virt_mapped a listing_state" for a
    using virt_mapped_upd [of a "?s\<lparr>ptes := (ptes ?s)(3 := 0x104003)\<rparr>" "0x105003" "0xffc00"] by (simp add: listing_state_def)
  then show ?thesis using dir_mem_heap by (simp add: heap_is_def heap_mapped_def listing_state_def)
qed

theorem tmpfs_readdir_correct_witness:
  "\<exists>m. tmpfs_readdir 0xd0000010 0x3000 10 listing_state = Some (1, listing_state\<lparr>ram := m\<rparr>) \<and> cstr m (rd32 m 0x3000) [97]"
proof -
  have m: "virt_mapped (of_nat x) listing_state" if "12288 \<le> x" "x < 12292" for x
  proof -
    have "x div 4096 = 3" using that by linarith
    moreover have "unat (of_nat x :: addr) = x" by (rule unat_of_nat32) (use that in simp)
    ultimately show ?thesis by (simp add: virt_mapped_def table_present_def page_present_def listing_state_def)
  qed
  have r: "ram listing_state = dir_mem" by (simp add: listing_state_def)
  note th = tmpfs_readdir_correct [OF listing_state_heap, where d = "0xd0000010" and arr = "0x3000" and n = 10 and k = 1,
      OF dir_mem_dir [folded r]]
  have "\<exists>m. tmpfs_readdir (of_nat 0xd0000010) 0x3000 10 listing_state = Some (int 1, listing_state\<lparr>ram := m\<rparr>)
      \<and> (\<forall>j<1. cstr m (rd32 m (0x3000 + of_nat (4 * j))) [97])"
    using th m by simp blast
  then show ?thesis by simp
qed

end
