(* ===== verification/Boot.thy ===== *)
theory Boot
  imports Boot_Info Tmpfs_Mount
begin

text \<open>
  kernel/arch/i686/boot/boot1.c: \<open>hlinit\<close>, from the boot information to the echo loop, with the interface
  of file system drivers (fs.h) through which it uses tmpfs. What the linker decides is a parameter: the
  addresses of symbols, string literals and local arrays, and the list of the initialisers in the section
  \<open>.initcall\<close>.
\<close>

section \<open>File system drivers\<close>

record 's fs_driver =
  fs_mount :: "u32 \<Rightarrow> 's \<Rightarrow> (addr \<times> 's) option"
  fs_destroy :: "addr \<Rightarrow> 's \<Rightarrow> 's option"
  fs_create :: "addr \<Rightarrow> addr \<Rightarrow> u16 \<Rightarrow> 's \<Rightarrow> (int \<times> 's) option"
  fs_lookup :: "addr \<Rightarrow> addr \<Rightarrow> 's \<Rightarrow> (addr \<times> 's) option"
  fs_readdir :: "addr \<Rightarrow> addr \<Rightarrow> u32 \<Rightarrow> 's \<Rightarrow> (int \<times> 's) option"
  fs_write :: "addr \<Rightarrow> off_t \<Rightarrow> addr \<Rightarrow> u32 \<Rightarrow> 's \<Rightarrow> (int \<times> 's) option"
  fs_read :: "addr \<Rightarrow> off_t \<Rightarrow> addr \<Rightarrow> u32 \<Rightarrow> 's \<Rightarrow> (int \<times> 's) option"

definition tmpfs_driver ::
    "addr \<Rightarrow> addr \<Rightarrow> addr \<Rightarrow> (addr \<Rightarrow> 'a heap_scheme char_driver) \<Rightarrow> (addr \<Rightarrow> 'a heap_scheme block_driver)
      \<Rightarrow> 'a heap_scheme fs_driver" where
  "tmpfs_driver self dot dotdot cdrv bdrv =
     \<lparr>fs_mount = tmpfs_mount self, fs_destroy = tmpfs_destroy, fs_create = tmpfs_create dot dotdot,
      fs_lookup = (\<lambda>idir name s. map_option (\<lambda>de. (de, s)) (tmpfs_lookup idir name s)),
      fs_readdir = tmpfs_readdir, fs_write = tmpfs_write cdrv bdrv, fs_read = tmpfs_read cdrv bdrv\<rparr>"

section \<open>The kernel image\<close>

text \<open>The functions registered with \<open>initcall\<close>, and the addresses they refer to.\<close>

datatype initcall = Ps2_Setup addr | Ramdisk_Driver addr | Memdev_Driver addr | Tty_Driver addr

fun call :: "initcall \<Rightarrow> 'a ps2_scheme \<Rightarrow> 'a ps2_scheme option" where
  "call (Ps2_Setup handler) s = ps2_kb_driversetup handler s"
| "call (Ramdisk_Driver a) s = Some (register_ramdisk_driver a s)"
| "call (Memdev_Driver a) s = Some (register_memdev_driver a s)"
| "call (Tty_Driver a) s = Some (register_tty_driver a s)"

fun run_initcalls :: "initcall list \<Rightarrow> 'a ps2_scheme \<Rightarrow> 'a ps2_scheme option" where
  "run_initcalls [] s = Some s"
| "run_initcalls (c # cs) s = Option.bind (call c s) (run_initcalls cs)"

record 's kernel_image =
  kernel_start :: addr
  kernel_end :: addr
  virtual_offset :: addr
  exc_isrs :: "nat \<Rightarrow> addr"
  initcalls :: "initcall list"
  tmpfs_addr :: addr
  fs_drivers :: "addr \<Rightarrow> 's fs_driver"
  name_tty1 :: addr
  name_console :: addr
  name_ram0 :: addr
  text_com :: addr
  text_chr :: addr
  disk_buf :: addr
  echo_buf :: addr

section \<open>Start-up\<close>

definition yes_no :: "bool \<Rightarrow> va" where
  "yes_no b = Str (lit (if b then ''yes'' else ''no''))"

definition no_map_msg :: string where
  "no_map_msg = ''Did not get required memory maps from GRUB.'' @ [CHR 0x0A, CHR 0x09] @ ''got meminfo? %s''
     @ [CHR 0x0A, CHR 0x09] @ ''got mmap? %s'' @ [CHR 0x0A]
     @ ''Are you using legacy (BIOS) boot mode? Legacy BIOS is still'' @ ''required to boot *nix at this point. Sorry for the''
     @ ''inconvenience! :('' @ [CHR 0x0A]"

definition read_boot_info ::
    "'s kernel_image \<Rightarrow> addr \<Rightarrow> 'a paging_scheme \<Rightarrow> (boot_vars \<times> 'a paging_scheme) option" where
  "read_boot_info img mbi s =
     do {
       s \<leftarrow> mem_init (kernel_start img) (kernel_end img) (virtual_offset img) s;
       s \<leftarrow> tty_init s;
       scan_tags (mbi + 8) boot_vars_init s
     }"

definition add_boot_ramdisk :: "boot_vars \<Rightarrow> 'a paging_scheme \<Rightarrow> 'a paging_scheme option" where
  "add_boot_ramdisk v s =
     do {
       (a, s) \<leftarrow> mem_map_range K_MEM_START (rd_start v) (rd_end v) DEFAULT_PAGE_FLAGS s;
       let (rd, s) = add_ramdisk PAGE_SIZE a (rd_end v - rd_start v) s;
       Some (printk (msg ''info: added RAM disk as dev %d:%d'') [Word (ucast (MAJOR rd)), Word (MINOR rd)] s)
     }"

text \<open>
  \<open>fs->driver->create(fs->root, ...)\<close>, the lookup of the new entry \<open>de\<close>, and \<open>de->ino->dev_type = dev\<close>.
\<close>

definition make_node ::
    "'a heap_scheme kernel_image \<Rightarrow> addr \<Rightarrow> addr \<Rightarrow> u16 \<Rightarrow> dev_t \<Rightarrow> 'a heap_scheme \<Rightarrow> (addr \<times> 'a heap_scheme) option" where
  "make_node img fs name mode dev s =
     do {
       drv \<leftarrow> get32 fs s;
       root \<leftarrow> get32 (fs + 4) s;
       (_, s) \<leftarrow> fs_create (fs_drivers img drv) root name mode s;
       root \<leftarrow> get32 (fs + 4) s;
       fs_on \<leftarrow> get32 (root + 36) s;
       drv \<leftarrow> get32 fs_on s;
       (de, s) \<leftarrow> fs_lookup (fs_drivers img drv) root name s;
       ino \<leftarrow> get32 (de + 4) s;
       s \<leftarrow> put32 (ino + 20) dev s;
       Some (de, s)
     }"

text \<open>\<open>de->ino->fs_on->driver\<close>.\<close>

definition inode_driver :: "'s kernel_image \<Rightarrow> addr \<Rightarrow> 'a paging_scheme \<Rightarrow> (addr \<times> 's fs_driver) option" where
  "inode_driver img de s =
     do {
       ino \<leftarrow> get32 (de + 4) s;
       fs_on \<leftarrow> get32 (ino + 36) s;
       drv \<leftarrow> get32 fs_on s;
       Some (ino, fs_drivers img drv)
     }"

definition write_entry_file ::
    "'a heap_scheme kernel_image \<Rightarrow> addr \<Rightarrow> addr \<Rightarrow> u32 \<Rightarrow> 'a heap_scheme \<Rightarrow> (int \<times> 'a heap_scheme) option" where
  "write_entry_file img de buf n s = do { (ino, drv) \<leftarrow> inode_driver img de s; fs_write drv ino 0 buf n s }"

definition read_entry_file ::
    "'a heap_scheme kernel_image \<Rightarrow> addr \<Rightarrow> addr \<Rightarrow> u32 \<Rightarrow> 'a heap_scheme \<Rightarrow> (int \<times> 'a heap_scheme) option" where
  "read_entry_file img de buf n s = do { (ino, drv) \<leftarrow> inode_driver img de s; fs_read drv ino 0 buf n s }"

text \<open>The three device nodes with their messages; the result is the entry of the console.\<close>

definition open_devices ::
    "'a heap_scheme kernel_image \<Rightarrow> addr \<Rightarrow> 'a heap_scheme \<Rightarrow> (addr \<times> 'a heap_scheme) option" where
  "open_devices img fs s =
     do {
       (tty1, s) \<leftarrow> make_node img fs (name_tty1 img) IT_CHR (DEV 2 1) s;
       (_, s) \<leftarrow> write_entry_file img tty1 (text_com img) 19 s;
       (console, s) \<leftarrow> make_node img fs (name_console img) IT_CHR (DEV 2 0) s;
       (_, s) \<leftarrow> write_entry_file img console (text_chr img) 27 s;
       (ram0, s) \<leftarrow> make_node img fs (name_ram0 img) IT_BLK (DEV 1 0) s;
       (_, s) \<leftarrow> read_entry_file img ram0 (disk_buf img) 4096 s;
       let s = s\<lparr>ram := (ram s)(disk_buf img + 4096 := 0)\<rparr>;
       Some (console, printk (msg ''%s'') [Str (takeWhile (\<lambda>b. b \<noteq> 0) (read_bytes (ram s) (disk_buf img) 4096))] s)
     }"

text \<open>One round of the last loop.\<close>

definition echo_step :: "'a heap_scheme kernel_image \<Rightarrow> addr \<Rightarrow> 'a heap_scheme \<Rightarrow> 'a heap_scheme option" where
  "echo_step img de s =
     do {
       (n, s) \<leftarrow> read_entry_file img de (echo_buf img) 10 s;
       (_, s) \<leftarrow> write_entry_file img de (echo_buf img) (word_of_int n) s;
       Some s
     }"

text \<open>How \<open>hlinit\<close> ends up: stopped by \<open>panic\<close>, or in the last loop with the entry of the console.\<close>

datatype 's start = Halted 's | Echoing addr 's

definition start_devices ::
    "'a heap_scheme kernel_image \<Rightarrow> 'a heap_scheme \<Rightarrow> 'a heap_scheme start option" where
  "start_devices img s =
     do {
       s \<leftarrow> run_initcalls (initcalls img) s;
       let s = printk (msg ''Hello, world!'') [] s;
       (fs, s) \<leftarrow> fs_mount (fs_drivers img (tmpfs_addr img)) 0 s;
       (console, s) \<leftarrow> open_devices img fs s;
       Some (Echoing console s)
     }"

definition hlinit :: "'a heap_scheme kernel_image \<Rightarrow> addr \<Rightarrow> 'a heap_scheme \<Rightarrow> 'a heap_scheme start option" where
  "hlinit img mbi s =
     do {
       (v, s) \<leftarrow> read_boot_info img mbi s;
       if \<not> got_meminfo v \<or> \<not> got_mmap v
       then map_option Halted (panic no_map_msg [yes_no (got_meminfo v), yes_no (got_mmap v)] s)
       else do {
         s \<leftarrow> (if got_rd v then add_boot_ramdisk v s else Some s);
         start_devices img (setup_interrupts (exc_isrs img) s)
       }
     }"

section \<open>Initialisers\<close>

text \<open>The registrations a list of initialisers makes, in order.\<close>

fun char_regs :: "initcall list \<Rightarrow> (u8 \<times> addr) list" where
  "char_regs [] = []"
| "char_regs (Memdev_Driver a # cs) = (CHR_MEMDEV, a) # char_regs cs"
| "char_regs (Tty_Driver a # cs) = (CHR_TTY, a) # char_regs cs"
| "char_regs (_ # cs) = char_regs cs"

fun block_regs :: "initcall list \<Rightarrow> (u8 \<times> addr) list" where
  "block_regs [] = []"
| "block_regs (Ramdisk_Driver a # cs) = (BLK_RAMDISK, a) # block_regs cs"
| "block_regs (_ # cs) = block_regs cs"

lemma ps2_setup_tables:
  assumes "ps2_kb_driversetup h s = Some t"
  shows "char_drivers t = char_drivers s" "block_drivers t = block_drivers s"
proof -
  from assms obtain ok v where r: "controller_setup s = Some (ok, v)"
    and t: "(if \<not> ok then Some (printk (msg ''FATAL: ps/2: keyboard will not be available'') [] v)
       else Some (pic_clear_mask 1 (set_isr (IRQ_OFFSET + 1) h v))) = Some t"
    by (auto simp: ps2_kb_driversetup_def Option.bind_eq_Some_conv split: prod.splits)
  have p: "char_drivers (pic_clear_mask 1 u) = char_drivers u" "block_drivers (pic_clear_mask 1 u) = block_drivers u" for u :: "'a ps2_scheme"
    by (simp_all add: pic_clear_mask_def Let_def io_wait_def split_beta)
  have q: "char_drivers (set_isr n a u) = char_drivers u" "block_drivers (set_isr n a u) = block_drivers u" for n a and u :: "'a ps2_scheme"
    by (simp_all add: set_isr_def set_isr_type_def Let_def)
  from talks_setup [OF r] t show "char_drivers t = char_drivers s" "block_drivers t = block_drivers s"
    by (auto simp: talks_def p q split: if_splits)
qed

lemma register_tables [simp]:
  "char_drivers (register_block_driver m d s) = char_drivers s" "block_drivers (register_char_driver m d s) = block_drivers s"
  by (simp_all add: register_block_driver_def register_char_driver_def)

lemma run_initcalls_tables:
  assumes "run_initcalls cs s = Some t" "NULL \<notin> snd ` set (char_regs cs)" "NULL \<notin> snd ` set (block_regs cs)"
  shows "char_drivers t m = (if char_drivers s m \<noteq> NULL then char_drivers s m
      else case map_of (char_regs cs) m of None \<Rightarrow> NULL | Some d \<Rightarrow> d)
    \<and> block_drivers t m = (if block_drivers s m \<noteq> NULL then block_drivers s m
      else case map_of (block_regs cs) m of None \<Rightarrow> NULL | Some d \<Rightarrow> d)"
  using assms
proof (induction cs arbitrary: s)
  case (Cons c cs)
  from Cons.prems(1) obtain u where u: "call c s = Some u" "run_initcalls cs u = Some t"
    by (auto simp: Option.bind_eq_Some_conv)
  have n: "NULL \<notin> snd ` set (char_regs cs)" "NULL \<notin> snd ` set (block_regs cs)"
    using Cons.prems(2,3) by (cases c; simp)+
  note IH = Cons.IH [OF u(2) n]
  show ?case
  proof (cases c)
    case (Ps2_Setup h)
    then show ?thesis using IH u(1) ps2_setup_tables [of h s u] by simp
  next
    case (Ramdisk_Driver a)
    then have "u = register_block_driver BLK_RAMDISK a s" using u(1) by (simp add: register_ramdisk_driver_def)
    then show ?thesis using IH Ramdisk_Driver Cons.prems(3) block_reg.reg_free [of s 1 a] block_reg.reg_taken [of s 1 a]
        block_reg.reg_other [of m 1 a s]
      by (cases "m = 1"; cases "block_drivers s 1 = NULL") auto
  next
    case (Memdev_Driver a)
    then have "u = register_char_driver CHR_MEMDEV a s" using u(1) by (simp add: register_memdev_driver_def)
    then show ?thesis using IH Memdev_Driver Cons.prems(2) char_reg.reg_free [of s 1 a] char_reg.reg_taken [of s 1 a]
        char_reg.reg_other [of m 1 a s]
      by (cases "m = 1"; cases "char_drivers s 1 = NULL") auto
  next
    case (Tty_Driver a)
    then have "u = register_char_driver CHR_TTY a s" using u(1) by (simp add: register_tty_driver_def)
    then show ?thesis using IH Tty_Driver Cons.prems(2) char_reg.reg_free [of s 2 a] char_reg.reg_taken [of s 2 a]
        char_reg.reg_other [of m 2 a s]
      by (cases "m = 2"; cases "char_drivers s 2 = NULL") auto
  qed
qed simp

lemma all_initcalls_tables:
  assumes "run_initcalls cs s = Some t" "set cs = {Ps2_Setup h, Ramdisk_Driver r, Memdev_Driver m, Tty_Driver y}"
    and "NULL \<notin> {r, m, y}" "char_drivers s = (\<lambda>_. NULL)" "block_drivers s = (\<lambda>_. NULL)"
  shows "char_drivers t = (\<lambda>_. NULL)(CHR_MEMDEV := m, CHR_TTY := y)
    \<and> block_drivers t = (\<lambda>_. NULL)(BLK_RAMDISK := r)"
proof -
  have ch: "(k, a) \<in> set (char_regs cs) \<longleftrightarrow> k = 1 \<and> Memdev_Driver a \<in> set cs \<or> k = 2 \<and> Tty_Driver a \<in> set cs"
    and bl: "(k, a) \<in> set (block_regs cs) \<longleftrightarrow> k = 1 \<and> Ramdisk_Driver a \<in> set cs" for k a and cs :: "initcall list"
    by (induction cs rule: char_regs.induct) auto
  have n: "NULL \<notin> snd ` set (char_regs cs)" "NULL \<notin> snd ` set (block_regs cs)" using assms(2,3) by (auto simp: ch bl)
  have m1: "map_of (char_regs cs) k = ((\<lambda>_. None)(1 := Some m, 2 := Some y)) k" for k
  proof (cases "map_of (char_regs cs) k")
    case None
    then have "(k, a) \<notin> set (char_regs cs)" for a using weak_map_of_SomeI [of k a "char_regs cs"] by auto
    then have "k \<noteq> 1" "k \<noteq> 2" using assms(2) unfolding ch by blast+
    then show ?thesis using None by simp
  next
    case (Some a)
    from map_of_SomeD [OF Some] have "k = 1 \<and> a = m \<or> k = 2 \<and> a = y" using assms(2) unfolding ch by blast
    then show ?thesis using Some by auto
  qed
  have m2: "map_of (block_regs cs) k = ((\<lambda>_. None)(1 := Some r)) k" for k
  proof (cases "map_of (block_regs cs) k")
    case None
    then have "(k, a) \<notin> set (block_regs cs)" for a using weak_map_of_SomeI [of k a "block_regs cs"] by auto
    then have "k \<noteq> 1" using assms(2) unfolding bl by blast
    then show ?thesis using None by simp
  next
    case (Some a)
    from map_of_SomeD [OF Some] have "k = 1 \<and> a = r" using assms(2) unfolding bl by blast
    then show ?thesis using Some by auto
  qed
  show ?thesis
    using run_initcalls_tables [OF assms(1) n] assms(4,5) by (auto simp: m1 m2 fun_eq_iff)
qed

text \<open>
  Whatever order the linker puts the initialisers in, when all have run the tables hold exactly the
  memory devices, the terminals and the RAM disks under their major numbers.
\<close>

theorem initcalls_register_drivers:
  assumes "run_initcalls cs s = Some t" "set cs = {Ps2_Setup h, Ramdisk_Driver r, Memdev_Driver m, Tty_Driver y}"
    and "NULL \<notin> {r, m, y}" "char_drivers s = (\<lambda>_. NULL)" "block_drivers s = (\<lambda>_. NULL)"
  shows "char_drivers t = (\<lambda>_. NULL)(CHR_MEMDEV := m, CHR_TTY := y)
    \<and> block_drivers t = (\<lambda>_. NULL)(BLK_RAMDISK := r)"
  by (rule all_initcalls_tables [OF assms])

text \<open>A machine with a keyboard that passes its tests and empty driver tables.\<close>

definition bare_machine :: ps2 where
  "bare_machine = (ps2_start 0 (setup_answers 0x47 0xfa 3 0x44))\<lparr>block_drivers := (\<lambda>_. NULL)\<rparr>"

theorem initcalls_register_drivers_witness:
  "\<exists>t. run_initcalls [Ps2_Setup 0xc0101000, Tty_Driver 0x300, Ramdisk_Driver 0x100, Memdev_Driver 0x200] bare_machine = Some t
    \<and> char_drivers t CHR_TTY = 0x300 \<and> block_drivers t BLK_RAMDISK = 0x100"
proof -
  let ?bs = "setup_answers 0x47 0xfa 3 0x44"
  have d: "device bare_machine = ps2_device ?bs" "io bare_machine = []" "block_drivers bare_machine = (\<lambda>_. NULL)"
    by (simp_all add: bare_machine_def)
  have c: "char_drivers bare_machine = (\<lambda>_. NULL)"
    by (simp add: bare_machine_def ps2_start_def interrupts.extend_def ps2.fields_def interrupts_start_def paging.extend_def
      paging_start_def kbd.extend_def kbd_start_def memdev.extend_def memdev_start_def rdtab.extend_def one_disk_def
      drvtab.extend_def console.extend_def drvtab.fields_def)
  have "map (answer (ps2_start 0 ?bs) (sent ?bs)) [0 ..< 10] = ?bs"
    by (rule start_answers10) (simp add: setup_answers_def)
  moreover have "answer bare_machine = answer (ps2_start 0 ?bs)" by (intro ext) (simp add: answer_def d)
  ultimately have ans: "map (answer bare_machine (sent ?bs)) [0 ..< 10] = ?bs" by simp
  from controller_setup_succeeds [OF _ ans] ps2_device_coop [of ?bs] d(1)
  obtain u where "controller_setup bare_machine = Some (True, u)" by auto
  then obtain t where t: "run_initcalls [Ps2_Setup 0xc0101000, Tty_Driver 0x300, Ramdisk_Driver 0x100, Memdev_Driver 0x200] bare_machine = Some t"
    by (simp add: ps2_kb_driversetup_def)
  have "set [Ps2_Setup 0xc0101000, Tty_Driver 0x300, Ramdisk_Driver 0x100, Memdev_Driver 0x200]
      = {Ps2_Setup 0xc0101000, Ramdisk_Driver 0x100, Memdev_Driver 0x200, Tty_Driver 0x300}" by auto
  from initcalls_register_drivers [OF t this _ c d(3)] t show ?thesis by simp
qed

end
