(* ===== verification/Device_Nodes.thy ===== *)
theory Device_Nodes
  imports Boot
begin

text \<open>
  The device nodes \<open>hlinit\<close> creates: a mounted tmpfs as a list of device nodes, what \<open>make_node\<close> adds to it,
  and reading and writing through an entry.
\<close>

section \<open>A directory of device nodes\<close>

text \<open>A device node: its entry, the copy of its name, the name, its inode, mode and device number.\<close>

type_synonym dev_node = "nat \<times> nat \<times> u8 list \<times> nat \<times> u16 \<times> dev_t"

definition entry_of :: "dev_node \<Rightarrow> dent" where
  "entry_of d = (case d of (a, b, nm, i, mode, dev) \<Rightarrow> (a, b, nm, of_nat i))"

definition inode_of :: "dev_node \<Rightarrow> nat" where
  "inode_of d = (case d of (a, b, nm, i, mode, dev) \<Rightarrow> i)"

definition dev_inode :: "(nat \<times> nat) set \<Rightarrow> mem \<Rightarrow> nat \<Rightarrow> dev_node \<Rightarrow> bool" where
  "dev_inode L m fs d = (case d of (a, b, nm, i, mode, dev) \<Rightarrow>
     (\<exists>n. (i, n) \<in> L \<and> 40 \<le> n) \<and> inode_at m i 1 mode (of_nat fs) \<and> rd32 m (of_nat i + 20) = dev)"

text \<open>The objects of a mounted tmpfs, all different: the instance, the root, and those of the nodes.\<close>

definition objects :: "nat \<Rightarrow> nat \<Rightarrow> dev_node list \<Rightarrow> nat list" where
  "objects fs root ns = fs # root # starts (map entry_of ns) @ map inode_of ns"

definition devices_at :: "(nat \<times> nat) set \<Rightarrow> mem \<Rightarrow> nat \<Rightarrow> addr \<Rightarrow> nat \<Rightarrow> dev_node list \<Rightarrow> bool" where
  "devices_at L m fs drv root ns \<longleftrightarrow> fs_at L m fs drv root \<and> dir_at L m root (map entry_of ns)
     \<and> rd32 m (of_nat root + 36) = of_nat fs \<and> distinct (objects fs root ns) \<and> (\<forall>d \<in> set ns. dev_inode L m fs d)"

lemma node_simps [simp]: "entry_of (a, b, nm, i, mode, dev) = (a, b, nm, of_nat i)" "inode_of (a, b, nm, i, mode, dev) = i"
  by (simp_all add: entry_of_def inode_of_def)

lemma dir_at_agree:
  assumes "dir_at L m d es" "L \<subseteq> L'" "\<And>x n. x \<in> set (d # starts es) \<Longrightarrow> (x, n) \<in> L \<Longrightarrow> agree x (x + n) m m'"
  shows "dir_at L' m' d es"
proof -
  obtain nd where d: "(d, nd) \<in> L" "44 \<le> nd" using assms(1) by (auto simp: dir_at_def)
  have es: "owned L es" "dents m NULL es" using assms(1) by (simp_all add: dir_at_def)
  have "agree d (d + 44) m m'" by (rule agree_mono [OF assms(3) [OF _ d(1)]]) (use d(2) in simp_all)
  from read_agree(1) [OF this, of "d + 40"] have r: "rd32 m' (of_nat d + 40) = rd32 m (of_nat d + 40)" by simp
  have "dents m' NULL es"
  proof (rule dents_agree [OF es(2)])
    fix a b nm i assume e: "(a, b, nm, i) \<in> set es"
    then have st: "a \<in> set (starts es)" "b \<in> set (starts es)" by (force simp: starts_def)+
    from e es(1) obtain n k where n: "(a, n) \<in> L" "12 \<le> n" "(b, k) \<in> L" "length nm < k" by (fastforce simp: owned_def)
    show "agree a (a + 12) m m' \<and> agree b (b + Suc (length nm)) m m'"
      using agree_mono [OF assms(3) [OF _ n(1)], of a "a + 12"] agree_mono [OF assms(3) [OF _ n(3)], of b "b + Suc (length nm)"] st n
      by simp
  qed
  then show ?thesis using assms(1,2) r owned_mono [OF es(1) assms(2)] unfolding dir_at_def by auto
qed

lemma dev_inode_agree:
  assumes "dev_inode L m fs d" "L \<subseteq> L'" "\<And>n. (inode_of d, n) \<in> L \<Longrightarrow> agree (inode_of d) (inode_of d + n) m m'"
  shows "dev_inode L' m' fs d"
proof -
  obtain a b nm i mode dev where d: "d = (a, b, nm, i, mode, dev)" by (cases d)
  with assms(1) obtain n where n: "(i, n) \<in> L" "40 \<le> n" by (auto simp: dev_inode_def)
  have ag: "agree i (i + 40) m m'" by (rule agree_mono [OF assms(3)]) (use n d in simp_all)
  show ?thesis
    using read_agree(1) [OF ag, of "i + 20"] read_agree(1) [OF ag, of "i + 36"]
      read_agree(2) [OF ag, of i] read_agree(2) [OF ag, of "i + 2"] assms(1,2) n
    by (auto simp: dev_inode_def inode_at_def add.commute d)
qed

lemma fs_root_agree:
  assumes "fs_at L m fs drv root" "rd32 m (of_nat root + 36) = of_nat fs"
    and "\<And>n. (fs, n) \<in> L \<Longrightarrow> agree fs (fs + n) m m'" "agree root (root + 40) m m'" "L \<subseteq> L'"
  shows "fs_at L' m' fs drv root" "rd32 m' (of_nat root + 36) = of_nat fs"
proof -
  obtain n where n: "(fs, n) \<in> L" "8 \<le> n" using assms(1) by (auto simp: fs_at_def)
  have "agree fs (fs + 8) m m'" by (rule agree_mono [OF assms(3) [OF n(1)]]) (use n(2) in simp_all)
  then show "fs_at L' m' fs drv root" by (rule fs_at_agree [OF _ assms(1,5)])
  show "rd32 m' (of_nat root + 36) = of_nat fs" using read_agree(1) [OF assms(4), of "root + 36"] assms(2) by simp
qed

text \<open>Nothing is lost when the objects are not written.\<close>

lemma devices_at_agree:
  assumes "devices_at L m fs drv root ns" "L \<subseteq> L'" "\<And>x n. x \<in> set (objects fs root ns) \<Longrightarrow> (x, n) \<in> L \<Longrightarrow> agree x (x + n) m m'"
  shows "devices_at L' m' fs drv root ns"
proof -
  have a: "fs_at L m fs drv root" "dir_at L m root (map entry_of ns)" "rd32 m (of_nat root + 36) = of_nat fs"
    "distinct (objects fs root ns)" "\<forall>d \<in> set ns. dev_inode L m fs d" using assms(1) by (simp_all add: devices_at_def)
  obtain n where n: "(root, n) \<in> L" "44 \<le> n" using a(2) by (auto simp: dir_at_def)
  have "agree root (root + n) m m'" by (rule assms(3) [OF _ n(1)]) (simp add: objects_def)
  then have r: "agree root (root + 40) m m'" by (rule agree_mono) (use n(2) in simp_all)
  have f: "agree fs (fs + n) m m'" if "(fs, n) \<in> L" for n by (rule assms(3) [OF _ that]) (simp add: objects_def)
  have "dir_at L' m' root (map entry_of ns)"
    by (rule dir_at_agree [OF a(2) assms(2)], rule assms(3)) (auto simp: objects_def)
  moreover have "dev_inode L' m' fs d" if "d \<in> set ns" for d
    using a(5) that by (intro dev_inode_agree [OF _ assms(2)], blast, intro assms(3)) (auto simp: objects_def)
  ultimately show ?thesis using fs_root_agree [OF a(1,3) f r assms(2)] a(4) by (simp add: devices_at_def)
qed

lemma devices_at_heap:
  assumes hp: "heap_is s bs" and d: "devices_at (live heap_start bs) m fs drv root ns" and ag: "agree heap_start heap_limit m m'"
  shows "devices_at (live heap_start bs) m' fs drv root ns"
proof (rule devices_at_agree [OF d subset_refl])
  fix x n assume "(x, n) \<in> live heap_start bs"
  with live_in_heap(1,2) [OF hp this] show "agree x (x + n) m m'" by (intro agree_mono [OF ag]) simp_all
qed

text \<open>The link that a new entry changes lies in the last entry, or in the root behind its inode.\<close>

lemma link_apart:
  assumes hp: "heap_is s bs" and dir: "dir_at (live heap_start bs) m root es"
    and x: "(x, n) \<in> live heap_start bs" "x \<notin> set (root # starts es)"
  shows "{link_at root es ..< link_at root es + 4} \<inter> {x ..< x + n} = {}"
    "{link_at root es ..< link_at root es + 4} \<inter> {root ..< root + 40} = {}"
    "heap_start \<le> link_at root es" "link_at root es + 4 \<le> heap_limit"
proof -
  let ?L = "live heap_start bs" and ?l = "link_at root es"
  obtain nr where nr: "(root, nr) \<in> ?L" "44 \<le> nr" using dir by (auto simp: dir_at_def)
  have "\<exists>r j. (r, j) \<in> ?L \<and> r \<noteq> x \<and> r \<le> ?l \<and> ?l + 4 \<le> r + j \<and> (r \<noteq> root \<or> ?l = root + 40)"
  proof (cases es rule: rev_cases)
    case Nil
    then show ?thesis using nr x(2) by (intro exI [of _ root] exI [of _ nr]) (simp add: link_at_def)
  next
    case (snoc fs e)
    then show ?thesis using dir x(2) by (cases e) (fastforce simp: dir_at_def link_at_def)
  qed
  then obtain r j where r: "(r, j) \<in> ?L" "r \<noteq> x" "r \<le> ?l" "?l + 4 \<le> r + j" "r \<noteq> root \<or> ?l = root + 40" by blast
  show "heap_start \<le> ?l" "?l + 4 \<le> heap_limit" using live_in_heap(1,2) [OF hp r(1)] r(3,4) by simp_all
  have sub: "{?l ..< ?l + 4} \<subseteq> {r ..< r + j}" using r(3,4) by auto
  then show "{?l ..< ?l + 4} \<inter> {x ..< x + n} = {}" using live_apart [OF hp r(1) x(1) r(2)] by blast
  show "{?l ..< ?l + 4} \<inter> {root ..< root + 40} = {}"
  proof (cases "r = root")
    case False
    from live_apart [OF hp r(1) nr(1) this] sub nr(2) show ?thesis by fastforce
  next
    case True
    then show ?thesis using r(5) by auto
  qed
qed

section \<open>Making a node\<close>

lemma find_last: "nm \<notin> names es \<Longrightarrow> find (\<lambda>(a, b, k, i). k = nm) (es @ [(a, b, nm, i)]) = Some (a, b, nm, i)"
  by (induction es) (auto simp: names_def)

lemma new_node_devices:
  assumes hp: "heap_is s bs" and d: "devices_at (live heap_start bs) (ram s) fs drv root ns"
    and c: "live heap_start bs \<subseteq> L'" "dir_at L' m root (map entry_of ns @ [(a, b, nm, of_nat i)])"
      "inode_at m i 1 mode (of_nat fs)" "(i, ni) \<in> L'" "40 \<le> ni"
      "keeps (live heap_start bs) {link_at root (map entry_of ns) ..< link_at root (map entry_of ns) + 4} (ram s) m"
    and fr: "i \<notin> fst ` live heap_start bs" "a \<notin> insert i (fst ` live heap_start bs)" "b \<notin> insert i (fst ` live heap_start bs)"
  shows "devices_at L' m fs drv root (ns @ [(a, b, nm, i, mode, rd32 m (of_nat i + 20))])"
proof -
  let ?L = "live heap_start bs" and ?es = "map entry_of ns"
  have a: "fs_at ?L (ram s) fs drv root" "dir_at ?L (ram s) root ?es" "rd32 (ram s) (of_nat root + 36) = of_nat fs"
    "distinct (objects fs root ns)" "\<forall>d \<in> set ns. dev_inode ?L (ram s) fs d" using d by (simp_all add: devices_at_def)
  have ag: "agree x (x + n) (ram s) m" if "(x, n) \<in> ?L" "x \<notin> set (root # starts ?es)" for x n
    by (rule keeps_region [OF c(6) that(1) order_refl link_apart(1) [OF hp a(2) that]])
       (use live_in_heap(2) [OF hp that(1)] in simp)
  obtain nf where f: "(fs, nf) \<in> ?L" using a(1) by (auto simp: fs_at_def)
  obtain nr where r: "(root, nr) \<in> ?L" "44 \<le> nr" using a(2) by (auto simp: dir_at_def)
  have fo: "fs \<notin> set (root # starts ?es)" using a(4) by (auto simp: objects_def)
  have "agree root (root + 40) (ram s) m"
    by (rule keeps_region [OF c(6) r(1) _ link_apart(2) [OF hp a(2) f fo]]) (use r(2) live_in_heap(2) [OF hp r(1)] in simp_all)
  note fr' = fs_root_agree [OF a(1,3) ag this c(1), simplified, OF fo [simplified]]
  have old: "dev_inode L' m fs d" if "d \<in> set ns" for d
  proof (rule dev_inode_agree [OF _ c(1)])
    show "dev_inode ?L (ram s) fs d" using a(5) that by blast
    have "inode_of d \<notin> set (root # starts ?es)" using a(4) that by (auto simp: objects_def)
    then show "agree (inode_of d) (inode_of d + n) (ram s) m" if "(inode_of d, n) \<in> ?L" for n using ag [OF that] by blast
  qed
  have "x \<in> fst ` ?L" if "x \<in> set (objects fs root ns)" for x
  proof -
    have "\<exists>n. (y, n) \<in> ?L" if "y \<in> inode_of ` set ns" for y using that a(5) by (fastforce simp: dev_inode_def)
    moreover have "\<exists>n. (y, n) \<in> ?L" if "y \<in> set (starts ?es)" for y
      by (rule owned_starts [OF _ that]) (use a(2) in \<open>simp add: dir_at_def\<close>)
    ultimately show ?thesis using that f r(1) by (force simp: objects_def)
  qed
  then have "a \<notin> set (objects fs root ns)" "b \<notin> set (objects fs root ns)" "i \<notin> set (objects fs root ns)" using fr by blast+
  moreover have "a \<noteq> b" using c(2) by (auto simp: dir_at_def)
  ultimately have "distinct (objects fs root (ns @ [(a, b, nm, i, mode, rd32 m (of_nat i + 20))]))"
    using a(4) fr(2,3) by (auto simp: objects_def)
  moreover have "dev_inode L' m fs (a, b, nm, i, mode, rd32 m (of_nat i + 20))" using c(3-5) by (auto simp: dev_inode_def)
  ultimately show ?thesis using fr' old c(2) by (simp add: devices_at_def)
qed

text \<open>\<open>make_node\<close> adds a node with its number at the end.\<close>

lemma make_node_spec:
  assumes hp: "heap_is s bs" and d: "devices_at (live heap_start bs) (ram s) fs drv root ns"
    and drv: "fs_drivers img drv = tmpfs_driver self dot dotdot cdrv bdrv"
    and nm: "cstr (ram s) name nm" "unat name + length nm < heap_start" "\<not> 16 dvd length nm"
    and new: "nm \<notin> names (map entry_of ns)" and ty: "mode AND IT_TYPE = IT_CHR \<or> mode AND IT_TYPE = IT_BLK"
    and pl: "plenty (round16 (length nm) + 112 + N) bs" "16 \<le> N"
  obtains a b i m bs' where "make_node img (of_nat fs) name mode dev s = Some (of_nat a, s\<lparr>ram := m\<rparr>)"
    "heap_is (s\<lparr>ram := m\<rparr>) bs'" "plenty N bs'" "live heap_start bs \<subseteq> live heap_start bs'"
    "devices_at (live heap_start bs') m fs drv root (ns @ [(a, b, nm, i, mode, dev)])"
    "agree 0 heap_start (ram s) m" "agree 4026531840 4294967296 (ram s) m"
proof -
  let ?L = "live heap_start bs" and ?es = "map entry_of ns"
  have A: "fs_at ?L (ram s) fs drv root" "dir_at ?L (ram s) root ?es" "rd32 (ram s) (of_nat root + 36) = of_nat fs"
    using d by (simp_all add: devices_at_def)
  from create_node [OF hp A(2) nm new ty pl, of dot dotdot] obtain a b i ni m bs' where
    c: "tmpfs_create dot dotdot (of_nat root) name mode s = Some (0, s\<lparr>ram := m\<rparr>)" "heap_is (s\<lparr>ram := m\<rparr>) bs'"
      "?L \<subseteq> live heap_start bs'" "i \<notin> fst ` ?L" "dir_at (live heap_start bs') m root (?es @ [(a, b, nm, of_nat i)])"
      "inode_at m i 1 mode (of_nat fs)" "keeps ?L {link_at root ?es ..< link_at root ?es + 4} (ram s) m"
      "plenty N bs'" "(i, ni) \<in> live heap_start bs'" "40 \<le> ni" "a \<notin> insert i (fst ` ?L)" "b \<notin> insert i (fst ` ?L)"
    unfolding A(3) by blast
  let ?L' = "live heap_start bs'" and ?ns = "ns @ [(a, b, nm, i, mode, rd32 m (of_nat i + 20))]"
  have dv: "devices_at ?L' m fs drv root ?ns"
    by (rule new_node_devices [OF hp d c(3,5,6,9,10,7,4,11,12)])
  have mf: "virt_mapped (of_nat fs) s" "virt_mapped (of_nat fs + 4) s"
  proof -
    obtain n where n: "(fs, n) \<in> ?L" "8 \<le> n" using A(1) by (auto simp: fs_at_def)
    show "virt_mapped (of_nat fs) s" "virt_mapped (of_nat fs + 4) s"
      using region_mapped [OF hp n(1), of 0] region_mapped [OF hp n(1), of 4] n(2) by simp_all
  qed
  have mr: "virt_mapped (of_nat root + 36) s"
  proof -
    obtain n where n: "(root, n) \<in> ?L" "44 \<le> n" using A(2) by (auto simp: dir_at_def)
    show ?thesis using region_mapped [OF hp n(1), of 36] n(2) by simp
  qed
  have ea: "(\<exists>n. (a, n) \<in> ?L' \<and> 12 \<le> n)" "rd32 m (of_nat a + 4) = of_nat i"
    using c(5) by (auto simp: dir_at_def dents_append dentry_def)
  then obtain na where na: "(a, na) \<in> ?L'" "12 \<le> na" by blast
  have ma: "virt_mapped (of_nat a + 4) s" "virt_mapped (of_nat i + 20) s"
    using region_mapped [OF c(2) na(1), of 4] na(2) region_mapped [OF c(2) c(9), of 20] c(10) by simp_all
  have fo: "\<exists>n. (fs, n) \<in> ?L" "fs \<notin> set (root # starts ?es)" using d A(1) by (auto simp: devices_at_def objects_def fs_at_def)
  then obtain nf where f: "(fs, nf) \<in> ?L" by blast
  note lb = link_apart(3,4) [OF hp A(2) f fo(2)]
  have out: "agree 0 heap_start (ram s) m" "agree 4026531840 4294967296 (ram s) m"
    by (rule keeps_agree [OF c(7)]; use lb in \<open>auto simp: covered_def\<close>)+
  have nmm: "cstr m name nm"
  proof -
    have "agree (unat name) (unat name + Suc (length nm)) (ram s) m"
      by (rule agree_mono [OF out(1)]) (use nm(2) in simp_all)
    then show ?thesis using cstr_agree [of "unat name" nm "ram s" m] nm(1) by simp
  qed
  have lk: "tmpfs_lookup (of_nat root) name (s\<lparr>ram := m\<rparr>) = Some (of_nat a)"
    using lookup_spec [OF c(2), of root "?es @ [(a, b, nm, of_nat i)]" name nm] c(5) nmm find_last [OF new, of a b "of_nat i"] by simp
  define m' where "m' = wr32 m (of_nat i + 20) dev"
  have li: "i + ni \<le> heap_limit" by (rule live_in_heap(2) [OF c(2,9)])
  have k: "keeps UNIV {i + 20 ..< i + 24} m m'"
    unfolding m'_def using wr32_keeps [of "i + 20" UNIV m dev] li c(10) by (simp add: add.commute)
  have hp': "heap_is (s\<lparr>ram := m'\<rparr>) bs'" using live_writes(1) [OF c(2,9), of "{i + 20 ..< i + 24}" m'] k c(10) by simp
  have D: "fs_at ?L' m fs drv root" "dir_at ?L' m root (map entry_of ?ns)" "rd32 m (of_nat root + 36) = of_nat fs"
    "distinct (objects fs root ?ns)" "\<forall>d \<in> set ?ns. dev_inode ?L' m fs d" using dv by (simp_all add: devices_at_def)
  have fi: "i \<notin> set (fs # root # starts (map entry_of ?ns) @ map inode_of ns)" using D(4) by (auto simp: objects_def)
  have other: "agree x (x + n) m m'" if "(x, n) \<in> ?L'" "x \<noteq> i" for x n
  proof (rule UNIV_agree [OF k])
    have "{x ..< x + n} \<inter> {i ..< i + ni} = {}" by (rule live_apart [OF c(2) that(1) c(9) that(2)])
    then show "{i + 20 ..< i + 24} \<inter> {x ..< x + n} = {}" using c(10) by fastforce
    show "x + n \<le> 4294967296" using live_in_heap(2) [OF c(2) that(1)] by simp
  qed
  have rf: "fs_at ?L' m' fs drv root" "rd32 m' (of_nat root + 36) = of_nat fs"
  proof -
    obtain nr where r: "(root, nr) \<in> ?L'" "44 \<le> nr" using D(2) by (auto simp: dir_at_def)
    have "agree root (root + 40) m m'" by (rule agree_mono [OF other [OF r(1)]]) (use fi r(2) in auto)
    note x = fs_root_agree [OF D(1,3) other this subset_refl]
    show "fs_at ?L' m' fs drv root" "rd32 m' (of_nat root + 36) = of_nat fs" using x fi by simp_all
  qed
  have dd: "dir_at ?L' m' root (map entry_of ?ns)" by (rule dir_at_agree [OF D(2) subset_refl other]) (use fi in auto)
  have old: "dev_inode ?L' m' fs d" if "d \<in> set ns" for d
  proof (rule dev_inode_agree [OF _ subset_refl other])
    show "dev_inode ?L' m fs d" using D(5) that by simp
    show "inode_of d \<noteq> i" using fi that by auto
  qed
  have "dev_inode ?L' m' fs (a, b, nm, i, mode, dev)"
    using D(5) by (auto simp: dev_inode_def inode_at_def m'_def)
  then have "devices_at ?L' m' fs drv root (ns @ [(a, b, nm, i, mode, dev)])"
    using rf dd old D(4) by (simp add: devices_at_def objects_def)
  moreover have "make_node img (of_nat fs) name mode dev s = Some (of_nat a, s\<lparr>ram := m'\<rparr>)"
  proof -
    have "rd32 m (of_nat fs) = drv" "rd32 m (of_nat fs + 4) = of_nat root" "rd32 (ram s) (of_nat fs) = drv" "rd32 (ram s) (of_nat fs + 4) = of_nat root"
      using D(1) A(1) by (simp_all add: fs_at_def)
    then show ?thesis using c(1) lk mf mr ma ea(2) D(3)
      by (simp add: make_node_def drv tmpfs_driver_def put_mapped m'_def)
  qed
  moreover have "agree 0 heap_start m m'" "agree 4026531840 4294967296 m m'"
    by (rule UNIV_agree [OF k]; use live_in_heap(1) [OF c(2,9)] li c(10) in fastforce)+
  then have "agree 0 heap_start (ram s) m'" "agree 4026531840 4294967296 (ram s) m'" using out by (simp_all add: agree_def)
  ultimately show ?thesis using that hp' c(3,8) by blast
qed

section \<open>Reading and writing through an entry\<close>

text \<open>A node of the console table: what the inode's driver does is what its device driver does.\<close>

lemma node_driver:
  assumes hp: "heap_is s bs" and d: "devices_at (live heap_start bs) (ram s) fs drv root ns"
    and n: "(a, b, nm, i, mode, dev) \<in> set ns"
  shows "inode_driver img (of_nat a) s = Some (of_nat i, fs_drivers img drv)"
    "inode_type (of_nat i) s = Some (mode AND IT_TYPE)" "get32 (of_nat i + 20) s = Some dev"
proof -
  let ?L = "live heap_start bs"
  have fs: "fs_at ?L (ram s) fs drv root" and dir: "dir_at ?L (ram s) root (map entry_of ns)"
    and ino: "dev_inode ?L (ram s) fs (a, b, nm, i, mode, dev)" using d n by (auto simp: devices_at_def)
  have e: "(a, b, nm, of_nat i) \<in> set (map entry_of ns)" using n by force
  have in_list: "dents (ram s) NULL es \<Longrightarrow> (a, b, nm, of_nat i) \<in> set es \<Longrightarrow> rd32 (ram s) (of_nat a + 4) = of_nat i" for es
    by (induction es) (auto simp: dentry_def)
  have ra: "rd32 (ram s) (of_nat a + 4) = of_nat i" by (rule in_list [OF _ e]) (use dir in \<open>simp add: dir_at_def\<close>)
  obtain na where na: "(a, na) \<in> ?L" "12 \<le> na" using dir e by (fastforce simp: dir_at_def owned_def)
  obtain ni where ni: "(i, ni) \<in> ?L" "40 \<le> ni" using ino by (auto simp: dev_inode_def)
  obtain nf where nf: "(fs, nf) \<in> ?L" "8 \<le> nf" using fs by (auto simp: fs_at_def)
  have mp: "virt_mapped (of_nat a + 4) s" "virt_mapped (of_nat i + 36) s" "virt_mapped (of_nat i + 20) s" "virt_mapped (of_nat i + 2) s"
    "virt_mapped (of_nat fs) s"
    using region_mapped [OF hp na(1), of 4] region_mapped [OF hp ni(1), of 36] region_mapped [OF hp ni(1), of 20]
      region_mapped [OF hp ni(1), of 2] region_mapped [OF hp nf(1), of 0] na(2) ni(2) nf(2) by simp_all
  show "inode_driver img (of_nat a) s = Some (of_nat i, fs_drivers img drv)"
    "inode_type (of_nat i) s = Some (mode AND IT_TYPE)" "get32 (of_nat i + 20) s = Some dev"
    using mp ra ino fs by (simp_all add: inode_driver_def inode_type_def put_mapped dev_inode_def inode_at_def fs_at_def)
qed

lemma node_io:
  assumes hp: "heap_is s bs" and d: "devices_at (live heap_start bs) (ram s) fs drv root ns"
    and n: "(a, b, nm, i, mode, dev) \<in> set ns" and drv: "fs_drivers img drv = tmpfs_driver self dot dotdot cdrv bdrv"
  shows "mode = IT_CHR \<Longrightarrow> write_entry_file img (of_nat a) buf k s = Some (write_char cdrv dev 0 buf k s)"
    "mode = IT_CHR \<Longrightarrow> read_entry_file img (of_nat a) buf k s = Some (read_char cdrv dev 0 buf k s)"
    "mode = IT_BLK \<Longrightarrow> read_entry_file img (of_nat a) buf k s = read_block bdrv dev 0 buf s"
  using node_driver(1) [OF hp d n, of img] node_driver(2,3) [OF hp d n]
  by (simp_all add: write_entry_file_def read_entry_file_def drv tmpfs_driver_def tmpfs_write_def tmpfs_read_def)

text \<open>Writes to the screen and to COM1 leave the file system alone.\<close>

lemma same_rest_fields:
  fixes s t :: "'a heap_scheme"
  assumes "same_rest s t"
  shows "char_drivers t = char_drivers s" "block_drivers t = block_drivers s" "ramdisks t = ramdisks s" "rd_idx t = rd_idx s"
    "input_queue t = input_queue s" "queue_idx t = queue_idx s" "modifiers t = modifiers s" "ptes t = ptes s" "first_hdr t = first_hdr s"
    "vga_buffer t = vga_buffer s"
  using assms by (cases s, cases t; simp add: same_rest_def console_frame_def)+

lemma heap_is_cong:
  assumes "heap_is s bs" "first_hdr t = first_hdr s" "ptes t = ptes s" "agree heap_start heap_limit (ram s) (ram t)"
  shows "heap_is t bs"
proof -
  have e: "heap_start + extent bs \<le> heap_limit" using assms(1) by (simp add: heap_is_def)
  have "agree heap_start (heap_start + extent bs) (ram s) (ram t)" by (rule agree_mono [OF assms(4)]) (use e in simp_all)
  then have "blocks (ram t) True 0 heap_start bs = blocks (ram s) True 0 heap_start bs" by (rule blocks_agree)
  moreover have "virt_mapped x t = virt_mapped x s" for x
    using assms(3) by (simp add: virt_mapped_def table_present_def page_present_def)
  ultimately show ?thesis using assms(1,2) by (simp add: heap_is_def heap_mapped_def)
qed

text \<open>The text buffer lies in the device area, the kernel's image below the heap.\<close>

definition vga_high :: "'a console_scheme \<Rightarrow> bool" where
  "vga_high s \<longleftrightarrow> 4026531840 \<le> unat (vga_buffer s) \<and> console_ok s"

lemma vga_high_outside: "vga_high s \<Longrightarrow> x < 4026531840 \<Longrightarrow> \<not> in_region (vga_buffer s) 4000 (of_nat x)"
  using unat_of_nat32 [of x] by (auto simp: vga_high_def in_region_def console_ok_def unat_sub_if')

lemma low_region:
  assumes "unat a + n \<le> heap_start" "i < n"
  shows "a + of_nat i = of_nat (unat a + i)" "unat a + i < heap_start"
  using assms by simp_all

lemma prints_high:
  assumes "prints s out t" "vga_high s"
  shows "vga_high t" "screen_of t = fold screen_put out (screen_of s)" "agree 0 4026531840 (ram s) (ram t)"
  using assms vga_high_outside [OF assms(2)] by (auto simp: prints_def vga_high_def agree_def)

lemma write_console:
  fixes s :: "'a heap_scheme"
  assumes v: "vga_high s" and b: "unat buf + unat n \<le> heap_start" and c: "char_drivers s CHR_TTY \<noteq> NULL"
    "cdrv (char_drivers s CHR_TTY) = tty_driver"
  obtains t where "write_char cdrv (DEV 2 0) pos buf n s = (to_int n, t)" "same_rest s t" "vga_high t"
    "screen_of t = fold screen_put (read_bytes (ram s) buf (unat n)) (screen_of s)" "agree 0 4026531840 (ram s) (ram t)"
    "io t = io s @ cursor_events (tty_pos t)"
proof -
  obtain r t where t: "vconsole_write buf n s = (r, t)" by fastforce
  have ok: "console_ok s" using v by (simp add: vga_high_def)
  have out: "\<not> in_region (vga_buffer s) 4000 (buf + of_nat i)" if "i < unat n" for i
    using vga_high_outside [OF v, of "unat buf + i"] low_region(2) [OF b that] by simp
  let ?s1 = "fold tty_putchar (read_bytes (ram s) buf (unat n)) s"
  have e: "r = to_int n" "t = tty_set_cursor (tty_pos ?s1) ?s1"
    using t by (simp_all add: vconsole_write_eq [OF ok out] Let_def)
  have "prints s (read_bytes (ram s) buf (unat n)) t"
    by (simp add: prints_def e vga.fold_put_ok vga.fold_put_view fold_putchar_outside frame)
  note p = prints_high [OF this v]
  have sr: "same_rest s t" using same_rest_vconsole_write [of s buf n s] t by simp
  have w: "write_char cdrv (DEV 2 0) pos buf n s = (r, t)"
    using c t by (simp add: write_char_def tty_driver_def tty_write_def DEV_def MAJOR_def MINOR_def)
  have io: "io t = io s @ cursor_events (tty_pos t)" by (simp add: e frame cursor_events_def)
  show ?thesis by (rule that [OF w [unfolded e(1)] sr p io])
qed

lemma write_com1:
  fixes s :: "'a heap_scheme"
  assumes "char_drivers s CHR_TTY \<noteq> NULL" "cdrv (char_drivers s CHR_TTY) = tty_driver"
  shows "write_char cdrv (DEV 2 1) pos buf n s = (to_int n, s\<lparr>io := io s @ map (Out 0x3f8) (read_bytes (ram s) buf (unat n))\<rparr>)"
  using assms MAJOR_DEV [of 2 1] MINOR_DEV [of 2 1] by (simp add: write_char_def tty_driver_def tty_write_def serial_write_com)

text \<open>The first block of the RAM disk, when there is one with blocks of a page.\<close>

definition disk0_ok :: "'a kernel_image \<Rightarrow> 'b heap_scheme \<Rightarrow> bool" where
  "disk0_ok img s \<longleftrightarrow> (let d = ramdisks s ! 0 in rd_bufs d = NULL
     \<or> rd_blksize d = PAGE_SIZE \<and> unat (rd_bufs d) + 4096 \<le> heap_start \<and> disjoint (disk_buf img) 4096 (rd_bufs d) 4096)"

definition disk0_text :: "'a kernel_image \<Rightarrow> 'b heap_scheme \<Rightarrow> u8 list" where
  "disk0_text img s = (let b = rd_bufs (ramdisks s ! 0)
     in takeWhile (\<lambda>c. c \<noteq> 0) (read_bytes (ram s) (if b = NULL then disk_buf img else b) 4096))"

lemma read_disk0:
  fixes s :: "'a heap_scheme"
  assumes "block_drivers s BLK_RAMDISK \<noteq> NULL" "bdrv (block_drivers s BLK_RAMDISK) = ramdisk_driver" "disk0_ok img s"
    "unat (disk_buf img) + 4097 \<le> heap_start"
  obtains r m where "read_block bdrv (DEV 1 0) 0 (disk_buf img) s = Some (r, s\<lparr>ram := m\<rparr>)"
    "takeWhile (\<lambda>c. c \<noteq> 0) (read_bytes m (disk_buf img) 4096) = disk0_text img s"
    "\<And>x. \<not> in_region (disk_buf img) 4096 x \<Longrightarrow> m x = ram s x"
proof -
  let ?d = "ramdisks s ! 0" and ?b = "disk_buf img"
  have dev: "MAJOR (DEV 1 0) = BLK_RAMDISK" "MINOR (DEV 1 0) = 0" by (simp_all add: DEV_def MAJOR_def MINOR_def)
  have rb: "read_block bdrv (DEV 1 0) 0 ?b s = ramdisk_readblk (DEV 1 0) 0 ?b s"
    using assms(1,2) by (simp add: read_block_def ramdisk_driver_def dev)
  show ?thesis
  proof (cases "rd_bufs ?d = NULL")
    case True
    have "read_block bdrv (DEV 1 0) 0 ?b s = Some (- ENODEV, s\<lparr>ram := ram s\<rparr>)" unfolding rb using True by (simp add: ramdisk_readblk_def dev Let_def)
    then show ?thesis by (rule that) (use True in \<open>simp_all add: disk0_text_def Let_def\<close>)
  next
    case False
    then have d: "rd_blksize ?d = PAGE_SIZE" "disjoint ?b 4096 (rd_bufs ?d) 4096" using assms(3) by (simp_all add: disk0_ok_def Let_def)
    have u: "unat PAGE_SIZE = 4096" by simp
    let ?m = "memcpy (ram s) ?b (rd_bufs ?d) PAGE_SIZE"
    have m: "?m = write_bytes (ram s) ?b (read_bytes (ram s) (rd_bufs ?d) 4096)"
      using memcpy_eq_write_bytes [of ?b PAGE_SIZE "rd_bufs ?d" "ram s", unfolded u, OF d(2)] .
    have "read_block bdrv (DEV 1 0) 0 ?b s = Some (to_int PAGE_SIZE, s\<lparr>ram := ?m\<rparr>)"
      unfolding rb using False d(1) by (simp add: ramdisk_readblk_def dev Let_def)
    then show ?thesis
    proof (rule that)
      show "takeWhile (\<lambda>c. c \<noteq> 0) (read_bytes ?m ?b 4096) = disk0_text img s"
        using read_write_bytes [of "read_bytes (ram s) (rd_bufs ?d) 4096" "ram s" ?b] False
        by (simp add: m disk0_text_def Let_def)
      show "?m x = ram s x" if "\<not> in_region ?b 4096 x" for x using that by (simp add: m write_bytes_outside)
    qed
  qed
qed

lemma not_in_low:
  assumes "unat a + n \<le> heap_start" "heap_start \<le> x" "x < 4294967296"
  shows "\<not> in_region a n (of_nat x)"
proof -
  have "unat (of_nat x :: addr) = x" by (rule unat_of_nat32 [OF assms(3)])
  then show ?thesis using assms(1,2) by (simp add: in_region_def unat_sub_if')
qed

section \<open>The devices hlinit opens\<close>

definition com_text :: "u8 list" where "com_text = lit (CHR 0x1B # ''[91;47mHello COM1'') @ [0]"
definition chr_text :: "u8 list" where "chr_text = lit ''Hello from character device''"

text \<open>The literals and buffers of \<open>hlinit\<close>, below the heap.\<close>

definition image_ok :: "'a kernel_image \<Rightarrow> mem \<Rightarrow> bool" where
  "image_ok img m \<longleftrightarrow>
     cstr m (name_tty1 img) (lit ''tty1'') \<and> unat (name_tty1 img) + 4 < heap_start
     \<and> cstr m (name_console img) (lit ''console'') \<and> unat (name_console img) + 7 < heap_start
     \<and> cstr m (name_ram0 img) (lit ''ram0'') \<and> unat (name_ram0 img) + 4 < heap_start
     \<and> read_bytes m (text_com img) 19 = com_text \<and> unat (text_com img) + 19 \<le> heap_start
     \<and> read_bytes m (text_chr img) 27 = chr_text \<and> unat (text_chr img) + 27 \<le> heap_start
     \<and> unat (disk_buf img) + 4097 \<le> heap_start"

lemma read_bytes_low:
  assumes "agree 0 heap_start m m'" "unat a + n \<le> heap_start"
  shows "read_bytes m' a n = read_bytes m a n"
proof (rule read_bytes_cong)
  fix i assume "i < n"
  then show "m' (a + of_nat i) = m (a + of_nat i)"
    using assms(1) [unfolded agree_def, rule_format, of "unat a + i"] low_region(2) [OF assms(2)] by simp
qed

lemma image_ok_low: "agree 0 heap_start m m' \<Longrightarrow> image_ok img m \<Longrightarrow> image_ok img m'"
  unfolding image_ok_def
  using read_bytes_low [of m m' "text_com img" 19] read_bytes_low [of m m' "text_chr img" 27]
    cstr_agree [of "unat (name_tty1 img)" "lit ''tty1''" m m', OF agree_mono [of 0 heap_start]]
    cstr_agree [of "unat (name_console img)" "lit ''console''" m m', OF agree_mono [of 0 heap_start]]
    cstr_agree [of "unat (name_ram0 img)" "lit ''ram0''" m m', OF agree_mono [of 0 heap_start]]
  by (simp add: lit_def)

lemma screen_high:
  assumes "vga_high s" "agree 4026531840 4294967296 (ram s) m"
  shows "screen_of (s\<lparr>ram := m\<rparr>) = screen_of s" "vga_high (s\<lparr>ram := m\<rparr>)"
proof -
  have at: "m (vga_buffer s + of_nat k) = ram s (vga_buffer s + of_nat k)" if "k < 4000" for k
    using assms(2) [unfolded agree_def, rule_format, of "unat (vga_buffer s) + k"] assms(1) that
    by (simp add: vga_high_def console_ok_def)
  have "cell_at m (vga_buffer s) i = cell_at (ram s) (vga_buffer s) (i + 0)" if "i < 2000" for i
    by (rule cell_at_cong) (use that in \<open>simp add: at\<close>)
  then show "screen_of (s\<lparr>ram := m\<rparr>) = screen_of s" by (simp add: screen_of_def)
  show "vga_high (s\<lparr>ram := m\<rparr>)" using assms(1) by (simp add: vga_high_def console_ok_def)
qed

text \<open>The nodes, up to the addresses of their objects.\<close>

definition node_facts :: "dev_node list \<Rightarrow> (u8 list \<times> u16 \<times> dev_t) list" where
  "node_facts ns = map (\<lambda>(a, b, nm, i, mode, dev). (nm, mode, dev)) ns"

abbreviation (input) boot_nodes :: "(u8 list \<times> u16 \<times> dev_t) list" where
  "boot_nodes \<equiv> [(lit ''tty1'', IT_CHR, DEV 2 1), (lit ''console'', IT_CHR, DEV 2 0), (lit ''ram0'', IT_BLK, DEV 1 0)]"

text \<open>A node made in a state whose text buffer lies high, with what stays of it.\<close>

lemma make_node_high:
  fixes s :: "'a heap_scheme"
  assumes hp: "heap_is s bs" and d: "devices_at (live heap_start bs) (ram s) fs drv root ns"
    and drv: "fs_drivers img drv = tmpfs_driver self dot dotdot cdrv bdrv" and v: "vga_high s" and im: "image_ok img (ram s)"
    and nm: "cstr (ram s) name nm" "unat name + length nm < heap_start" "\<not> 16 dvd length nm"
    and new: "nm \<notin> names (map entry_of ns)" and ty: "mode = IT_CHR \<or> mode = IT_BLK"
    and pl: "plenty (round16 (length nm) + 112 + N) bs" "16 \<le> N"
  obtains a b i t bs' where "make_node img (of_nat fs) name mode dev s = Some (of_nat a, t)"
    "heap_is t bs'" "plenty N bs'" "devices_at (live heap_start bs') (ram t) fs drv root (ns @ [(a, b, nm, i, mode, dev)])"
    "same_rest s t" "vga_high t" "screen_of t = screen_of s" "io t = io s" "agree 0 heap_start (ram s) (ram t)" "image_ok img (ram t)"
proof -
  have ty': "mode AND IT_TYPE = IT_CHR \<or> mode AND IT_TYPE = IT_BLK" using ty by auto
  obtain a b i m bs' where c: "make_node img (of_nat fs) name mode dev s = Some (of_nat a, s\<lparr>ram := m\<rparr>)"
    "heap_is (s\<lparr>ram := m\<rparr>) bs'" "plenty N bs'" "live heap_start bs \<subseteq> live heap_start bs'"
    "devices_at (live heap_start bs') m fs drv root (ns @ [(a, b, nm, i, mode, dev)])"
    "agree 0 heap_start (ram s) m" "agree 4026531840 4294967296 (ram s) m"
    by (rule make_node_spec [OF hp d drv nm new ty' pl])
  show ?thesis
    by (rule that [OF c(1-3)]) (use c(5,6) screen_high [OF v c(7)] image_ok_low [OF c(6) im] in simp_all)
qed

lemma devices_same:
  fixes s t :: "'a heap_scheme"
  assumes "heap_is s bs" "devices_at (live heap_start bs) (ram s) fs drv root ns" "same_rest s t" "agree heap_start heap_limit (ram s) (ram t)"
  shows "heap_is t bs" "devices_at (live heap_start bs) (ram t) fs drv root ns"
  using heap_is_cong [OF assms(1) same_rest_fields(9,8) [OF assms(3)] assms(4)] devices_at_heap [OF assms(1,2,4)] .

lemma entry_names: "names (map entry_of ns) = fst ` set (node_facts ns)"
  by (force simp: names_def node_facts_def image_image entry_of_def)

lemma open_devices_spec:
  fixes s :: "'a heap_scheme"
  assumes hp: "heap_is s bs" and d: "devices_at (live heap_start bs) (ram s) fs drv root []"
    and drv: "fs_drivers img drv = tmpfs_driver self dot dotdot cdrv bdrv" and v: "vga_high s" and im: "image_ok img (ram s)"
    and ch: "char_drivers s CHR_TTY \<noteq> NULL" "cdrv (char_drivers s CHR_TTY) = tty_driver"
    and bl: "block_drivers s BLK_RAMDISK \<noteq> NULL" "bdrv (block_drivers s BLK_RAMDISK) = ramdisk_driver"
    and rd: "disk0_ok img s" and pl: "plenty (384 + N) bs" "16 \<le> N"
  obtains con b i t bs' ns where "open_devices img (of_nat fs) s = Some (of_nat con, t)"
    "heap_is t bs'" "plenty N bs'" "devices_at (live heap_start bs') (ram t) fs drv root ns"
    "(con, b, lit ''console'', i, IT_CHR, DEV 2 0) \<in> set ns" "node_facts ns = boot_nodes"
    "same_rest s t" "vga_high t" "screen_of t = fold screen_put (chr_text @ disk0_text img s @ [10]) (screen_of s)"
    "\<exists>ev. io t = io s @ map (Out 0x3f8) com_text @ ev \<and> list_all cursor_event ev"
    "\<And>x. x < heap_start \<Longrightarrow> \<not> in_region (disk_buf img) 4097 (of_nat x) \<Longrightarrow> ram t (of_nat x) = ram s (of_nat x)"
proof -
  have nm: "cstr m (name_tty1 img) (lit ''tty1'')" "unat (name_tty1 img) + length (lit ''tty1'') < heap_start"
    "cstr m (name_console img) (lit ''console'')" "unat (name_console img) + length (lit ''console'') < heap_start"
    "cstr m (name_ram0 img) (lit ''ram0'')" "unat (name_ram0 img) + length (lit ''ram0'') < heap_start"
    if "image_ok img m" for m using that by (simp_all add: image_ok_def lit_def)
  have len: "\<not> 16 dvd length (lit ''tty1'')" "\<not> 16 dvd length (lit ''console'')" "\<not> 16 dvd length (lit ''ram0'')"
  proof -
    have "length (lit ''tty1'') = 4" "length (lit ''console'') = 7" "length (lit ''ram0'') = 4" by (simp_all add: lit_def)
    then show "\<not> 16 dvd length (lit ''tty1'')" "\<not> 16 dvd length (lit ''console'')" "\<not> 16 dvd length (lit ''ram0'')" by simp_all
  qed
  have p1: "plenty (round16 (length (lit ''tty1'')) + 112 + (256 + N)) bs" using pl(1) by (simp add: lit_def round16_def)
  have n1: "16 \<le> 256 + N" "16 \<le> 128 + N" by simp_all
  have new0: "lit ''tty1'' \<notin> names (map entry_of [])" by (simp add: names_def)
  obtain a1 b1 i1 s1 bs1 where A: "make_node img (of_nat fs) (name_tty1 img) IT_CHR (DEV 2 1) s = Some (of_nat a1, s1)"
    "heap_is s1 bs1" "plenty (256 + N) bs1" "devices_at (live heap_start bs1) (ram s1) fs drv root ([] @ [(a1, b1, lit ''tty1'', i1, IT_CHR, DEV 2 1)])"
    "same_rest s s1" "vga_high s1" "screen_of s1 = screen_of s" "io s1 = io s" "agree 0 heap_start (ram s) (ram s1)" "image_ok img (ram s1)"
    by (rule make_node_high [OF hp d drv v im nm(1,2) [OF im] len(1) new0 disjI1 [OF refl] p1 n1(1)])
  let ?s2 = "s1\<lparr>io := io s1 @ map (Out 0x3f8) (read_bytes (ram s1) (text_com img) (unat (19 :: u32)))\<rparr>"
  have sr2: "same_rest s1 ?s2" by (simp add: same_rest_def console_frame_def)
  have fld: "char_drivers t = char_drivers s" "block_drivers t = block_drivers s" "ramdisks t = ramdisks s" if "same_rest s t" for t
    using same_rest_fields [OF that] by simp_all
  have W1: "write_entry_file img (of_nat a1) (text_com img) 19 s1 = Some (19, ?s2)"
    using node_io(1) [OF A(2,4) _ drv, of a1 b1 "lit ''tty1''" i1 IT_CHR "DEV 2 1" "text_com img" 19]
      write_com1 [of s1 cdrv 0 "text_com img" 19] ch fld [OF A(5)] by (simp add: to_int_def)
  have v2: "vga_high ?s2" "screen_of ?s2 = screen_of s" using A(6,7) by (simp_all add: vga_high_def console_ok_def screen_of_def)
  have im2: "image_ok img (ram ?s2)" using A(10) by simp
  have "agree heap_start heap_limit (ram s1) (ram ?s2)" by (simp add: agree_def)
  note hd2 = devices_same [OF A(2,4) sr2 this]
  have p2: "plenty (round16 (length (lit ''console'')) + 112 + (128 + N)) bs1" using A(3) by (simp add: lit_def round16_def)
  have new1: "lit ''console'' \<notin> names (map entry_of ([] @ [(a1, b1, lit ''tty1'', i1, IT_CHR, DEV 2 1)]))" by (simp add: names_def lit_def)
  obtain a2 b2 i2 s3 bs3 where B: "make_node img (of_nat fs) (name_console img) IT_CHR (DEV 2 0) ?s2 = Some (of_nat a2, s3)"
    "heap_is s3 bs3" "plenty (128 + N) bs3"
    "devices_at (live heap_start bs3) (ram s3) fs drv root (([] @ [(a1, b1, lit ''tty1'', i1, IT_CHR, DEV 2 1)]) @ [(a2, b2, lit ''console'', i2, IT_CHR, DEV 2 0)])"
    "same_rest ?s2 s3" "vga_high s3" "screen_of s3 = screen_of ?s2" "io s3 = io ?s2" "agree 0 heap_start (ram ?s2) (ram s3)" "image_ok img (ram s3)"
    by (rule make_node_high [OF hd2 drv v2(1) im2 nm(3,4) [OF im2] len(2) new1 disjI1 [OF refl] p2 n1(2)])
  have sr3: "same_rest s s3" using same_rest_trans [OF A(5) same_rest_trans [OF sr2 B(5)]] .
  have b27: "unat (text_chr img) + unat (27 :: u32) \<le> heap_start" using im by (simp add: image_ok_def)
  have ch3: "char_drivers s3 CHR_TTY \<noteq> NULL" "cdrv (char_drivers s3 CHR_TTY) = tty_driver" using ch fld [OF sr3] by simp_all
  obtain s4 where C: "write_char cdrv (DEV 2 0) 0 (text_chr img) 27 s3 = (to_int 27, s4)" "same_rest s3 s4" "vga_high s4"
    "screen_of s4 = fold screen_put (read_bytes (ram s3) (text_chr img) (unat (27 :: u32))) (screen_of s3)"
    "agree 0 4026531840 (ram s3) (ram s4)" "io s4 = io s3 @ cursor_events (tty_pos s4)"
    by (rule write_console [where cdrv = cdrv, OF B(6) b27 ch3])
  have W2: "write_entry_file img (of_nat a2) (text_chr img) 27 s3 = Some (to_int 27, s4)"
    using node_io(1) [OF B(2,4) _ drv, of a2 b2 "lit ''console''" i2 IT_CHR "DEV 2 0" "text_chr img" 27] C(1) by simp
  have ag4: "agree heap_start heap_limit (ram s3) (ram s4)" "agree 0 heap_start (ram s3) (ram s4)"
    by (rule agree_mono [OF C(5)]; simp)+
  note hd4 = devices_same [OF B(2,4) C(2) ag4(1)]
  have im4: "image_ok img (ram s4)" by (rule image_ok_low [OF ag4(2) B(10)])
  have p3: "plenty (round16 (length (lit ''ram0'')) + 112 + N) bs3" using B(3) by (simp add: lit_def round16_def)
  have new3: "lit ''ram0'' \<notin> names (map entry_of (([] @ [(a1, b1, lit ''tty1'', i1, IT_CHR, DEV 2 1)]) @ [(a2, b2, lit ''console'', i2, IT_CHR, DEV 2 0)]))"
    by (simp add: names_def lit_def)
  obtain a3 b3 i3 s5 bs5 where D: "make_node img (of_nat fs) (name_ram0 img) IT_BLK (DEV 1 0) s4 = Some (of_nat a3, s5)"
    "heap_is s5 bs5" "plenty N bs5"
    "devices_at (live heap_start bs5) (ram s5) fs drv root ((([] @ [(a1, b1, lit ''tty1'', i1, IT_CHR, DEV 2 1)])
       @ [(a2, b2, lit ''console'', i2, IT_CHR, DEV 2 0)]) @ [(a3, b3, lit ''ram0'', i3, IT_BLK, DEV 1 0)])"
    "same_rest s4 s5" "vga_high s5" "screen_of s5 = screen_of s4" "io s5 = io s4" "agree 0 heap_start (ram s4) (ram s5)" "image_ok img (ram s5)"
    by (rule make_node_high [OF hd4 drv C(3) im4 nm(5,6) [OF im4] len(3) new3 disjI2 [OF refl] p3 pl(2)])
  have sr5: "same_rest s s5" using same_rest_trans [OF sr3 same_rest_trans [OF C(2) D(5)]] .
  have bl5: "block_drivers s5 BLK_RAMDISK \<noteq> NULL" "bdrv (block_drivers s5 BLK_RAMDISK) = ramdisk_driver" using bl fld [OF sr5] by simp_all
  have low5: "agree 0 heap_start (ram s) (ram s5)"
    using agree_trans [OF A(9) agree_trans [OF B(9) [simplified] agree_trans [OF ag4(2) D(9)]]] .
  have db: "unat (disk_buf img) + 4097 \<le> heap_start" using im by (simp add: image_ok_def)
  have rd5: "disk0_ok img s5" "disk0_text img s5 = disk0_text img s"
  proof -
    show "disk0_ok img s5" using rd fld [OF sr5] by (simp add: disk0_ok_def)
    show "disk0_text img s5 = disk0_text img s"
      using rd db fld [OF sr5] read_bytes_low [OF low5, of "rd_bufs (ramdisks s ! 0)" 4096] read_bytes_low [OF low5, of "disk_buf img" 4096]
      by (auto simp: disk0_text_def disk0_ok_def Let_def)
  qed
  obtain r m where E: "read_block bdrv (DEV 1 0) 0 (disk_buf img) s5 = Some (r, s5\<lparr>ram := m\<rparr>)"
    "takeWhile (\<lambda>c. c \<noteq> 0) (read_bytes m (disk_buf img) 4096) = disk0_text img s5"
    "\<And>x. \<not> in_region (disk_buf img) 4096 x \<Longrightarrow> m x = ram s5 x"
    by (rule read_disk0 [where bdrv = bdrv, OF bl5 rd5(1) db]) (rule that)
  define s7 where "s7 = s5\<lparr>ram := m(disk_buf img + 4096 := 0)\<rparr>"
  have out7: "ram s7 x = ram s5 x" if "\<not> in_region (disk_buf img) 4097 x" for x
  proof -
    have "x \<noteq> disk_buf img + 4096" "\<not> in_region (disk_buf img) 4096 x" using that by (auto simp: in_region_def)
    then show ?thesis using E(3) by (simp add: s7_def)
  qed
  have "ram s7 (of_nat x) = ram s5 (of_nat x)" if "heap_start \<le> x" "x < 4294967296" for x
    by (rule out7 [OF not_in_low [OF db that]])
  then have ag7: "agree heap_start heap_limit (ram s5) (ram s7)" "agree 4026531840 4294967296 (ram s5) (ram s7)"
    by (simp_all add: agree_def)
  have sr7: "same_rest s5 s7" by (simp add: s7_def)
  have v7: "vga_high s7" "screen_of s7 = screen_of s5"
    using screen_high [OF D(6), of "ram s7"] ag7(2) by (simp_all add: s7_def)
  have shown: "takeWhile (\<lambda>c. c \<noteq> 0) (read_bytes (ram s7) (disk_buf img) 4096) = disk0_text img s"
  proof -
    have "read_bytes (ram s7) (disk_buf img) 4096 = read_bytes m (disk_buf img) 4096"
    proof (rule read_bytes_cong)
      fix i :: nat assume i: "i < 4096"
      then have "(of_nat i :: addr) \<noteq> of_nat 4096" by (intro of_nat_neq) simp_all
      then show "ram s7 (disk_buf img + of_nat i) = m (disk_buf img + of_nat i)" by (simp add: s7_def)
    qed
    then show ?thesis using E(2) rd5(2) by simp
  qed
  define t where "t = printk (msg ''%s'') [Str (disk0_text img s)] s7"
  have "renders (0x25 # 0x73 # ([10] @ [])) [Str bs] (bs @ [10] @ [])" for bs
    by (intro renders_str renders_plain renders_Nil) simp
  then have pr: "prints s7 (disk0_text img s @ [10]) t"
    unfolding t_def by (intro printk_prints) (simp add: lit_def msg_def nl_def)
  note ph = prints_high [OF pr v7(1)]
  have srt: "same_rest s5 t" using same_rest_trans [OF sr7] by (simp add: t_def)
  have agt: "agree heap_start heap_limit (ram s5) (ram t)"
    by (rule agree_trans [OF ag7(1) agree_mono [OF ph(3)]]) simp_all
  note hdt = devices_same [OF D(2,4) srt agt]
  have R: "read_entry_file img (of_nat a3) (disk_buf img) 4096 s5 = Some (r, s5\<lparr>ram := m\<rparr>)"
    using node_io(3) [OF D(2,4) _ drv, of a3 b3 "lit ''ram0''" i3 IT_BLK "DEV 1 0" "disk_buf img" 4096] E(1) by simp
  have od: "open_devices img (of_nat fs) s = Some (of_nat a2, t)"
    using A(1) W1 B(1) W2 D(1) R shown by (simp add: open_devices_def t_def s7_def Let_def)
  have scr: "screen_of t = fold screen_put (chr_text @ disk0_text img s @ [10]) (screen_of s)"
  proof -
    have "read_bytes (ram s3) (text_chr img) 27 = chr_text" using B(10) by (simp add: image_ok_def)
    then show ?thesis using ph(2) v7(2) D(7) C(4) B(7) v2(2) by simp
  qed
  have ios: "\<exists>ev. io t = io s @ map (Out 0x3f8) com_text @ ev \<and> list_all cursor_event ev"
  proof -
    obtain ev where ev: "io t = io s7 @ ev" "list_all cursor_event ev"
      using cursor_io_printk [of s7 "msg ''%s''" "[Str (disk0_text img s)]"] by (auto simp: cursor_io_def t_def)
    have "read_bytes (ram s1) (text_com img) 19 = com_text" using A(10) by (simp add: image_ok_def)
    then have "io t = io s @ map (Out 0x3f8) com_text @ (cursor_events (tty_pos s4) @ ev)"
      using ev(1) D(8) C(6) B(8) A(8) by (simp add: s7_def)
    moreover have "list_all cursor_event (cursor_events (tty_pos s4) @ ev)" using ev(2) by (simp add: cursor_events_def cursor_event_def)
    ultimately show ?thesis by blast
  qed
  have low: "ram t (of_nat x) = ram s (of_nat x)" if "x < heap_start" "\<not> in_region (disk_buf img) 4097 (of_nat x)" for x
    using out7 [OF that(2)] low5 ph(3) that(1) by (simp add: agree_def)
  have srst: "same_rest s t" by (rule same_rest_trans [OF sr5 srt])
  show ?thesis
    by (rule that [OF od hdt(1) D(3) hdt(2) _ _ srst ph(1) scr ios low, of b2 i2]) (simp_all add: node_facts_def)
qed

end
