(* ===== verification/Echo.thy ===== *)
theory Echo
  imports Device_Nodes
begin

text \<open>
  The last loop of \<open>hlinit\<close>: it reads at most ten characters from the console through the file system and
  writes them back, while key events arrive in between.
\<close>

section \<open>Echoing\<close>

text \<open>What happens: a key event, or the next call of the loop.\<close>

datatype 'e echo_act = Key_Act 'e | Read_Act | Write_Act

datatype echo_pc = At_Read | At_Write int

inductive echo_ev ::
    "('s \<Rightarrow> (int \<times> 's) option) \<Rightarrow> (int \<Rightarrow> 's \<Rightarrow> (int \<times> 's) option) \<Rightarrow> ('e \<Rightarrow> 's \<Rightarrow> 's)
      \<Rightarrow> echo_pc \<times> 's \<Rightarrow> 'e echo_act \<Rightarrow> echo_pc \<times> 's \<Rightarrow> bool"
  for rd wr key where
  ev_key: "echo_ev rd wr key (p, s) (Key_Act e) (p, key e s)"
| ev_read: "rd s = Some (n, t) \<Longrightarrow> echo_ev rd wr key (At_Read, s) Read_Act (At_Write n, t)"
| ev_write: "wr n s = Some (r, t) \<Longrightarrow> echo_ev rd wr key (At_Write n, s) Write_Act (At_Read, t)"

inductive_simps echo_ev_simps [simp]:
  "echo_ev rd wr key (p, s) (Key_Act e) c" "echo_ev rd wr key (p, s) Read_Act c" "echo_ev rd wr key (p, s) Write_Act c"

inductive echo_trace ::
    "('s \<Rightarrow> (int \<times> 's) option) \<Rightarrow> (int \<Rightarrow> 's \<Rightarrow> (int \<times> 's) option) \<Rightarrow> ('e \<Rightarrow> 's \<Rightarrow> 's)
      \<Rightarrow> echo_pc \<times> 's \<Rightarrow> 'e echo_act list \<Rightarrow> echo_pc \<times> 's \<Rightarrow> bool"
  for rd wr key where
  trace_Nil: "echo_trace rd wr key c [] c"
| trace_Cons: "echo_ev rd wr key c a d \<Longrightarrow> echo_trace rd wr key d as e \<Longrightarrow> echo_trace rd wr key c (a # as) e"

inductive_simps echo_trace_simps [simp]: "echo_trace rd wr key c [] d" "echo_trace rd wr key c (a # as) d"

text \<open>The operations on the input queue: the characters typed are put, the loop gets a chunk at a time.\<close>

fun act_ops :: "('m \<Rightarrow> 'e \<Rightarrow> 'c list) \<Rightarrow> ('e \<Rightarrow> 'm \<Rightarrow> 'm) \<Rightarrow> u32 \<Rightarrow> 'm \<Rightarrow> 'e echo_act list \<Rightarrow> 'c qop list" where
  "act_ops types mstep chunk m [] = []"
| "act_ops types mstep chunk m (Key_Act e # as) = map Put (types m e) @ act_ops types mstep chunk (mstep e m) as"
| "act_ops types mstep chunk m (Read_Act # as) = Get chunk # act_ops types mstep chunk m as"
| "act_ops types mstep chunk m (Write_Act # as) = act_ops types mstep chunk m as"

fun held :: "('s \<Rightarrow> nat \<Rightarrow> 'c list) \<Rightarrow> echo_pc \<Rightarrow> 's \<Rightarrow> 'c list" where
  "held buffer At_Read s = []"
| "held buffer (At_Write n) s = buffer s (nat n)"

lemma qrun_puts: "qrun cap (map Put xs @ ops) q = qrun cap ops (fold (qput cap) xs q)"
  by (induction xs arbitrary: q) simp_all

lemma qrun_append:
  "qrun cap (xs @ ys) q = (fst (qrun cap xs q) @ fst (qrun cap ys (snd (qrun cap xs q))), snd (qrun cap ys (snd (qrun cap xs q))))"
  by (induction cap xs q rule: qrun.induct) (simp_all add: split_beta)

text \<open>
  The contract of a terminal a loop can echo on: reading takes a chunk of the queue into the buffer, writing
  shows a part of the buffer, key events put what they type into the queue and touch neither buffer nor screen.
\<close>

locale echo_terminal =
  fixes rd :: "'s \<Rightarrow> (int \<times> 's) option" and wr :: "int \<Rightarrow> 's \<Rightarrow> (int \<times> 's) option" and key :: "'e \<Rightarrow> 's \<Rightarrow> 's"
    and ok :: "'s \<Rightarrow> bool" and queue :: "'s \<Rightarrow> 'c list" and buffer :: "'s \<Rightarrow> nat \<Rightarrow> 'c list"
    and shown :: "'s \<Rightarrow> 'v" and put :: "'c \<Rightarrow> 'v \<Rightarrow> 'v" and mods :: "'s \<Rightarrow> 'm"
    and types :: "'m \<Rightarrow> 'e \<Rightarrow> 'c list" and mstep :: "'e \<Rightarrow> 'm \<Rightarrow> 'm" and cap :: nat and chunk :: u32
  assumes rd_ok: "ok s \<Longrightarrow> \<exists>t. rd s = Some (int (min (unat chunk) (length (queue s))), t) \<and> ok t
      \<and> buffer t (min (unat chunk) (length (queue s))) = take (unat chunk) (queue s)
      \<and> queue t = drop (unat chunk) (queue s) \<and> mods t = mods s \<and> shown t = shown s"
    and wr_ok: "ok s \<Longrightarrow> n \<le> unat chunk \<Longrightarrow> \<exists>r t. wr (int n) s = Some (r, t) \<and> ok t
      \<and> shown t = fold put (buffer s n) (shown s) \<and> queue t = queue s \<and> mods t = mods s"
    and key_ok: "ok s \<Longrightarrow> ok (key e s) \<and> queue (key e s) = fold (qput cap) (types (mods s) e) (queue s)
      \<and> mods (key e s) = mstep e (mods s) \<and> shown (key e s) = shown s"
    and key_buffer: "ok s \<Longrightarrow> n \<le> unat chunk \<Longrightarrow> buffer (key e s) n = buffer s n"

fun pc_ok :: "u32 \<Rightarrow> echo_pc \<Rightarrow> bool" where
  "pc_ok chunk At_Read = True"
| "pc_ok chunk (At_Write n) \<longleftrightarrow> 0 \<le> n \<and> nat n \<le> unat chunk"

context echo_terminal
begin

lemma step_refines:
  assumes "echo_ev rd wr key (p, s) a (p', t)" "ok s" "pc_ok chunk p"
  shows "ok t \<and> pc_ok chunk p' \<and> mods t = (case a of Key_Act e \<Rightarrow> mstep e (mods s) | _ \<Rightarrow> mods s)
    \<and> queue t = snd (qrun cap (act_ops types mstep chunk (mods s) [a]) (queue s))
    \<and> (\<exists>printed. shown t = fold put printed (shown s)
      \<and> printed @ held buffer p' t = held buffer p s @ fst (qrun cap (act_ops types mstep chunk (mods s) [a]) (queue s)))"
proof (cases a)
  case (Key_Act e)
  with assms(1) have p: "p' = p" "t = key e s" by simp_all
  have "held buffer p (key e s) = held buffer p s"
    using key_buffer [OF assms(2)] assms(3) by (cases p) simp_all
  then show ?thesis using key_ok [OF assms(2), of e] assms(3) qrun_puts [of cap "types (mods s) e" "[]" "queue s"]
    by (auto simp: Key_Act p intro: exI [of _ "[]"])
next
  case Read_Act
  with assms(1) obtain n where p: "p = At_Read" "p' = At_Write n" "rd s = Some (n, t)" by auto
  then show ?thesis using rd_ok [OF assms(2)] by (auto simp: Read_Act intro: exI [of _ "[]"])
next
  case Write_Act
  with assms(1) obtain n r where p: "p = At_Write n" "p' = At_Read" "wr n s = Some (r, t)" by auto
  then show ?thesis using wr_ok [OF assms(2), of "nat n"] assms(3)
    by (auto simp: Write_Act intro: exI [of _ "buffer s (nat n)"])
qed

lemma trace_refines:
  assumes "echo_trace rd wr key (p, s) as (p', t)" "ok s" "pc_ok chunk p"
  shows "ok t \<and> pc_ok chunk p' \<and> queue t = snd (qrun cap (act_ops types mstep chunk (mods s) as) (queue s))
    \<and> (\<exists>printed. shown t = fold put printed (shown s)
      \<and> printed @ held buffer p' t = held buffer p s @ fst (qrun cap (act_ops types mstep chunk (mods s) as) (queue s)))"
  using assms
proof (induction as arbitrary: p s)
  case Nil
  then show ?case by (auto intro: exI [of _ "[]"])
next
  case (Cons a as)
  obtain q u where u: "echo_ev rd wr key (p, s) a (q, u)" "echo_trace rd wr key (q, u) as (p', t)"
    using Cons.prems(1) by auto
  note st = step_refines [OF u(1) Cons.prems(2,3)]
  from st obtain x where x: "shown u = fold put x (shown s)"
    "x @ held buffer q u = held buffer p s @ fst (qrun cap (act_ops types mstep chunk (mods s) [a]) (queue s))" by blast
  from Cons.IH [OF u(2)] st obtain y where y: "ok t" "pc_ok chunk p'"
    "queue t = snd (qrun cap (act_ops types mstep chunk (mods u) as) (queue u))" "shown t = fold put y (shown u)"
    "y @ held buffer p' t = held buffer q u @ fst (qrun cap (act_ops types mstep chunk (mods u) as) (queue u))" by blast
  have ops: "act_ops types mstep chunk (mods s) (a # as) = act_ops types mstep chunk (mods s) [a] @ act_ops types mstep chunk (mods u) as"
    using st by (cases a) simp_all
  have "(x @ y) @ held buffer p' t = held buffer p s @ fst (qrun cap (act_ops types mstep chunk (mods s) (a # as)) (queue s))"
  proof -
    let ?F = "fst (qrun cap (act_ops types mstep chunk (mods u) as) (queue u))"
    have "(x @ y) @ held buffer p' t = (x @ held buffer q u) @ ?F" using y(5) by simp
    also have "\<dots> = held buffer p s @ fst (qrun cap (act_ops types mstep chunk (mods s) [a]) (queue s)) @ ?F" using x(2) by simp
    finally show ?thesis using st unfolding ops qrun_append by simp
  qed
  moreover have "shown t = fold put (x @ y) (shown s)" using x(1) y(4) by simp
  moreover have "queue t = snd (qrun cap (act_ops types mstep chunk (mods s) (a # as)) (queue s))"
    using y(3) st unfolding ops qrun_append by simp
  ultimately show ?case using y(1,2) by blast
qed

lemma never_stuck:
  assumes "ok s" "pc_ok chunk p"
  shows "\<exists>q u. echo_ev rd wr key (p, s) (if p = At_Read then Read_Act else Write_Act) (q, u)"
proof (cases p)
  case At_Read
  then show ?thesis using rd_ok [OF assms(1)] by auto
next
  case (At_Write n)
  then show ?thesis using wr_ok [OF assms(1), of "nat n"] assms(2) by auto
qed

text \<open>Rounds of the loop without key events print the queue.\<close>

lemma round:
  assumes "ok s"
  shows "\<exists>n r t u. rd s = Some (n, t) \<and> wr n t = Some (r, u) \<and> ok u
    \<and> shown u = fold put (take (unat chunk) (queue s)) (shown s) \<and> queue u = drop (unat chunk) (queue s) \<and> mods u = mods s"
proof -
  let ?n = "min (unat chunk) (length (queue s))"
  obtain t where t: "rd s = Some (int ?n, t)" "ok t" "buffer t ?n = take (unat chunk) (queue s)"
    "queue t = drop (unat chunk) (queue s)" "mods t = mods s" "shown t = shown s" using rd_ok [OF assms] by blast
  obtain r u where u: "wr (int ?n) t = Some (r, u)" "ok u" "shown u = fold put (buffer t ?n) (shown t)"
    "queue u = queue t" "mods u = mods t" using wr_ok [OF t(2), of ?n] by auto
  show ?thesis
    by (rule exI [of _ "int ?n"], rule exI [of _ r], rule exI [of _ t], rule exI [of _ u]) (use t u in simp)
qed

end

section \<open>The console as a terminal\<close>

text \<open>Key events and reads write only the queue and the reader's buffer.\<close>

definition writes_queue :: "addr \<Rightarrow> addr set \<Rightarrow> 'a kbd_scheme \<Rightarrow> 'a kbd_scheme \<Rightarrow> bool" where
  "writes_queue q X s t \<longleftrightarrow> (\<exists>m i k. t = s\<lparr>ram := m, queue_idx := i, modifiers := k\<rparr>
     \<and> (\<forall>x. \<not> in_region q 256 x \<and> x \<notin> X \<longrightarrow> m x = ram s x))"

lemma writes_queueI:
  "t = s\<lparr>ram := m, queue_idx := i, modifiers := k\<rparr> \<Longrightarrow> (\<And>x. \<not> in_region q 256 x \<Longrightarrow> x \<notin> X \<Longrightarrow> m x = ram s x)
    \<Longrightarrow> writes_queue q X s t"
  unfolding writes_queue_def by blast

lemma queue_move:
  assumes "kb_ok buf s" "unat k \<le> unat (queue_idx s)" "\<not> in_region (input_queue s) 256 x"
  shows "memmove m (input_queue s) (input_queue s + k) (queue_idx s - k) x = m x"
proof -
  let ?q = "input_queue s"
  have b: "unat ?q + 256 < 4294967296" "unat (queue_idx s) \<le> 256" using assms(1) by (simp_all add: kb_ok_def)
  have r: "unat (queue_idx s - k) = unat (queue_idx s) - unat k" using assms(2) by (simp add: unat_sub_if')
  have "unat (?q + k) = unat ?q + unat k" using b assms(2) by (intro unat_add_small) simp
  then have "memmove m ?q (?q + k) (queue_idx s - k) x
      = (if in_region ?q (unat (queue_idx s - k)) x then m (?q + k + (x - ?q)) else m x)"
    by (intro memmove_apply) (use b r assms(2) in simp_all)
  moreover have "\<not> in_region ?q (unat (queue_idx s - k)) x" using assms(3) b(2) r by (simp add: in_region_def)
  ultimately show ?thesis by simp
qed

lemma kb_enqueue_frame:
  assumes "kb_ok buf s"
  shows "writes_queue (input_queue s) {} s (kb_enqueue ch s)"
proof -
  let ?q = "input_queue s"
  define s1 where "s1 = (if queue_idx s \<ge> VC_KEY_QUEUE_LEN
      then s\<lparr>ram := memmove (ram s) ?q (?q + 1) (queue_idx s - 1), queue_idx := queue_idx s - 1\<rparr> else s)"
  have e: "kb_enqueue ch s = s1\<lparr>ram := (ram s1)(?q + queue_idx s1 := ch), queue_idx := queue_idx s1 + 1\<rparr>"
    by (simp add: kb_enqueue_def s1_def Let_def)
  have i: "unat (queue_idx s1) < 256"
    using assms by (auto simp: s1_def word_le_nat_alt unat_sub_if' kb_ok_def)
  have out: "ram s1 x = ram s x" if "\<not> in_region ?q 256 x" for x
    using queue_move [OF assms, of 1 x "ram s"] that by (simp add: s1_def word_le_nat_alt)
  have "x \<noteq> ?q + queue_idx s1" if "\<not> in_region ?q 256 x" for x using that i by (auto simp: in_region_def)
  then show ?thesis
    by (intro writes_queueI [where m = "(ram s1)(?q + queue_idx s1 := ch)" and i = "queue_idx s1 + 1" and k = "modifiers s"])
       (use out in \<open>simp_all add: e s1_def\<close>)
qed

lemma set_mod_frame: "writes_queue q X s (kb_set_mod m v s)"
  by (rule writes_queueI [where m = "ram s" and i = "queue_idx s" and k = "modifiers (kb_set_mod m v s)"]) (simp_all add: kb_set_mod_def)

lemma key_step_moves:
  assumes "kb_ok buf s"
  shows "writes_queue (input_queue s) {} s (key_step e s)"
proof -
  have "writes_queue (input_queue s) {} s s" by (rule writes_queueI [where m = "ram s" and i = "queue_idx s" and k = "modifiers s"]) simp_all
  then show ?thesis
    using kb_enqueue_frame [OF assms] set_mod_frame [of "input_queue s" "{}" s]
    by (cases e) (auto simp: kb_key_pressed_def kb_key_released_def Let_def)
qed

lemma vconsole_read_frame:
  assumes "kb_ok buf s" "vconsole_read buf n s = (r, t)"
  shows "writes_queue (input_queue s) {x. in_region buf 256 x} s t"
proof -
  define k where "k = vcr_len n s"
  have i: "unat (queue_idx s) \<le> 256" "disjoint (input_queue s) 256 buf 256" using assms(1) by (simp_all add: kb_ok_def)
  have k: "unat k \<le> unat (queue_idx s)" by (simp add: k_def unat_vcr_len)
  have t: "t = vcr_count k (vcr_shift k (vcr_copy buf k s))" using assms(2) by (simp add: vconsole_read_def Let_def k_def)
  have "disjoint buf (unat k) (input_queue s) (unat k)"
    by (rule disjoint_sym, rule disjoint_mono [OF i(2)]) (use k i in simp_all)
  then have c: "memcpy (ram s) buf (input_queue s) k x = ram s x" if "\<not> in_region buf 256 x" for x
    using that k i(1) by (simp add: memcpy_apply in_region_def)
  show ?thesis unfolding t
    by (intro writes_queueI [where m = "memmove (memcpy (ram s) buf (input_queue s) k) (input_queue s) (input_queue s + k) (queue_idx s - k)"
        and i = "queue_idx s - k" and k = "modifiers s"])
       (use c queue_move [OF assms(1) k] in \<open>simp_all add: vcr_count_def vcr_shift_def vcr_copy_def\<close>)
qed

text \<open>
  The loop can run: the entry of the console is in the file system, the terminal driver serves its major number,
  the text buffer is in the device area, and the queue and the loop's buffer are apart below the heap.
\<close>

definition echo_ok ::
    "'a heap_scheme kernel_image \<Rightarrow> (addr \<Rightarrow> 'a heap_scheme char_driver) \<Rightarrow> nat \<Rightarrow> 'a heap_scheme \<Rightarrow> bool" where
  "echo_ok img cdrv con s \<longleftrightarrow> (\<exists>bs fs drv root ns b nm i self dot dotdot bdrv.
     heap_is s bs \<and> devices_at (live heap_start bs) (ram s) fs drv root ns \<and> (con, b, nm, i, IT_CHR, DEV 2 0) \<in> set ns
     \<and> fs_drivers img drv = tmpfs_driver self dot dotdot cdrv bdrv)
   \<and> char_drivers s CHR_TTY \<noteq> NULL \<and> cdrv (char_drivers s CHR_TTY) = tty_driver \<and> vga_high s
   \<and> kb_ok (echo_buf img) s \<and> unat (input_queue s) + 256 \<le> heap_start \<and> unat (echo_buf img) + 256 \<le> heap_start"

lemma echo_ok_kept:
  assumes ok: "echo_ok img cdrv con s" and ag: "agree heap_start heap_limit (ram s) (ram t)"
    and f: "first_hdr t = first_hdr s" "ptes t = ptes s" "char_drivers t = char_drivers s" "input_queue t = input_queue s"
    and v: "vga_high t" "kb_ok (echo_buf img) t"
  shows "echo_ok img cdrv con t"
proof -
  from ok obtain bs fs drv root ns b nm i self dot dotdot bdrv where
    o: "heap_is s bs" "devices_at (live heap_start bs) (ram s) fs drv root ns" "(con, b, nm, i, IT_CHR, DEV 2 0) \<in> set ns"
      "fs_drivers img drv = tmpfs_driver self dot dotdot cdrv bdrv"
    unfolding echo_ok_def by blast
  have "heap_is t bs" by (rule heap_is_cong [OF o(1) f(1,2) ag])
  moreover have "devices_at (live heap_start bs) (ram t) fs drv root ns" by (rule devices_at_heap [OF o(1,2) ag])
  ultimately show ?thesis using ok o(3,4) f(3,4) v unfolding echo_ok_def by auto blast
qed

lemma echo_ok_queue:
  assumes ok: "echo_ok img cdrv con s" and w: "writes_queue (input_queue s) {x. in_region (echo_buf img) 256 x} s t"
    and kb: "kb_ok (echo_buf img) t"
  shows "echo_ok img cdrv con t" "screen_of t = screen_of s"
proof -
  from w obtain m i k where t: "t = s\<lparr>ram := m, queue_idx := i, modifiers := k\<rparr>"
    and m: "\<And>x. \<not> in_region (input_queue s) 256 x \<Longrightarrow> \<not> in_region (echo_buf img) 256 x \<Longrightarrow> m x = ram s x"
    by (auto simp: writes_queue_def)
  have lo: "unat (input_queue s) + 256 \<le> heap_start" "unat (echo_buf img) + 256 \<le> heap_start" and v: "vga_high s"
    using ok by (simp_all add: echo_ok_def)
  have "m (of_nat x) = ram s (of_nat x)" if "heap_start \<le> x" "x < 4294967296" for x
    by (rule m [OF not_in_low [OF lo(1) that] not_in_low [OF lo(2) that]])
  then have ag: "agree heap_start heap_limit (ram s) m" "agree 4026531840 4294967296 (ram s) m" by (simp_all add: agree_def)
  note sh = screen_high [OF v ag(2)]
  show "screen_of t = screen_of s" using sh(1) by (simp add: t screen_of_def)
  have "vga_high t" using v by (simp add: t vga_high_def console_ok_def)
  then show "echo_ok img cdrv con t" by (intro echo_ok_kept [OF ok]) (use ag(1) kb in \<open>simp_all add: t\<close>)
qed

lemma writes_queue_mono: "writes_queue q X s t \<Longrightarrow> X \<subseteq> Y \<Longrightarrow> writes_queue q Y s t"
  unfolding writes_queue_def by blast

text \<open>The characters a key event types.\<close>

definition chars_of :: "u8 \<Rightarrow> key_event \<Rightarrow> u8 list" where
  "chars_of ms e = (case e of Press k \<Rightarrow> (case typed ms k of None \<Rightarrow> [] | Some c \<Rightarrow> [c]) | Release k \<Rightarrow> [])"

definition buffered :: "addr \<Rightarrow> 'a kbd_scheme \<Rightarrow> nat \<Rightarrow> u8 list" where
  "buffered buf s n = read_bytes (ram s) buf n"

lemma echo_entry:
  assumes "echo_ok img cdrv con s"
  shows "write_entry_file img (of_nat con) buf n s = Some (write_char cdrv (DEV 2 0) 0 buf n s)"
    "read_entry_file img (of_nat con) buf n s = Some (vconsole_read buf n s)"
proof -
  from assms obtain bs fs drv root ns b nm i self dot dotdot bdrv where
    o: "heap_is s bs" "devices_at (live heap_start bs) (ram s) fs drv root ns" "(con, b, nm, i, IT_CHR, DEV 2 0) \<in> set ns"
      "fs_drivers img drv = tmpfs_driver self dot dotdot cdrv bdrv"
    unfolding echo_ok_def by blast
  have m: "MAJOR (DEV 2 0) = CHR_TTY" "MINOR (DEV 2 0) = 0" using MAJOR_DEV [of 2 0] MINOR_DEV [of 2 0] by simp_all
  have "read_char cdrv (DEV 2 0) 0 buf n s = vconsole_read buf n s"
    using assms by (simp add: read_char_def m tty_driver_def tty_read_def echo_ok_def)
  then show "write_entry_file img (of_nat con) buf n s = Some (write_char cdrv (DEV 2 0) 0 buf n s)"
    "read_entry_file img (of_nat con) buf n s = Some (vconsole_read buf n s)"
    using node_io(1,2) [OF o refl] by simp_all
qed

lemma console_reads:
  assumes ok: "echo_ok img cdrv con s"
  shows "\<exists>t. read_entry_file img (of_nat con) (echo_buf img) 10 s = Some (int (min (unat (10 :: u32)) (length (kb_queue s))), t)
    \<and> echo_ok img cdrv con t
    \<and> buffered (echo_buf img) t (min (unat (10 :: u32)) (length (kb_queue s))) = take (unat (10 :: u32)) (kb_queue s)
    \<and> kb_queue t = drop (unat (10 :: u32)) (kb_queue s) \<and> modifiers t = modifiers s \<and> screen_of t = screen_of s"
proof -
  have kb: "kb_ok (echo_buf img) s" using ok by (simp add: echo_ok_def)
  obtain r t where rt: "vconsole_read (echo_buf img) 10 s = (r, t)" by fastforce
  note m = vconsole_read_memory [OF kb rt]
  note e = echo_ok_queue [OF ok vconsole_read_frame [OF kb rt] m(4)]
  have len: "length (kb_queue s) = unat (queue_idx s)" by (simp add: kb_queue_def)
  have "r = to_int (vcr_len 10 s)" using rt by (auto simp: vconsole_read_def Let_def)
  then have "r = int (min (unat (10 :: u32)) (length (kb_queue s)))"
    using to_int_small [of "vcr_len 10 s"] by (simp add: unat_vcr_len len min.commute min.strict_coboundedI2)
  moreover have "nat r = min (unat (10 :: u32)) (length (kb_queue s))" using m(1) by (simp add: len min.commute)
  ultimately show ?thesis using echo_entry(2) [OF ok] rt e m(2,3,5) by (simp add: buffered_def)
qed

lemma console_writes:
  fixes s :: "'a heap_scheme"
  assumes ok: "echo_ok img cdrv con s" and n: "n \<le> unat (10 :: u32)"
  shows "\<exists>r t. write_entry_file img (of_nat con) (echo_buf img) (word_of_int (int n)) s = Some (r, t) \<and> echo_ok img cdrv con t
    \<and> screen_of t = fold screen_put (buffered (echo_buf img) s n) (screen_of s) \<and> kb_queue t = kb_queue s \<and> modifiers t = modifiers s"
proof -
  have u: "unat (word_of_int (int n) :: u32) = n" using n by (simp add: unat_of_nat32)
  have o: "unat (echo_buf img) + 256 \<le> heap_start" "unat (input_queue s) + 256 \<le> heap_start" "vga_high s" "kb_ok (echo_buf img) s"
    "char_drivers s CHR_TTY \<noteq> NULL" "cdrv (char_drivers s CHR_TTY) = tty_driver" using ok by (simp_all add: echo_ok_def)
  have b: "unat (echo_buf img) + unat (word_of_int (int n) :: u32) \<le> heap_start" using o(1) n unfolding u by simp
  obtain t where t: "write_char cdrv (DEV 2 0) 0 (echo_buf img) (word_of_int (int n)) s = (to_int (word_of_int (int n)), t)" "same_rest s t"
    "vga_high t" "screen_of t = fold screen_put (read_bytes (ram s) (echo_buf img) (unat (word_of_int (int n) :: u32))) (screen_of s)"
    "agree 0 4026531840 (ram s) (ram t)" "io t = io s @ cursor_events (tty_pos t)"
    by (rule write_console [where cdrv = cdrv and pos = 0, OF o(3) b o(5,6)]) (rule that)
  note f = same_rest_fields [OF t(2)]
  have ag: "agree heap_start heap_limit (ram s) (ram t)" "agree 0 heap_start (ram s) (ram t)" by (rule agree_mono [OF t(5)]; simp)+
  have kb: "kb_ok (echo_buf img) t" using o(4) f by (simp add: kb_ok_def)
  have i: "unat (queue_idx s) \<le> 256" using o(4) by (simp add: kb_ok_def)
  have "echo_ok img cdrv con t" by (rule echo_ok_kept [OF ok ag(1) _ _ _ _ t(3) kb]) (use f in simp_all)
  moreover have "kb_queue t = kb_queue s"
    unfolding kb_queue_def f(5,6) by (rule read_bytes_low [OF ag(2)]) (use o(2) i in simp)
  ultimately show ?thesis
    using t(4) f(7) unfolding echo_entry(1) [OF ok] t(1) buffered_def u by blast
qed

lemma console_keys:
  fixes s :: "'a heap_scheme"
  assumes ok: "echo_ok img cdrv con s"
  shows "echo_ok img cdrv con (key_step e s) \<and> kb_queue (key_step e s) = fold (qput 256) (chars_of (modifiers s) e) (kb_queue s)
    \<and> modifiers (key_step e s) = mods_step e (modifiers s) \<and> screen_of (key_step e s) = screen_of s"
    and "n \<le> unat (10 :: u32) \<Longrightarrow> buffered (echo_buf img) (key_step e s) n = buffered (echo_buf img) s n"
proof -
  have kb: "kb_ok (echo_buf img) s" using ok by (simp add: echo_ok_def)
  note fr = key_step_moves [OF kb, of e] and q = key_step_queue [OF kb, of e]
  note o = echo_ok_queue [OF ok writes_queue_mono [OF fr] q(1)]
  show "echo_ok img cdrv con (key_step e s) \<and> kb_queue (key_step e s) = fold (qput 256) (chars_of (modifiers s) e) (kb_queue s)
    \<and> modifiers (key_step e s) = mods_step e (modifiers s) \<and> screen_of (key_step e s) = screen_of s"
    using o q(2) modifiers_key_step [of e s] by (simp add: chars_of_def split: key_event.split option.split)
  assume n: "n \<le> unat (10 :: u32)"
  have dj: "disjoint (input_queue s) 256 (echo_buf img) 256" using kb by (simp add: kb_ok_def)
  show "buffered (echo_buf img) (key_step e s) n = buffered (echo_buf img) s n"
    unfolding buffered_def
  proof (rule read_bytes_cong)
    fix i assume "i < n"
    then have "\<not> in_region (input_queue s) 256 (echo_buf img + of_nat i)"
      by (intro disjoint_not_in_region [OF dj]) (use n in simp_all)
    then show "ram (key_step e s) (echo_buf img + of_nat i) = ram s (echo_buf img + of_nat i)"
      using fr by (auto simp: writes_queue_def)
  qed
qed

interpretation echo: echo_terminal "read_entry_file img (of_nat con) (echo_buf img) 10"
    "\<lambda>n. write_entry_file img (of_nat con) (echo_buf img) (word_of_int n)" key_step
    "echo_ok img cdrv con" kb_queue "buffered (echo_buf img)" screen_of screen_put modifiers chars_of mods_step 256 10
  for img :: "'a heap_scheme kernel_image" and cdrv con
proof unfold_locales
  fix s :: "'a heap_scheme" and n e assume ok: "echo_ok img cdrv con s"
  show "\<exists>t. read_entry_file img (of_nat con) (echo_buf img) 10 s = Some (int (min (unat (10 :: u32)) (length (kb_queue s))), t)
    \<and> echo_ok img cdrv con t
    \<and> buffered (echo_buf img) t (min (unat (10 :: u32)) (length (kb_queue s))) = take (unat (10 :: u32)) (kb_queue s)
    \<and> kb_queue t = drop (unat (10 :: u32)) (kb_queue s) \<and> modifiers t = modifiers s \<and> screen_of t = screen_of s"
    by (rule console_reads [OF ok])
  show "echo_ok img cdrv con (key_step e s) \<and> kb_queue (key_step e s) = fold (qput 256) (chars_of (modifiers s) e) (kb_queue s)
    \<and> modifiers (key_step e s) = mods_step e (modifiers s) \<and> screen_of (key_step e s) = screen_of s"
    by (rule console_keys(1) [OF ok])
  assume n: "n \<le> unat (10 :: u32)"
  show "\<exists>r t. write_entry_file img (of_nat con) (echo_buf img) (word_of_int (int n)) s = Some (r, t) \<and> echo_ok img cdrv con t
    \<and> screen_of t = fold screen_put (buffered (echo_buf img) s n) (screen_of s) \<and> kb_queue t = kb_queue s \<and> modifiers t = modifiers s"
    by (rule console_writes [OF ok n])
  show "buffered (echo_buf img) (key_step e s) n = buffered (echo_buf img) s n" by (rule console_keys(2) [OF ok n])
qed

section \<open>Properties\<close>

abbreviation (input) echo_run ::
    "'a heap_scheme kernel_image \<Rightarrow> nat \<Rightarrow> echo_pc \<times> 'a heap_scheme \<Rightarrow> key_event echo_act list \<Rightarrow> echo_pc \<times> 'a heap_scheme \<Rightarrow> bool" where
  "echo_run img con \<equiv> echo_trace (read_entry_file img (of_nat con) (echo_buf img) 10)
     (\<lambda>n. write_entry_file img (of_nat con) (echo_buf img) (word_of_int n)) key_step"

text \<open>Rounds of the loop, without key events in between.\<close>

fun echo_loop :: "'a heap_scheme kernel_image \<Rightarrow> addr \<Rightarrow> nat \<Rightarrow> 'a heap_scheme \<Rightarrow> 'a heap_scheme option" where
  "echo_loop img de 0 s = Some s"
| "echo_loop img de (Suc k) s = Option.bind (echo_step img de s) (echo_loop img de k)"

lemma echo_loop_prints:
  assumes "echo_ok img cdrv con s"
  shows "\<exists>t. echo_loop img (of_nat con) k s = Some t \<and> echo_ok img cdrv con t
    \<and> screen_of t = fold screen_put (take (10 * k) (kb_queue s)) (screen_of s) \<and> kb_queue t = drop (10 * k) (kb_queue s)"
  using assms
proof (induction k arbitrary: s)
  case (Suc k)
  obtain n r t u where r: "read_entry_file img (of_nat con) (echo_buf img) 10 s = Some (n, t)"
    "write_entry_file img (of_nat con) (echo_buf img) (word_of_int n) t = Some (r, u)" "echo_ok img cdrv con u"
    "screen_of u = fold screen_put (take (unat (10 :: u32)) (kb_queue s)) (screen_of s)"
    "kb_queue u = drop (unat (10 :: u32)) (kb_queue s)"
    using echo.round [OF Suc.prems] by blast
  have "unat (10 :: u32) = 10" by simp
  note r' = r(4,5) [unfolded this]
  have "echo_step img (of_nat con) s = Some u" using r(1,2) by (simp add: echo_step_def)
  then show ?case using Suc.IH [OF r(3)] unfolding r' by (simp add: take_add add.commute)
qed simp

lemma echo_refines_queue:
  assumes ok: "echo_ok img cdrv con s" and tr: "echo_run img con (At_Read, s) as (p, t)"
  shows "echo_ok img cdrv con t \<and> pc_ok 10 p \<and> (\<exists>printed. screen_of t = fold screen_put printed (screen_of s)
    \<and> (printed @ held (buffered (echo_buf img)) p t, kb_queue t) = qrun 256 (act_ops chars_of mods_step 10 (modifiers s) as) (kb_queue s))"
  using echo.trace_refines [OF tr ok] by (auto simp: prod_eq_iff)





text \<open>
  C6. When nothing more is typed, a tenth as many rounds as there are characters in the queue print all of them, and the loop goes on.
\<close>

theorem echo_drains:
  assumes "echo_ok img cdrv con s" "length (kb_queue s) \<le> 10 * k"
  shows "\<exists>t. echo_loop img (of_nat con) k s = Some t \<and> kb_queue t = []
    \<and> screen_of t = fold screen_put (kb_queue s) (screen_of s) \<and> (\<exists>u. echo_loop img (of_nat con) j t = Some u \<and> screen_of u = screen_of t)"
proof -
  obtain t where t: "echo_loop img (of_nat con) k s = Some t" "echo_ok img cdrv con t"
    "screen_of t = fold screen_put (take (10 * k) (kb_queue s)) (screen_of s)" "kb_queue t = drop (10 * k) (kb_queue s)"
    using echo_loop_prints [OF assms(1)] by blast
  from echo_loop_prints [OF t(2), of j] t(3,4) assms(2) show ?thesis by (intro exI [of _ t]) (auto simp: t(1))
qed

end
