(* ===== verification/Startup.thy ===== *)
theory Startup
  imports Echo
begin

text \<open>
  The second half of \<open>hlinit\<close> from end to end: the initialisers, the mounted tmpfs with its device nodes, and the
  loop that echoes; and how \<open>hlinit\<close> stops when the boot loader gives no memory map.
\<close>

section \<open>What the initialisers leave alone\<close>

text \<open>The start may print and talk to devices; the heap, the page tables, the RAM disks and the keyboard queue stay.\<close>

definition boot_kept :: "'a heap_scheme \<Rightarrow> 'a heap_scheme \<Rightarrow> bool" where
  "boot_kept s t \<longleftrightarrow> (\<exists>out. prints s out t) \<and> ptes t = ptes s \<and> phys_page_bitmap t = phys_page_bitmap s
     \<and> lower_bound t = lower_bound s \<and> upper_bound t = upper_bound s \<and> first_hdr t = first_hdr s \<and> ramdisks t = ramdisks s
     \<and> input_queue t = input_queue s \<and> queue_idx t = queue_idx s \<and> modifiers t = modifiers s"

lemma boot_kept_trans:
  assumes "boot_kept s t" "boot_kept t u"
  shows "boot_kept s u"
proof -
  obtain a b where "prints s a t" "prints t b u" using assms by (auto simp: boot_kept_def)
  then have "prints s (a @ b) u" by (rule prints_trans)
  then show ?thesis using assms by (auto simp: boot_kept_def)
qed

lemma boot_kept_refl: "boot_kept s s"
  using prints_Nil [of s] by (auto simp: boot_kept_def)

lemma same_rest_bounds:
  fixes s t :: "'a heap_scheme"
  assumes "same_rest s t"
  shows "phys_page_bitmap t = phys_page_bitmap s" "lower_bound t = lower_bound s" "upper_bound t = upper_bound s"
  using assms by (cases s, cases t; simp add: same_rest_def console_frame_def)+

lemma boot_kept_same_rest:
  fixes s t :: "'a heap_scheme"
  assumes "same_rest s t" "prints s out t"
  shows "boot_kept s t"
  using assms same_rest_fields [OF assms(1)] same_rest_bounds [OF assms(1)] by (auto simp: boot_kept_def)

lemma boot_kept_printk: "renders (lit f) args out \<Longrightarrow> boot_kept s (printk f args s)"
  by (rule boot_kept_same_rest [OF same_rest_printk printk_prints])

lemma boot_kept_talks:
  fixes s t :: "'a heap_scheme"
  assumes "talks s t"
  shows "boot_kept s t"
proof -
  have r: "same_rest (s\<lparr>scancode_set := 0\<rparr>) (t\<lparr>scancode_set := 0\<rparr>)" and p: "\<exists>out. prints s out t" using assms by (auto simp: talks_def)
  show ?thesis using p same_rest_fields [OF r] same_rest_bounds [OF r] by (simp add: boot_kept_def)
qed

lemma printable_pointer: "printable cs args \<Longrightarrow> printable (0x25 # 0x70 # cs) (Word x # args)"
proof -
  assume "printable cs args"
  then obtain out where "renders cs args out" by (auto simp: printable_def)
  moreover have "pad 0 f ds = ds" for f ds by (simp add: pad_def)
  ultimately have "renders (0x25 # 0x70 # cs) (Word x # args) (0x30 # 0x78 # map (digit_char 0x61) (numeral_of 16 (unat x)) @ out)"
    by (fastforce simp: renders_def parse_filler_def render_directive_def render_num_def with_prefix_def Let_def)
  then show ?thesis by (auto simp: printable_def)
qed

lemma taken_printable:
  "printable (lit char_taken_msg) [Word a, Word b, Word c]" "printable (lit block_taken_msg) [Word a, Word b, Word c]"
  by (simp_all add: char_taken_msg_def block_taken_msg_def lit_def)
     (rule printable_pointer printable_step(3) | rule printable_step(1) | rule printable_step(2), simp)+

lemma taken_kept:
  "boot_kept s (printk char_taken_msg [Word a, Word b, Word c] s)" "boot_kept s (printk block_taken_msg [Word a, Word b, Word c] s)"
  using taken_printable boot_kept_printk unfolding printable_def by blast+

lemma drivers_kept: "boot_kept s (s\<lparr>char_drivers := f\<rparr>)" "boot_kept s (s\<lparr>block_drivers := f\<rparr>)"
  using prints_same [of "s\<lparr>char_drivers := f\<rparr>" s] prints_same [of "s\<lparr>block_drivers := f\<rparr>" s] by (auto simp: boot_kept_def)

lemma call_kept:
  fixes s t :: "'a heap_scheme"
  assumes "call c s = Some t"
  shows "boot_kept s t"
proof -
  have ch: "boot_kept s (register_char_driver m d s)" for m d and s :: "'a heap_scheme"
    by (simp add: register_char_driver_def taken_kept drivers_kept)
  have bl: "boot_kept s (register_block_driver m d s)" for m d and s :: "'a heap_scheme"
    by (simp add: register_block_driver_def taken_kept drivers_kept)
  show ?thesis
  proof (cases c)
    case (Ps2_Setup h)
    with assms obtain ok v where r: "controller_setup s = Some (ok, v)"
      and t: "(if \<not> ok then Some (printk (msg ''FATAL: ps/2: keyboard will not be available'') [] v)
         else Some (pic_clear_mask 1 (set_isr (IRQ_OFFSET + 1) h v))) = Some t"
      by (auto simp: ps2_kb_driversetup_def Option.bind_eq_Some_conv split: prod.splits)
    have v: "boot_kept s v" using talks_setup [OF r] boot_kept_talks by simp
    have "prints v [] (pic_clear_mask 1 (set_isr (IRQ_OFFSET + 1) h v))"
      by (rule prints_same) (simp_all add: pic_clear_mask_def set_isr_def Let_def io_wait_def split_beta outb_def inb_def)
    then have "boot_kept v (pic_clear_mask 1 (set_isr (IRQ_OFFSET + 1) h v))"
      by (auto simp: boot_kept_def pic_clear_mask_def set_isr_def Let_def io_wait_def split_beta outb_def inb_def)
    moreover have "boot_kept v (printk (msg ''FATAL: ps/2: keyboard will not be available'') [] v)"
      by (rule boot_kept_talks [OF talks_printk]) simp
    ultimately show ?thesis using t boot_kept_trans [OF v] by (auto split: if_splits)
  qed (use assms ch bl in \<open>auto simp: register_ramdisk_driver_def register_memdev_driver_def register_tty_driver_def\<close>)
qed

lemma run_initcalls_kept: "run_initcalls cs s = Some t \<Longrightarrow> boot_kept s t"
proof (induction cs arbitrary: s)
  case (Cons c cs)
  then obtain u where "call c s = Some u" "run_initcalls cs u = Some t" by (auto simp: Option.bind_eq_Some_conv)
  then show ?case using boot_kept_trans [OF call_kept Cons.IH] by blast
qed (simp add: boot_kept_refl)

text \<open>Room on the heap depends on the tables and the frames alone.\<close>

lemma frames_cong:
  fixes s t :: "'a paging_scheme"
  assumes "bounds_ok s" "phys_page_bitmap t = phys_page_bitmap s" "lower_bound t = lower_bound s" "upper_bound t = upper_bound s"
  shows "(alloc_many phys_frame n t = None) = (alloc_many phys_frame n s = None)"
  using assms
proof (induction n arbitrary: s t)
  case (Suc n)
  have ok: "bounds_ok s" "bounds_ok t" using Suc.prems by (simp_all add: bounds_ok_def)
  have f: "find (\<lambda>f. \<not> frame_used t f) (frame_range t) = find (\<lambda>f. \<not> frame_used s f) (frame_range s)"
    using Suc.prems by (simp add: frame_used_def frame_range_def)
  show ?case
  proof (cases "find (\<lambda>f. \<not> frame_used s f) (frame_range s)")
    case None
    then show ?thesis using f by (simp add: phys_frame_spec [OF ok(1)] phys_frame_spec [OF ok(2)])
  next
    case (Some k)
    let ?u = "set_phys_used (of_nat (4096 * k)) True"
    have "(alloc_many phys_frame n (?u t) = None) = (alloc_many phys_frame n (?u s) = None)"
      by (rule Suc.IH) (use Suc.prems ok in \<open>simp_all add: set_phys_used_def bounds_ok_def Let_def\<close>)
    then show ?thesis using Some f by (simp add: phys_frame_spec [OF ok(1)] phys_frame_spec [OF ok(2)])
  qed
qed simp

lemma room_cong:
  fixes s t :: "'a heap_scheme"
  assumes "ptes t = ptes s" "phys_page_bitmap t = phys_page_bitmap s" "lower_bound t = lower_bound s" "upper_bound t = upper_bound s"
    and "room s e n"
  shows "room t e n"
  using assms frames_cong [OF _ assms(2-4)]
  by (auto simp: room_def bounds_ok_def tables_ok_def region_free_def table_present_def page_present_def)

lemma boot_kept_room: "boot_kept s t \<Longrightarrow> room s e n \<Longrightarrow> room t e n"
  by (rule room_cong [of t s]) (simp_all add: boot_kept_def)

lemma boot_kept_low:
  assumes "boot_kept s t" "vga_high s"
  shows "vga_high t" "agree 0 4026531840 (ram s) (ram t)" "\<exists>out. screen_of t = fold screen_put out (screen_of s)"
  using assms prints_high [OF _ assms(2)] by (auto simp: boot_kept_def)

section \<open>The start of the devices\<close>

lemma hello_renders: "renders (lit (msg ''Hello, world!'')) [] (lit ''Hello, world!'' @ [10])"
proof -
  have "lit (msg ''Hello, world!'') = (lit ''Hello, world!'' @ [10]) @ []" "0x25 \<notin> set (lit ''Hello, world!'' @ [10])"
    by (simp_all add: lit_def msg_def nl_def)
  then show ?thesis using renders_plain [of "lit ''Hello, world!'' @ [10]" "[]" "[]" "[]"] renders_Nil by simp
qed

lemma disk0_low:
  assumes "agree 0 heap_start (ram s) (ram t)" "ramdisks t = ramdisks s" "disk0_ok img s" "image_ok img (ram s)"
  shows "disk0_ok img t" "disk0_text img t = disk0_text img s"
proof -
  have db: "unat (disk_buf img) + 4097 \<le> heap_start" using assms(4) by (simp add: image_ok_def)
  show "disk0_ok img t" using assms(2,3) by (simp add: disk0_ok_def)
  show "disk0_text img t = disk0_text img s"
    using assms(2,3) db read_bytes_low [OF assms(1), of "rd_bufs (ramdisks s ! 0)" 4096] read_bytes_low [OF assms(1), of "disk_buf img" 4096]
    by (auto simp: disk0_text_def disk0_ok_def Let_def)
qed

text \<open>Mounting on the empty heap, in a state whose text buffer lies high.\<close>

lemma mount_boot:
  fixes s :: "'a heap_scheme"
  assumes hp: "heap_is s []" and rm: "room s heap_start 1" and v: "vga_high s" and im: "image_ok img (ram s)"
  obtains fs root t bs where "tmpfs_mount drv 0 s = Some (of_nat fs, t)" "heap_is t bs" "plenty 400 bs"
    "devices_at (live heap_start bs) (ram t) fs drv root []" "vga_high t" "screen_of t = screen_of s" "image_ok img (ram t)"
    "agree 0 heap_start (ram s) (ram t)" "char_drivers t = char_drivers s" "block_drivers t = block_drivers s" "ramdisks t = ramdisks s"
    "io t = io s" "input_queue t = input_queue s" "queue_idx t = queue_idx s" "modifiers t = modifiers s"
proof -
  obtain fs root t bs where m: "tmpfs_mount drv 0 s = Some (of_nat fs, t)" "heap_is t bs" "plenty 400 bs" "fs \<noteq> root"
    "fs_at (live heap_start bs) (ram t) fs drv root" "dir_at (live heap_start bs) (ram t) root []"
    "inode_at (ram t) root 0 (ucast (0 :: u32) AND I_PERMS) (of_nat fs)" "outside_kept (ram s) (ram t)" "heap_frame s t"
    using mount_spec [OF hp, of 400 drv 0] rm by auto
  obtain m' p b h where t: "t = s\<lparr>ram := m', ptes := p, phys_page_bitmap := b, first_hdr := h\<rparr>" using m(9) by (auto simp: heap_frame_def)
  have ag: "agree 0 heap_start (ram s) m'" "agree 4026531840 4294967296 (ram s) m'" using m(8) by (simp_all add: outside_kept_def t)
  have sh: "vga_high t" "screen_of t = screen_of s" using screen_high [OF v ag(2)] by (simp_all add: t vga_high_def console_ok_def screen_of_def)
  have "devices_at (live heap_start bs) (ram t) fs drv root []"
    using m(4-7) by (simp add: devices_at_def objects_def starts_def inode_at_def)
  then show ?thesis using image_ok_low [OF ag(1) im] ag(1) by (intro that [OF m(1-3) _ sh]) (simp_all add: t)
qed

lemma start_devices_spec:
  fixes s :: "'a heap_scheme"
  assumes init: "run_initcalls (initcalls img) s = Some s1"
      "set (initcalls img) = {Ps2_Setup h, Ramdisk_Driver r, Memdev_Driver m, Tty_Driver y}" "NULL \<notin> {r, m, y}"
      "char_drivers s = (\<lambda>_. NULL)" "block_drivers s = (\<lambda>_. NULL)"
    and drv: "fs_drivers img (tmpfs_addr img) = tmpfs_driver (tmpfs_addr img) dot dotdot cdrv bdrv"
      "cdrv y = tty_driver" "bdrv r = ramdisk_driver"
    and mem: "heap_is s []" "room s heap_start 1" "vga_high s" "image_ok img (ram s)" "disk0_ok img s"
    and queue: "kb_ok (echo_buf img) s" "unat (input_queue s) + 256 \<le> heap_start" "unat (echo_buf img) + 256 \<le> heap_start"
  shows "\<exists>con t. start_devices img s = Some (Echoing (of_nat con) t) \<and> echo_ok img cdrv con t
    \<and> queue_idx t = queue_idx s \<and> modifiers t = modifiers s
    \<and> (\<exists>out. screen_of t = fold screen_put (out @ lit ''Hello, world!'' @ [10] @ chr_text @ disk0_text img s @ [10]) (screen_of s))
    \<and> (\<exists>as bs. io t = as @ map (Out 0x3f8) com_text @ bs \<and> list_all cursor_event bs)"
proof -
  have k1: "boot_kept s s1" by (rule run_initcalls_kept [OF init(1)])
  note tab = all_initcalls_tables [OF init]
  define s2 where "s2 = printk (msg ''Hello, world!'') [] s1"
  have pr: "prints s1 (lit ''Hello, world!'' @ [10]) s2" unfolding s2_def by (rule printk_prints [OF hello_renders])
  have k2: "boot_kept s s2" unfolding s2_def by (rule boot_kept_trans [OF k1 boot_kept_printk [OF hello_renders]])
  have drvs: "char_drivers s2 = char_drivers s1" "block_drivers s2 = block_drivers s1"
    using same_rest_fields [OF same_rest_printk [of s1 "msg ''Hello, world!''" "[]"]] by (simp_all add: s2_def)
  note l1 = boot_kept_low [OF k1 mem(3)] and l2 = boot_kept_low(1,2) [OF k2 mem(3)]
  obtain out where out: "screen_of s1 = fold screen_put out (screen_of s)" using l1(3) by blast
  have scr2: "screen_of s2 = fold screen_put (lit ''Hello, world!'' @ [10]) (screen_of s1)" by (rule prints_high(2) [OF pr l1(1)])
  have low2: "agree 0 heap_start (ram s) (ram s2)" "agree heap_start heap_limit (ram s) (ram s2)" by (rule agree_mono [OF l2(2)]; simp)+
  have f2: "first_hdr s2 = first_hdr s" "ptes s2 = ptes s" "ramdisks s2 = ramdisks s" "input_queue s2 = input_queue s"
    "queue_idx s2 = queue_idx s" "modifiers s2 = modifiers s" using k2 by (simp_all add: boot_kept_def)
  have hp2: "heap_is s2 []" by (rule heap_is_cong [OF mem(1) f2(1,2) low2(2)])
  have im2: "image_ok img (ram s2)" by (rule image_ok_low [OF low2(1) mem(4)])
  note d2 = disk0_low [OF low2(1) f2(3) mem(5,4)]
  obtain fs root t bs where t: "tmpfs_mount (tmpfs_addr img) 0 s2 = Some (of_nat fs, t)" "heap_is t bs" "plenty 400 bs"
    "devices_at (live heap_start bs) (ram t) fs (tmpfs_addr img) root []" "vga_high t" "screen_of t = screen_of s2" "image_ok img (ram t)"
    "agree 0 heap_start (ram s2) (ram t)" "char_drivers t = char_drivers s2" "block_drivers t = block_drivers s2" "ramdisks t = ramdisks s2"
    "io t = io s2" "input_queue t = input_queue s2" "queue_idx t = queue_idx s2" "modifiers t = modifiers s2"
    by (rule mount_boot [OF hp2 boot_kept_room [OF k2 mem(2)] l2(1) im2])
  note d3 = disk0_low [OF t(8,11) d2(1) im2]
  have ch: "char_drivers t CHR_TTY \<noteq> NULL" "cdrv (char_drivers t CHR_TTY) = tty_driver"
    and bl: "block_drivers t BLK_RAMDISK \<noteq> NULL" "bdrv (block_drivers t BLK_RAMDISK) = ramdisk_driver"
    using tab init(3) drv(2,3) by (simp_all add: t(9,10) drvs)
  have pl: "plenty (384 + 16) bs" "(16::nat) \<le> 16" using t(3) by simp_all
  obtain con b i u bs' ns where u: "open_devices img (of_nat fs) t = Some (of_nat con, u)"
    "heap_is u bs'" "plenty 16 bs'" "devices_at (live heap_start bs') (ram u) fs (tmpfs_addr img) root ns"
    "(con, b, lit ''console'', i, IT_CHR, DEV 2 0) \<in> set ns" "node_facts ns = boot_nodes"
    "same_rest t u" "vga_high u" "screen_of u = fold screen_put (chr_text @ disk0_text img t @ [10]) (screen_of t)"
    "\<exists>ev. io u = io t @ map (Out 0x3f8) com_text @ ev \<and> list_all cursor_event ev"
    "\<And>x. x < heap_start \<Longrightarrow> \<not> in_region (disk_buf img) 4097 (of_nat x) \<Longrightarrow> ram u (of_nat x) = ram t (of_nat x)"
    by (rule open_devices_spec [OF t(2,4) drv(1) t(5,7) ch bl d3(1) pl]) (rule that)
  have fu: "char_drivers u = char_drivers t" "input_queue u = input_queue s" "queue_idx u = queue_idx s" "modifiers u = modifiers s"
    using same_rest_fields [OF u(7)] t(13-15) f2(4-6) by simp_all
  have kb: "kb_ok (echo_buf img) u" using queue(1) fu by (simp add: kb_ok_def)
  have "\<exists>bs fs drv root ns b nm i self dot dotdot bdrv.
      heap_is u bs \<and> devices_at (live heap_start bs) (ram u) fs drv root ns \<and> (con, b, nm, i, IT_CHR, DEV 2 0) \<in> set ns
      \<and> fs_drivers img drv = tmpfs_driver self dot dotdot cdrv bdrv"
    using u(2,4,5) drv(1) by blast
  then have "echo_ok img cdrv con u" using u(8) ch queue(2,3) kb fu by (simp add: echo_ok_def)
  moreover have "start_devices img s = Some (Echoing (of_nat con) u)"
    using init(1) t(1) u(1) drv(1) by (simp add: start_devices_def tmpfs_driver_def s2_def Let_def)
  moreover have "screen_of u = fold screen_put (out @ lit ''Hello, world!'' @ [10] @ chr_text @ disk0_text img s @ [10]) (screen_of s)"
    using u(9) t(6) scr2 out d2(2) d3(2) by simp
  moreover have "\<exists>as bs. io u = as @ map (Out 0x3f8) com_text @ bs \<and> list_all cursor_event bs" using u(10) by blast
  ultimately show ?thesis using fu by blast
qed

section \<open>A machine that starts\<close>

text \<open>Memory that holds a list of bytes at an address and zeros elsewhere.\<close>

definition list_mem :: "nat \<Rightarrow> u8 list \<Rightarrow> mem" where
  "list_mem b bs x = (if b \<le> unat x \<and> unat x < b + length bs then bs ! (unat x - b) else 0)"

lemma list_mem_nth:
  assumes "b + length bs \<le> 4294967295"
  shows "k < length bs \<Longrightarrow> list_mem b bs (of_nat (b + k)) = bs ! k"
proof -
  assume "k < length bs"
  moreover from this have "unat (of_nat (b + k) :: addr) = b + k" by (intro unat_of_nat32) (use assms in simp)
  ultimately show ?thesis by (simp add: list_mem_def)
qed

lemma list_mem_read:
  assumes "b + length bs \<le> 4294967295" "k + n \<le> length bs"
  shows "read_bytes (list_mem b bs) (of_nat (b + k)) n = take n (drop k bs)"
proof (rule nth_equalityI)
  fix i assume "i < length (read_bytes (list_mem b bs) (of_nat (b + k)) n)"
  then have i: "i < n" by simp
  have "(of_nat (b + k) + of_nat i :: addr) = of_nat (b + (k + i))" by simp
  then have "read_bytes (list_mem b bs) (of_nat (b + k)) n ! i = list_mem b bs (of_nat (b + (k + i)))"
    using i by (simp add: read_bytes_def add.assoc)
  also have "\<dots> = bs ! (k + i)" by (rule list_mem_nth [OF assms(1)]) (use i assms(2) in simp)
  finally show "read_bytes (list_mem b bs) (of_nat (b + k)) n ! i = take n (drop k bs) ! i" using i assms(2) by simp
qed (use assms in simp)

lemma list_mem_cstr:
  assumes "b + length bs \<le> 4294967295" "drop k bs = nm @ 0 # cs" "0 \<notin> set nm"
  shows "cstr (list_mem b bs) (of_nat (b + k)) nm"
  using assms(2,3)
proof (induction nm arbitrary: k)
  case Nil
  then have "k < length bs" "bs ! k = 0" using nth_via_drop [of k bs] by (auto simp: leI intro: ccontr)
  then show ?case using list_mem_nth [OF assms(1), of k] by simp
next
  case (Cons c nm)
  then have k: "k < length bs" "bs ! k = c" using nth_via_drop [of k bs] by (auto simp: leI intro: ccontr)
  have "drop (Suc k) bs = nm @ 0 # cs" using Cons.prems(1) by (metis append_Cons drop_Suc list.sel(3) tl_drop)
  from Cons.IH [OF this] Cons.prems(2) have "cstr (list_mem b bs) (of_nat (b + Suc k)) nm" by simp
  then show ?case using list_mem_nth [OF assms(1) k(1)] k(2) Cons.prems(2) by (simp add: add.commute add.left_commute)
qed

definition image_bytes :: "u8 list" where
  "image_bytes = lit ''tty1'' @ [0] @ lit ''console'' @ [0] @ lit ''ram0'' @ [0] @ com_text @ chr_text"

definition boot_cdrv :: "addr \<Rightarrow> heap char_driver" where
  "boot_cdrv a = (if a = 0x200 then memdev_driver else tty_driver)"

definition boot_image :: "heap kernel_image" where
  "boot_image = \<lparr>kernel_start = 0xc0100000, kernel_end = 0xc0110000, virtual_offset = 0xc0000000, exc_isrs = (\<lambda>_. 0xc0101000),
     initcalls = [Ps2_Setup 0xc0101000, Tty_Driver 0x300, Ramdisk_Driver 0x100, Memdev_Driver 0x200], tmpfs_addr = 0x6000,
     fs_drivers = (\<lambda>a. tmpfs_driver a 0 0 boot_cdrv (\<lambda>_. ramdisk_driver)),
     name_tty1 = 0xc0108000, name_console = 0xc0108005, name_ram0 = 0xc010800d, text_com = 0xc0108012, text_chr = 0xc0108025,
     disk_buf = 0xc010a000, echo_buf = 0xc010c000\<rparr>"

definition boot_state :: heap where
  "boot_state = heap_init\<lparr>ram := list_mem 0xc0108000 image_bytes, io := [], device := ps2_device (setup_answers 0x47 0xfa 3 0x44),
     char_drivers := (\<lambda>_. NULL), block_drivers := (\<lambda>_. NULL), vga_buffer := 0xf0000000, tty_pos := 0,
     ramdisks := replicate 8 \<lparr>rd_blksize = 0, rd_bufs = NULL, rd_size = 0\<rparr>,
     input_queue := 0x9000, queue_idx := 0, modifiers := 0\<rparr>"

lemma boot_state_simps [simp]:
  "ram boot_state = list_mem 0xc0108000 image_bytes" "io boot_state = []" "device boot_state = ps2_device (setup_answers 0x47 0xfa 3 0x44)"
  "char_drivers boot_state = (\<lambda>_. NULL)" "block_drivers boot_state = (\<lambda>_. NULL)" "vga_buffer boot_state = 0xf0000000" "tty_pos boot_state = 0"
  "ramdisks boot_state = replicate 8 \<lparr>rd_blksize = 0, rd_bufs = NULL, rd_size = 0\<rparr>"
  "input_queue boot_state = 0x9000" "queue_idx boot_state = 0" "modifiers boot_state = 0" "first_hdr boot_state = NULL"
  "ptes boot_state = ptes heap_init" "phys_page_bitmap boot_state = phys_page_bitmap heap_init"
  "lower_bound boot_state = lower_bound heap_init" "upper_bound boot_state = upper_bound heap_init"
  by (simp_all add: boot_state_def)

lemma boot_image_ok: "image_ok boot_image (list_mem 0xc0108000 image_bytes)"
proof -
  let ?b = "3222306816 :: nat"
  have len: "length image_bytes = 64" by (simp add: image_bytes_def com_text_def chr_text_def lit_def)
  then have ok: "?b + length image_bytes \<le> 4294967295" by simp
  have "cstr (list_mem ?b image_bytes) (of_nat (?b + 0)) (lit ''tty1'')" "cstr (list_mem ?b image_bytes) (of_nat (?b + 5)) (lit ''console'')"
    "cstr (list_mem ?b image_bytes) (of_nat (?b + 13)) (lit ''ram0'')"
    by (rule list_mem_cstr [OF ok]; simp add: image_bytes_def lit_def)+
  moreover have "read_bytes (list_mem ?b image_bytes) (of_nat (?b + 18)) 19 = com_text"
    "read_bytes (list_mem ?b image_bytes) (of_nat (?b + 37)) 27 = chr_text"
    by (subst list_mem_read [OF ok]; simp add: len image_bytes_def com_text_def chr_text_def lit_def)+
  ultimately show ?thesis by (simp add: image_ok_def boot_image_def)
qed

lemma boot_initcalls: "\<exists>t. run_initcalls (initcalls boot_image) boot_state = Some t"
proof -
  let ?bs = "setup_answers 0x47 0xfa 3 0x44"
  have "map (answer (ps2_start 0 ?bs) (sent ?bs)) [0 ..< 10] = ?bs"
    by (rule start_answers10) (simp add: setup_answers_def)
  moreover have "answer boot_state = answer (ps2_start 0 ?bs)" by (intro ext) (simp add: answer_def)
  ultimately have ans: "map (answer boot_state (sent ?bs)) [0 ..< 10] = ?bs" by simp
  from controller_setup_succeeds [OF _ ans] ps2_device_coop [of ?bs]
  obtain u where "controller_setup boot_state = Some (True, u)" by auto
  then show ?thesis by (simp add: ps2_kb_driversetup_def boot_image_def)
qed

lemma boot_room: "room boot_state heap_start 1"
  by (rule room_cong [OF _ _ _ _ heap_init_room]) simp_all

text \<open>Everything \<open>start_devices\<close> relies on holds of this machine.\<close>

lemma boot_facts:
  "set (initcalls boot_image) = {Ps2_Setup 0xc0101000, Ramdisk_Driver 0x100, Memdev_Driver 0x200, Tty_Driver 0x300}"
  "NULL \<notin> {0x100, 0x200, 0x300 :: addr}" "char_drivers boot_state = (\<lambda>_. NULL)" "block_drivers boot_state = (\<lambda>_. NULL)"
  "fs_drivers boot_image (tmpfs_addr boot_image) = tmpfs_driver (tmpfs_addr boot_image) 0 0 boot_cdrv (\<lambda>_. ramdisk_driver)"
  "boot_cdrv 0x300 = tty_driver" "(\<lambda>_. ramdisk_driver :: heap block_driver) (0x100 :: addr) = ramdisk_driver"
  "heap_is boot_state []" "room boot_state heap_start 1" "vga_high boot_state" "image_ok boot_image (ram boot_state)"
  "disk0_ok boot_image boot_state" "kb_ok (echo_buf boot_image) boot_state"
  "unat (input_queue boot_state) + 256 \<le> heap_start" "unat (echo_buf boot_image) + 256 \<le> heap_start"
  using boot_image_ok boot_room
  by (auto simp: boot_image_def boot_cdrv_def heap_is_def heap_mapped_def vga_high_def console_ok_def disk0_ok_def kb_ok_def disjoint_def)

lemma boot_disk: "disk0_text boot_image boot_state = []"
proof -
  have "list_mem 0xc0108000 image_bytes 0xc010a000 = 0"
    by (simp add: list_mem_def image_bytes_def com_text_def chr_text_def lit_def)
  moreover have "[0 ..< 4096] = 0 # [1 ..< 4096]" using upt_conv_Cons [of 0 4096] by simp
  ultimately show ?thesis by (simp only: disk0_text_def read_bytes_def) (simp add: boot_image_def del: upt_Suc)
qed

lemma boot_starts:
  obtains con t where "start_devices boot_image boot_state = Some (Echoing (of_nat con) t)" "echo_ok boot_image boot_cdrv con t"
    "queue_idx t = 0" "modifiers t = 0"
proof -
  obtain s1 where i: "run_initcalls (initcalls boot_image) boot_state = Some s1" using boot_initcalls by blast
  from start_devices_spec [where r = "0x100" and m = "0x200" and y = "0x300", OF i boot_facts] that show ?thesis by auto
qed

text \<open>A state in which the loop has started, and one round of it after the key of the dash.\<close>

lemma boot_round:
  obtains con t u v n where "start_devices boot_image boot_state = Some (Echoing (of_nat con) t)" "echo_ok boot_image boot_cdrv con t"
    "kb_queue t = []" "modifiers t = 0"
    "echo_run boot_image con (At_Read, t) [Key_Act (Press 52), Read_Act] (At_Write n, u)"
    "echo_run boot_image con (At_Read, t) [Key_Act (Press 52), Read_Act, Write_Act] (At_Read, v)"
proof -
  obtain con t where t: "start_devices boot_image boot_state = Some (Echoing (of_nat con) t)" "echo_ok boot_image boot_cdrv con t"
    "queue_idx t = 0" "modifiers t = 0" by (rule boot_starts)
  have "kb_queue t = []" using t(3) by (simp add: kb_queue_def read_bytes_def)
  moreover have "echo_ok boot_image boot_cdrv con (key_step (Press 52) t)" using console_keys(1) [OF t(2)] by blast
  from echo.round [OF this] obtain n r u v where
    "read_entry_file boot_image (of_nat con) (echo_buf boot_image) 10 (key_step (Press 52) t) = Some (n, u)"
    "write_entry_file boot_image (of_nat con) (echo_buf boot_image) (word_of_int n) u = Some (r, v)" by blast
  ultimately show ?thesis using t by (intro that [of con t n u v]) auto
qed

lemma dash_typed: "chars_of 0 (Press 52) = [0x2d]"
  by code_simp





theorem echo_drains_witness:
  "\<exists>con t u. start_devices boot_image boot_state = Some (Echoing (of_nat con) t)
    \<and> echo_loop boot_image (of_nat con) 1 (key_step (Press 52) t) = Some u \<and> kb_queue u = [] \<and> screen_of u = screen_put 0x2d (screen_of t)"
proof -
  obtain con t u v n where r: "start_devices boot_image boot_state = Some (Echoing (of_nat con) t)" "echo_ok boot_image boot_cdrv con t"
    "kb_queue t = []" "modifiers t = 0"
    "echo_run boot_image con (At_Read, t) [Key_Act (Press 52), Read_Act] (At_Write n, u)"
    "echo_run boot_image con (At_Read, t) [Key_Act (Press 52), Read_Act, Write_Act] (At_Read, v)" by (rule boot_round) (rule that)
  have k: "echo_ok boot_image boot_cdrv con (key_step (Press 52) t)" "kb_queue (key_step (Press 52) t) = [0x2d]"
    "screen_of (key_step (Press 52) t) = screen_of t"
    using console_keys(1) [OF r(2), of "Press 52"] by (simp_all add: r(3,4) dash_typed qput_def)
  have "length (kb_queue (key_step (Press 52) t)) \<le> 10 * 1" unfolding k(2) by simp
  from echo_drains [OF k(1) this, of 0] obtain u where
    "echo_loop boot_image (of_nat con) 1 (key_step (Press 52) t) = Some u" "kb_queue u = []" "screen_of u = screen_put 0x2d (screen_of t)"
    unfolding k(2,3) by auto
  then show ?thesis using r(1) by blast
qed

section \<open>Properties\<close>

text \<open>
  C8. Without a memory map or without the sizes of memory, \<open>hlinit\<close> stops in \<open>panic\<close>: the machine is halted and the
  screen shows the message with what was missing.
\<close>

theorem hlinit_needs_memory_map:
  assumes "read_boot_info img mbi s = Some (v, t)" "\<not> got_meminfo v \<or> \<not> got_mmap v" "console_ok t"
  shows "\<exists>u. hlinit img mbi s = Some (Halted u) \<and> halted u
    \<and> screen_of u = fold screen_put (lit ''Did not get required memory maps from GRUB.'' @ [0x0A, 0x09]
        @ lit ''got meminfo? '' @ lit (if got_meminfo v then ''yes'' else ''no'') @ [0x0A, 0x09]
        @ lit ''got mmap? '' @ lit (if got_mmap v then ''yes'' else ''no'') @ [0x0A]
        @ lit ''Are you using legacy (BIOS) boot mode? Legacy BIOS is stillrequired to boot *nix at this point. ''
        @ lit ''Sorry for theinconvenience! :('' @ [0x0A]) (screen_of t)"
proof -
  let ?rest = "lit ''Are you using legacy (BIOS) boot mode? Legacy BIOS is stillrequired to boot *nix at this point. ''
        @ lit ''Sorry for theinconvenience! :('' @ [0x0A]"
  have l: "lit [CHR 0x0A, CHR 0x09] = [0x0A, 0x09]" "lit [CHR 0x0A] = [0x0A]" by (simp_all add: lit_def)
  have fmt: "lit no_map_msg = (lit ''Did not get required memory maps from GRUB.'' @ [0x0A, 0x09] @ lit ''got meminfo? '')
      @ 0x25 # 0x73 # ([0x0A, 0x09] @ lit ''got mmap? '') @ 0x25 # 0x73 # ([0x0A] @ ?rest) @ []"
    unfolding no_map_msg_def by (simp add: lit_def)
  have plain: "0x25 \<notin> set (lit ''Did not get required memory maps from GRUB.'' @ [0x0A, 0x09] @ lit ''got meminfo? '')"
    "0x25 \<notin> set ([0x0A, 0x09] @ lit ''got mmap? '')" "0x25 \<notin> set ([0x0A] @ ?rest)"
    by (simp_all add: lit_def)
  have "renders (lit no_map_msg) [Str x, Str y]
     ((lit ''Did not get required memory maps from GRUB.'' @ [0x0A, 0x09] @ lit ''got meminfo? '')
      @ x @ ([0x0A, 0x09] @ lit ''got mmap? '') @ y @ ([0x0A] @ ?rest) @ [])" for x y
    unfolding fmt by (intro renders_plain renders_str renders_Nil plain)
  from panic_prints [OF this assms(3)] obtain u where
    "panic no_map_msg [yes_no (got_meminfo v), yes_no (got_mmap v)] t = Some u" "halted u"
    "screen_of u = fold screen_put ((lit ''Did not get required memory maps from GRUB.'' @ [0x0A, 0x09] @ lit ''got meminfo? '')
      @ lit (if got_meminfo v then ''yes'' else ''no'') @ ([0x0A, 0x09] @ lit ''got mmap? '')
      @ lit (if got_mmap v then ''yes'' else ''no'') @ ([0x0A] @ ?rest) @ []) (screen_of t)"
    unfolding yes_no_def by blast
  then show ?thesis using assms(1,2) by (simp add: hlinit_def)
qed

text \<open>A machine whose boot information is empty.\<close>

definition no_tags_state :: heap where
  "no_tags_state = heap_init\<lparr>ram := (\<lambda>_. 0), tty_pos := 0, ptes := (ptes heap_init)(0x10 := 0x10003, 0xffc00 := 0x3003)\<rparr>"

definition no_tags_image :: "heap kernel_image" where
  "no_tags_image = boot_image\<lparr>kernel_end := kernel_start boot_image\<rparr>"

theorem hlinit_needs_memory_map_witness: "\<exists>u. hlinit no_tags_image 0x10000 no_tags_state = Some (Halted u) \<and> halted u"
proof -
  let ?s = no_tags_state
  have f: "lower_bound ?s = lower_bound paging_start" "upper_bound ?s = upper_bound paging_start"
    "phys_page_bitmap ?s = phys_page_bitmap paging_start" "ram ?s = (\<lambda>_. 0)" "tty_pos ?s = 0"
    "ptes ?s = (ptes heap_init)(0x10 := 0x10003, 0xffc00 := 0x3003)"
    by (simp_all add: no_tags_state_def)
  have ok: "bounds_ok ?s" by (simp add: bounds_ok_def f)
  have "find (\<lambda>f. \<not> frame_used ?s f) (frame_range ?s) = Some 256" by (simp add: frame_range_def frame_used_def find_first f)
  then obtain fr s1 where a: "alloc_phys ?s = Some (fr, s1)" "ram s1 = ram ?s" "tty_pos s1 = tty_pos ?s"
    by (simp add: alloc_phys_spec [OF ok] alloc_spec_def set_phys_used_def Let_def)
  have p: "table_present ?s 1023" "\<not> table_present ?s (983040 div 1024)" by (simp_all add: table_present_def page_present_def f)
  obtain t where t: "tty_init ?s = Some t" "ram t = (\<lambda>_. 0)" "console_ok t" "virt_mapped 0x10008 t"
    using mem_map_table_first [OF _ _ _ ok p a(1), of "0xb8000" DEFAULT_PAGE_FLAGS] a(2,3) f
    by (simp add: tty_init_def console_ok_def virt_mapped_def table_present_def page_present_def)
  have "mem_init 0xc0100000 0xc0100000 0xc0000000 ?s = Some ?s"
    unfolding mem_init_def by (subst mark_pages.simps) simp
  moreover have "scan_tags 0x10008 boot_vars_init t = Some (boot_vars_init, t)"
    using t(2,4) by (subst scan_tags.simps) (simp add: put_mapped rd32_def)
  ultimately have "read_boot_info no_tags_image 0x10000 ?s = Some (boot_vars_init, t)"
    using t(1) by (simp add: read_boot_info_def no_tags_image_def boot_image_def)
  from hlinit_needs_memory_map [OF this _ t(3)] show ?thesis by (auto simp: boot_vars_init_def)
qed

end
