(* ===== verification/Hlinit.thy ===== *)
theory Hlinit
  imports Startup
begin

text \<open>
  \<open>hlinit\<close> from its first instruction, in the state boot0.s leaves, to the echo loop: the kernel's frames, the text
  buffer mapped by its own page table, the boot information, the interrupt controllers, and then the devices.
\<close>

section \<open>Up to the boot information\<close>

text \<open>The frames of the kernel's image.\<close>

definition kernel_frames :: "'s kernel_image \<Rightarrow> nat set" where
  "kernel_frames img = {f. 4096 * (unat (kernel_start img) div 4096) \<le> 4096 * f + unat (virtual_offset img)
     \<and> 4096 * f + unat (virtual_offset img) < unat (kernel_end img)}"

lemma boot_ptes_tables:
  assumes "ptes s = boot_ptes pd pt"
  shows "table_present s 1023" "\<not> table_present s 960" "\<not> table_present s 832"
proof -
  have "(y OR 3 :: u32) AND 1 \<noteq> 0" for y by (simp add: and_one_eq mod_2_eq_odd even_or_iff)
  then show "table_present s 1023" "\<not> table_present s 960" "\<not> table_present s 832"
    using assms by (simp_all add: table_present_def boot_ptes_def)
qed

text \<open>\<open>tty_init\<close> takes the first free frame for a page table of the device area.\<close>

lemma tty_init_boot:
  fixes s :: "'a paging_scheme"
  assumes p: "ptes s = boot_ptes pd pt" and b: "lower_bound s = PROT_PHYS_START" "upper_bound s = PROT_PHYS_END"
    and F: "find (\<lambda>f. \<not> frame_used s f) [256 ..< 3840] = Some F"
  obtains bm pp where "tty_init s = Some (s\<lparr>phys_page_bitmap := bm, ptes := pp, vga_buffer := 0xf0000000\<rparr>)"
    "\<And>f. frame_used (s\<lparr>phys_page_bitmap := bm\<rparr>) f \<longleftrightarrow> f = F \<or> frame_used s f"
    "\<And>x. x < 4194304 \<Longrightarrow> virt_mapped (of_nat x) (s\<lparr>ptes := pp\<rparr>)"
    "table_present (s\<lparr>ptes := pp\<rparr>) 1023" "\<not> table_present (s\<lparr>ptes := pp\<rparr>) 832"
proof -
  have ok: "bounds_ok s" by (simp add: bounds_ok_def b)
  have r: "frame_range s = [256 ..< 3840]" by (simp add: frame_range_def b)
  have F': "F < 3840" using find_SomeD [OF F] by (simp only: set_upt atLeastLessThan_iff)
  let ?s1 = "set_phys_used (of_nat (4096 * F)) True s"
  have a: "alloc_phys s = Some (of_nat (4096 * F), ?s1)" by (simp only: alloc_phys_spec [OF ok] alloc_spec_def r F option.case)
  define bm where "bm = phys_page_bitmap ?s1"
  have s1: "?s1 = s\<lparr>phys_page_bitmap := bm\<rparr>" by (simp add: bm_def set_phys_used_def Let_def)
  note t = boot_ptes_tables [OF p]
  define pp where "pp = (\<lambda>j. if unat j = 983040 then 0xb8000 OR DEFAULT_PAGE_FLAGS
      else if unat j div 1024 = 960 then 0
      else if unat j = 1047552 + 960 then of_nat (4096 * F) OR PAGE_DIRECTORY_FLAGS
      else ptes s j)"
  have "mem_map (of_nat (4096 * 983040)) 1 0xb8000 DEFAULT_PAGE_FLAGS s = Some (of_nat (4096 * 983040), ?s1\<lparr>ptes := (\<lambda>j.
      if unat j = 983040 then 0xb8000 OR DEFAULT_PAGE_FLAGS
      else if unat j div 1024 = 983040 div 1024 then 0
      else if unat j = 1047552 + 983040 div 1024 then of_nat (4096 * F) OR PAGE_DIRECTORY_FLAGS
      else ptes s j)\<rparr>)"
    by (rule mem_map_table_first [OF _ _ _ ok t(1) _ a]) (use t(2) in simp_all)
  moreover have "983040 div 1024 = (960 :: nat)" "of_nat (4096 * 983040) = (0xf0000000 :: addr)" by simp_all
  ultimately have "mem_map 0xf0000000 1 0xb8000 DEFAULT_PAGE_FLAGS s = Some (0xf0000000, ?s1\<lparr>ptes := pp\<rparr>)"
    by (simp only: pp_def)
  then have "tty_init s = Some (s\<lparr>phys_page_bitmap := bm, ptes := pp, vga_buffer := 0xf0000000\<rparr>)"
    unfolding s1 by (simp add: tty_init_def)
  moreover have "frame_used (s\<lparr>phys_page_bitmap := bm\<rparr>) f \<longleftrightarrow> f = F \<or> frame_used s f" for f
  proof -
    have "unat (of_nat (4096 * F) :: u32) = 4096 * F" by (rule unat_of_nat32) (use F' in simp)
    then show ?thesis unfolding s1 [symmetric] set_phys_used_frame by simp
  qed
  moreover have "virt_mapped (of_nat x) (s\<lparr>ptes := pp\<rparr>)" if x: "x < 4194304" for x
  proof -
    have u: "unat (of_nat x :: addr) = x" by (rule unat_of_nat32) (use x in simp)
    have d: "x div 4096 div 1024 = 0" "x div 4096 < 1024" using x by auto
    have "unat (of_nat (x div 4096) :: u32) = x div 4096" by (rule unat_of_nat32) (use d in simp)
    then have "pp (of_nat (x div 4096)) = ptes s (of_nat (x div 4096))" "pp 0xffc00 = ptes s 0xffc00" using d by (simp_all add: pp_def)
    then show ?thesis using boot_ptes_mapped [OF x p] u d(1) by (simp add: virt_mapped_def table_present_def page_present_def)
  qed
  moreover have "table_present (s\<lparr>ptes := pp\<rparr>) 1023" "\<not> table_present (s\<lparr>ptes := pp\<rparr>) 832"
    using t by (simp_all add: table_present_def pp_def)
  ultimately show ?thesis by (rule that)
qed

text \<open>What \<open>hlinit\<close> knows of the machine after the boot information, in the terms of its tags.\<close>

lemma read_boot_info_spec:
  fixes s :: "'a paging_scheme"
  assumes off: "unat (virtual_offset img) mod 4096 = 0" "virtual_offset img \<le> kernel_start img" "unat (kernel_end img) \<le> 0xfffff000"
    and p: "ptes s = boot_ptes pd pt" and b: "lower_bound s = PROT_PHYS_START" "upper_bound s = PROT_PHYS_END"
    and U: "U = {f. frame_used s f} \<union> kernel_frames img" and F: "find (\<lambda>f. f \<notin> U) [256 ..< 3840] = Some F"
    and tags: "tags_at (ram s) (unat mbi + 8) ts" "unat mbi + 8 + tags_span ts + 8 \<le> 4194304"
  obtains v bm pp lo up where
    "read_boot_info img mbi s
      = Some (v, s\<lparr>phys_page_bitmap := bm, ptes := pp, vga_buffer := 0xf0000000, lower_bound := lo, upper_bound := up\<rparr>)"
    "fold tag_effect ts \<lparr>frames = insert F U, search = (PROT_PHYS_START, PROT_PHYS_END), vars = boot_vars_init\<rparr>
      = \<lparr>frames = {f. frame_used (s\<lparr>phys_page_bitmap := bm\<rparr>) f}, search = (lo, up), vars = v\<rparr>"
    "table_present (s\<lparr>ptes := pp\<rparr>) 1023" "\<not> table_present (s\<lparr>ptes := pp\<rparr>) 832"
proof -
  have le: "unat (virtual_offset img) \<le> unat (kernel_start img)" using off(2) by (simp add: word_le_nat_alt)
  obtain b0 where m: "mem_init (kernel_start img) (kernel_end img) (virtual_offset img) s = Some (s\<lparr>phys_page_bitmap := b0\<rparr>)"
    "\<And>f. frame_used (s\<lparr>phys_page_bitmap := b0\<rparr>) f \<longleftrightarrow> f \<in> U"
    using mem_init_marks [OF off(1) le off(3), of s 0 0] by (auto simp: U kernel_frames_def)
  let ?s0 = "s\<lparr>phys_page_bitmap := b0\<rparr>"
  have F0: "find (\<lambda>f. \<not> frame_used ?s0 f) [256 ..< 3840] = Some F" using F by (simp only: m(2))
  have p0: "ptes ?s0 = boot_ptes pd pt" "lower_bound ?s0 = PROT_PHYS_START" "upper_bound ?s0 = PROT_PHYS_END" using p b by simp_all
  obtain b1 pp where t: "tty_init ?s0 = Some (s\<lparr>phys_page_bitmap := b1, ptes := pp, vga_buffer := 0xf0000000\<rparr>)"
    "\<And>f. frame_used (s\<lparr>phys_page_bitmap := b1\<rparr>) f \<longleftrightarrow> f = F \<or> frame_used ?s0 f"
    "\<And>x. x < 4194304 \<Longrightarrow> virt_mapped (of_nat x) (s\<lparr>phys_page_bitmap := b0, ptes := pp\<rparr>)"
    "table_present (s\<lparr>phys_page_bitmap := b0, ptes := pp\<rparr>) 1023" "\<not> table_present (s\<lparr>phys_page_bitmap := b0, ptes := pp\<rparr>) 832"
    by (rule tty_init_boot [OF p0 F0]) simp
  let ?t = "s\<lparr>phys_page_bitmap := b1, ptes := pp, vga_buffer := 0xf0000000\<rparr>"
  have "virt_mapped (of_nat x) ?t" if "x < 4194304" for x
    using t(3) [OF that] by (simp add: virt_mapped_def table_present_def page_present_def)
  then have mr: "mapped_range (unat mbi + 8) (unat mbi + 8 + tags_span ts + 8) ?t" using tags(2) by (simp add: mapped_range_def)
  have ta: "tags_at (ram ?t) (unat mbi + 8) ts" "unat mbi + 8 + tags_span ts + 8 \<le> 4294967296" using tags by simp_all
  from scan_tags_spec [OF ta mr, of boot_vars_init] obtain v bm up lo where
    sc: "scan_tags (of_nat (unat mbi + 8)) boot_vars_init ?t = Some (v, ?t\<lparr>phys_page_bitmap := bm, upper_bound := up, lower_bound := lo\<rparr>)"
      "view_of v (?t\<lparr>phys_page_bitmap := bm, upper_bound := up, lower_bound := lo\<rparr>) = fold tag_effect ts (view_of boot_vars_init ?t)"
    by (elim exE conjE) (rule that)
  have "frame_used ?t f = frame_used (s\<lparr>phys_page_bitmap := b1\<rparr>) f" for f by (simp add: frame_used_def)
  then have "{f. frame_used ?t f} = insert F U" by (simp only: t(2) m(2) insert_def Un_def mem_Collect_eq singleton_iff)
  then have "view_of boot_vars_init ?t = \<lparr>frames = insert F U, search = (PROT_PHYS_START, PROT_PHYS_END), vars = boot_vars_init\<rparr>"
    by (simp add: view_of_def b)
  with sc(2) have "view_of v (?t\<lparr>phys_page_bitmap := bm, upper_bound := up, lower_bound := lo\<rparr>)
      = fold tag_effect ts \<lparr>frames = insert F U, search = (PROT_PHYS_START, PROT_PHYS_END), vars = boot_vars_init\<rparr>" by (simp only:)
  moreover have "view_of v (?t\<lparr>phys_page_bitmap := bm, upper_bound := up, lower_bound := lo\<rparr>)
      = \<lparr>frames = {f. frame_used (s\<lparr>phys_page_bitmap := bm\<rparr>) f}, search = (lo, up), vars = v\<rparr>"
    by (simp add: view_of_def frame_used_def)
  ultimately have eff: "fold tag_effect ts \<lparr>frames = insert F U, search = (PROT_PHYS_START, PROT_PHYS_END), vars = boot_vars_init\<rparr>
      = \<lparr>frames = {f. frame_used (s\<lparr>phys_page_bitmap := bm\<rparr>) f}, search = (lo, up), vars = v\<rparr>" by (simp only:)
  have rd: "read_boot_info img mbi s
      = Some (v, s\<lparr>phys_page_bitmap := bm, ptes := pp, vga_buffer := 0xf0000000, lower_bound := lo, upper_bound := up\<rparr>)"
    using m(1) t(1) sc(1) by (simp add: read_boot_info_def)
  show ?thesis using t(4,5) by (intro that [OF rd eff]) (simp_all add: table_present_def)
qed


section \<open>Frames for the heap\<close>

lemma two_frames:
  fixes s :: "'a paging_scheme"
  assumes ok: "bounds_ok s" and f: "f \<in> set (frame_range s)" "g \<in> set (frame_range s)" "f \<noteq> g" "\<not> frame_used s f" "\<not> frame_used s g"
  shows "alloc_many phys_frame 2 s \<noteq> None"
proof -
  obtain a where a: "find (\<lambda>f. \<not> frame_used s f) (frame_range s) = Some a"
    using f(1,4) by (cases "find (\<lambda>f. \<not> frame_used s f) (frame_range s)") (auto simp: find_None_iff)
  let ?t = "set_phys_used (of_nat (4096 * a)) True s"
  have 1: "phys_frame s = Some (a, ?t)" by (simp add: phys_frame_spec [OF ok] a)
  have t: "bounds_ok ?t" "frame_range ?t = frame_range s" using ok by (simp_all add: bounds_ok_def set_phys_used_def frame_range_def Let_def)
  have u: "frame_used ?t h \<longleftrightarrow> h = a \<or> frame_used s h" for h using frames.alloc_used [OF ok 1] by blast
  have "find (\<lambda>f. \<not> frame_used ?t f) (frame_range ?t) \<noteq> None"
    using f unfolding find_None_iff t(2) u by (cases "f = a") auto
  then have "phys_frame ?t \<noteq> None" unfolding phys_frame_spec [OF t(1)] by (simp only: option.case_eq_if) simp
  then obtain b v where "phys_frame ?t = Some (b, v)" by force
  then show ?thesis using 1 by (simp add: numeral_2_eq_2)
qed

section \<open>The interrupt controllers and the exceptions\<close>

text \<open>What setting up the interrupts leaves alone.\<close>

lemma setup_interrupts_kept:
  fixes s :: "'a heap_scheme"
  shows "boot_kept s (setup_interrupts isrs s)" "char_drivers (setup_interrupts isrs s) = char_drivers s"
    "block_drivers (setup_interrupts isrs s) = block_drivers s" "ram (setup_interrupts isrs s) = ram s"
    "device (setup_interrupts isrs s) = device s"
    "prints s [] (setup_interrupts isrs s)" "data_reads (io (setup_interrupts isrs s)) = data_reads (io s)"
proof -
  have f: "\<exists>i. fold (\<lambda>i. set_isr_type (of_nat i) (e i) TRAP) xs u = u\<lparr>IDT := i\<rparr>" for e xs and u :: "'a heap_scheme"
  proof (induction xs arbitrary: u)
    case (Cons x xs)
    obtain i where "set_isr_type (of_nat x) (e x) TRAP u = u\<lparr>IDT := i\<rparr>" by (auto simp: set_isr_type_def set_isr_def)
    then show ?case using Cons.IH [of "u\<lparr>IDT := i\<rparr>"] by auto
  next
    case Nil
    have "u = u\<lparr>IDT := IDT u\<rparr>" by simp
    then show ?case unfolding fold_simps id_apply by blast
  qed
  obtain i where "fold (\<lambda>i. set_isr_type (of_nat i) (isrs i) TRAP) [0 ..< 32] (init_table (init_pic s)) = (init_table (init_pic s))\<lparr>IDT := i\<rparr>"
    using f by blast
  then have t: "setup_interrupts isrs s = load_enable_interrupts ((init_table (init_pic s))\<lparr>IDT := i\<rparr>)"
    by (simp add: setup_interrupts_def Let_def)
  note defs = load_enable_interrupts_def init_table_def init_pic_def io_wait_def outb_def Let_def
  show p: "prints s [] (setup_interrupts isrs s)" by (rule prints_same) (simp_all add: t defs)
  show "data_reads (io (setup_interrupts isrs s)) = data_reads (io s)" by (simp add: t defs data_reads_def)
  show "boot_kept s (setup_interrupts isrs s)" using p by (auto simp: boot_kept_def t defs)
  show "char_drivers (setup_interrupts isrs s) = char_drivers s" "block_drivers (setup_interrupts isrs s) = block_drivers s"
    "ram (setup_interrupts isrs s) = ram s" "device (setup_interrupts isrs s) = device s"
    by (simp_all add: t defs)
qed

section \<open>The initialisers end\<close>

text \<open>With the controller and the keyboard answering, whatever the order of the initialisers.\<close>

lemma call_dialogue:
  fixes s :: "'a heap_scheme"
  assumes "c \<noteq> Ps2_Setup h" "\<And>h'. c = Ps2_Setup h' \<Longrightarrow> h' = h"
  obtains t where "call c s = Some t" "dialogue s 0 [] t"
proof -
  have d: "dialogue s 0 [] (s\<lparr>char_drivers := f\<rparr>)" "dialogue s 0 [] (s\<lparr>block_drivers := g\<rparr>)" for f g
    by (auto simp: dialogue_def data_reads_def)
  have "dialogue s 0 [] (register_char_driver m x s)" "dialogue s 0 [] (register_block_driver m x s)" for m x
    by (simp_all add: register_char_driver_def register_block_driver_def d dialogue_printk)
  then show ?thesis using assms that
    by (cases c) (auto simp: register_ramdisk_driver_def register_memdev_driver_def register_tty_driver_def)
qed

lemma run_initcalls_end:
  fixes s :: "'a heap_scheme"
  assumes "cooperative answers (device s)"
    and "map (answer s answers) [0 ..< 10] = setup_answers c0 a5 v c1" "a5 \<noteq> PS2_KB_RESEND" "1 \<le> v" "v \<le> 3"
    and "distinct cs" "\<And>h'. Ps2_Setup h' \<in> set cs \<Longrightarrow> h' = h"
  shows "\<exists>t. run_initcalls cs s = Some t"
  using assms
proof (induction cs arbitrary: s)
  case (Cons c cs)
  note coop = Cons.prems(1) and ans = Cons.prems(2) and rest = Cons.prems(3-5)
  show ?case
  proof (cases "c = Ps2_Setup h")
    case True
    have "\<exists>t. run_initcalls ds u = Some t" if "\<And>h'. Ps2_Setup h' \<notin> set ds" for ds and u :: "'a heap_scheme"
      using that
    proof (induction ds arbitrary: u)
      case (Cons d ds)
      obtain w where "call d u = Some w"
        by (rule call_dialogue [of d h u]) (use Cons.prems in auto)
      moreover have "\<exists>t. run_initcalls ds w = Some t" by (rule Cons.IH) (use Cons.prems in auto)
      ultimately show ?case by auto
    qed simp
    moreover have "Ps2_Setup h' \<notin> set cs" for h'
    proof
      assume m: "Ps2_Setup h' \<in> set cs"
      then have "h' = h" using Cons.prems(7) [of h'] by simp
      then show False using m True Cons.prems(6) by simp
    qed
    moreover obtain u where "controller_setup s = Some (True, u)" using controller_setup_succeeds [OF coop ans rest] by blast
    ultimately show ?thesis using True by (simp add: ps2_kb_driversetup_def)
  next
    case False
    then obtain t where t: "call c s = Some t" "dialogue s 0 [] t"
      by (rule call_dialogue [of c h s]) (use Cons.prems(7) in auto)
    have "answer t answers = answer s answers" using dialogue_next [OF t(2)] by (intro ext) (simp add: answer_def)
    then have "\<exists>u. run_initcalls cs t = Some u"
      using Cons.IH [of t] coop ans rest Cons.prems(6,7) dialogue_device [OF t(2)] by auto
    then show ?thesis using t(1) by simp
  qed
qed simp

section \<open>The whole start\<close>

text \<open>The machine as boot0.s leaves it: the first 4 MiB mapped twice, the allocator unused, nothing registered.\<close>

definition booted :: "'a heap_scheme kernel_image \<Rightarrow> 'a heap_scheme \<Rightarrow> bool" where
  "booted img s \<longleftrightarrow> (\<exists>pd pt. ptes s = boot_ptes pd pt) \<and> lower_bound s = PROT_PHYS_START \<and> upper_bound s = PROT_PHYS_END
     \<and> first_hdr s = NULL \<and> char_drivers s = (\<lambda>_. NULL) \<and> block_drivers s = (\<lambda>_. NULL)
     \<and> rd_bufs (ramdisks s ! 0) = NULL \<and> unat (tty_pos s) < 2000 \<and> queue_idx s = 0 \<and> unat (input_queue s) + 256 \<le> heap_start"

text \<open>What the linker guarantees of the image.\<close>

definition linked :: "'a heap_scheme kernel_image \<Rightarrow> (addr \<Rightarrow> 'a heap_scheme char_driver) \<Rightarrow> mem \<Rightarrow> bool" where
  "linked img cdrv m \<longleftrightarrow> unat (virtual_offset img) mod 4096 = 0 \<and> virtual_offset img \<le> kernel_start img
     \<and> unat (kernel_end img) \<le> 0xfffff000 \<and> image_ok img m \<and> unat (echo_buf img) + 256 \<le> heap_start
     \<and> (\<exists>h r m y dot dotdot bdrv. set (initcalls img) = {Ps2_Setup h, Ramdisk_Driver r, Memdev_Driver m, Tty_Driver y}
        \<and> NULL \<notin> {r, m, y} \<and> cdrv y = tty_driver \<and> bdrv r = ramdisk_driver
        \<and> fs_drivers img (tmpfs_addr img) = tmpfs_driver (tmpfs_addr img) dot dotdot cdrv bdrv)
     \<and> distinct (initcalls img)"

text \<open>A controller whose keyboard passes its tests.\<close>

definition keyboard_answers :: "'a heap_scheme \<Rightarrow> bool" where
  "keyboard_answers s \<longleftrightarrow> (\<exists>answers c0 a5 v c1. cooperative answers (device s)
     \<and> map (answer s answers) [0 ..< 10] = setup_answers c0 a5 v c1 \<and> a5 \<noteq> PS2_KB_RESEND \<and> 1 \<le> v \<and> v \<le> 3)"

text \<open>The frames that are in use and where the allocator searches after the boot information.\<close>

definition after_tags :: "'a heap_scheme kernel_image \<Rightarrow> boot_tag list \<Rightarrow> 'a heap_scheme \<Rightarrow> boot_view option" where
  "after_tags img ts s =
     (let U = {f. frame_used s f} \<union> kernel_frames img
      in map_option (\<lambda>F. fold tag_effect ts \<lparr>frames = insert F U, search = (PROT_PHYS_START, PROT_PHYS_END), vars = boot_vars_init\<rparr>)
           (find (\<lambda>f. f \<notin> U) [256 ..< 3840]))"

definition two_free :: "boot_view \<Rightarrow> bool" where
  "two_free w \<longleftrightarrow> (case search w of (lo, up) \<Rightarrow> unat lo mod 4096 = 0 \<and> unat up \<le> 0xfffff000
     \<and> (\<exists>f g. f \<noteq> g \<and> {f, g} \<subseteq> {unat lo div 4096 ..< (unat up + 4095) div 4096} - frames w))"

lemma hlinit_spec:
  fixes s :: "'a heap_scheme"
  assumes s: "booted img s" "linked img cdrv (ram s)" "kb_ok (echo_buf img) s" "keyboard_answers s"
    and tags: "tags_at (ram s) (unat mbi + 8) ts" "unat mbi + 8 + tags_span ts + 8 \<le> 4194304"
    and w: "after_tags img ts s = Some w" "two_free w" "got_meminfo (vars w)" "got_mmap (vars w)" "\<not> got_rd (vars w)"
  shows "\<exists>con t out. hlinit img mbi s = Some (Echoing (of_nat con) t) \<and> echo_ok img cdrv con t \<and> kb_queue t = []
    \<and> screen_of t = fold screen_put (out @ lit ''Hello, world!'' @ [10] @ chr_text @ disk0_text img s @ [10])
        (screen_of (s\<lparr>vga_buffer := 0xf0000000\<rparr>))
    \<and> (\<exists>as bs. io t = as @ map (Out 0x3f8) com_text @ bs \<and> list_all cursor_event bs)"
proof -
  define U where U: "U = {f. frame_used s f} \<union> kernel_frames img"
  obtain F where F: "find (\<lambda>f. f \<notin> U) [256 ..< 3840] = Some F"
    and eff: "w = fold tag_effect ts \<lparr>frames = insert F U, search = (PROT_PHYS_START, PROT_PHYS_END), vars = boot_vars_init\<rparr>"
    using w(1) unfolding after_tags_def Let_def U [symmetric] map_option_eq_Some by blast
  obtain pd pt where p: "ptes s = boot_ptes pd pt" and b: "lower_bound s = PROT_PHYS_START" "upper_bound s = PROT_PHYS_END"
    and z: "first_hdr s = NULL" "char_drivers s = (\<lambda>_. NULL)" "block_drivers s = (\<lambda>_. NULL)" "rd_bufs (ramdisks s ! 0) = NULL"
      "unat (tty_pos s) < 2000" "queue_idx s = 0" "unat (input_queue s) + 256 \<le> heap_start"
    using s(1) unfolding booted_def by blast
  obtain h r m y dot dotdot bdrv where off: "unat (virtual_offset img) mod 4096 = 0" "virtual_offset img \<le> kernel_start img" "unat (kernel_end img) \<le> 0xfffff000"
    and im: "image_ok img (ram s)" "unat (echo_buf img) + 256 \<le> heap_start" "distinct (initcalls img)"
    and ini: "set (initcalls img) = {Ps2_Setup h, Ramdisk_Driver r, Memdev_Driver m, Tty_Driver y}" "NULL \<notin> {r, m, y}"
    and drv: "fs_drivers img (tmpfs_addr img) = tmpfs_driver (tmpfs_addr img) dot dotdot cdrv bdrv" "cdrv y = tty_driver" "bdrv r = ramdisk_driver"
    using s(2) unfolding linked_def by (elim exE conjE) (rule that)
  obtain answers c0 a5 v' c1 where an: "cooperative answers (device s)" "map (answer s answers) [0 ..< 10] = setup_answers c0 a5 v' c1"
    "a5 \<noteq> PS2_KB_RESEND" "1 \<le> v'" "v' \<le> 3" using s(4) unfolding keyboard_answers_def by (elim exE conjE) (rule that)
  obtain v bm pp lo up where rd: "read_boot_info img mbi s
      = Some (v, s\<lparr>phys_page_bitmap := bm, ptes := pp, vga_buffer := 0xf0000000, lower_bound := lo, upper_bound := up\<rparr>)"
    and we: "fold tag_effect ts \<lparr>frames = insert F U, search = (PROT_PHYS_START, PROT_PHYS_END), vars = boot_vars_init\<rparr>
      = \<lparr>frames = {f. frame_used (s\<lparr>phys_page_bitmap := bm\<rparr>) f}, search = (lo, up), vars = v\<rparr>"
    and tb: "table_present (s\<lparr>ptes := pp\<rparr>) 1023" "\<not> table_present (s\<lparr>ptes := pp\<rparr>) 832"
    by (rule read_boot_info_spec [OF off p b U F tags]) (rule that)
  let ?s1 = "s\<lparr>phys_page_bitmap := bm, ptes := pp, vga_buffer := 0xf0000000, lower_bound := lo, upper_bound := up\<rparr>"
  let ?s2 = "setup_interrupts (exc_isrs img) ?s1"
  note k = setup_interrupts_kept [where isrs = "exc_isrs img" and s = ?s1]
  have f2: "first_hdr ?s2 = NULL" "ramdisks ?s2 = ramdisks s" "input_queue ?s2 = input_queue s" "queue_idx ?s2 = queue_idx s"
    using k(1) z(1) by (simp_all add: boot_kept_def)
  have "two_free \<lparr>frames = {f. frame_used (s\<lparr>phys_page_bitmap := bm\<rparr>) f}, search = (lo, up), vars = v\<rparr>"
    using w(2) by (simp only: eff we)
  then obtain f g where fr: "bounds_ok ?s1" "f \<noteq> g" "f \<in> set (frame_range ?s1)" "g \<in> set (frame_range ?s1)" "\<not> frame_used ?s1 f" "\<not> frame_used ?s1 g"
    by (auto simp: two_free_def bounds_ok_def frame_range_def frame_used_def)
  have "alloc_many phys_frame 2 ?s1 \<noteq> None" by (rule two_frames [OF fr(1,3,4,2,5,6)])
  then have "room ?s1 heap_start 1" using fr(1) tb by (simp add: room_def table_present_def)
  then have rm: "room ?s2 heap_start 1" by (rule boot_kept_room [OF k(1)])
  have "vga_high ?s1" using z(5) by (simp add: vga_high_def console_ok_def)
  then have vh: "vga_high ?s2" "screen_of ?s2 = screen_of ?s1" using prints_high(1,2) [OF k(6)] by simp_all
  have "heap_is ?s2 []" using f2(1) by (auto simp: heap_is_def heap_mapped_def)
  moreover have "disk0_ok img ?s2" using z(4) f2(2) by (simp add: disk0_ok_def)
  moreover have "image_ok img (ram ?s2)" "kb_ok (echo_buf img) ?s2" using im(1) s(3) f2(3,4) k(4) by (simp_all add: kb_ok_def)
  moreover obtain s3 where "run_initcalls (initcalls img) ?s2 = Some s3"
  proof -
    have "answer ?s2 answers = answer s answers" using k(7) by (intro ext) (simp add: answer_def)
    then have "\<exists>t. run_initcalls (initcalls img) ?s2 = Some t"
      using run_initcalls_end [of answers ?s2 c0 a5 v' c1 "initcalls img" h] an im(3) ini(1) k(5) by auto
    then show ?thesis using that by blast
  qed
  ultimately have "\<exists>con t. start_devices img ?s2 = Some (Echoing (of_nat con) t) \<and> echo_ok img cdrv con t
    \<and> queue_idx t = queue_idx ?s2 \<and> modifiers t = modifiers ?s2
    \<and> (\<exists>out. screen_of t = fold screen_put (out @ lit ''Hello, world!'' @ [10] @ chr_text @ disk0_text img ?s2 @ [10]) (screen_of ?s2))
    \<and> (\<exists>as bs. io t = as @ map (Out 0x3f8) com_text @ bs \<and> list_all cursor_event bs)"
    using start_devices_spec [where s = ?s2, OF _ ini _ _ drv] k(2,3) z(2,3,7) f2(3) rm vh(1) im(2) by simp
  then obtain con t out where t: "start_devices img ?s2 = Some (Echoing (of_nat con) t)" "echo_ok img cdrv con t" "queue_idx t = queue_idx ?s2"
    "screen_of t = fold screen_put (out @ lit ''Hello, world!'' @ [10] @ chr_text @ disk0_text img ?s2 @ [10]) (screen_of ?s2)"
    "\<exists>as bs. io t = as @ map (Out 0x3f8) com_text @ bs \<and> list_all cursor_event bs" by blast
  have "v = vars w" unfolding eff we by simp
  then have "hlinit img mbi s = Some (Echoing (of_nat con) t)" using rd w(3-5) t(1) by (simp add: hlinit_def)
  moreover have "kb_queue t = []" using t(3) f2(4) z(6) by (simp add: kb_queue_def read_bytes_def)
  moreover have "disk0_text img ?s2 = disk0_text img s" using f2(2) k(4) by (simp add: disk0_text_def)
  moreover have "screen_of ?s1 = screen_of (s\<lparr>vga_buffer := 0xf0000000\<rparr>)" by (simp add: screen_of_def)
  ultimately show ?thesis using t(2,4,5) vh(2) by auto
qed

section \<open>A machine that boots\<close>

text \<open>
  The image of before, in a machine as boot0.s leaves it, with boot information at \<open>0x10000\<close>: the sizes of memory
  and a map with one reserved region.
\<close>

definition boot_tags :: "boot_tag list" where
  "boot_tags = [Meminfo 640 14336, Mmap 24 [(0xf0000, 0x10000, 2)]]"

definition tags_mem :: mem where
  "tags_mem = fold (\<lambda>(a, v) m. wr32 m a v)
     [(0x10008, 4), (0x1000c, 16), (0x10010, 640), (0x10014, 14336),
      (0x10018, 6), (0x1001c, 40), (0x10020, 24), (0x10028, 0xf0000), (0x10030, 0x10000), (0x10038, 2)] (\<lambda>_. 0)"

definition reset_mem :: mem where
  "reset_mem a = (if a < 0xc0000000 then tags_mem a else list_mem 0xc0108000 image_bytes a)"

definition reset_state :: heap where
  "reset_state = boot_state\<lparr>ram := reset_mem, ptes := boot_ptes 0x108000 0x109000\<rparr>"

lemma reset_state_simps [simp]:
  "ram reset_state = reset_mem" "ptes reset_state = boot_ptes 0x108000 0x109000" "io reset_state = []" "device reset_state = device boot_state"
  "char_drivers reset_state = char_drivers boot_state" "block_drivers reset_state = block_drivers boot_state" "tty_pos reset_state = 0"
  "ramdisks reset_state = ramdisks boot_state" "input_queue reset_state = 0x9000" "queue_idx reset_state = 0" "first_hdr reset_state = NULL"
  "lower_bound reset_state = PROT_PHYS_START" "upper_bound reset_state = PROT_PHYS_END" "phys_page_bitmap reset_state = (\<lambda>_. 0)"
  by (simp_all add: reset_state_def)

lemma reset_mem_tags: "tags_at reset_mem 0x10008 boot_tags"
proof -
  have r: "rd32 reset_mem a = rd32 tags_mem a" if "a < 0xbffffff0" for a
  proof -
    have "a + k < 0xc0000000" if "k < 4" for k :: addr
      using \<open>a < 0xbffffff0\<close> that by (simp add: word_less_nat_alt unat_word_ariths)
    from this [of 0] this [of 1] this [of 2] this [of 3] show ?thesis by (simp add: rd32_def reset_mem_def)
  qed
  have "rd32 (\<lambda>_. 0) a = 0" for a by (simp add: rd32_def)
  then show ?thesis by (simp add: boot_tags_def tag_span_def rd64_def r) (simp add: tags_mem_def)
qed

lemma length_lit: "length (lit xs) = length xs"
  by (simp add: lit_def)

lemma reset_image: "image_ok boot_image reset_mem"
proof -
  let ?b = "list_mem 0xc0108000 image_bytes"
  have ag: "agree 0xc0000000 heap_start ?b reset_mem"
    by (auto simp: agree_def reset_mem_def word_less_nat_alt unat_of_nat32)
  have c: "cstr reset_mem (of_nat a) nm" if "cstr ?b (of_nat a) nm" "0xc0000000 \<le> a" "a + Suc (length nm) \<le> heap_start" for a nm
    by (rule cstr_agree [OF agree_mono [OF ag] that(1)]) (use that in auto)
  have d: "read_bytes reset_mem (of_nat a) n = read_bytes ?b (of_nat a) n" if "0xc0000000 \<le> a" "a + n \<le> heap_start" for a n
    by (rule read_bytes_agree [OF agree_mono [OF ag]]) (use that in auto)
  show ?thesis
    using boot_image_ok c [of "0xc0108000" "lit ''tty1''"] c [of "0xc0108005" "lit ''console''"] c [of "0xc010800d" "lit ''ram0''"]
      d [of "0xc0108012" 19] d [of "0xc0108025" 27]
    by (simp add: image_ok_def boot_image_def length_lit)
qed

lemma reset_disk: "disk0_text boot_image reset_state = []"
proof -
  have "reset_mem 0xc010a000 = 0"
    by (simp add: reset_mem_def list_mem_def image_bytes_def com_text_def chr_text_def lit_def)
  moreover have "[0 ..< 4096] = 0 # [1 ..< 4096]" using upt_conv_Cons [of 0 4096] by simp
  ultimately show ?thesis by (simp only: disk0_text_def read_bytes_def) (simp add: boot_image_def del: upt_Suc)
qed

lemma reset_booted: "booted boot_image reset_state"
  by (auto simp: booted_def)

lemma reset_linked: "linked boot_image boot_cdrv (ram reset_state)"
proof -
  have "distinct (initcalls boot_image)" by (simp add: boot_image_def)
  then show ?thesis using reset_image boot_facts(1,2,5-7,15) unfolding linked_def
    by (intro conjI exI) (assumption | simp add: boot_image_def)+
qed

lemma reset_keyboard: "keyboard_answers reset_state"
proof -
  let ?bs = "setup_answers 0x47 0xfa 3 0x44"
  have "map (answer (ps2_start 0 ?bs) (sent ?bs)) [0 ..< 10] = ?bs"
    by (rule start_answers10) (simp add: setup_answers_def)
  moreover have "answer reset_state = answer (ps2_start 0 ?bs)" by (intro ext) (simp add: answer_def)
  ultimately have "map (answer reset_state (sent ?bs)) [0 ..< 10] = ?bs" by simp
  moreover have "cooperative (sent ?bs) (device reset_state)" using ps2_device_coop [of ?bs] by simp
  ultimately show ?thesis unfolding keyboard_answers_def by (intro exI conjI) (assumption | simp)+
qed

lemma find_upt:
  assumes "a \<le> k" "k < b" "P k" "\<And>j. a \<le> j \<Longrightarrow> j < k \<Longrightarrow> \<not> P j"
  shows "find P [a ..< b] = Some k"
  unfolding find_Some_iff by (rule exI [of _ "k - a"]) (use assms in simp)

lemma reset_frames:
  "kernel_frames boot_image = {256 ..< 272}" "after_tags boot_image boot_tags reset_state
    = Some (fold tag_effect boot_tags \<lparr>frames = {256 ..< 273}, search = (PROT_PHYS_START, PROT_PHYS_END), vars = boot_vars_init\<rparr>)"
proof -
  show k: "kernel_frames boot_image = {256 ..< 272}" by (auto simp: kernel_frames_def boot_image_def)
  have "find (\<lambda>f. f \<notin> {256 ..< 272}) [256 ..< 3840] = Some 272"
    by (rule find_upt) auto
  moreover have "{f. frame_used reset_state f} \<union> {256 ..< 272} = {256 ..< 272}" by (auto simp: frame_used_def)
  moreover have "insert 272 {256 ..< 272} = {256 ..< 273 :: nat}" by auto
  ultimately show "after_tags boot_image boot_tags reset_state
    = Some (fold tag_effect boot_tags \<lparr>frames = {256 ..< 273}, search = (PROT_PHYS_START, PROT_PHYS_END), vars = boot_vars_init\<rparr>)"
    by (simp only: after_tags_def Let_def k option.map)
qed

section \<open>Properties\<close>



end
