(* ===== verification/Isr_Stubs.thy ===== *)
theory Isr_Stubs
  imports Heap_Objects
begin

text \<open>
  kernel/arch/i686/interrupts.s: the assembly stubs in the gates of the interrupt table, as lists of the instructions
  they consist of, and what the processor does when it delivers an interrupt. The C functions they call are
  those of \<open>Interrupts\<close> and \<open>Ps2\<close>. The stack is in the flat memory. The registers of the processor are a value of
  \<open>registers\<close>, which is also the C structure.
\<close>

section \<open>Instructions\<close>

datatype c_function = Exception_Code | Exception_No_Code | Ps2_Key_Pressed

datatype instr = Pushal | Pushl u32 | Call c_function | Add_Esp u32 | Popal | Iret

text \<open>
  What the source leaves open: the return address a call pushes, what a C function leaves in the registers the ABI lets
  it change (\<open>eax\<close>, \<open>ecx\<close>, \<open>edx\<close>; it keeps the others), the upper half of a segment selector on the stack,
  and the flags after an instruction or inside an interrupt.
\<close>

record stub_env =
  ret_addr :: addr
  scratch :: "u32 \<times> u32 \<times> u32"
  cs_upper :: u16
  flags_after :: "u32 \<Rightarrow> u32"

text \<open>A function that does not return, ends in \<open>halt_loop\<close>.\<close>

datatype 's run = Running registers 's | Stopped 's

definition push :: "u32 \<Rightarrow> registers \<times> 'a machine_scheme \<Rightarrow> registers \<times> 'a machine_scheme" where
  "push v = (\<lambda>(r, s). (r\<lparr>esp := esp r - 4\<rparr>, s\<lparr>ram := wr32 (ram s) (esp r - 4) v\<rparr>))"

text \<open>The structures passed by value: the words on the stack from the address on.\<close>

definition registers_at :: "mem \<Rightarrow> addr \<Rightarrow> addr \<Rightarrow> registers" where
  "registers_at m p q = \<lparr>edi = rd32 m p, esi = rd32 m (p + 4), ebp = rd32 m (p + 8), esp = rd32 m (p + 12),
     ebx = rd32 m (p + 16), edx = rd32 m (p + 20), ecx = rd32 m (p + 24), eax = rd32 m (p + 28),
     eip = rd32 m q, cs_sel = rd16 m (q + 4), eflags = rd32 m (q + 8)\<rparr>"

definition no_code_registers :: "mem \<Rightarrow> addr \<Rightarrow> registers" where
  "no_code_registers m p = registers_at m p (p + 32)"

definition code_registers :: "mem \<Rightarrow> addr \<Rightarrow> error_registers" where
  "code_registers m p = registers.extend (registers_at m p (p + 36)) (error_registers.fields (rd32 m (p + 32)))"

definition call_c ::
    "c_function \<Rightarrow> registers \<Rightarrow> stub_env \<Rightarrow> 'a ps2_scheme \<Rightarrow> 'a ps2_scheme run option" where
  "call_c f r env s =
     (case f of
        Exception_Code \<Rightarrow> map_option Stopped (exception_code (rd32 (ram s) (esp r + 4)) (code_registers (ram s) (esp r + 8)) s)
      | Exception_No_Code \<Rightarrow>
          map_option Stopped (exception_no_code (rd32 (ram s) (esp r + 4)) (no_code_registers (ram s) (esp r + 8)) s)
      | Ps2_Key_Pressed \<Rightarrow>
          (case scratch env of (a, c, d) \<Rightarrow>
             Some (Running (r\<lparr>esp := esp r + 4, eax := a, ecx := c, edx := d, eflags := flags_after env (eflags r)\<rparr>)
               (ps2_key_pressed s))))"

text \<open>\<open>pushal\<close> saves the stack pointer as it was before; \<open>popal\<close> skips that value.\<close>

fun exec :: "stub_env \<Rightarrow> instr \<Rightarrow> registers \<Rightarrow> 'a ps2_scheme \<Rightarrow> 'a ps2_scheme run option" where
  "exec env Pushal r s =
     (case fold push [eax r, ecx r, edx r, ebx r, esp r, ebp r, esi r, edi r] (r, s) of (r, s) \<Rightarrow> Some (Running r s))"
| "exec env (Pushl v) r s = (case push v (r, s) of (r, s) \<Rightarrow> Some (Running r s))"
| "exec env (Call f) r s = (case push (ret_addr env) (r, s) of (r, s) \<Rightarrow> call_c f r env s)"
| "exec env (Add_Esp k) r s = Some (Running (r\<lparr>esp := esp r + k, eflags := flags_after env (eflags r)\<rparr>) s)"
| "exec env Popal r s =
     (let m = ram s; p = esp r
      in Some (Running (r\<lparr>edi := rd32 m p, esi := rd32 m (p + 4), ebp := rd32 m (p + 8), ebx := rd32 m (p + 16),
           edx := rd32 m (p + 20), ecx := rd32 m (p + 24), eax := rd32 m (p + 28), esp := p + 32\<rparr>) s))"
| "exec env Iret r s =
     (let m = ram s; p = esp r
      in Some (Running (r\<lparr>eip := rd32 m p, cs_sel := rd16 m (p + 4), eflags := rd32 m (p + 8), esp := p + 12\<rparr>) s))"

fun exec_stub :: "stub_env \<Rightarrow> instr list \<Rightarrow> registers \<Rightarrow> 'a ps2_scheme \<Rightarrow> 'a ps2_scheme run option" where
  "exec_stub env [] r s = Some (Running r s)"
| "exec_stub env (i # is) r s =
     (case exec env i r s of Some (Running r s) \<Rightarrow> exec_stub env is r s | other \<Rightarrow> other)"

section \<open>The stubs\<close>

definition isr_exception_code :: "u32 \<Rightarrow> instr list" where
  "isr_exception_code n = [Pushal, Pushl n, Call Exception_Code, Add_Esp 4, Popal, Add_Esp 4, Iret]"

definition isr_exception_no_code :: "u32 \<Rightarrow> instr list" where
  "isr_exception_no_code n = [Pushal, Pushl n, Call Exception_No_Code, Add_Esp 4, Popal, Iret]"

definition isr_stub :: "c_function \<Rightarrow> instr list" where
  "isr_stub handler = [Pushal, Call handler, Popal, Iret]"

definition exception_stubs :: "instr list list" where
  "exception_stubs =
    [isr_exception_no_code 0, isr_exception_no_code 1, isr_exception_no_code 2, isr_exception_no_code 3,
     isr_exception_no_code 4, isr_exception_no_code 5, isr_exception_no_code 6, isr_exception_no_code 7,
     isr_exception_code 8, isr_exception_no_code 9, isr_exception_code 10, isr_exception_code 11,
     isr_exception_code 12, isr_exception_code 13, isr_exception_code 14, isr_exception_no_code 15,
     isr_exception_no_code 16, isr_exception_code 17, isr_exception_no_code 18, isr_exception_no_code 19,
     isr_exception_no_code 20, isr_exception_code 21, isr_exception_no_code 22, isr_exception_no_code 23,
     isr_exception_no_code 24, isr_exception_no_code 25, isr_exception_no_code 26, isr_exception_no_code 27,
     isr_exception_no_code 28, isr_exception_code 29, isr_exception_code 30, isr_exception_no_code 31]"

definition int_ps2_key_pressed :: "instr list" where
  "int_ps2_key_pressed = isr_stub Ps2_Key_Pressed"

section \<open>Delivery\<close>

text \<open>
  The processor, at unchanged privilege: it pushes the flags, the code segment, the address of the next instruction and, for some
  exceptions, an error code.
\<close>

definition pushes_code :: "nat \<Rightarrow> bool" where
  "pushes_code v \<longleftrightarrow> v \<in> {8, 10, 11, 12, 13, 14, 17, 21, 29, 30}"

definition deliver :: "stub_env \<Rightarrow> u32 option \<Rightarrow> registers \<Rightarrow> 'a machine_scheme \<Rightarrow> registers \<times> 'a machine_scheme" where
  "deliver env code r s =
     (case fold push ([eflags r, (ucast (cs_upper env) * 0x10000) OR ucast (cs_sel r), eip r]
        @ (case code of None \<Rightarrow> [] | Some e \<Rightarrow> [e])) (r, s)
      of (r, s) \<Rightarrow> (r\<lparr>eflags := flags_after env (eflags r)\<rparr>, s))"

definition interrupt ::
    "stub_env \<Rightarrow> u32 option \<Rightarrow> instr list \<Rightarrow> registers \<Rightarrow> 'a ps2_scheme \<Rightarrow> 'a ps2_scheme run option" where
  "interrupt env code stub r s = (case deliver env code r s of (r, s) \<Rightarrow> exec_stub env stub r s)"

section \<open>What the handler writes\<close>

lemma kb_enqueue_outside:
  assumes "unat (queue_idx s) \<le> 256" "unat (input_queue s) + 256 < 4294967296" "\<not> in_region (input_queue s) 256 x"
  shows "ram (kb_enqueue ch s) x = ram s x"
proof -
  have ne: "x \<noteq> input_queue s + k" if "unat k < 256" for k
    using assms(3) in_region_offset [of "unat k" 256 "input_queue s"] that by auto
  show ?thesis
  proof (cases "queue_idx s \<ge> 256")
    case True
    then have "queue_idx s = 256" using assms(1) by (simp add: word_le_nat_alt word_unat_eq_iff)
    moreover have "memmove (ram s) (input_queue s) (input_queue s + 1) 255 x = ram s x"
    proof -
      have "unat (input_queue s + 1) = unat (input_queue s) + 1" by (rule unat_succ) (use assms(2) in simp)
      moreover have "\<not> in_region (input_queue s) 255 x" using assms(3) by (simp add: in_region_def)
      ultimately show ?thesis using assms(2) by (simp add: memmove_apply)
    qed
    ultimately show ?thesis using ne [of 255] by (simp add: kb_enqueue_def)
  next
    case False
    then have "unat (queue_idx s) < 256" by (simp add: word_le_nat_alt)
    then show ?thesis using False ne by (simp add: kb_enqueue_def)
  qed
qed

lemma kb_event_outside:
  assumes "unat (queue_idx s) \<le> 256" "unat (input_queue s) + 256 < 4294967296" "\<not> in_region (input_queue s) 256 x"
  shows "ram (report_key k s) x = ram s x"
  using kb_enqueue_outside [OF assms]
  by (simp add: report_key_def kb_key_pressed_def kb_key_released_def kb_set_mod_def Let_def)

lemma printk_outside:
  fixes s :: "'a ps2_scheme"
  assumes "console_ok s" "printable (lit f) args" "\<not> in_region (vga_buffer s) 4000 x"
  shows "ram (printk f args s) x = ram s x"
proof -
  obtain out where "renders (lit f) args out" using assms(2) by (auto simp: printable_def)
  from printk_prints [OF this, of s] assms show ?thesis by (simp add: prints_def)
qed

lemma unknown_printable: "printable (lit (msg ''warn: ps/2: unknown scancode: %02X'')) [Word c]"
  by (simp add: lit_def msg_def nl_def) (rule printable_step(3,4) | rule printable_step(1) | rule printable_step(2), simp)+

lemma unsupported_printable: "printable (lit (msg ''info: ps/2: scancode set not yet supported'')) []"
  by (rule printable_plain) (simp add: lit_def msg_def nl_def)

lemma scan_byte_outside:
  fixes s :: "'a ps2_scheme"
  assumes c: "console_ok s" "\<not> in_region (vga_buffer s) 4000 x"
    and q: "unat (queue_idx s) \<le> 256" "unat (input_queue s) + 256 < 4294967296" "\<not> in_region (input_queue s) 256 x"
  shows "ram (scan_byte b s) x = ram s x"
proof -
  have u: "ram (unknown_scancode b (s\<lparr>ignore_next := i\<rparr>)) x = ram s x" for b i
    unfolding unknown_scancode_def using printk_outside [of "s\<lparr>ignore_next := i\<rparr>", OF _ unknown_printable] c
    by (simp add: console_ok_def)
  have k: "ram (report_key k (s\<lparr>ignore_next := i\<rparr>)) x = ram s x" for k i
    using kb_event_outside [of "s\<lparr>ignore_next := i\<rparr>"] q by simp
  have same: "s\<lparr>ignore_next := ignore_next s\<rparr> = s" by simp
  note uk = u [of _ "ignore_next s", unfolded same] k [of _ "ignore_next s", unfolded same]
  show ?thesis
    using u k uk printk_outside [OF c(1) unsupported_printable c(2)]
    by (simp add: scan_byte_def scan2_def scan3_def Let_def split: prod.splits)
qed

lemma ps2_key_pressed_outside:
  fixes s :: "'a ps2_scheme"
  assumes "console_ok s" "\<not> in_region (vga_buffer s) 4000 x"
    and "unat (queue_idx s) \<le> 256" "unat (input_queue s) + 256 < 4294967296" "\<not> in_region (input_queue s) 256 x"
  shows "ram (ps2_key_pressed s) x = ram s x"
proof -
  obtain b t where i: "inb PS2_KB_DATA s = (b, t)" by (cases "inb PS2_KB_DATA s")
  then have t: "t = s\<lparr>io := io t\<rparr>" by (auto simp: inb_def Let_def)
  have "ram (scan_byte b t) x = ram s x"
    by (subst t, subst scan_byte_outside) (use assms in \<open>simp_all add: console_ok_def\<close>)
  then show ?thesis by (simp add: ps2_key_pressed_def i pic_eoi_def)
qed

section \<open>The frame on the stack\<close>

text \<open>The word below the stack pointer \<open>e\<close> by \<open>k\<close> words.\<close>

abbreviation (input) below :: "addr \<Rightarrow> nat \<Rightarrow> addr" where "below e k \<equiv> e - 4 * of_nat k"

definition stacked :: "addr \<Rightarrow> u32 list \<Rightarrow> mem \<Rightarrow> mem" where
  "stacked e vs m = fold (\<lambda>(k, v) m. wr32 m (below e (Suc k)) v) (enumerate 0 vs) m"

lemma stacked_snoc [simp]: "stacked e [] m = m" "stacked e (vs @ [v]) m = wr32 (stacked e vs m) (below e (Suc (length vs))) v"
  by (simp_all add: stacked_def enumerate_append_eq)

lemma push_words: "fold push vs (r, s) = (r\<lparr>esp := below (esp r) (length vs)\<rparr>, s\<lparr>ram := stacked (esp r) vs (ram s)\<rparr>)"
proof (induction vs rule: rev_induct)
  case (snoc v vs)
  then show ?case by (simp add: push_def algebra_simps)
qed simp

lemma stacked_append: "stacked (below e (length vs)) ws (stacked e vs m) = stacked e (vs @ ws) m"
proof (induction ws rule: rev_induct)
  case (snoc w ws)
  have "stacked e ((vs @ ws) @ [w]) m = wr32 (stacked e (vs @ ws) m) (below e (Suc (length (vs @ ws)))) w" by (rule stacked_snoc)
  then show ?case using snoc by (simp add: algebra_simps)
qed simp

text \<open>A word of the frame is read back.\<close>

lemma frame_read:
  assumes "k < length vs" "length vs \<le> 1000"
  shows "rd32 (stacked e vs m) (below e (Suc k)) = vs ! k"
  using assms
proof (induction vs rule: rev_induct)
  case (snoc v vs)
  show ?case
  proof (cases "k = length vs")
    case True
    then show ?thesis by simp
  next
    case False
    then have k: "k < length vs" using snoc.prems by simp
    define d where "d = below e (Suc k) - below e (Suc (length vs))"
    have "d = of_nat (4 * (length vs - k))" using k by (simp add: d_def of_nat_diff algebra_simps)
    moreover have "unat (of_nat (4 * (length vs - k)) :: addr) = 4 * (length vs - k)"
      by (rule unat_of_nat32) (use snoc.prems in simp)
    ultimately have d: "4 \<le> unat d" "unat d \<le> 4000" using k snoc.prems by simp_all
    have ab: "below e (Suc k) - below e (Suc (length vs)) = d" "below e (Suc (length vs)) - below e (Suc k) = 0 - d"
      by (simp_all add: d_def)
    have "unat (0 - d) = 4294967296 - unat d" using d by (subst unat_sub_if') auto
    then have "4 \<le> unat (below e (Suc k) - below e (Suc (length vs)))" "4 \<le> unat (below e (Suc (length vs)) - below e (Suc k))"
      unfolding ab using d by simp_all
    from other_field(1) [OF this] k snoc show ?thesis by (simp add: nth_append)
  qed
qed simp

text \<open>Nothing but the frame is written.\<close>

lemma frame_outside:
  assumes "\<not> in_region (below e (length vs)) (4 * length vs) x" "length vs \<le> 1000"
  shows "stacked e vs m x = m x"
  using assms
proof (induction vs rule: rev_induct)
  case (snoc v vs)
  let ?a = "below e (Suc (length vs))"
  have y: "4 * length vs + 4 \<le> unat (x - ?a)" using snoc.prems(1) by (simp add: in_region_def)
  define z where "z = x - ?a"
  have "x - below e (length vs) = z - 4" by (simp add: z_def algebra_simps)
  moreover have yz: "4 * length vs + 4 \<le> unat z" using y unfolding z_def .
  then have "(4 :: addr) \<le> z" by (simp add: word_le_nat_alt)
  then have "unat (z - 4) = unat z - 4" by (simp add: unat_sub)
  ultimately have "4 * length vs \<le> unat (x - below e (length vs))" using yz by simp
  then have "\<not> in_region (below e (length vs)) (4 * length vs) x" by (simp add: in_region_def)
  moreover have "x \<noteq> ?a" "x \<noteq> ?a + 1" "x \<noteq> ?a + 2" "x \<noteq> ?a + 3" using y by auto
  ultimately show ?case using snoc by (simp add: wr32_def)
qed simp


lemma rd16_rd32: "rd16 m a = ucast (rd32 m a)"
proof (rule bit_word_eqI)
  fix n assume "n < LENGTH(16)"
  then consider "n < 8" | "8 \<le> n" "n < 16" by fastforce
  then show "bit (rd16 m a) n = bit (ucast (rd32 m a) :: u16) n"
    by cases (auto simp: rd16_def rd32_def bit_or_iff bit_push_bit_iff bit_ucast_iff)
qed

text \<open>The words the processor and \<open>pushal\<close> leave on the stack.\<close>

definition frame_words_of :: "stub_env \<Rightarrow> u32 option \<Rightarrow> registers \<Rightarrow> u32 list" where
  "frame_words_of env code r =
     [eflags r, (ucast (cs_upper env) * 0x10000) OR ucast (cs_sel r), eip r] @ (case code of None \<Rightarrow> [] | Some e \<Rightarrow> [e])
     @ [eax r, ecx r, edx r, ebx r, esp r - (case code of None \<Rightarrow> 12 | Some _ \<Rightarrow> 16), ebp r, esi r, edi r]"

lemma entry:
  "(case deliver env code r s of (r, s) \<Rightarrow> exec env Pushal r s)
    = Some (Running (r\<lparr>esp := below (esp r) (length (frame_words_of env code r)), eflags := flags_after env (eflags r)\<rparr>)
        (s\<lparr>ram := stacked (esp r) (frame_words_of env code r) (ram s)\<rparr>))"
proof -
  define vs where "vs = [eflags r, (ucast (cs_upper env) * 0x10000) OR ucast (cs_sel r), eip r] @ (case code of None \<Rightarrow> [] | Some e \<Rightarrow> [e])"
  define ws where "ws = [eax r, ecx r, edx r, ebx r, below (esp r) (length vs), ebp r, esi r, edi r]"
  let ?r = "r\<lparr>esp := below (esp r) (length vs), eflags := flags_after env (eflags r)\<rparr>"
    and ?s = "s\<lparr>ram := stacked (esp r) vs (ram s)\<rparr>"
  have d: "deliver env code r s = (?r, ?s)"
    unfolding deliver_def vs_def [symmetric] push_words by simp
  have f: "frame_words_of env code r = vs @ ws" by (cases code) (simp_all add: frame_words_of_def vs_def ws_def)
  have "[eax ?r, ecx ?r, edx ?r, ebx ?r, esp ?r, ebp ?r, esi ?r, edi ?r] = ws" by (simp add: ws_def)
  then have "exec env Pushal ?r ?s = Some (Running (?r\<lparr>esp := below (esp ?r) (length ws)\<rparr>) (?s\<lparr>ram := stacked (esp ?r) ws (ram ?s)\<rparr>))"
    unfolding exec.simps push_words by simp
  also have "stacked (esp ?r) ws (ram ?s) = stacked (esp r) (vs @ ws) (ram s)" by (simp add: stacked_append)
  also have "below (esp ?r) (length ws) = below (esp r) (length (vs @ ws))" by (simp add: algebra_simps)
  finally show ?thesis unfolding d f by simp
qed

section \<open>The keyboard interrupt\<close>

text \<open>Reading the frame in a memory that agrees on it.\<close>

lemma frame_word:
  assumes "\<And>x. in_region (below e (length vs)) (4 * length vs) x \<Longrightarrow> m' x = stacked e vs m x"
    and "k < length vs" "length vs \<le> 1000"
  shows "rd32 m' (below e (Suc k)) = vs ! k"
proof -
  have r: "in_region (below e (length vs)) (4 * length vs) (below e (Suc k) + of_nat j)" if "j < 4" for j
  proof -
    have eq: "below e (Suc k) + of_nat j - below e (length vs) = of_nat (4 * (length vs - Suc k) + j)"
      using assms(2) by (simp add: of_nat_diff algebra_simps)
    have "unat (of_nat (4 * (length vs - Suc k) + j) :: addr) = 4 * (length vs - Suc k) + j"
      by (rule unat_of_nat32) (use assms(2,3) that in simp)
    then show ?thesis unfolding in_region_def eq using assms(2) that by simp
  qed
  have "rd32 m' (below e (Suc k)) = rd32 (stacked e vs m) (below e (Suc k))"
    using assms(1) [OF r [of 0]] assms(1) [OF r [of 1]] assms(1) [OF r [of 2]] assms(1) [OF r [of 3]] by (simp add: rd32_def)
  then show ?thesis using frame_read [OF assms(2,3)] by simp
qed

lemma selector_word: "ucast ((ucast (u :: u16) * 0x10000) OR ucast c :: u32) = (c :: u16)"
proof -
  have "(ucast u * 0x10000 :: u32) = push_bit 16 (ucast u)" by (simp add: push_bit_eq_mult)
  then show ?thesis by (intro bit_word_eqI) (auto simp: bit_or_iff bit_push_bit_iff bit_ucast_iff)
qed

lemma disjoint_outside: "disjoint a n b k \<Longrightarrow> in_region a n x \<Longrightarrow> n \<le> 4294967296 \<Longrightarrow> \<not> in_region b k x"
  using disjoint_not_in_region [of b k a n "unat (x - a)"] by (simp add: disjoint_sym in_region_def)

lemma keyboard_stub:
  fixes s :: "'a ps2_scheme"
  assumes c: "console_ok s" and q: "unat (queue_idx s) \<le> 256" "unat (input_queue s) + 256 < 4294967296"
    and st: "disjoint (esp r - 48) 48 (vga_buffer s) 4000" "disjoint (esp r - 48) 48 (input_queue s) 256"
  shows "\<exists>m. interrupt env None int_ps2_key_pressed r s = Some (Running r (ps2_key_pressed (s\<lparr>ram := m\<rparr>)))
    \<and> (\<forall>x. \<not> in_region (esp r - 48) 48 x \<longrightarrow> m x = ram s x)"
proof -
  define e where "e = esp r"
  define vs where "vs = frame_words_of env None r @ [ret_addr env]"
  have len: "length (frame_words_of env None r) = 11" "length vs = 12" by (simp_all add: frame_words_of_def vs_def)
  define m where "m = stacked e vs (ram s)"
  have ms: "m = wr32 (stacked e (frame_words_of env None r) (ram s)) (below e 12) (ret_addr env)"
    using stacked_snoc(2) [of e "frame_words_of env None r" "ret_addr env" "ram s"] len(1) by (simp add: m_def vs_def)
  let ?t = "ps2_key_pressed (s\<lparr>ram := m\<rparr>)"
  have out: "m x = ram s x" if "\<not> in_region (e - 48) 48 x" for x
    using frame_outside [of e vs x "ram s"] that by (simp add: m_def len)
  have t: "ram ?t x = stacked e vs (ram s) x" if "in_region (below e (length vs)) (4 * length vs) x" for x
  proof -
    have x: "in_region (esp r - 48) 48 x" using that by (simp add: len e_def)
    have "ram ?t x = ram (s\<lparr>ram := m\<rparr>) x"
      by (rule ps2_key_pressed_outside)
         (use c q disjoint_outside [OF st(1) x] disjoint_outside [OF st(2) x] in \<open>simp_all add: console_ok_def\<close>)
    then show ?thesis by (simp add: m_def)
  qed
  have w: "rd32 (ram ?t) (below e (Suc k)) = vs ! k" if "k < 12" for k
    by (rule frame_word [OF t]) (use that in \<open>simp_all add: len\<close>)
  have ws: "rd32 (ram ?t) (e - 44) = edi r" "rd32 (ram ?t) (e - 40) = esi r" "rd32 (ram ?t) (e - 36) = ebp r"
    "rd32 (ram ?t) (e - 28) = ebx r" "rd32 (ram ?t) (e - 24) = edx r" "rd32 (ram ?t) (e - 20) = ecx r" "rd32 (ram ?t) (e - 16) = eax r"
    "rd32 (ram ?t) (e - 12) = eip r" "rd32 (ram ?t) (e - 8) = (ucast (cs_upper env) * 0x10000) OR ucast (cs_sel r)"
    "rd32 (ram ?t) (e - 4) = eflags r"
    using w [of 10] w [of 9] w [of 8] w [of 6] w [of 5] w [of 4] w [of 3] w [of 2] w [of 1] w [of 0]
    by (simp_all add: vs_def frame_words_of_def nth_append)
  obtain a c' d where sc: "scratch env = (a, c', d)" by (cases "scratch env")
  obtain r1 s1 where dl: "deliver env None r s = (r1, s1)" by (cases "deliver env None r s")
  have "exec env Pushal r1 s1 = Some (Running (r\<lparr>esp := e - 44, eflags := flags_after env (eflags r)\<rparr>)
        (s\<lparr>ram := stacked e (frame_words_of env None r) (ram s)\<rparr>))"
    using entry [of env None r s] len by (simp add: dl e_def del: exec.simps)
  then have "interrupt env None int_ps2_key_pressed r s = Some (Running r ?t)"
    unfolding interrupt_def dl int_ps2_key_pressed_def isr_stub_def prod.case
    by (simp add: push_def call_c_def sc ms [simplified, symmetric] ws rd16_rd32 selector_word Let_def e_def [symmetric] del: exec.simps(1))
  then show ?thesis using out by (auto simp: e_def)
qed

section \<open>Exceptions\<close>

lemma screen_stacked:
  fixes s :: "'a ps2_scheme"
  assumes "console_ok s" "disjoint (below e (length vs)) (4 * length vs) (vga_buffer s) 4000" "length vs \<le> 1000"
  shows "screen_of (s\<lparr>ram := stacked e vs (ram s)\<rparr>) = screen_of s"
proof -
  have "cell_at (stacked e vs (ram s)) (vga_buffer s) i = cell_at (ram s) (vga_buffer s) (i + 0)" if "i < 2000" for i
  proof (rule cell_at_cong)
    fix k assume "2 * i \<le> k" "k < 2 * i + 2"
    then have "\<not> in_region (below e (length vs)) (4 * length vs) (vga_buffer s + of_nat k)"
      by (intro disjoint_not_in_region [OF assms(2)]) (use that in simp_all)
    from frame_outside [OF this assms(3)] show "stacked e vs (ram s) (vga_buffer s + of_nat k) = ram s (vga_buffer s + of_nat (k + 2 * 0))" by simp
  qed
  then show ?thesis by (simp add: screen_of_def)
qed

text \<open>The words an exception handler finds above its return address: the number and the structure.\<close>

lemma registers_esp:
  "\<lparr>edi = edi r, esi = esi r, ebp = ebp r, esp = x, ebx = ebx r, edx = edx r, ecx = ecx r, eax = eax r,
     eip = eip r, cs_sel = cs_sel r, eflags = eflags r\<rparr> = r\<lparr>esp := x\<rparr>" for r :: registers
  by simp

lemma handler_arguments:
  assumes "vs = frame_words_of env code r @ [n, ret]" "m = stacked e vs m0" "p = below e (length vs)" "e = esp r"
  shows "rd32 m (p + 4) = n"
    "code = None \<Longrightarrow> no_code_registers m (p + 8) = r\<lparr>esp := esp r - 12\<rparr>"
    "code = Some c \<Longrightarrow> code_registers m (p + 8) = registers.extend (r\<lparr>esp := esp r - 16\<rparr>) (error_registers.fields c)"
proof -
  have len: "length vs = (if code = None then 13 else 14)" by (auto simp: assms(1) frame_words_of_def split: option.split)
  have w: "rd32 m (below e (Suc k)) = vs ! k" if "k < length vs" for k
    unfolding assms(2) by (rule frame_read) (use that len in \<open>simp_all split: if_splits\<close>)
  show "rd32 m (p + 4) = n"
    using w [of "length vs - 2"] len by (cases code) (simp_all add: assms(1,3) frame_words_of_def nth_append)
  show "no_code_registers m (p + 8) = r\<lparr>esp := esp r - 12\<rparr>" if "code = None"
    using w [of 10] w [of 9] w [of 8] w [of 7] w [of 6] w [of 5] w [of 4] w [of 3] w [of 2] w [of 1] w [of 0] len that
    by (simp add: assms(1,3) frame_words_of_def nth_append no_code_registers_def registers_at_def rd16_rd32 selector_word assms(4))
  show "code_registers m (p + 8) = registers.extend (r\<lparr>esp := esp r - 16\<rparr>) (error_registers.fields c)" if "code = Some c"
    using w [of 11] w [of 10] w [of 9] w [of 8] w [of 7] w [of 6] w [of 5] w [of 4] w [of 3] w [of 2] w [of 1] w [of 0] len that
    by (simp add: assms(1,3) frame_words_of_def nth_append code_registers_def registers_at_def rd16_rd32 selector_word assms(4) registers_esp)
qed

lemma registers_of_code: "dump_text (registers.extend r (error_registers.fields c)) = dump_text r"
    "error_code (registers.extend r (error_registers.fields c)) = c" for r :: registers
  by (simp_all add: dump_text_def registers.extend_def error_registers.fields_def)

lemma exception_stub:
  "n < 32 \<Longrightarrow> exception_stubs ! n = (if pushes_code n then isr_exception_code (of_nat n) else isr_exception_no_code (of_nat n))"
proof -
  have "\<forall>n \<in> set [0 ..< 32]. exception_stubs ! n
      = (if pushes_code n then isr_exception_code (of_nat n) else isr_exception_no_code (of_nat n))"
    by (simp add: exception_stubs_def pushes_code_def upt_rec)
  then show "n < 32 \<Longrightarrow> ?thesis" by simp
qed

lemma exception_interrupt:
  fixes s :: "'a ps2_scheme"
  assumes n: "n < 32" "pushes_code n \<longleftrightarrow> code \<noteq> None" and c: "console_ok s"
    and st: "disjoint (esp r - 56) 56 (vga_buffer s) 4000"
  shows "\<exists>t. interrupt env code (exception_stubs ! n) r s = Some (Stopped t) \<and> halted t
    \<and> screen_of t = fold screen_put (lit ''An exception occured: '' @ lit (exceptions ! n) @ lit nl
        @ (case code of None \<Rightarrow> [] | Some e \<Rightarrow> lit ''Error code: '' @ hex8 e @ lit nl)
        @ dump_text (r\<lparr>esp := esp r - (case code of None \<Rightarrow> 12 | Some _ \<Rightarrow> 16)\<rparr>)) (screen_of s)"
proof -
  define fr where "fr = frame_words_of env code r"
  define vs where "vs = fr @ [of_nat n, ret_addr env]"
  define m where "m = stacked (esp r) vs (ram s)"
  have len: "length fr = (case code of None \<Rightarrow> 11 | Some _ \<Rightarrow> 12)" "length vs = (case code of None \<Rightarrow> 13 | Some _ \<Rightarrow> 14)"
    by (simp_all add: fr_def vs_def frame_words_of_def split: option.split)
  define p where "p = below (esp r) (length vs)"
  note args = handler_arguments [where vs = vs and e = "esp r" and p = p and m = m, OF vs_def [unfolded fr_def] m_def p_def refl]
  let ?s = "s\<lparr>ram := m\<rparr>"
  have k: "unat (of_nat n :: u32) = n" by (rule unat_of_nat32) (use n in simp)
  have "disjoint (below (esp r) (length vs)) (4 * length vs) (vga_buffer s) 4000"
    using disjoint_sub [OF st, of 0 56] disjoint_sub [OF st, of 4 52] len(2) by (simp split: option.splits)
  from screen_stacked [OF c this] have sc: "screen_of ?s = screen_of s" using len(2) by (simp add: m_def split: option.splits)
  have c': "console_ok ?s" using c by (simp add: console_ok_def)
  obtain r1 s1 where dl: "deliver env code r s = (r1, s1)" by (cases "deliver env code r s")
  let ?r = "r\<lparr>esp := below (esp r) (length fr), eflags := flags_after env (eflags r)\<rparr>"
  let ?f = "s\<lparr>ram := stacked (esp r) fr (ram s)\<rparr>"
  have e1: "exec env Pushal r1 s1 = Some (Running ?r ?f)"
    using entry [of env code r s] by (simp add: dl fr_def del: exec.simps)
  have "push (ret_addr env) (push (of_nat n) (?r, ?f)) = (?r\<lparr>esp := p\<rparr>, ?s)"
    using push_words [of "[of_nat n, ret_addr env]" ?r ?f]
      stacked_append [of "esp r" fr "[of_nat n, ret_addr env]" "ram s"]
    by (simp add: m_def vs_def p_def)
  moreover obtain r2 s2 where e2: "push (of_nat n) (?r, ?f) = (r2, s2)" by (cases "push (of_nat n) (?r, ?f)")
  ultimately have e3: "push (ret_addr env) (r2, s2) = (?r\<lparr>esp := p\<rparr>, ?s)" by simp
  have run: "interrupt env code (Pushal # Pushl (of_nat n) # Call f # is) r s
      = (case call_c f (?r\<lparr>esp := p\<rparr>) env ?s of Some (Running r s) \<Rightarrow> exec_stub env is r s | other \<Rightarrow> other)" for f "is"
    unfolding interrupt_def dl prod.case exec_stub.simps e1 option.case run.case exec.simps(2) e2 exec.simps(3) e3 ..
  show ?thesis
  proof (cases code)
    case None
    have "unat (of_nat n :: u32) < 32" using n(1) k by simp
    from exceptions_dump_registers [OF this c', of "r\<lparr>esp := esp r - 12\<rparr>" undefined] obtain t where
      t: "exception_no_code (of_nat n) (r\<lparr>esp := esp r - 12\<rparr>) ?s = Some t" "halted t"
        "screen_of t = fold screen_put (lit ''An exception occured: '' @ lit (exceptions ! n) @ lit nl @ dump_text (r\<lparr>esp := esp r - 12\<rparr>)) (screen_of s)"
      unfolding k sc by blast
    have "exception_stubs ! n = isr_exception_no_code (of_nat n)" using exception_stub [OF n(1)] n(2) None by simp
    then have "interrupt env code (exception_stubs ! n) r s = Some (Stopped t)"
      using t(1) args(1) args(2) [OF None] unfolding isr_exception_no_code_def by (simp only: run) (simp add: call_c_def)
    then show ?thesis using t(2,3) None by simp
  next
    case (Some e)
    let ?q = "registers.extend (r\<lparr>esp := esp r - 16\<rparr>) (error_registers.fields e)"
    have "unat (of_nat n :: u32) < 32" using n(1) k by simp
    from exceptions_dump_registers [OF this c', of undefined ?q] obtain t where
      t: "exception_code (of_nat n) ?q ?s = Some t" "halted t"
        "screen_of t = fold screen_put (lit ''An exception occured: '' @ lit (exceptions ! n) @ lit nl
          @ lit ''Error code: '' @ hex8 e @ lit nl @ dump_text (r\<lparr>esp := esp r - 16\<rparr>)) (screen_of s)"
      unfolding k sc registers_of_code by blast
    have "exception_stubs ! n = isr_exception_code (of_nat n)" using exception_stub [OF n(1)] n(2) Some by simp
    then have "interrupt env code (exception_stubs ! n) r s = Some (Stopped t)"
      using t(1) args(1) args(3) [OF Some] unfolding isr_exception_code_def by (simp only: run) (simp add: call_c_def)
    then show ?thesis using t(2,3) Some by simp
  qed
qed

section \<open>Properties\<close>

text \<open>
  C33. Any of the 32 exceptions, wherever it interrupts, ends in the halt loop with a dump of the interrupted program: its stub hands
  the C handler the exception's number, the error code exactly for the exceptions that push one, and every register as it
  was. The stack pointer shown is the one after delivery, 12 or 16 bytes below the interrupted one.
\<close>

theorem exceptions_show_registers:
  fixes s :: "'a ps2_scheme"
  assumes "n < 32" "pushes_code n \<longleftrightarrow> code \<noteq> None" "console_ok s" "disjoint (esp r - 56) 56 (vga_buffer s) 4000"
  shows "\<exists>t. interrupt env code (exception_stubs ! n) r s = Some (Stopped t) \<and> halted t
    \<and> screen_of t = fold screen_put (lit ''An exception occured: '' @ lit (exceptions ! n) @ lit nl
        @ (case code of None \<Rightarrow> [] | Some e \<Rightarrow> lit ''Error code: '' @ hex8 e @ lit nl)
        @ dump_text (r\<lparr>esp := esp r - (case code of None \<Rightarrow> 12 | Some _ \<Rightarrow> 16)\<rparr>)) (screen_of s)"
  by (rule exception_interrupt [OF assms])

text \<open>
  C10. A keyboard interrupt is invisible to the program it interrupts: whatever the scan code, the state of the decoder and of the queue,
  every register, the flags and the instruction pointer are as before, and the handler has run once on a memory that differs
  from the interrupted one only in the 48 bytes below the stack pointer.
\<close>

theorem keyboard_interrupt_transparent:
  fixes s :: "'a ps2_scheme"
  assumes "console_ok s" "unat (queue_idx s) \<le> 256" "unat (input_queue s) + 256 < 4294967296"
    and "disjoint (esp r - 48) 48 (vga_buffer s) 4000" "disjoint (esp r - 48) 48 (input_queue s) 256"
  shows "\<exists>m. interrupt env None int_ps2_key_pressed r s = Some (Running r (ps2_key_pressed (s\<lparr>ram := m\<rparr>)))
    \<and> (\<forall>x. \<not> in_region (esp r - 48) 48 x \<longrightarrow> m x = ram s x)"
  by (rule keyboard_stub [OF assms])

text \<open>A program in the kernel, a key coming in.\<close>

definition cpu_regs :: registers where
  "cpu_regs = \<lparr>edi = 1, esi = 2, ebp = 0xc0107ff0, esp = 0xc0107f00, ebx = 5, edx = 6, ecx = 7, eax = 0xdead,
     eip = 0xc0100000, cs_sel = 8, eflags = 0x202\<rparr>"

definition cpu_env :: stub_env where
  "cpu_env = \<lparr>ret_addr = 0xc0101010, scratch = (0, 1, 2), cs_upper = 0, flags_after = (\<lambda>f. f AND NOT 0x200)\<rparr>"

definition key_state :: ps2 where
  "key_state = (ps2_start 2 [0x1c])\<lparr>vga_buffer := 0xf0000000, tty_pos := 0, input_queue := 0xc0110000, queue_idx := 0\<rparr>"

lemma key_state_simps [simp]: "vga_buffer key_state = 0xf0000000" "input_queue key_state = 0xc0110000" "queue_idx key_state = 0" "console_ok key_state"
  by (simp_all add: key_state_def console_ok_def)

theorem exceptions_show_registers_witness:
  "\<exists>t. interrupt cpu_env (Some 2) (exception_stubs ! 14) cpu_regs key_state = Some (Stopped t) \<and> halted t
    \<and> screen_of t = fold screen_put (lit ''An exception occured: '' @ lit ''Page Fault (#PF)'' @ lit nl
        @ lit ''Error code: '' @ hex8 2 @ lit nl @ dump_text (cpu_regs\<lparr>esp := 0xc0107ef0\<rparr>)) (screen_of key_state)"
proof -
  have "exceptions ! 14 = ''Page Fault (#PF)''" by (simp add: exceptions_def)
  then show ?thesis
    using exceptions_show_registers [of 14 "Some 2" key_state cpu_regs cpu_env]
    by (simp add: pushes_code_def cpu_regs_def disjoint_def)
qed

theorem keyboard_interrupt_transparent_witness:
  "\<exists>m. interrupt cpu_env None int_ps2_key_pressed cpu_regs key_state = Some (Running cpu_regs (ps2_key_pressed (key_state\<lparr>ram := m\<rparr>)))
    \<and> m 0xc0107f00 = ram key_state 0xc0107f00"
  using keyboard_interrupt_transparent [of key_state cpu_regs cpu_env] by (auto simp: cpu_regs_def disjoint_def in_region_def)

end
