(* ===== verification/Boot_Asm.thy ===== *)
theory Boot_Asm
  imports Boot_Info
begin

text \<open>
  kernel/arch/i686/boot/boot0.s: \<open>_start\<close>, from the boot loader to \<open>hlinit\<close>, instruction by instruction, on the physical
  memory and with the address translation of the processor once paging is on. The state it leaves is the one the other theories
  start from: \<open>boot_ptes\<close>.
\<close>

section \<open>Processor and memory\<close>

datatype reg = EAX | EBX | ECX | EDI | ESP | EBP

datatype seg = SS | DS | ES | FS | GS

record boot_cpu =
  reg_file :: "reg \<Rightarrow> u32"
  cr0 :: u32
  cr3 :: u32
  phys :: mem
  interrupt_flag :: bool
  gdtr :: addr
  data_segs :: "seg \<Rightarrow> u16"
  code_entry :: "u16 \<times> addr"

text \<open>The two-level walk: an entry without its present bit is a page fault.\<close>

definition translate :: "boot_cpu \<Rightarrow> addr \<Rightarrow> addr option" where
  "translate s va =
     (let pde = rd32 (phys s) ((cr3 s AND NOT 0xfff) + 4 * (va div 0x400000))
      in if pde AND 1 = 0 then None
         else let pte = rd32 (phys s) ((pde AND NOT 0xfff) + 4 * (va div 0x1000 mod 0x400))
              in if pte AND 1 = 0 then None else Some ((pte AND NOT 0xfff) + va mod 0x1000))"

definition fetch32 :: "boot_cpu \<Rightarrow> addr \<Rightarrow> u32 option" where
  "fetch32 s va = map_option (rd32 (phys s)) (translate s va)"

text \<open>The word at \<open>0xffc00000 + 4 i\<close>, an absent one read as 0.\<close>

definition recursive_entry :: "boot_cpu \<Rightarrow> u32 \<Rightarrow> u32" where
  "recursive_entry s i = (case fetch32 s (0xffc00000 + 4 * i) of None \<Rightarrow> 0 | Some v \<Rightarrow> v)"

definition paging_on :: "boot_cpu \<Rightarrow> bool" where
  "paging_on s \<longleftrightarrow> bit (cr0 s) 31"

definition store :: "addr \<Rightarrow> u32 \<Rightarrow> boot_cpu \<Rightarrow> boot_cpu option" where
  "store a v s = map_option (\<lambda>p. s\<lparr>phys := wr32 (phys s) p v\<rparr>) (if paging_on s then translate s a else Some a)"

datatype boot_instr = Cli | Movl_Imm u32 reg | Movl reg reg | Movl_Cr3 reg | Movl_From_Cr0 reg | Movl_To_Cr0 reg
  | Or_Imm u32 reg | Add_Imm u32 reg | Subl_Imm u32 reg | Store_At reg addr | Store_Ind reg reg
  | Lgdt addr | Mov_Ax u16 | Mov_Seg seg | Push reg | Ljmp u16 addr

fun exec_boot :: "boot_instr \<Rightarrow> boot_cpu \<Rightarrow> boot_cpu option" where
  "exec_boot Cli s = Some (s\<lparr>interrupt_flag := False\<rparr>)"
| "exec_boot (Movl_Imm v r) s = Some (s\<lparr>reg_file := (reg_file s)(r := v)\<rparr>)"
| "exec_boot (Movl q r) s = Some (s\<lparr>reg_file := (reg_file s)(r := reg_file s q)\<rparr>)"
| "exec_boot (Movl_Cr3 r) s = Some (s\<lparr>cr3 := reg_file s r\<rparr>)"
| "exec_boot (Movl_From_Cr0 r) s = Some (s\<lparr>reg_file := (reg_file s)(r := cr0 s)\<rparr>)"
| "exec_boot (Movl_To_Cr0 r) s = Some (s\<lparr>cr0 := reg_file s r\<rparr>)"
| "exec_boot (Or_Imm v r) s = Some (s\<lparr>reg_file := (reg_file s)(r := reg_file s r OR v)\<rparr>)"
| "exec_boot (Add_Imm v r) s = Some (s\<lparr>reg_file := (reg_file s)(r := reg_file s r + v)\<rparr>)"
| "exec_boot (Subl_Imm v r) s = Some (s\<lparr>reg_file := (reg_file s)(r := reg_file s r - v)\<rparr>)"
| "exec_boot (Store_At r a) s = store a (reg_file s r) s"
| "exec_boot (Store_Ind q r) s = store (reg_file s r) (reg_file s q) s"
| "exec_boot (Lgdt a) s = Some (s\<lparr>gdtr := a\<rparr>)"
| "exec_boot (Mov_Ax v) s = Some (s\<lparr>reg_file := (reg_file s)(EAX := (reg_file s EAX AND 0xffff0000) OR ucast v)\<rparr>)"
| "exec_boot (Mov_Seg g) s = Some (s\<lparr>data_segs := (data_segs s)(g := ucast (reg_file s EAX))\<rparr>)"
| "exec_boot (Push r) s =
     (let a = reg_file s ESP - 4 in map_option (\<lambda>s. s\<lparr>reg_file := (reg_file s)(ESP := a)\<rparr>) (store a (reg_file s r) s))"
| "exec_boot (Ljmp c a) s = Some (s\<lparr>code_entry := (c, a)\<rparr>)"

fun exec_seq :: "boot_instr list \<Rightarrow> boot_cpu \<Rightarrow> boot_cpu option" where
  "exec_seq [] s = Some s"
| "exec_seq (i # is) s = Option.bind (exec_boot i s) (exec_seq is)"

section \<open>The code\<close>

text \<open>Where the linker puts the tables, the stack, the descriptors and \<open>hlinit\<close>.\<close>

record boot_symbols =
  initpd :: addr
  initpt :: addr
  stack_top :: addr
  gdt_ptr :: addr
  hlinit_entry :: addr

abbreviation (input) kernel_virtual_offset :: addr where "kernel_virtual_offset \<equiv> 0xc0000000"

definition k_code :: u16 where
  "k_code = 8"

definition k_data :: u16 where
  "k_data = 16"

definition u_code :: u16 where
  "u_code = 24"

definition u_data :: u16 where
  "u_data = 32"

definition start_tables :: "boot_symbols \<Rightarrow> boot_instr list" where
  "start_tables sy =
    [Cli,
     Movl_Imm (initpd sy - kernel_virtual_offset) EDI,
     Movl_Cr3 EDI,
     Or_Imm 3 EDI,
     Store_At EDI (initpd sy - kernel_virtual_offset + 4 * 0x3ff),
     Movl_Imm (initpt sy - kernel_virtual_offset) EDI,
     Or_Imm 3 EDI,
     Store_At EDI (initpd sy - kernel_virtual_offset),
     Store_At EDI (initpd sy - kernel_virtual_offset + 4 * 0x300),
     Movl_Imm (initpt sy - kernel_virtual_offset) EDI,
     Movl_Imm 3 EAX,
     Movl_Imm 1024 ECX]"

text \<open>\<open>loop\<close> decrements \<open>ecx\<close> and jumps while it is not zero.\<close>

partial_function (option) fill_table :: "boot_cpu \<Rightarrow> boot_cpu option" where
  "fill_table s =
     Option.bind (exec_seq [Store_Ind EAX EDI, Add_Imm 4 EDI, Add_Imm 0x1000 EAX] s) (\<lambda>s.
       let s = s\<lparr>reg_file := (reg_file s)(ECX := reg_file s ECX - 1)\<rparr>
       in if reg_file s ECX \<noteq> 0 then fill_table s else Some s)"

definition start_call :: "boot_symbols \<Rightarrow> boot_instr list" where
  "start_call sy =
    [Movl_From_Cr0 EAX, Or_Imm (push_bit 31 1) EAX, Movl_To_Cr0 EAX,
     Lgdt (gdt_ptr sy), Mov_Ax k_data, Mov_Seg SS, Mov_Seg DS, Mov_Seg ES, Mov_Seg FS, Mov_Seg GS,
     Movl_Imm (stack_top sy) ESP, Movl ESP EBP,
     Subl_Imm 0x0c ESP, Push EBX, Subl_Imm 0x04 ESP, Ljmp k_code (hlinit_entry sy)]"

definition start :: "boot_symbols \<Rightarrow> boot_cpu \<Rightarrow> boot_cpu option" where
  "start sy s =
     Option.bind (exec_seq (start_tables sy) s) (\<lambda>s. Option.bind (fill_table s) (exec_seq (start_call sy)))"

section \<open>The header the boot loader looks for, and the descriptors\<close>

text \<open>\<open>.multiboot\<close>: magic, architecture, length and checksum, the tag that asks for page-aligned modules, the end tag.\<close>

definition multiboot_header :: "u32 list" where
  "multiboot_header = (let magic = 0xe85250d6; architecture = 0; header_length = 32
     in [magic, architecture, header_length, - (magic + architecture + header_length), 6, 8, 0, 8])"

text \<open>What the multiboot2 specification asks of a header whose tags carry no payload.\<close>

definition header_valid :: "u32 list \<Rightarrow> bool" where
  "header_valid h \<longleftrightarrow> h ! 0 = 0xe85250d6 \<and> unat (h ! 2) = 4 * length h \<and> sum_list (take 4 h) = 0
     \<and> drop (length h - 2) h = [0, 8]"

lemma multiboot_header_valid: "header_valid multiboot_header"
  by (simp add: header_valid_def multiboot_header_def)

text \<open>A descriptor of the table: base 0, limit \<open>0xfffff\<close> pages, and its access byte.\<close>

definition descriptor :: "u8 \<Rightarrow> u8 list" where
  "descriptor access = [0xff, 0xff, 0, 0, 0, access, push_bit 7 1 OR push_bit 6 1 OR 0xf, 0]"

definition gdt_access :: "u8 \<Rightarrow> u8 \<Rightarrow> u8" where
  "gdt_access exec_bit dpl = push_bit 7 1 OR push_bit 4 1 OR push_bit 1 1 OR exec_bit OR dpl"

definition gdt :: "u8 list" where
  "gdt = replicate 8 0
     @ descriptor (gdt_access (push_bit 3 1) (push_bit 5 0)) @ descriptor (gdt_access 0 (push_bit 5 0))
     @ descriptor (gdt_access (push_bit 3 1) (push_bit 5 3)) @ descriptor (gdt_access 0 (push_bit 5 3))"

definition gdt_limit :: u16 where
  "gdt_limit = of_nat (length gdt) - 1"

text \<open>How the processor reads the descriptor a selector names: base, last byte, ring, whether it holds code.\<close>

definition gdt_segment :: "u8 list \<Rightarrow> u16 \<Rightarrow> (u32 \<times> u32 \<times> u8 \<times> bool) option" where
  "gdt_segment table selector =
     (let i = unat (selector AND 0xfff8); e = (\<lambda>j. table ! (i + j))
      in if length table < i + 8 \<or> \<not> bit (e 5) 7 \<or> \<not> bit (e 5) 4 then None
         else let pages = ucast (e 0) OR push_bit 8 (ucast (e 1)) OR push_bit 16 (ucast (e 6 AND 0xf)) :: u32
              in Some (ucast (e 2) OR push_bit 8 (ucast (e 3)) OR push_bit 16 (ucast (e 4)) OR push_bit 24 (ucast (e 7)),
                       (if bit (e 6) 7 then push_bit 12 pages OR 0xfff else pages), drop_bit 5 (e 5) AND 3, bit (e 5) 3))"

lemma gdt_flat:
  "gdt_segment gdt k_code = Some (0, 0xffffffff, 0, True)" "gdt_segment gdt k_data = Some (0, 0xffffffff, 0, False)"
  "gdt_segment gdt u_code = Some (0, 0xffffffff, 3, True)" "gdt_segment gdt u_data = Some (0, 0xffffffff, 3, False)"
  "gdt_segment gdt 0 = None" "gdt_limit = 39"
  by (code_simp; simp)+

section \<open>Words at aligned addresses\<close>

lemma aligned_apart:
  fixes x y :: addr
  assumes "unat x mod 4 = 0" "unat y mod 4 = 0" "x \<noteq> y"
  shows "4 \<le> unat (x - y)"
proof -
  obtain i j where ij: "unat x = 4 * i" "unat y = 4 * j" using assms(1,2) by (metis mod_0_imp_dvd dvdE)
  then have "i \<noteq> j" using assms(3) by (auto simp: word_unat_eq_iff)
  have "unat x < 4294967296" "unat y < 4294967296" using unsigned_less [where 'a = nat and w = x] unsigned_less [where 'a = nat and w = y] by simp_all
  then have "4 * i < 4294967296" "4 * j < 4294967296" using ij by linarith+
  moreover have "unat (x - y) = (if unat y \<le> unat x then unat x - unat y else unat x + 4294967296 - unat y)"
    by (simp add: unat_sub_if')
  ultimately show ?thesis using ij \<open>i \<noteq> j\<close> by (simp split: if_splits)
qed

lemma rd32_wr32_aligned:
  assumes "unat a mod 4 = 0" "unat b mod 4 = 0"
  shows "rd32 (wr32 m b v) a = (if a = b then v else rd32 m a)"
  using other_field(1) [of a b m v] aligned_apart [OF assms] aligned_apart [OF assms(2,1)] by simp

text \<open>The address of an entry of a table in page \<open>p\<close>.\<close>

definition entry_addr :: "nat \<Rightarrow> nat \<Rightarrow> addr" where
  "entry_addr p k = of_nat (4096 * p + 4 * k)"

lemma unat_entry:
  assumes "p < 1024" "k < 1024"
  shows "unat (entry_addr p k) = 4096 * p + 4 * k"
  unfolding entry_addr_def by (rule unat_of_nat32) (use assms in simp)

lemma entry_addr_eq:
  assumes "p < 1024" "k < 1024" "q < 1024" "j < 1024"
  shows "entry_addr p k = entry_addr q j \<longleftrightarrow> p = q \<and> k = j"
proof
  assume "entry_addr p k = entry_addr q j"
  then have "4096 * p + 4 * k = 4096 * q + 4 * j" using unat_entry [OF assms(1,2)] unat_entry [OF assms(3,4)] by metis
  then have e: "k + 1024 * p = j + 1024 * q" by simp
  have "(k + 1024 * p) div 1024 = p" "(j + 1024 * q) div 1024 = q" using assms by simp_all
  then have "p = q" unfolding e by simp
  then show "p = q \<and> k = j" using e by simp
qed simp

lemma entry_aligned: "p < 1024 \<Longrightarrow> k < 1024 \<Longrightarrow> unat (entry_addr p k) mod 4 = 0"
  by (simp add: unat_entry)

text \<open>The page table after its first \<open>n\<close> entries are filled.\<close>

definition filled :: "nat \<Rightarrow> nat \<Rightarrow> mem \<Rightarrow> mem" where
  "filled p n m = fold (\<lambda>k m. wr32 m (entry_addr p k) (of_nat k * 0x1000 + 3)) [0 ..< n] m"

lemma filled_read:
  assumes "p < 1024" "n \<le> 1024" "q < 1024" "j < 1024"
  shows "rd32 (filled p n m) (entry_addr q j) = (if q = p \<and> j < n then of_nat j * 0x1000 + 3 else rd32 m (entry_addr q j))"
  using assms(2)
proof (induction n)
  case (Suc n)
  have "filled p (Suc n) m = wr32 (filled p n m) (entry_addr p n) (of_nat n * 0x1000 + 3)" by (simp add: filled_def)
  moreover have "rd32 (wr32 (filled p n m) (entry_addr p n) (of_nat n * 0x1000 + 3)) (entry_addr q j)
      = (if entry_addr q j = entry_addr p n then of_nat n * 0x1000 + 3 else rd32 (filled p n m) (entry_addr q j))"
    by (rule rd32_wr32_aligned) (use assms Suc.prems in \<open>simp_all add: entry_aligned\<close>)
  ultimately show ?case using Suc assms entry_addr_eq [of q j p n] by (auto simp: less_Suc_eq)
qed (simp add: filled_def)

section \<open>The loop\<close>

lemma fill_table_fills:
  assumes "\<not> paging_on s" "reg_file s ECX = of_nat (Suc d)" "reg_file s EDI = entry_addr p k"
    "reg_file s EAX = of_nat k * 0x1000 + 3" "phys s = filled p k m" "k + Suc d = 1024"
  shows "fill_table s = Some (s\<lparr>phys := filled p 1024 m,
    reg_file := (reg_file s)(ECX := 0, EDI := entry_addr p 1024, EAX := 0x400003)\<rparr>)"
  using assms
proof (induction d arbitrary: k s)
  case 0
  have k: "k = 1023" using 0 by simp
  have "wr32 (filled p 1023 m) (entry_addr p 1023) (of_nat 1023 * 0x1000 + 3) = filled p 1024 m"
    using upt_Suc_append [of 0 1023] by (simp add: filled_def)
  then show ?case using 0 k by (subst fill_table.simps) (simp add: store_def entry_addr_def fun_upd_twist add.commute)
next
  case (Suc d)
  let ?u = "s\<lparr>phys := filled p (Suc k) m, reg_file := (reg_file s)(ECX := of_nat (Suc d),
    EDI := entry_addr p (Suc k), EAX := of_nat (Suc k) * 0x1000 + 3)\<rparr>"
  have "unat (of_nat (Suc d) :: u32) = Suc d" by (rule unat_of_nat32) (use Suc.prems(6) in simp)
  then have ne: "(of_nat (Suc d) :: u32) \<noteq> 0" by (auto simp del: of_nat_Suc)
  have "wr32 (filled p k m) (entry_addr p k) (of_nat k * 0x1000 + 3) = filled p (Suc k) m" by (simp add: filled_def)
  then have "fill_table s = fill_table ?u"
    using Suc.prems ne by (subst fill_table.simps) (simp add: store_def entry_addr_def fun_upd_twist algebra_simps)
  also have "\<dots> = Some (?u\<lparr>phys := filled p 1024 m, reg_file := (reg_file ?u)(ECX := 0, EDI := entry_addr p 1024, EAX := 0x400003)\<rparr>)"
    by (rule Suc.IH [of _ "Suc k"]) (use Suc.prems in \<open>simp_all add: paging_on_def\<close>)
  also have "\<dots> = Some (s\<lparr>phys := filled p 1024 m, reg_file := (reg_file s)(ECX := 0, EDI := entry_addr p 1024, EAX := 0x400003)\<rparr>)"
    by (simp add: fun_upd_twist)
  finally show ?case .
qed

section \<open>The walk over the tables\<close>

text \<open>A frame's address with the flags 3.\<close>

lemma low_flags:
  assumes "f < 1048576" "x = (of_nat (4096 * f) :: u32)"
  shows "x OR 3 = x + 3" "(x + 3) AND NOT 0xfff = x" "(x + 3) AND 1 \<noteq> 0"
proof -
  have x: "unat x = 4096 * f" unfolding assms(2) by (rule unat_of_nat32) (use assms(1) in simp)
  have "unat x + unat (3 :: u32) < 4294967296" unfolding x using assms(1) by simp
  from unat_add_small [OF this] have u: "unat (x + 3) = 4096 * f + 3" unfolding x by simp
  have "x AND 3 = take_bit 2 x" by (simp add: take_bit_eq_mask mask_eq_exp_minus_1)
  also have "\<dots> = x mod 4" by (simp add: take_bit_eq_mod)
  also have "\<dots> = 0" using x by (simp add: word_unat_eq_iff unat_mod_distrib)
  finally show "x OR 3 = x + 3" by (simp add: disjunctive_add_eq_or)
  have d: "(4096 * f + 3) div 4096 = f" by simp
  have "unat ((x + 3) AND NOT 0xfff) = 4096 * (unat (x + 3) div 4096)" by (rule page_down) simp
  then show "(x + 3) AND NOT 0xfff = x" unfolding u d word_unat_eq_iff x .
  have "unat ((x + 3) mod 2) = unat (x + 3) mod 2" by (simp add: unat_mod_distrib)
  also have "\<dots> = 1" unfolding u by (simp add: mod_2_eq_odd)
  finally show "(x + 3) AND 1 \<noteq> 0" by (metis and_one_eq unat_0 zero_neq_one)
qed

lemma entry_flags:
  assumes "p < 1024"
  shows "entry_addr p 0 OR 3 = entry_addr p 0 + 3" "(entry_addr p 0 + 3) AND NOT 0xfff = entry_addr p 0"
    "(entry_addr p 0 + 3) AND 1 \<noteq> 0" "entry_addr p 0 AND NOT 0xfff = entry_addr p 0"
proof -
  have "p < 1048576" using assms by simp
  note low_flags [OF this refl]
  then show "entry_addr p 0 OR 3 = entry_addr p 0 + 3" "(entry_addr p 0 + 3) AND NOT 0xfff = entry_addr p 0"
    "(entry_addr p 0 + 3) AND 1 \<noteq> 0" by (simp_all add: entry_addr_def)
  show "entry_addr p 0 AND NOT 0xfff = entry_addr p 0"
    using page_down [of "entry_addr p 0"] assms by (simp add: word_unat_eq_iff unat_entry)
qed

text \<open>The tables: directory in page \<open>a\<close>, table in page \<open>b\<close>.\<close>

definition boot_tables :: "nat \<Rightarrow> nat \<Rightarrow> boot_cpu \<Rightarrow> bool" where
  "boot_tables a b s \<longleftrightarrow> cr3 s = entry_addr a 0
     \<and> (\<forall>j<1024. rd32 (phys s) (entry_addr a j) = (if j = 0 \<or> j = 768 then entry_addr b 0 + 3 else if j = 1023 then entry_addr a 0 + 3 else 0))
     \<and> (\<forall>k<1024. rd32 (phys s) (entry_addr b k) = of_nat k * 0x1000 + 3)"

lemma translate_boot:
  assumes "boot_tables a b s" "a < 1024" "b < 1024"
  shows "translate s va = (let t = unat va div 0x400000; k = unat va div 0x1000 mod 0x400; off = of_nat (unat va mod 0x1000)
    in if t = 0 \<or> t = 768 then Some (of_nat (4096 * k) + off)
       else if t \<noteq> 1023 then None
       else if k = 0 \<or> k = 768 then Some (entry_addr b 0 + off)
       else if k = 1023 then Some (entry_addr a 0 + off) else None)"
proof -
  define t where "t = unat va div 0x400000"
  define k where "k = unat va div 0x1000 mod 0x400"
  have "unat va < 4294967296" using unsigned_less [where 'a = nat and w = va] by simp
  then have tk: "t < 1024" "k < 1024" by (simp_all add: t_def k_def less_mult_imp_div_less)
  have w: "va div 0x400000 = of_nat t" "va div 0x1000 mod 0x400 = of_nat k" "va mod 0x1000 = of_nat (unat va mod 0x1000)"
    using unat_of_nat32 [of t] unat_of_nat32 [of k] unat_of_nat32 [of "unat va mod 0x1000"] tk
    by (simp_all add: word_unat_eq_iff unat_div_distrib unat_mod_distrib t_def k_def)
  have e: "entry_addr p 0 + 4 * of_nat j = entry_addr p j" for p j by (simp add: entry_addr_def)
  have z: "entry_addr 0 0 = 0" by (simp add: entry_addr_def)
  have k4: "of_nat k * 0x1000 + 3 = entry_addr k 0 + (3 :: u32)" by (simp add: entry_addr_def mult.commute)
  note T = assms(1) [unfolded boot_tables_def]
  have pde: "rd32 (phys s) (entry_addr a t) = (if t = 0 \<or> t = 768 then entry_addr b 0 + 3 else if t = 1023 then entry_addr a 0 + 3 else 0)"
    and pte: "rd32 (phys s) (entry_addr b k) = entry_addr k 0 + 3"
    and dir: "rd32 (phys s) (entry_addr a k) = (if k = 0 \<or> k = 768 then entry_addr b 0 + 3 else if k = 1023 then entry_addr a 0 + 3 else 0)"
    using T tk k4 by auto
  have tr: "translate s va = (let pde = rd32 (phys s) (entry_addr a t)
      in if pde AND 1 = 0 then None
         else let pte = rd32 (phys s) ((pde AND NOT 0xfff) + 4 * of_nat k)
              in if pte AND 1 = 0 then None else Some ((pte AND NOT 0xfff) + of_nat (unat va mod 0x1000)))"
    by (simp only: translate_def w conjunct1 [OF T] entry_flags(4) [OF assms(2)] e)
  have "translate s va = (if t = 0 \<or> t = 768 then Some (entry_addr k 0 + of_nat (unat va mod 0x1000))
       else if t \<noteq> 1023 then None
       else if k = 0 \<or> k = 768 then Some (entry_addr b 0 + of_nat (unat va mod 0x1000))
       else if k = 1023 then Some (entry_addr a 0 + of_nat (unat va mod 0x1000)) else None)"
  proof -
    consider "t = 0 \<or> t = 768" | "t = 1023" | "t \<noteq> 0" "t \<noteq> 768" "t \<noteq> 1023" by blast
    then show ?thesis
    proof cases
      case 1
      then have "rd32 (phys s) (entry_addr a t) = entry_addr b 0 + 3" using pde by simp
      then show ?thesis using 1
        by (simp only: tr Let_def entry_flags [OF assms(3)] entry_flags [OF tk(2)] e pte if_False if_True simp_thms)
    next
      case 2
      then have d: "rd32 (phys s) (entry_addr a t) = entry_addr a 0 + 3" using pde by simp
      consider "k = 0 \<or> k = 768" | "k = 1023" | "k \<noteq> 0" "k \<noteq> 768" "k \<noteq> 1023" by blast
      then show ?thesis
      proof cases
        case 1
        then have "rd32 (phys s) (entry_addr a k) = entry_addr b 0 + 3" using dir by simp
        then show ?thesis using 1 2 d
          by (simp only: tr Let_def entry_flags [OF assms(2)] entry_flags [OF assms(3)] e if_False if_True simp_thms) simp
      next
        case k: 2
        then have "rd32 (phys s) (entry_addr a k) = entry_addr a 0 + 3" using dir by simp
        then show ?thesis using k 2 d
          by (simp only: tr Let_def entry_flags [OF assms(2)] e if_False if_True simp_thms) simp
      next
        case 3
        then have "rd32 (phys s) (entry_addr a k) = 0" using dir by simp
        then show ?thesis using 3 2 d
          by (simp only: tr Let_def entry_flags [OF assms(2)] e if_False if_True simp_thms) simp
      qed
    next
      case 3
      then have "rd32 (phys s) (entry_addr a t) = 0" using pde by simp
      then show ?thesis using 3 by (simp add: tr)
    qed
  qed
  then show ?thesis by (simp add: Let_def t_def k_def entry_addr_def)
qed

section \<open>From the boot loader to hlinit\<close>

text \<open>
  Where the linker puts things: the directory in page \<open>a\<close>, the page table in page \<open>b\<close> and the top of the stack \<open>w\<close> bytes above
  the load address; the word pushed lies in neither table.
\<close>

definition placed :: "boot_symbols \<Rightarrow> nat \<Rightarrow> nat \<Rightarrow> nat \<Rightarrow> bool" where
  "placed sy a b w \<longleftrightarrow> a < 1024 \<and> b < 1024 \<and> a \<noteq> b
     \<and> initpd sy = kernel_virtual_offset + entry_addr a 0 \<and> initpt sy = kernel_virtual_offset + entry_addr b 0
     \<and> stack_top sy = kernel_virtual_offset + of_nat w \<and> w mod 16 = 0 \<and> 20 \<le> w \<and> w \<le> 0x400000 \<and> (w - 16) div 4096 \<notin> {a, b}"

lemma start_tables_run:
  assumes "placed sy a b w" "\<not> paging_on s"
  shows "exec_seq (start_tables sy) s = Some (s\<lparr>interrupt_flag := False, cr3 := entry_addr a 0,
    phys := wr32 (wr32 (wr32 (phys s) (entry_addr a 1023) (entry_addr a 0 + 3)) (entry_addr a 0) (entry_addr b 0 + 3)) (entry_addr a 768) (entry_addr b 0 + 3),
    reg_file := (reg_file s)(EDI := entry_addr b 0, EAX := 3, ECX := 1024)\<rparr>)"
proof -
  have p: "initpd sy - kernel_virtual_offset = entry_addr a 0" "initpt sy - kernel_virtual_offset = entry_addr b 0" "a < 1024" "b < 1024"
    using assms(1) by (simp_all add: placed_def)
  have e: "entry_addr a 0 + 4 * 0x3ff = entry_addr a 1023" "entry_addr a 0 + 4 * 0x300 = entry_addr a 768" by (simp_all add: entry_addr_def)
  show ?thesis unfolding start_tables_def p e
    using assms(2) by (simp add: store_def paging_on_def entry_flags [OF p(3)] entry_flags [OF p(4)] fun_upd_twist)
qed

lemma start_fills:
  assumes "placed sy a b w" "\<not> paging_on s" "\<forall>j<1024. rd32 (phys s) (entry_addr a j) = 0"
  obtains t where "Option.bind (exec_seq (start_tables sy) s) fill_table = Some t" "boot_tables a b t" "\<not> paging_on t"
    "reg_file t EBX = reg_file s EBX" "interrupt_flag t = False"
proof -
  define m where "m = wr32 (wr32 (wr32 (phys s) (entry_addr a 1023) (entry_addr a 0 + 3)) (entry_addr a 0) (entry_addr b 0 + 3)) (entry_addr a 768) (entry_addr b 0 + 3)"
  let ?u = "s\<lparr>interrupt_flag := False, cr3 := entry_addr a 0, phys := m, reg_file := (reg_file s)(EDI := entry_addr b 0, EAX := 3, ECX := 1024)\<rparr>"
  let ?t = "?u\<lparr>phys := filled b 1024 m, reg_file := (reg_file ?u)(ECX := 0, EDI := entry_addr b 1024, EAX := 0x400003)\<rparr>"
  have ab: "a < 1024" "b < 1024" "a \<noteq> b" using assms(1) by (simp_all add: placed_def)
  have "fill_table ?u = Some ?t"
    by (rule fill_table_fills [where d = 1023 and k = 0]) (use assms(2) in \<open>simp_all add: paging_on_def filled_def\<close>)
  then have run: "Option.bind (exec_seq (start_tables sy) s) fill_table = Some ?t"
    unfolding start_tables_run [OF assms(1,2)] m_def by simp
  have "rd32 m (entry_addr a j) = (if j = 0 \<or> j = 768 then entry_addr b 0 + 3 else if j = 1023 then entry_addr a 0 + 3 else 0)" if "j < 1024" for j
    using assms(3) that ab by (auto simp: m_def rd32_wr32_aligned entry_aligned entry_addr_eq)
  then have "boot_tables a b ?t" using ab by (simp add: boot_tables_def filled_read)
  then show ?thesis by (rule that [OF run]) (use assms(2) in \<open>simp_all add: paging_on_def\<close>)
qed

lemma shifted:
  fixes m c x :: nat
  assumes "0 < m"
  shows "(c * m + x) div m = c + x div m" "(c * m + x) mod m = x mod m"
  using assms by simp_all

text \<open>The first 4 MiB at both addresses.\<close>

lemma translate_low:
  assumes "boot_tables a b s" "a < 1024" "b < 1024" "x < 0x400000"
  shows "translate s (of_nat x) = Some (of_nat x)" "translate s (kernel_virtual_offset + of_nat x) = Some (of_nat x)"
proof -
  have x: "unat (of_nat x :: addr) = x" by (rule unat_of_nat32) (use assms(4) in simp)
  have y: "unat (kernel_virtual_offset + of_nat x :: addr) = 0xc0000000 + x" using assms(4) x by (subst unat_add_small) simp_all
  have d: "x div 4096 < 1024" "x div 0x400000 = 0" using assms(4) by simp_all
  then have k: "x div 0x400000 = 0" "x div 4096 mod 1024 = x div 4096" "(0xc0000000 + x) div 0x400000 = 768"
    "(0xc0000000 + x) div 4096 mod 1024 = x div 4096" "(0xc0000000 + x) mod 4096 = x mod 4096"
    using shifted(1) [of "0x400000" 768 x] shifted(1) [of 4096 "0xc0000" x] shifted(2) [of 1024 768 "x div 4096"] shifted(2) [of 4096 "0xc0000" x]
    by (simp_all add: add.commute)
  have s: "(of_nat (4096 * (x div 4096)) + of_nat (x mod 4096) :: addr) = of_nat x"
    by (simp only: of_nat_add [symmetric] mult_div_mod_eq)
  show "translate s (of_nat x) = Some (of_nat x)" "translate s (kernel_virtual_offset + of_nat x) = Some (of_nat x)"
    by (simp_all only: translate_boot [OF assms(1-3)] x y Let_def k s simp_thms if_True)
qed

text \<open>The array of page table entries, read through the directory's last entry, is the one the page allocator starts from.\<close>

lemma recursive_view:
  assumes "boot_tables a b s" "a < 1024" "b < 1024" "i < 0x100000"
  shows "recursive_entry s i = boot_ptes (entry_addr a 0) (entry_addr b 0) i"
proof -
  define n where "n = unat i"
  define t where "t = n div 1024"
  define k where "k = n mod 1024"
  have n: "n < 1048576" "i = of_nat n" using assms(4) by (simp_all add: n_def word_less_nat_alt)
  have tk: "n = 1024 * t + k" "k < 1024" "t < 1024" using n(1) by (simp_all add: t_def k_def)
  have "unat (of_nat (4 * n) :: addr) = 4 * n" by (rule unat_of_nat32) (use n(1) in simp)
  then have u4: "unat (4 * i) = 4 * n" by (simp add: n(2))
  have u: "unat (0xffc00000 + 4 * i) = 0xffc00000 + 4 * n"
    using unat_add_small [of "0xffc00000" "4 * i"] n(1) by (simp add: u4)
  have "4 * n = t * 0x1000 + 4 * k" using tk(1) by simp
  then have k: "4 * n div 0x1000 = t" "4 * n mod 0x1000 = 4 * k" using shifted [of "0x1000" t "4 * k"] tk(2) by simp_all
  have v: "(0xffc00000 + 4 * n) div 0x400000 = 1023" using shifted(1) [of "0x400000" 1023 "4 * n"] n(1) by simp
  have v2: "(0xffc00000 + 4 * n) div 0x1000 mod 0x400 = t" "(0xffc00000 + 4 * n) mod 0x1000 = 4 * k"
    using shifted [of "0x1000" "0xffc00" "4 * n"] shifted(2) [of "0x400" 1023 t] tk(3) k by simp_all
  have e: "entry_addr p 0 + 4 * of_nat k = entry_addr p k" for p by (simp add: entry_addr_def)
  have f: "(of_nat k * 4096 OR 3 :: u32) = of_nat k * 0x1000 + 3"
    using low_flags(1) [of k "of_nat (4096 * k)"] tk(2) by (simp add: mult.commute)
  note T = assms(1) [unfolded boot_tables_def]
  have tr: "translate s (0xffc00000 + 4 * i) = (if t = 0 \<or> t = 768 then Some (entry_addr b k) else if t = 1023 then Some (entry_addr a k) else None)"
    by (simp add: translate_boot [OF assms(1-3)] u v v2 Let_def e)
  have q: "n = 1047552 + r \<longleftrightarrow> t = 1023 \<and> k = r" if "r < 1024" for r
  proof
    assume "n = 1047552 + r"
    then have "n = 1023 * 1024 + r" by simp
    then show "t = 1023 \<and> k = r" using shifted [of 1024 1023 r] that by (simp add: t_def k_def)
  qed (use tk(1) in simp)
  have ranges: "i < 1024 \<longleftrightarrow> t = 0" "0xc0000 \<le> i \<and> i < 0xc0400 \<longleftrightarrow> t = 768"
    "i = PD_INDEX \<longleftrightarrow> t = 1023 \<and> k = 0" "i = PD_INDEX + 0x300 \<longleftrightarrow> t = 1023 \<and> k = 768" "i = PD_INDEX + 0x3ff \<longleftrightarrow> t = 1023 \<and> k = 1023"
  proof -
    have w: "i < 1024 \<longleftrightarrow> n < 1024" "0xc0000 \<le> i \<and> i < 0xc0400 \<longleftrightarrow> 786432 \<le> n \<and> n < 787456"
      "i = PD_INDEX \<longleftrightarrow> n = 1047552" "i = PD_INDEX + 0x300 \<longleftrightarrow> n = 1048320" "i = PD_INDEX + 0x3ff \<longleftrightarrow> n = 1048575"
      by (simp_all add: n_def word_less_nat_alt word_le_nat_alt word_unat_eq_iff)
    show "i < 1024 \<longleftrightarrow> t = 0" unfolding w using tk by linarith
    show "0xc0000 \<le> i \<and> i < 0xc0400 \<longleftrightarrow> t = 768" unfolding w using tk by linarith
    show "i = PD_INDEX \<longleftrightarrow> t = 1023 \<and> k = 0" "i = PD_INDEX + 0x300 \<longleftrightarrow> t = 1023 \<and> k = 768" "i = PD_INDEX + 0x3ff \<longleftrightarrow> t = 1023 \<and> k = 1023"
      unfolding w using q [of 0] q [of 768] q [of 1023] by simp_all
  qed
  have low: "i * 4096 OR 3 = of_nat k * 0x1000 + 3" if "t = 0" unfolding n(2) using that tk(1) f by simp
  have high: "(i - 0xc0000) * 4096 OR 3 = (of_nat k * 0x1000 + 3 :: u32)" if "t = 768"
  proof -
    have "i - 0xc0000 = of_nat k" unfolding n(2) tk(1) that by simp
    then show ?thesis using f by simp
  qed
  have view: "recursive_entry s i = (if t = 0 \<or> t = 768 then rd32 (phys s) (entry_addr b k) else if t = 1023 then rd32 (phys s) (entry_addr a k) else 0)"
    by (simp add: recursive_entry_def fetch32_def tr)
  have pt: "rd32 (phys s) (entry_addr b k) = of_nat k * 0x1000 + 3"
    and pd: "rd32 (phys s) (entry_addr a k) = (if k = 0 \<or> k = 768 then entry_addr b 0 + 3 else if k = 1023 then entry_addr a 0 + 3 else 0)"
    using T tk(2) by simp_all
  have ptes: "boot_ptes (entry_addr a 0) (entry_addr b 0) i =
     (if t = 0 then i * 4096 OR 3 else if t = 768 then (i - 0xc0000) * 4096 OR 3
      else if t = 1023 \<and> k = 0 \<or> t = 1023 \<and> k = 768 then entry_addr b 0 OR 3
      else if t = 1023 \<and> k = 1023 then entry_addr a 0 OR 3 else 0)"
    unfolding boot_ptes_def ranges ..
  consider "t = 0" | "t = 768" | "t = 1023" | "t \<noteq> 0" "t \<noteq> 768" "t \<noteq> 1023" by blast
  then show ?thesis
  proof cases
    case 1
    then show ?thesis using low by (simp add: view ptes pt)
  next
    case 2
    then show ?thesis using high by (simp add: view ptes pt)
  next
    case 3
    then show ?thesis by (simp add: view ptes pd entry_flags(1) [OF assms(2)] entry_flags(1) [OF assms(3)])
  next
    case 4
    then show ?thesis by (simp add: view ptes)
  qed
qed

text \<open>The call.\<close>

lemma set_ax: "(ucast (r AND 0xffff0000 OR ucast v :: u32) :: u16) = v"
proof -
  have m: "(0xffff0000 :: u32) = NOT (mask 16)" by (simp add: mask_eq_exp_minus_1)
  show ?thesis unfolding m by (intro bit_word_eqI) (simp add: bit_simps)
qed

lemma stack_word:
  assumes "placed sy a b w"
  shows "unat (of_nat (w - 16) :: addr) = w - 16" "stack_top sy - 16 = kernel_virtual_offset + of_nat (w - 16)" "(w - 16) mod 16 = 0" "w - 16 < 0x400000"
proof -
  have p: "w mod 16 = 0" "20 \<le> w" "w \<le> 0x400000" "stack_top sy = kernel_virtual_offset + of_nat w" using assms by (simp_all add: placed_def)
  show "unat (of_nat (w - 16) :: addr) = w - 16" by (rule unat_of_nat32) (use p(3) in simp)
  show "stack_top sy - 16 = kernel_virtual_offset + of_nat (w - 16)" using p(2) by (simp add: p(4) of_nat_diff)
  show "(w - 16) mod 16 = 0" using p(1,2) by (simp add: mod_if [of w])
  show "w - 16 < 0x400000" using p(2,3) by simp
qed

lemma stack_aligned:
  assumes "placed sy a b w"
  shows "unat (stack_top sy - 16) mod 16 = 0"
proof -
  note x = stack_word [OF assms]
  have "unat (stack_top sy - 16) = 0xc000000 * 16 + (w - 16)"
    using unat_add_small [of kernel_virtual_offset "of_nat (w - 16)"] x by simp
  then show ?thesis using shifted(2) [of 16 "0xc000000" "w - 16"] x(3) by simp
qed

lemma exec_seq_append: "exec_seq (xs @ ys) s = Option.bind (exec_seq xs s) (exec_seq ys)"
proof (induction xs arbitrary: s)
  case (Cons i xs)
  then show ?case by (cases "exec_boot i s") simp_all
qed simp

lemma translate_updates [simp]:
  "translate (s\<lparr>cr0 := c\<rparr>) = translate s" "translate (s\<lparr>gdtr := g\<rparr>) = translate s" "translate (s\<lparr>data_segs := d\<rparr>) = translate s"
  "translate (s\<lparr>reg_file := r\<rparr>) = translate s" "translate (s\<lparr>code_entry := e\<rparr>) = translate s"
  by (intro ext; simp add: translate_def Let_def cong: if_cong)+

lemma start_call_run:
  assumes "placed sy a b w" "boot_tables a b t" "\<not> paging_on t"
  obtains u where "exec_seq (start_call sy) t = Some u" "boot_tables a b u" "paging_on u" "interrupt_flag u = interrupt_flag t"
    "code_entry u = (k_code, hlinit_entry sy)" "data_segs u = (\<lambda>_. k_data)" "gdtr u = gdt_ptr sy" "reg_file u ESP = stack_top sy - 20"
    "fetch32 u (stack_top sy - 16) = Some (reg_file t EBX)"
proof -
  have p: "a < 1024" "b < 1024" "w mod 16 = 0" "20 \<le> w" "w \<le> 0x400000" "(w - 16) div 4096 \<noteq> a" "(w - 16) div 4096 \<noteq> b"
    "stack_top sy = kernel_virtual_offset + of_nat w" using assms(1) by (simp_all add: placed_def)
  let ?x = "of_nat (w - 16) :: addr"
  let ?m = "wr32 (phys t) ?x (reg_file t EBX)"
  note x = stack_word(1) [OF assms(1)] and top = stack_word(2) [OF assms(1)]
  have al: "unat ?x mod 4 = 0" unfolding x using stack_word(3) [OF assms(1)] mod_mod_cancel [of 4 16 "w - 16"] by simp
  have ne: "entry_addr q j \<noteq> ?x" if "q < 1024" "j < 1024" "(w - 16) div 4096 \<noteq> q" for q j
  proof
    assume "entry_addr q j = ?x"
    then have "4096 * q + 4 * j = w - 16" using unat_entry [OF that(1,2)] x by metis
    then have "w - 16 = q * 4096 + 4 * j" by simp
    then show False using shifted(1) [of 4096 q "4 * j"] that by simp
  qed
  have keep: "rd32 ?m (entry_addr q j) = rd32 (phys t) (entry_addr q j)" if "q < 1024" "j < 1024" "(w - 16) div 4096 \<noteq> q" for q j
    using rd32_wr32_aligned [OF entry_aligned [OF that(1,2)] al] ne [OF that] by simp
  have tr: "translate s (stack_top sy - 16) = Some ?x" if "boot_tables a b s" for s
    unfolding top by (rule translate_low(2) [OF that p(1,2) stack_word(4) [OF assms(1)]])
  let ?c = "cr0 t OR 0x80000000"
  have c: "bit ?c 31" by (simp add: bit_simps)
  let ?r = "(reg_file t)(EAX := (?c AND 0xffff0000) OR ucast k_data, ESP := stack_top sy, EBP := stack_top sy, ESP := stack_top sy - 20)"
  let ?u = "t\<lparr>cr0 := ?c, gdtr := gdt_ptr sy, data_segs := (\<lambda>_. k_data), reg_file := ?r, phys := ?m, code_entry := (k_code, hlinit_entry sy)\<rparr>"
  have segs: "(data_segs t)(SS := k_data, DS := k_data, ES := k_data, FS := k_data, GS := k_data) = (\<lambda>_. k_data)"
  proof
    show "((data_segs t)(SS := k_data, DS := k_data, ES := k_data, FS := k_data, GS := k_data)) g = k_data" for g by (cases g) simp_all
  qed
  let ?t1 = "t\<lparr>cr0 := ?c, gdtr := gdt_ptr sy, reg_file := (reg_file t)(EAX := (?c AND 0xffff0000) OR ucast k_data)\<rparr>"
  let ?t2 = "?t1\<lparr>data_segs := (\<lambda>_. k_data)\<rparr>"
  let ?t3 = "?t2\<lparr>reg_file := (reg_file ?t2)(ESP := stack_top sy, EBP := stack_top sy, ESP := stack_top sy - 12)\<rparr>"
  have paging: "exec_seq (take 5 (start_call sy)) t = Some ?t1" by (simp add: start_call_def)
  have selectors: "exec_seq (take 5 (drop 5 (start_call sy))) ?t1 = Some ?t2" by (simp add: start_call_def set_ax segs)
  have stack: "exec_seq (take 3 (drop 10 (start_call sy))) ?t2 = Some ?t3" by (simp add: start_call_def)
  have push: "store (stack_top sy - 16) v ?t3 = Some (?t3\<lparr>phys := wr32 (phys t) ?x v\<rparr>)" for v
    using c by (simp add: store_def paging_on_def tr [OF assms(2)])
  have argument: "exec_seq (drop 13 (start_call sy)) ?t3 = Some ?u" by (simp add: start_call_def Let_def push [simplified])
  have parts: "start_call sy = take 5 (start_call sy) @ take 5 (drop 5 (start_call sy)) @ take 3 (drop 10 (start_call sy)) @ drop 13 (start_call sy)"
    by (simp add: start_call_def)
  have "exec_seq (start_call sy) t = Some ?u"
    by (subst parts) (simp only: exec_seq_append paging selectors stack argument bind.bind_lunit)
  moreover have tab: "boot_tables a b ?u" using assms(2) p(1,2,6,7) keep by (simp add: boot_tables_def)
  moreover have "fetch32 ?u (stack_top sy - 16) = Some (reg_file t EBX)" using tr [OF tab] by (simp add: fetch32_def)
  ultimately show ?thesis using c by (intro that [of ?u]) (simp_all add: paging_on_def)
qed

text \<open>
  C9. The page tables a kernel starts on: whatever the loader left in the registers, \<open>_start\<close> enters \<open>hlinit\<close> with
  interrupts off and paging on, the first 4 MiB of memory at both their own addresses and at \<open>0xc0000000\<close>, the entries
  behind \<open>0xffc00000\<close> those \<open>boot_ptes\<close> gives the page allocator, kernel segments over all of memory, and the loader's information
  pointer as the argument, on a stack aligned to 16.
\<close>

theorem boot0_builds_tables:
  assumes "placed sy a b w" "\<not> paging_on s" "\<forall>j<1024. rd32 (phys s) (entry_addr a j) = 0"
  shows "\<exists>u. start sy s = Some u \<and> code_entry u = (k_code, hlinit_entry sy) \<and> gdtr u = gdt_ptr sy
    \<and> gdt_segment gdt k_code = Some (0, 0xffffffff, 0, True)
    \<and> (\<forall>r. gdt_segment gdt (data_segs u r) = Some (0, 0xffffffff, 0, False))
    \<and> paging_on u \<and> \<not> interrupt_flag u
    \<and> (\<forall>x<0x400000. translate u (of_nat x) = Some (of_nat x) \<and> translate u (kernel_virtual_offset + of_nat x) = Some (of_nat x))
    \<and> (\<forall>i<0x100000. recursive_entry u i = boot_ptes (initpd sy - kernel_virtual_offset) (initpt sy - kernel_virtual_offset) i)
    \<and> fetch32 u (reg_file u ESP + 4) = Some (reg_file s EBX) \<and> unat (reg_file u ESP + 4) mod 16 = 0"
proof -
  have p: "a < 1024" "b < 1024" "initpd sy - kernel_virtual_offset = entry_addr a 0" "initpt sy - kernel_virtual_offset = entry_addr b 0"
    using assms(1) by (simp_all add: placed_def)
  obtain t where t: "Option.bind (exec_seq (start_tables sy) s) fill_table = Some t" "boot_tables a b t" "\<not> paging_on t"
    "reg_file t EBX = reg_file s EBX" "interrupt_flag t = False" using start_fills [OF assms] .
  obtain u where u: "exec_seq (start_call sy) t = Some u" "boot_tables a b u" "paging_on u" "interrupt_flag u = interrupt_flag t"
    "code_entry u = (k_code, hlinit_entry sy)" "data_segs u = (\<lambda>_. k_data)" "gdtr u = gdt_ptr sy" "reg_file u ESP = stack_top sy - 20"
    "fetch32 u (stack_top sy - 16) = Some (reg_file t EBX)" using start_call_run [OF assms(1) t(2,3)] .
  have "start sy s = Some u"
    using t(1) u(1) by (auto simp: start_def bind_eq_Some_conv)
  moreover have "recursive_entry u i = boot_ptes (entry_addr a 0) (entry_addr b 0) i" if "i < 0x100000" for i
    by (rule recursive_view [OF u(2) p(1,2) that])
  ultimately show ?thesis unfolding p(3,4)
    using u t(4,5) translate_low [OF u(2) p(1,2)] stack_aligned [OF assms(1)] gdt_flat(1,2) by auto
qed

text \<open>The directory and the table at \<open>0x108000\<close> and \<open>0x109000\<close>, a stack that ends at \<open>0x10c000\<close>, and the loader's registers.\<close>

definition example_symbols :: boot_symbols where
  "example_symbols = \<lparr>initpd = 0xc0108000, initpt = 0xc0109000, stack_top = 0xc010c000, gdt_ptr = 0xc0105060, hlinit_entry = 0xc0100100\<rparr>"

definition example_cpu :: boot_cpu where
  "example_cpu = \<lparr>reg_file = (\<lambda>_. 0)(EAX := 0x36d76289, EBX := 0x10000), cr0 = 0x11, cr3 = 0, phys = (\<lambda>_. 0),
     interrupt_flag = True, gdtr = 0, data_segs = (\<lambda>_. 0), code_entry = (0, 0)\<rparr>"

theorem boot0_builds_tables_witness:
  "\<exists>u. start example_symbols example_cpu = Some u \<and> code_entry u = (8, 0xc0100100) \<and> paging_on u \<and> \<not> interrupt_flag u
    \<and> translate u 0xc0100100 = Some 0x100100 \<and> recursive_entry u 0xc0100 = 0x100003
    \<and> fetch32 u (reg_file u ESP + 4) = Some 0x10000"
proof -
  have "placed example_symbols 0x108 0x109 0x10c000" by (simp add: placed_def example_symbols_def entry_addr_def)
  moreover have "\<not> paging_on example_cpu" by (simp add: paging_on_def example_cpu_def)
  moreover have "\<forall>j<1024. rd32 (phys example_cpu) (entry_addr 0x108 j) = 0" by (simp add: example_cpu_def rd32_def rd16_def)
  ultimately obtain u where u: "start example_symbols example_cpu = Some u" "code_entry u = (k_code, hlinit_entry example_symbols)"
    "paging_on u" "\<not> interrupt_flag u" "\<forall>x<0x400000. translate u (of_nat x) = Some (of_nat x) \<and> translate u (0xc0000000 + of_nat x) = Some (of_nat x)"
    "\<forall>i<0x100000. recursive_entry u i = boot_ptes (initpd example_symbols - 0xc0000000) (initpt example_symbols - 0xc0000000) i"
    "fetch32 u (reg_file u ESP + 4) = Some (reg_file example_cpu EBX)"
    using boot0_builds_tables [of example_symbols "0x108" "0x109" "0x10c000" example_cpu] by auto
  have "translate u 0xc0100100 = Some 0x100100" using u(5) [rule_format, of "0x100100"] by simp
  moreover have "recursive_entry u 0xc0100 = 0x100003" using u(6) [rule_format, of "0xc0100"] by (simp add: boot_ptes_def)
  ultimately show ?thesis using u(1,2,3,4,7) by (intro exI [of _ u]) (simp add: k_code_def example_symbols_def example_cpu_def)
qed

end
